(* ===== verification/Prelude.thy ===== *)
theory Prelude
  imports Main "HOL-Library.Word" "HOL-Library.List_Lexorder" "HOL-Library.Char_ord"
begin

text \<open>
  Shared vocabulary of the development: the machine types of the C++ sources, ordered maps
  (\<^verbatim>\<open>std::map\<close>), results (\<^verbatim>\<open>std::expected\<close>), and the list and word lemmas that several
  components use.

  A \<^verbatim>\<open>std::map\<close> is the sequence of its entries in key order, so it is modelled by an
  association list whose keys increase strictly (\<open>om_ok\<close>). Iteration is the list itself,
  \<open>map_of\<close> is \<^verbatim>\<open>find\<close>, and the three mutators of the sources are \<open>om_assign\<close>
  (\<^verbatim>\<open>insert_or_assign\<close>, \<^verbatim>\<open>operator[] =\<close>), \<open>om_emplace\<close> (\<^verbatim>\<open>emplace\<close>, which refuses a
  duplicate) and \<open>om_erase\<close>. Keys are compared by \<open><\<close>: on \<open>string\<close> this is the
  lexicographic order on unsigned bytes that \<^verbatim>\<open>std::less<std::string>\<close> uses, on words the
  unsigned order.
\<close>

section \<open>Names of the machine types\<close>

type_synonym u8 = "8 word"
type_synonym u16 = "16 word"
type_synonym u32 = "32 word"
type_synonym u64 = "64 word"
type_synonym ('k, 'v) omap = "('k \<times> 'v) list"
type_synonym ('e, 'a) result = "'e + 'a"

named_theorems omap_simps \<open>what a lookup returns after an update of an ordered map\<close>
named_theorems omap_intros \<open>the operations that keep an ordered map well formed\<close>

section \<open>Lists sorted by a strictly increasing key\<close>

definition ssorted_by :: "('a \<Rightarrow> 'k::linorder) \<Rightarrow> 'a list \<Rightarrow> bool" where
  "ssorted_by f xs \<longleftrightarrow> sorted_wrt (<) (map f xs)"

lemma ssorted_by_Nil [simp]: "ssorted_by f []"
  by (simp add: ssorted_by_def)

lemma ssorted_by_Cons [simp]:
  "ssorted_by f (x # xs) \<longleftrightarrow> (\<forall>y \<in> set xs. f x < f y) \<and> ssorted_by f xs"
  by (auto simp: ssorted_by_def)

lemma ssorted_by_append:
  "ssorted_by f (xs @ ys) \<longleftrightarrow>
     ssorted_by f xs \<and> ssorted_by f ys \<and> (\<forall>x \<in> set xs. \<forall>y \<in> set ys. f x < f y)"
  by (auto simp: ssorted_by_def sorted_wrt_append)

lemma ssorted_by_filter: "ssorted_by f xs \<Longrightarrow> ssorted_by f (filter P xs)"
  by (induction xs) auto

lemma ssorted_by_distinct: "ssorted_by f xs \<Longrightarrow> distinct xs"
  by (metis ssorted_by_def strict_sorted_iff distinct_map)

lemma ssorted_by_inj: "ssorted_by f xs \<Longrightarrow> inj_on f (set xs)"
  by (simp add: ssorted_by_def strict_sorted_iff distinct_map)

lemma ssorted_by_eqI:
  assumes "ssorted_by f xs" and "ssorted_by f ys" and "set xs = set ys"
  shows "xs = ys"
  using assms
proof (induction xs arbitrary: ys)
  case (Cons x xs)
  then obtain y ys' where ys: "ys = y # ys'"
    by (cases ys) auto
  have "x = y"
  proof (rule ccontr)
    assume "x \<noteq> y"
    with Cons.prems(3) have "x \<in> set ys'" and "y \<in> set xs"
      by (auto simp: ys)
    with Cons.prems(1,2) show False
      by (auto simp: ys dest: order_less_asym)
  qed
  moreover have "set xs = set ys'"
    using Cons.prems ssorted_by_distinct [OF Cons.prems(1)] ssorted_by_distinct [OF Cons.prems(2)]
    by (auto simp: ys \<open>x = y\<close> insert_ident)
  ultimately show ?case
    using Cons.prems Cons.IH [of ys'] by (simp add: ys)
qed simp

lemma ssorted_by_sort_key:
  "inj_on f (set xs) \<Longrightarrow> distinct xs \<Longrightarrow> ssorted_by f (sort_key f xs)"
  by (simp add: ssorted_by_def strict_sorted_iff distinct_map)

section \<open>Ordered maps\<close>

definition om_ok :: "('k::linorder, 'v) omap \<Rightarrow> bool" where
  "om_ok m \<longleftrightarrow> sorted_wrt (<) (map fst m)"

fun om_assign :: "'k::linorder \<Rightarrow> 'v \<Rightarrow> ('k, 'v) omap \<Rightarrow> ('k, 'v) omap" where
  "om_assign k v [] = [(k, v)]"
| "om_assign k v (e # m) =
     (if k < fst e then (k, v) # e # m
      else if k = fst e then (k, v) # m
      else e # om_assign k v m)"

definition om_erase :: "'k \<Rightarrow> ('k, 'v) omap \<Rightarrow> ('k, 'v) omap" where
  "om_erase k m = filter (\<lambda>e. fst e \<noteq> k) m"

definition om_emplace :: "'k::linorder \<Rightarrow> 'v \<Rightarrow> ('k, 'v) omap \<Rightarrow> ('k, 'v) omap \<times> bool" where
  "om_emplace k v m = (case map_of m k of None \<Rightarrow> (om_assign k v m, True) | Some _ \<Rightarrow> (m, False))"

definition om_contains :: "('k, 'v) omap \<Rightarrow> 'k \<Rightarrow> bool" where
  "om_contains m k \<longleftrightarrow> map_of m k \<noteq> None"

text \<open>\<^verbatim>\<open>m[k]\<close> default-constructs a missing entry; \<open>om_get\<close> is what it then reads.\<close>

definition om_get :: "'v \<Rightarrow> ('k, 'v) omap \<Rightarrow> 'k \<Rightarrow> 'v" where
  "om_get d m k = (case map_of m k of None \<Rightarrow> d | Some v \<Rightarrow> v)"

lemma om_ok_Nil [simp, omap_intros]: "om_ok []"
  by (simp add: om_ok_def)

lemma om_ok_Cons [simp]: "om_ok (e # m) \<longleftrightarrow> (\<forall>x \<in> set m. fst e < fst x) \<and> om_ok m"
  by (auto simp: om_ok_def)

lemma om_ok_distinct: "om_ok m \<Longrightarrow> distinct (map fst m)"
  by (simp add: om_ok_def strict_sorted_iff)

lemma om_ok_sorted: "om_ok m \<Longrightarrow> sorted (map fst m)"
  by (simp add: om_ok_def strict_sorted_iff)

lemma om_ok_filter [omap_intros]: "om_ok m \<Longrightarrow> om_ok (filter P m)"
  by (induction m) auto

lemma set_om_assign_subset: "set (om_assign k v m) \<subseteq> insert (k, v) (set m)"
  by (induction m) auto

lemma om_ok_assign [omap_intros]: "om_ok m \<Longrightarrow> om_ok (om_assign k v m)"
proof (induction m)
  case (Cons e m)
  then show ?case
    using set_om_assign_subset [of k v m] by (auto intro: less_trans)
qed simp

lemma om_ok_erase [omap_intros]: "om_ok m \<Longrightarrow> om_ok (om_erase k m)"
  by (simp add: om_erase_def om_ok_filter)

lemma om_ok_emplace [omap_intros]: "om_ok m \<Longrightarrow> om_ok (fst (om_emplace k v m))"
  by (auto simp: om_emplace_def om_ok_assign split: option.splits)

lemma map_of_om_assign [simp, omap_simps]: "map_of (om_assign k v m) = (map_of m)(k \<mapsto> v)"
  by (induction m) (auto simp: fun_eq_iff)

lemma map_of_om_erase [simp, omap_simps]: "map_of (om_erase k m) = (map_of m)(k := None)"
  by (induction m) (auto simp: om_erase_def fun_eq_iff)

lemma om_ok_map_of: "om_ok m \<Longrightarrow> (k, v) \<in> set m \<longleftrightarrow> map_of m k = Some v"
  by (simp add: om_ok_distinct)

lemma keys_om_assign [simp]: "fst ` set (om_assign k v m) = insert k (fst ` set m)"
  by (metis dom_fun_upd dom_map_of_conv_image_fst map_of_om_assign option.distinct(1))

lemma om_assign_not_Nil [simp]: "om_assign k v m \<noteq> []"
  by (cases m) auto

lemma om_assign_length:
  "om_ok m \<Longrightarrow>
    length (om_assign k v m) = (if map_of m k = None then Suc (length m) else length m)"
proof (induction m)
  case (Cons e m)
  show ?case
  proof (cases "k < fst e")
    case True
    have "map_of (e # m) k = None"
      using Cons.prems True by (auto simp: map_of_eq_None_iff)
    with True show ?thesis by simp
  qed (use Cons in auto)
qed simp

text \<open>Two ordered maps with the same lookups are the same sequence.\<close>

lemma om_ext:
  assumes "om_ok m" and "om_ok m'" and "\<And>k. map_of m k = map_of m' k"
  shows "m = m'"
proof (rule ssorted_by_eqI)
  show "ssorted_by fst m" and "ssorted_by fst m'"
    using assms(1,2) by (simp_all add: om_ok_def ssorted_by_def)
  show "set m = set m'"
    using assms by (auto simp: om_ok_map_of)
qed

lemma om_erase_idle: "map_of m k = None \<Longrightarrow> om_erase k m = m"
  by (auto simp: om_erase_def map_of_eq_None_iff intro!: filter_True)

lemma om_assign_append:
  "(\<And>x. x \<in> set m \<Longrightarrow> fst x < k) \<Longrightarrow> om_assign k v m = m @ [(k, v)]"
  by (induction m) (auto dest: order_less_not_sym)

lemma om_emplace_append:
  assumes "\<forall>x \<in> set m. fst x < k"
  shows "om_emplace k v m = (m @ [(k, v)], True)"
proof -
  have "map_of m k = None" using assms by (auto simp: map_of_eq_None_iff)
  moreover have "om_assign k v m = m @ [(k, v)]" using assms by (intro om_assign_append) simp
  ultimately show ?thesis by (simp add: om_emplace_def)
qed

text \<open>
  A loop over distinct keys whose rounds change only their own key, and a sum over the entries
  of a map after an update.
\<close>

lemma map_of_fold_local:
  assumes "\<And>k v m j. map_of (upd (k, v) m) j = (if j = k then h k v (map_of m k) else map_of m j)"
    and "distinct (map fst xs)"
  shows "map_of (fold upd xs m) j =
    (case map_of xs j of None \<Rightarrow> map_of m j | Some v \<Rightarrow> h j v (map_of m j))"
  using assms(2)
proof (induction xs arbitrary: m)
  case (Cons e xs)
  obtain k v where e: "e = (k, v)" by fastforce
  have "map_of xs k = None"
    using Cons.prems by (simp add: e map_of_eq_None_iff)
  with Cons show ?case
    by (auto simp: e assms(1) split: option.splits)
qed simp

lemma fold_keeps: "P m \<Longrightarrow> (\<And>x m. P m \<Longrightarrow> P (upd x m)) \<Longrightarrow> P (fold upd xs m)"
  by (induction xs arbitrary: m) auto

lemma sum_om_erase:
  fixes g :: "'k::linorder \<Rightarrow> 'v \<Rightarrow> nat"
  assumes "om_ok m"
  shows "(\<Sum>(j, w)\<leftarrow>m. g j w) =
    (\<Sum>(j, w)\<leftarrow>om_erase k m. g j w) + (case map_of m k of None \<Rightarrow> 0 | Some w \<Rightarrow> g k w)"
  using assms
proof (induction m)
  case (Cons e m)
  have "fst e = k \<Longrightarrow> map_of m k = None"
    using Cons.prems by (auto simp: map_of_eq_None_iff)
  with Cons show ?case by (auto simp: om_erase_def case_prod_beta)
qed (simp add: om_erase_def)

lemma sum_om_assign:
  fixes g :: "'k::linorder \<Rightarrow> 'v \<Rightarrow> nat"
  assumes "om_ok m"
  shows "(\<Sum>(j, w)\<leftarrow>om_assign k v m. g j w) = (\<Sum>(j, w)\<leftarrow>om_erase k m. g j w) + g k v"
  using assms
proof (induction m)
  case (Cons e m)
  have "k \<le> fst e \<Longrightarrow> om_erase k m = m"
    using Cons.prems by (intro om_erase_idle) (auto simp: map_of_eq_None_iff)
  with Cons show ?case by (auto simp: om_erase_def)
qed (simp add: om_erase_def)

lemma map_of_le_sum:
  fixes g :: "'k \<Rightarrow> 'v \<Rightarrow> nat"
  assumes "map_of m k = Some v"
  shows "g k v \<le> (\<Sum>(j, w)\<leftarrow>m. g j w)"
  using map_of_SomeD [OF assms] by (induction m) auto

section \<open>Ordered maps as an interface\<close>

text \<open>
  What every client of \<^verbatim>\<open>std::map\<close> relies on. The laws are the standard container's contract:
  a lookup after a mutation, and iteration in strictly increasing key order.
\<close>

locale ordered_map =
  fixes find :: "'m \<Rightarrow> 'k::linorder \<Rightarrow> 'v option"
    and assign :: "'k \<Rightarrow> 'v \<Rightarrow> 'm \<Rightarrow> 'm"
    and erase :: "'k \<Rightarrow> 'm \<Rightarrow> 'm"
    and entries :: "'m \<Rightarrow> ('k \<times> 'v) list"
    and ok :: "'m \<Rightarrow> bool"
  assumes find_assign: "find (assign k v m) k' = (if k' = k then Some v else find m k')"
    and find_erase: "find (erase k m) k' = (if k' = k then None else find m k')"
    and ok_assign: "ok m \<Longrightarrow> ok (assign k v m)"
    and ok_erase: "ok m \<Longrightarrow> ok (erase k m)"
    and entries_sorted: "ok m \<Longrightarrow> sorted_wrt (<) (map fst (entries m))"
    and entries_find: "ok m \<Longrightarrow> (k, v) \<in> set (entries m) \<longleftrightarrow> find m k = Some v"
begin

lemma assign_commutes:
  "k \<noteq> k' \<Longrightarrow> find (assign k v (assign k' v' m)) j = find (assign k' v' (assign k v m)) j"
  by (simp add: find_assign)

lemma erase_after_assign:
  "find m k = None \<Longrightarrow> find (erase k (assign k v m)) j = find m j"
  by (simp add: find_assign find_erase)

lemma entries_assign:
  "ok m \<Longrightarrow> set (entries (assign k v m)) = insert (k, v) {e \<in> set (entries m). fst e \<noteq> k}"
  by (auto simp: entries_find ok_assign find_assign split: if_splits)

lemma entries_erase: "ok m \<Longrightarrow> set (entries (erase k m)) = {e \<in> set (entries m). fst e \<noteq> k}"
  by (auto simp: entries_find ok_erase find_erase split: if_splits)

end

interpretation om: ordered_map map_of om_assign om_erase "\<lambda>m. m" om_ok
  by unfold_locales (auto simp: om_ok_map_of om_ok_assign om_ok_erase simp flip: om_ok_def)

lemmas om_entry_simps = om.entries_assign om.entries_erase

section \<open>Loops with early return\<close>

text \<open>A range-for whose body may return an error: the state so far, or the first error.\<close>

fun fold_result :: "('a \<Rightarrow> 's \<Rightarrow> ('e, 's) result) \<Rightarrow> 'a list \<Rightarrow> 's \<Rightarrow> ('e, 's) result" where
  "fold_result step [] s = Inr s"
| "fold_result step (x # xs) s =
     (case step x s of Inl e \<Rightarrow> Inl e | Inr s' \<Rightarrow> fold_result step xs s')"

lemma fold_result_all:
  "(\<And>x. x \<in> set xs \<Longrightarrow> step x s = Inr s) \<Longrightarrow> fold_result step xs s = Inr s"
  by (induction xs) auto

lemma fold_result_fold:
  "(\<And>x s. x \<in> set xs \<Longrightarrow> step x s = Inr (upd x s)) \<Longrightarrow> fold_result step xs s = Inr (fold upd xs s)"
  by (induction xs arbitrary: s) auto

text \<open>\<^verbatim>\<open>std::ranges::adjacent_find(v) == v.end()\<close>: no two neighbours are equal.\<close>

fun no_adjacent_equal :: "'a list \<Rightarrow> bool" where
  "no_adjacent_equal (x # y # xs) \<longleftrightarrow> x \<noteq> y \<and> no_adjacent_equal (y # xs)"
| "no_adjacent_equal _ \<longleftrightarrow> True"

lemma no_adjacent_equal_sorted:
  "sorted xs \<and> no_adjacent_equal xs \<longleftrightarrow> sorted_wrt (<) (xs :: 'a::linorder list)"
proof (induction xs rule: no_adjacent_equal.induct)
  case (1 x y xs)
  then show ?case by (auto simp: less_le intro: order_less_imp_le)
qed auto

text \<open>\<^verbatim>\<open>std::ranges::lower_bound\<close> on a sorted range: the range from the iterator it returns.\<close>

definition lower_bound :: "('a \<Rightarrow> 'k::linorder) \<Rightarrow> 'k \<Rightarrow> 'a list \<Rightarrow> 'a list" where
  "lower_bound key k xs = dropWhile (\<lambda>x. key x < k) xs"

lemma lower_bound_found:
  "sorted (map key xs) \<Longrightarrow> x \<in> set xs \<Longrightarrow> \<exists>y ys. lower_bound key (key x) xs = y # ys \<and> key y = key x"
  by (induction xs) (force simp: lower_bound_def not_less order_antisym)+

section \<open>Words\<close>

lemma less_imp_not_max_word: "(x :: 'a::len word) < y \<Longrightarrow> x \<noteq> - 1"
  by (metis word_order.extremum leD)

lemma word_succ_not_zero: "(x :: 'a::len word) \<noteq> - 1 \<Longrightarrow> x + 1 \<noteq> 0"
  by (metis add.commute add_eq_0_iff)

lemma unat_of_nat_small: "n < 2 ^ LENGTH('a) \<Longrightarrow> unat (of_nat n :: 'a::len word) = n"
  by (simp add: unat_of_nat take_bit_nat_eq_self)

lemma word_le_less_succ: "x \<le> y \<Longrightarrow> (y :: 'a::len word) + 1 \<noteq> 0 \<Longrightarrow> x < y + 1"
  using unatSuc [of y] by (simp add: word_le_nat_alt word_less_nat_alt add.commute)

lemma of_nat_zero_iff:
  assumes "n < 2 ^ LENGTH('a)"
  shows "(of_nat n :: 'a::len word) = 0 \<longleftrightarrow> n = 0"
proof -
  have "(of_nat n :: 'a word) = 0 \<longleftrightarrow> unat (of_nat n :: 'a word) = 0"
    by (simp only: unat_eq_zero)
  with unat_of_nat_small [OF assms] show ?thesis by simp
qed

lemma unat_u32_less: "unat (x :: u32) < 2 ^ 32"
  by (rule order_less_le_trans, rule unsigned_less) simp

lemma unat_u64_less: "unat (x :: u64) < 2 ^ 64"
  by (rule order_less_le_trans, rule unsigned_less) simp

end
