(* ===== verification/CLib.thy ===== *)
theory CLib
  imports Prelude
begin

text \<open>
  The part of the C and C++ standard libraries on text that the sources call: the
  \<^verbatim>\<open><cctype>\<close> predicates in the \<^verbatim>\<open>"C"\<close> locale, \<^verbatim>\<open>std::from_chars\<close> and
  \<^verbatim>\<open>std::to_string\<close> on integers. A \<^verbatim>\<open>char\<close> is a byte (\<open>of_char\<close> is its unsigned value).
  \<^verbatim>\<open>from_chars\<close> returns the error code, the number of bytes consumed and the value; as in the
  standard, the value is meaningful only when the code is \<open>Errc_ok\<close>.
\<close>

section \<open>Character classes\<close>

abbreviation byte_of :: "char \<Rightarrow> nat" where
  "byte_of c \<equiv> of_char c"

definition isspace :: "char \<Rightarrow> bool" where
  "isspace c \<longleftrightarrow> (9 \<le> byte_of c \<and> byte_of c \<le> 13) \<or> byte_of c = 32"

definition isdigit :: "char \<Rightarrow> bool" where
  "isdigit c \<longleftrightarrow> 48 \<le> byte_of c \<and> byte_of c \<le> 57"

definition isupper :: "char \<Rightarrow> bool" where
  "isupper c \<longleftrightarrow> 65 \<le> byte_of c \<and> byte_of c \<le> 90"

definition islower :: "char \<Rightarrow> bool" where
  "islower c \<longleftrightarrow> 97 \<le> byte_of c \<and> byte_of c \<le> 122"

definition isalnum :: "char \<Rightarrow> bool" where
  "isalnum c \<longleftrightarrow> isdigit c \<or> isupper c \<or> islower c"

definition tolower :: "char \<Rightarrow> char" where
  "tolower c = (if isupper c then char_of (byte_of c + 32) else c)"

lemmas ctype_defs = isspace_def isdigit_def isupper_def islower_def isalnum_def tolower_def

lemma byte_of_less [simp]: "byte_of c < 256"
  by (rule nat_of_char_less_256)

lemma byte_of_char_of: "n < 256 \<Longrightarrow> byte_of (char_of n) = n"
  by (simp add: of_char_of)

lemma byte_of_tolower:
  "byte_of (tolower c) = (if isupper c then byte_of c + 32 else byte_of c)"
  by (auto simp: tolower_def isupper_def intro!: byte_of_char_of)

lemma tolower_idem [simp]: "tolower (tolower c) = tolower c"
proof -
  have "\<not> isupper (tolower c)"
    using byte_of_tolower [of c] by (auto simp: isupper_def)
  then show ?thesis by (simp add: tolower_def [of "tolower c"])
qed

section \<open>Decimal numbers\<close>

datatype errc = Errc_ok | Errc_invalid_argument | Errc_result_out_of_range

definition digit_value :: "char \<Rightarrow> nat" where
  "digit_value c = byte_of c - 48"

definition digit_char :: "nat \<Rightarrow> char" where
  "digit_char d = char_of (d + 48)"

definition digits_value :: "string \<Rightarrow> nat" where
  "digits_value s = foldl (\<lambda>v c. 10 * v + digit_value c) 0 s"

text \<open>\<^verbatim>\<open>std::from_chars\<close> for an unsigned type with the given maximum.\<close>

definition from_chars_unsigned :: "nat \<Rightarrow> string \<Rightarrow> errc \<times> nat \<times> nat" where
  "from_chars_unsigned maximum s =
     (let ds = takeWhile isdigit s; v = digits_value ds
      in if ds = [] then (Errc_invalid_argument, 0, 0)
         else if v > maximum then (Errc_result_out_of_range, length ds, 0)
         else (Errc_ok, length ds, v))"

text \<open>
  \<^verbatim>\<open>std::from_chars\<close> for a signed type: one optional minus sign, which is part of the
  pattern only when a digit follows it.
\<close>

definition from_chars_signed :: "int \<Rightarrow> int \<Rightarrow> string \<Rightarrow> errc \<times> nat \<times> int" where
  "from_chars_signed lo hi s =
     (let neg = (case s of [] \<Rightarrow> False | c # _ \<Rightarrow> c = CHR ''-'');
          ds = takeWhile isdigit (if neg then tl s else s);
          n = (if neg then Suc (length ds) else length ds);
          v = (if neg then - int (digits_value ds) else int (digits_value ds))
      in if ds = [] then (Errc_invalid_argument, 0, 0)
         else if v < lo \<or> hi < v then (Errc_result_out_of_range, n, 0)
         else (Errc_ok, n, v))"

definition from_chars_u64 :: "string \<Rightarrow> errc \<times> nat \<times> nat" where
  "from_chars_u64 = from_chars_unsigned (2 ^ 64 - 1)"

definition from_chars_i32 :: "string \<Rightarrow> errc \<times> nat \<times> int" where
  "from_chars_i32 = from_chars_signed (- (2 ^ 31)) (2 ^ 31 - 1)"

definition from_chars_i64 :: "string \<Rightarrow> errc \<times> nat \<times> int" where
  "from_chars_i64 = from_chars_signed (- (2 ^ 63)) (2 ^ 63 - 1)"

text \<open>\<^verbatim>\<open>std::to_string\<close>.\<close>

fun to_string_nat :: "nat \<Rightarrow> string" where
  "to_string_nat n =
     (if n < 10 then [digit_char n] else to_string_nat (n div 10) @ [digit_char (n mod 10)])"

declare to_string_nat.simps [simp del]

definition to_string_int :: "int \<Rightarrow> string" where
  "to_string_int i =
     (if i < 0 then CHR ''-'' # to_string_nat (nat (- i)) else to_string_nat (nat i))"

section \<open>Reading back what was printed\<close>

lemma digit_char_props [simp]:
  assumes "d < 10"
  shows "isdigit (digit_char d)" and "digit_value (digit_char d) = d"
  using assms by (simp_all add: isdigit_def digit_value_def digit_char_def of_char_of)

lemma isdigit_not_minus [simp]: "\<not> isdigit (CHR ''-'')"
  by (simp add: isdigit_def)

lemma digits_value_snoc [simp]: "digits_value (s @ [c]) = 10 * digits_value s + digit_value c"
  by (simp add: digits_value_def)

lemma digits_value_Nil [simp]: "digits_value [] = 0"
  by (simp add: digits_value_def)

lemma to_string_nat_digits: "\<forall>c \<in> set (to_string_nat n). isdigit c"
proof (induction n rule: to_string_nat.induct)
  case (1 n)
  then show ?case
    by (cases "n < 10") (auto simp: to_string_nat.simps [of n])
qed

lemma digits_value_to_string_nat [simp]: "digits_value (to_string_nat n) = n"
proof (induction n rule: to_string_nat.induct)
  case (1 n)
  have single: "digits_value [digit_char n] = n" if "n < 10"
    using digits_value_snoc [of "[]" "digit_char n"] that by simp
  show ?case
    by (cases "n < 10") (use 1 single in \<open>auto simp: to_string_nat.simps [of n]\<close>)
qed

lemma to_string_nat_not_Nil [simp]: "to_string_nat n \<noteq> []"
  by (simp add: to_string_nat.simps [of n])

lemma to_string_nat_inj: "to_string_nat a = to_string_nat b \<longleftrightarrow> a = b"
  by (metis digits_value_to_string_nat)

lemma takeWhile_to_string_nat [simp]:
  "(\<And>c. r = c # tl r \<Longrightarrow> \<not> isdigit c) \<Longrightarrow> takeWhile isdigit (to_string_nat n @ r) = to_string_nat n"
  using to_string_nat_digits [of n]
  by (cases r) (auto simp: takeWhile_append2)

lemma takeWhile_to_string_nat_Nil [simp]:
  "takeWhile isdigit (to_string_nat n) = to_string_nat n"
  using to_string_nat_digits [of n] by (simp add: takeWhile_eq_all_conv)

lemma from_chars_unsigned_to_string:
  "n \<le> maximum \<Longrightarrow>
    from_chars_unsigned maximum (to_string_nat n) = (Errc_ok, length (to_string_nat n), n)"
  by (simp add: from_chars_unsigned_def)

lemma to_string_nat_hd: "to_string_nat n \<noteq> CHR ''-'' # s"
  using to_string_nat_digits [of n] by (auto dest: sym)

lemma from_chars_signed_to_string:
  assumes "lo \<le> i" and "i \<le> hi"
  shows "from_chars_signed lo hi (to_string_int i) = (Errc_ok, length (to_string_int i), i)"
proof (cases "i < 0")
  case True
  then show ?thesis
    using assms by (simp add: from_chars_signed_def to_string_int_def)
next
  case False
  have "(case to_string_nat (nat i) of [] \<Rightarrow> False | c # _ \<Rightarrow> c = CHR ''-'') = False"
    using to_string_nat_hd [of "nat i"] by (auto split: list.splits)
  then show ?thesis
    using False assms by (simp add: from_chars_signed_def to_string_int_def)
qed

lemma from_chars_consumed:
  "fst (snd (from_chars_unsigned maximum s)) \<le> length s"
  by (simp add: from_chars_unsigned_def Let_def length_takeWhile_le)

end
