(* ===== verification/Analysis.thy ===== *)
theory Analysis
  imports CLib
begin

text \<open>
  Text analysis: \<^verbatim>\<open>src/analysis/analyzer.cpp\<close> and its header. An analyzer turns a text into
  tokens with a position and byte offsets, or throws. The class hierarchy is a datatype with
  the two classes of the sources and a third constructor for a class of the client's own:
  \<^verbatim>\<open>Analyzer\<close> is an interface, and the index catches what a client's analyzer throws.

  The theory shows what the standard analyzer's scanning loop computes (\<open>runs\<close>: the maximal
  runs of token bytes), that neither offsets nor positions wrap around in a returned token,
  and that both analyzers of the sources satisfy the contract \<open>token_stream\<close> on which
  the index relies.
\<close>

section \<open>Tokens and analyzers\<close>

record token =
  tok_term :: string
  tok_position :: u32
  tok_start_offset :: u32
  tok_end_offset :: u32

text \<open>A result \<open>Inl what\<close> is a thrown exception with that message.\<close>

type_synonym analysis_result = "(string, token list) result"

datatype analyzer =
    StandardAnalyzer "string list"
  | KeywordAnalyzer
  | CustomAnalyzer "string \<Rightarrow> analysis_result" string

definition checked_offset :: "nat \<Rightarrow> (string, u32) result" where
  "checked_offset value =
     (if value > 2 ^ 32 - 1 then Inl ''analyzer input exceeds uint32 offset range''
      else Inr (of_nat value))"

definition ascii_lower :: "string \<Rightarrow> string" where
  "ascii_lower value = map (\<lambda>ch. if byte_of ch < 0x80 then tolower ch else ch) value"

definition is_token_byte :: "char \<Rightarrow> bool" where
  "is_token_byte byte \<longleftrightarrow> 0x80 \<le> byte_of byte \<or> isalnum byte"

text \<open>
  The constructor of \<^verbatim>\<open>StandardAnalyzer\<close> stores the stop words in lower case in a
  \<^verbatim>\<open>std::set\<close>: sorted and without duplicates.
\<close>

definition standard_analyzer :: "string list \<Rightarrow> analyzer" where
  "standard_analyzer stop_words = StandardAnalyzer (sort (remdups (map ascii_lower stop_words)))"

section \<open>The standard analyzer's loop\<close>

lemma length_after_run:
  assumes "takeWhile P (dropWhile Q xs) \<noteq> []"
  shows "length (dropWhile P (dropWhile Q xs)) < length xs"
proof -
  have "length (takeWhile P (dropWhile Q xs)) + length (dropWhile P (dropWhile Q xs)) =
      length (dropWhile Q xs)"
    by (metis length_append takeWhile_dropWhile_id)
  moreover have "0 < length (takeWhile P (dropWhile Q xs))"
    using assms by blast
  ultimately show ?thesis
    using length_dropWhile_le [of Q xs] by linarith
qed

text \<open>
  One round of the outer \<^verbatim>\<open>while\<close>: skip the bytes that are not token bytes, take the run of
  token bytes, push a token unless it is a stop word. \<open>rest\<close> is the text from \<open>cursor\<close> on.
\<close>

function standard_loop ::
  "string list \<Rightarrow> string \<Rightarrow> nat \<Rightarrow> u32 \<Rightarrow> token list \<Rightarrow> analysis_result" where
  "standard_loop stop_words rest cursor position tokens =
     (if rest = [] then Inr tokens
      else let skipped = takeWhile (\<lambda>b. \<not> is_token_byte b) rest;
               from_start = dropWhile (\<lambda>b. \<not> is_token_byte b) rest;
               start = cursor + length skipped;
               run = takeWhile is_token_byte from_start;
               after = dropWhile is_token_byte from_start;
               cursor' = start + length run
           in if run = [] then Inr tokens
              else let trm = ascii_lower run;
                       current_position = position;
                       position' = position + 1
                   in if trm \<notin> set stop_words
                      then (case checked_offset start of
                              Inl e \<Rightarrow> Inl e
                            | Inr s \<Rightarrow> (case checked_offset cursor' of
                                Inl e \<Rightarrow> Inl e
                              | Inr e \<Rightarrow> standard_loop stop_words after cursor' position'
                                  (tokens @ [\<lparr>tok_term = trm, tok_position = current_position,
                                              tok_start_offset = s, tok_end_offset = e\<rparr>])))
                      else standard_loop stop_words after cursor' position' tokens)"
  by pat_completeness auto

termination
  by (relation "measure (\<lambda>(stop_words, rest, cursor, position, tokens). length rest)")
    (auto intro: length_after_run)

definition standard_analyze :: "string list \<Rightarrow> string \<Rightarrow> analysis_result" where
  "standard_analyze stop_words text = standard_loop stop_words text 0 0 []"

definition keyword_analyze :: "string \<Rightarrow> analysis_result" where
  "keyword_analyze text =
     (if text = [] then Inr []
      else case checked_offset (length text) of
             Inl e \<Rightarrow> Inl e
           | Inr e \<Rightarrow> Inr [\<lparr>tok_term = text, tok_position = 0, tok_start_offset = 0,
                            tok_end_offset = e\<rparr>])"

fun analyze :: "analyzer \<Rightarrow> string \<Rightarrow> analysis_result" where
  "analyze (StandardAnalyzer stop_words) text = standard_analyze stop_words text"
| "analyze KeywordAnalyzer text = keyword_analyze text"
| "analyze (CustomAnalyzer f d) text = f text"

fun descriptor :: "analyzer \<Rightarrow> string" where
  "descriptor (StandardAnalyzer stop_words) =
     ''standard-v1:'' @ to_string_nat (length stop_words) @ '':'' @
     concat (map (\<lambda>word. to_string_nat (length word) @ '':'' @ word) stop_words)"
| "descriptor KeywordAnalyzer = ''keyword-v1''"
| "descriptor (CustomAnalyzer f d) = d"

declare standard_loop.simps [simp del]

section \<open>What the loop computes\<close>

text \<open>The maximal runs of token bytes of a text, each with its start.\<close>

function runs :: "nat \<Rightarrow> string \<Rightarrow> (nat \<times> string) list" where
  "runs c t =
     (let u = dropWhile (\<lambda>b. \<not> is_token_byte b) t;
          s = c + length (takeWhile (\<lambda>b. \<not> is_token_byte b) t);
          w = takeWhile is_token_byte u
      in if w = [] then [] else (s, w) # runs (s + length w) (dropWhile is_token_byte u))"
  by pat_completeness auto
termination
  by (relation "measure (\<lambda>(c, t). length t)") (auto intro: length_after_run)

declare runs.simps [simp del]

fun run_tokens :: "string list \<Rightarrow> nat \<Rightarrow> (nat \<times> string) list \<Rightarrow> token list" where
  "run_tokens stops n [] = []"
| "run_tokens stops n ((s, w) # rs) =
     (if ascii_lower w \<in> set stops then run_tokens stops (Suc n) rs
      else \<lparr>tok_term = ascii_lower w, tok_position = of_nat n, tok_start_offset = of_nat s,
            tok_end_offset = of_nat (s + length w)\<rparr> # run_tokens stops (Suc n) rs)"

definition too_far :: "string list \<Rightarrow> (nat \<times> string) list \<Rightarrow> bool" where
  "too_far stops rs \<longleftrightarrow>
     (\<exists>r \<in> set rs. ascii_lower (snd r) \<notin> set stops \<and> 2 ^ 32 - 1 < fst r + length (snd r))"

lemma too_far_simps [simp]:
  "\<not> too_far stops []"
  "too_far stops (r # rs) \<longleftrightarrow>
     ascii_lower (snd r) \<notin> set stops \<and> 2 ^ 32 - 1 < fst r + length (snd r) \<or> too_far stops rs"
  by (auto simp: too_far_def)

lemma standard_loop_runs:
  "standard_loop stops rest c (of_nat n) toks =
     (if too_far stops (runs c rest) then Inl ''analyzer input exceeds uint32 offset range''
      else Inr (toks @ run_tokens stops n (runs c rest)))"
proof (induction c rest arbitrary: n toks rule: runs.induct)
  case (1 c rest)
  let ?u = "dropWhile (\<lambda>b. \<not> is_token_byte b) rest"
  let ?s = "c + length (takeWhile (\<lambda>b. \<not> is_token_byte b) rest)"
  let ?w = "takeWhile is_token_byte ?u"
  have pos: "(of_nat n :: u32) + 1 = of_nat (Suc n)"
    by simp
  show ?case
  proof (cases "?w = []")
    case True
    then show ?thesis
      by (simp add: standard_loop.simps [of stops rest] runs.simps [of c rest] Let_def)
  next
    case False
    then have "rest \<noteq> []" by auto
    note IH = "1.IH" [OF refl refl refl False, of "Suc n"]
    show ?thesis
      using False \<open>rest \<noteq> []\<close>
      by (auto simp: standard_loop.simps [of stops rest] runs.simps [of c rest] Let_def IH pos
          checked_offset_def simp del: of_nat_Suc of_nat_add)
  qed
qed

lemma runs_split:
  fixes t :: string
  obtains k v r where "t = k @ v @ r" and "\<forall>x \<in> set k. \<not> is_token_byte x"
    and "\<forall>x \<in> set v. is_token_byte x" and "r \<noteq> [] \<Longrightarrow> \<not> is_token_byte (hd r)"
    and "v = [] \<Longrightarrow> r = []"
    and "\<And>c. runs c t = (if v = [] then [] else (c + length k, v) # runs (c + length k + length v) r)"
proof -
  let ?k = "takeWhile (\<lambda>b. \<not> is_token_byte b) t"
  let ?u = "dropWhile (\<lambda>b. \<not> is_token_byte b) t"
  let ?v = "takeWhile is_token_byte ?u"
  let ?r = "dropWhile is_token_byte ?u"
  show thesis
  proof (rule that [of ?k ?v ?r])
    show "?r = []" if "?v = []"
    proof -
      have "?u = []"
        using that hd_dropWhile [of "\<lambda>b. \<not> is_token_byte b" t] by (cases ?u) fastforce+
      then show ?thesis by (simp only: dropWhile.simps)
    qed
    show "\<not> is_token_byte (hd ?r)" if "?r \<noteq> []"
      using that by (rule hd_dropWhile)
    show "runs c t = (if ?v = [] then [] else (c + length ?k, ?v) # runs (c + length ?k + length ?v) ?r)"
      for c by (simp add: runs.simps [of c t] Let_def)
    show "\<forall>x \<in> set ?k. \<not> is_token_byte x" and "\<forall>x \<in> set ?v. is_token_byte x"
      by (metis set_takeWhileD)+
  qed simp
qed

lemma runs_slice:
  "(s, w) \<in> set (runs c t) \<Longrightarrow>
    c \<le> s \<and> w \<noteq> [] \<and> (\<forall>b \<in> set w. is_token_byte b) \<and>
    take (length w) (drop (s - c) t) = w \<and> s - c + length w \<le> length t"
proof (induction "length t" arbitrary: c t rule: less_induct)
  case less
  obtain k v r where kvr: "t = k @ v @ r" "\<forall>x \<in> set v. is_token_byte x"
    and rs: "\<And>c. runs c t = (if v = [] then [] else (c + length k, v) # runs (c + length k + length v) r)"
    using runs_split [of t] by metis
  with less.prems have ne: "v \<noteq> []" by (auto split: if_splits)
  consider "s = c + length k" "w = v" | "(s, w) \<in> set (runs (c + length k + length v) r)"
    using less.prems rs ne by auto
  then show ?case
  proof cases
    case 1
    then show ?thesis using ne by (simp add: kvr)
  next
    case 2
    have h: "c + length k + length v \<le> s \<and> w \<noteq> [] \<and> (\<forall>b \<in> set w. is_token_byte b) \<and>
        take (length w) (drop (s - (c + length k + length v)) r) = w \<and>
        s - (c + length k + length v) + length w \<le> length r"
      using less.hyps [OF _ 2] ne unfolding kvr(1) by auto
    then obtain j where j: "s = c + length k + length v + j"
      using le_Suc_ex by blast
    with h show ?thesis by (simp add: kvr(1))
  qed
qed

text \<open>Each run starts after the end of the one before, so the n-th starts at n or later.\<close>

lemma runs_after:
  assumes "(s, w) \<in> set (runs c r)" and "r \<noteq> [] \<Longrightarrow> \<not> is_token_byte (hd r)"
  shows "c < s"
proof -
  note h = runs_slice [OF assms(1)]
  have "s \<noteq> c"
  proof
    assume "s = c"
    with h have tw: "take (length w) r = w" and ne: "w \<noteq> []" and "is_token_byte (hd w)"
      by auto
    moreover have "hd w = hd r"
      using tw ne hd_take [of "length w" r] by simp
    moreover have "r \<noteq> []" using tw ne by auto
    ultimately show False using assms(2) by simp
  qed
  with h show ?thesis by simp
qed

lemma runs_ordered:
  "sorted_wrt (\<lambda>r r'. fst r + length (snd r) < fst r') (runs c t)"
proof (induction "length t" arbitrary: c t rule: less_induct)
  case less
  obtain k v r where kvr: "t = k @ v @ r" "r \<noteq> [] \<Longrightarrow> \<not> is_token_byte (hd r)"
    and rs: "\<And>c. runs c t = (if v = [] then [] else (c + length k, v) # runs (c + length k + length v) r)"
    using runs_split [of t] by metis
  show ?case
  proof (cases "v = []")
    case False
    then have "sorted_wrt (\<lambda>r r'. fst r + length (snd r) < fst r') (runs (c + length k + length v) r)"
      using less.hyps by (simp add: kvr(1))
    with False show ?thesis
      using rs [of c] runs_after [OF _ kvr(2)] by auto
  qed (simp add: rs)
qed

lemma runs_nth_start:
  assumes "sorted_wrt (\<lambda>r r'. fst r + length (snd r) < fst r') rs" and "i < length rs"
  shows "i \<le> fst (rs ! i)"
  using assms(2)
proof (induction i)
  case (Suc i)
  then have "fst (rs ! i) < fst (rs ! Suc i)"
    using assms(1) by (fastforce simp: sorted_wrt_iff_nth_less)
  with Suc show ?case by simp
qed simp

section \<open>The returned tokens\<close>

lemma run_tokens_append:
  "run_tokens stops n (rs @ rs') = run_tokens stops n rs @ run_tokens stops (n + length rs) rs'"
  by (induction stops n rs rule: run_tokens.induct) auto

text \<open>The tokens, each with the index of its run.\<close>

lemma run_tokens_iff:
  "tok \<in> set (run_tokens stops n rs) \<longleftrightarrow>
     (\<exists>i < length rs. ascii_lower (snd (rs ! i)) \<notin> set stops \<and>
        tok = \<lparr>tok_term = ascii_lower (snd (rs ! i)), tok_position = of_nat (n + i),
               tok_start_offset = of_nat (fst (rs ! i)),
               tok_end_offset = of_nat (fst (rs ! i) + length (snd (rs ! i)))\<rparr>)"
proof (induction stops n rs rule: run_tokens.induct)
  case (2 stops n s w rs)
  show ?case
    by (cases "ascii_lower w \<in> set stops")
      (simp_all only: run_tokens.simps if_True if_False list.set insert_iff length_Cons
        Ex_less_Suc2 nth_Cons_0 nth_Cons_Suc fst_conv snd_conv "2.IH" simp_thms
        add_0_right add_Suc_right add_Suc)
qed simp

lemma run_tokens_positions:
  assumes "\<And>i. i < length rs \<Longrightarrow> ascii_lower (snd (rs ! i)) \<notin> set stops \<Longrightarrow> n + i < 2 ^ 32"
  shows "sorted_wrt (<) (map tok_position (run_tokens stops n rs))"
  using assms
proof (induction stops n rs rule: run_tokens.induct)
  case (2 stops n s w rs)
  have IH: "sorted_wrt (<) (map tok_position (run_tokens stops (Suc n) rs))"
    using "2.prems" "2.IH" by (cases "ascii_lower w \<in> set stops") fastforce+
  have "(of_nat n :: u32) < tok_position tok"
    if tok: "tok \<in> set (run_tokens stops (Suc n) rs)" and w: "ascii_lower w \<notin> set stops" for tok
  proof -
    from tok obtain i where i: "i < length rs" "ascii_lower (snd (rs ! i)) \<notin> set stops"
      and p: "tok_position tok = of_nat (Suc n + i)"
      by (auto simp: run_tokens_iff simp del: of_nat_add of_nat_Suc)
    have "Suc n + i < 2 ^ 32"
      using "2.prems" [of "Suc i"] i by simp
    then show ?thesis
      by (simp add: p word_less_nat_alt unat_of_nat_small del: of_nat_add of_nat_Suc)
  qed
  with IH show ?case by (auto simp del: of_nat_add of_nat_Suc)
qed simp

section \<open>Runs are the maximal runs\<close>

definition maximal_run :: "string \<Rightarrow> nat \<Rightarrow> nat \<Rightarrow> bool" where
  "maximal_run t s e \<longleftrightarrow>
     s < e \<and> e \<le> length t \<and> (\<forall>i. s \<le> i \<and> i < e \<longrightarrow> is_token_byte (t ! i)) \<and>
     (s = 0 \<or> \<not> is_token_byte (t ! (s - 1))) \<and> (e = length t \<or> \<not> is_token_byte (t ! e))"

lemma maximal_run_shift:
  assumes m: "maximal_run r a b" and hd: "r \<noteq> [] \<Longrightarrow> \<not> is_token_byte (hd r)"
  shows "maximal_run (p @ r) (length p + a) (length p + b)"
proof -
  have "r \<noteq> []" using m by (auto simp: maximal_run_def)
  then have "a \<noteq> 0"
    using m hd by (fastforce simp: maximal_run_def hd_conv_nth)
  then have "(p @ r) ! (length p + a - 1) = r ! (a - 1)"
    by (cases a) (simp_all add: nth_append)
  moreover have "(p @ r) ! i = r ! (i - length p)" if "length p + a \<le> i" for i
    using that by (simp add: nth_append)
  moreover have "is_token_byte ((p @ r) ! i)" if "length p + a \<le> i" "i < length p + b" for i
  proof -
    have "a \<le> i - length p" "i - length p < b"
      using that by auto
    then have "is_token_byte (r ! (i - length p))"
      using m by (simp add: maximal_run_def)
    with that show ?thesis by (simp add: nth_append)
  qed
  ultimately show ?thesis
    using m \<open>a \<noteq> 0\<close> by (auto simp: maximal_run_def)
qed

lemma maximal_run_first:
  assumes "\<forall>x \<in> set k. \<not> is_token_byte x" and "\<forall>x \<in> set v. is_token_byte x" and "v \<noteq> []"
    and "r \<noteq> [] \<Longrightarrow> \<not> is_token_byte (hd r)"
  shows "maximal_run (k @ v @ r) (length k) (length k + length v)"
proof -
  have "is_token_byte ((k @ v @ r) ! i)" if "length k \<le> i" "i < length k + length v" for i
    using that assms(2) by (simp add: nth_append)
  moreover have "length k = 0 \<or> \<not> is_token_byte ((k @ v @ r) ! (length k - 1))"
    using assms(1) by (cases k rule: rev_cases) (auto simp: nth_append)
  moreover have "r = [] \<or> \<not> is_token_byte ((k @ v @ r) ! (length k + length v))"
    using assms(4) by (cases r) (auto simp: nth_append)
  ultimately show ?thesis
    using assms(3) by (auto simp: maximal_run_def)
qed

lemma runs_maximal:
  "(s, w) \<in> set (runs c t) \<Longrightarrow> maximal_run t (s - c) (s - c + length w)"
proof (induction "length t" arbitrary: c t rule: less_induct)
  case less
  obtain k v r where kvr: "t = k @ v @ r" "\<forall>x \<in> set k. \<not> is_token_byte x"
    "\<forall>x \<in> set v. is_token_byte x" "r \<noteq> [] \<Longrightarrow> \<not> is_token_byte (hd r)"
    and rs: "\<And>c. runs c t = (if v = [] then [] else (c + length k, v) # runs (c + length k + length v) r)"
    using runs_split [of t] by metis
  with less.prems have ne: "v \<noteq> []" by (auto split: if_splits)
  consider "s = c + length k" "w = v" | "(s, w) \<in> set (runs (c + length k + length v) r)"
    using less.prems rs ne by auto
  then show ?case
  proof cases
    case 1
    then show ?thesis
      using maximal_run_first [OF kvr(2,3) ne kvr(4)] by (simp add: kvr(1))
  next
    case 2
    have m: "maximal_run r (s - (c + length k + length v)) (s - (c + length k + length v) + length w)"
      using less.hyps [OF _ 2] ne by (simp add: kvr(1))
    have "s - c = length (k @ v) + (s - (c + length k + length v))"
      using runs_slice [OF 2] by simp
    then show ?thesis
      using maximal_run_shift [OF m kvr(4), of "k @ v"] by (simp add: kvr(1) add.assoc)
  qed
qed

lemma runs_cover:
  "i < length t \<Longrightarrow> is_token_byte (t ! i) \<Longrightarrow>
    \<exists>s w. (s, w) \<in> set (runs c t) \<and> s \<le> c + i \<and> c + i < s + length w"
proof (induction "length t" arbitrary: c t i rule: less_induct)
  case less
  obtain k v r where kvr: "t = k @ v @ r" "\<forall>x \<in> set k. \<not> is_token_byte x"
    "v = [] \<Longrightarrow> r = []"
    and rs: "\<And>c. runs c t = (if v = [] then [] else (c + length k, v) # runs (c + length k + length v) r)"
    using runs_split [of t] by metis
  have k: "length k \<le> i"
    using less.prems kvr(2) by (auto simp: kvr(1) nth_append split: if_splits)
  then have ne: "v \<noteq> []"
    using less.prems(1) kvr(1,3) by auto
  show ?case
  proof (cases "i < length k + length v")
    case True
    with k ne show ?thesis
      using rs [of c] by (intro exI [of _ "c + length k"] exI [of _ v]) simp
  next
    case False
    let ?j = "i - (length k + length v)"
    have "((k @ v) @ r) ! i = r ! ?j"
      using False by (subst nth_append) simp
    then have "t ! i = r ! ?j"
      by (simp add: kvr(1))
    with False less.prems have "?j < length r" "is_token_byte (r ! ?j)"
      by (auto simp: kvr(1))
    from less.hyps [OF _ this, of "c + length k + length v"] obtain s w
      where "(s, w) \<in> set (runs (c + length k + length v) r)" "s \<le> c + length k + length v + ?j"
        "c + length k + length v + ?j < s + length w"
      using ne by (auto simp: kvr(1))
    moreover have "c + length k + length v + ?j = c + i"
      using False by simp
    ultimately show ?thesis
      using rs [of c] ne by (intro exI [of _ s] exI [of _ w]) auto
  qed
qed

lemma maximal_run_unique:
  assumes "maximal_run t s e" and "maximal_run t s' e'" and "s \<le> i" "i < e" and "s' \<le> i" "i < e'"
  shows "s = s' \<and> e = e'"
proof -
  have "s \<le> s'" if "maximal_run t s e" "maximal_run t s' e'" "s \<le> i" "i < e'" for s e s' e'
  proof (rule ccontr)
    assume "\<not> s \<le> s'"
    then have "s' \<le> s - 1" "s - 1 < e'" "s \<noteq> 0"
      using that by auto
    with that show False by (auto simp: maximal_run_def)
  qed
  moreover have "e' \<le> e" if "maximal_run t s e" "maximal_run t s' e'" "s \<le> i" "i < e" "s' \<le> i" "i < e'"
    for s e s' e'
  proof (rule ccontr)
    assume "\<not> e' \<le> e"
    then have "s' \<le> e" "e < e'"
      using that by auto
    with that show False by (auto simp: maximal_run_def)
  qed
  ultimately show ?thesis
    using assms by (meson le_antisym)
qed

lemma runs_iff_maximal:
  "(s, w) \<in> set (runs 0 t) \<longleftrightarrow>
     maximal_run t s (s + length w) \<and> w = take (length w) (drop s t)"
proof
  assume "(s, w) \<in> set (runs 0 t)"
  from runs_maximal [OF this] runs_slice [OF this]
  show "maximal_run t s (s + length w) \<and> w = take (length w) (drop s t)" by simp
next
  assume m: "maximal_run t s (s + length w) \<and> w = take (length w) (drop s t)"
  then have "s < length t" "is_token_byte (t ! s)"
    by (auto simp: maximal_run_def)
  from runs_cover [OF this, of 0] obtain s' w'
    where sw: "(s', w') \<in> set (runs 0 t)" "s' \<le> s" "s < s' + length w'" by auto
  have "s = s' \<and> s + length w = s' + length w'"
    using maximal_run_unique [of t s "s + length w" s' "s' + length w'" s] m sw
      runs_maximal [OF sw(1)] by (auto simp: maximal_run_def)
  with sw m runs_slice [OF sw(1)] show "(s, w) \<in> set (runs 0 t)" by auto
qed

section \<open>The contract of an analyzer\<close>

text \<open>
  What the index relies on: no empty term, and positions that increase strictly through the
  token list. The client lemmas say what this gives for the positions of one term.
\<close>

locale token_stream =
  fixes analyze_text :: "string \<Rightarrow> analysis_result"
  assumes terms_nonempty:
      "analyze_text input = Inr tokens \<Longrightarrow> tok \<in> set tokens \<Longrightarrow> tok_term tok \<noteq> []"
    and positions_increasing:
      "analyze_text input = Inr tokens \<Longrightarrow> sorted_wrt (<) (map tok_position tokens)"
begin

lemma term_positions_increasing:
  assumes "analyze_text input = Inr tokens"
  shows "sorted_wrt (<) (map tok_position (filter P tokens))"
  using positions_increasing [OF assms] by (induction tokens) auto

lemma tokens_distinct:
  assumes "analyze_text input = Inr tokens"
  shows "distinct tokens"
  using positions_increasing [OF assms] by (metis distinct_map strict_sorted_iff)

end

definition text_slice :: "string \<Rightarrow> nat \<Rightarrow> nat \<Rightarrow> string" where
  "text_slice t s e = take (e - s) (drop s t)"

lemma ascii_lower_eq_Nil [simp]: "ascii_lower w = [] \<longleftrightarrow> w = []"
  by (simp add: ascii_lower_def)

lemma standard_analyze_runs:
  "standard_analyze stops input =
     (if too_far stops (runs 0 input) then Inl ''analyzer input exceeds uint32 offset range''
      else Inr (run_tokens stops 0 (runs 0 input)))"
  using standard_loop_runs [of stops input 0 0 "[]"] by (simp add: standard_analyze_def)

lemma run_index_bound:
  assumes "\<not> too_far stops (runs 0 input)" and "i < length (runs 0 input)"
    and "ascii_lower (snd (runs 0 input ! i)) \<notin> set stops"
  shows "i \<le> fst (runs 0 input ! i)"
    and "fst (runs 0 input ! i) + length (snd (runs 0 input ! i)) < 2 ^ 32"
proof -
  show "i \<le> fst (runs 0 input ! i)"
    using runs_nth_start [OF runs_ordered assms(2)] .
  show "fst (runs 0 input ! i) + length (snd (runs 0 input ! i)) < 2 ^ 32"
    using assms nth_mem [OF assms(2)] by (fastforce simp: too_far_def)
qed

lemma standard_analyze_token_stream: "token_stream (standard_analyze stops)"
proof
  fix input tokens tok
  assume a: "standard_analyze stops input = Inr tokens"
  then have nf: "\<not> too_far stops (runs 0 input)"
    and tokens: "tokens = run_tokens stops 0 (runs 0 input)"
    by (auto simp: standard_analyze_runs split: if_splits)
  show "sorted_wrt (<) (map tok_position tokens)"
    unfolding tokens
  proof (rule run_tokens_positions)
    fix i
    assume "i < length (runs 0 input)" "ascii_lower (snd (runs 0 input ! i)) \<notin> set stops"
    from run_index_bound [OF nf this] show "0 + i < 2 ^ 32" by linarith
  qed
  assume "tok \<in> set tokens"
  then obtain i where "i < length (runs 0 input)" "tok_term tok = ascii_lower (snd (runs 0 input ! i))"
    by (auto simp: tokens run_tokens_iff)
  with nth_mem [OF this(1)] show "tok_term tok \<noteq> []"
    using runs_slice [of "fst (runs 0 input ! i)" "snd (runs 0 input ! i)" 0 input] by simp
qed

interpretation standard: token_stream "analyze (StandardAnalyzer stops)" for stops
proof -
  have "analyze (StandardAnalyzer stops) = standard_analyze stops"
    by (simp add: fun_eq_iff)
  then show "token_stream (analyze (StandardAnalyzer stops))"
    using standard_analyze_token_stream by simp
qed

interpretation keyword: token_stream "analyze KeywordAnalyzer"
  by unfold_locales (auto simp: keyword_analyze_def split: if_splits sum.splits)

section \<open>Properties\<close>

lemma sorted_index_card:
  assumes "sorted_wrt (<) (xs :: nat list)" and "i < length xs"
  shows "card {x \<in> set xs. x < xs ! i} = i"
proof -
  have mono: "j < k \<Longrightarrow> k < length xs \<Longrightarrow> xs ! j < xs ! k" for j k
    using assms(1) by (simp add: sorted_wrt_iff_nth_less)
  have "{x \<in> set xs. x < xs ! i} = (!) xs ` {..<i}"
  proof (intro equalityI subsetI)
    fix x
    assume "x \<in> {x \<in> set xs. x < xs ! i}"
    then obtain j where j: "j < length xs" "x = xs ! j" "xs ! j < xs ! i"
      by (auto simp: in_set_conv_nth)
    then have "j < i"
      using mono [of i j] by (metis linorder_neqE_nat order_less_asym order_less_irrefl)
    with j show "x \<in> (!) xs ` {..<i}" by simp
  qed (use assms(2) mono in auto)
  moreover have "inj_on ((!) xs) {..<i}"
    using assms by (auto simp: inj_on_def strict_sorted_iff nth_eq_iff_index_eq)
  ultimately show ?thesis by (simp add: card_image)
qed

lemma run_position_card:
  assumes "i < length (runs 0 input)"
  shows "card {s. s < fst (runs 0 input ! i) \<and> (\<exists>e. maximal_run input s e)} = i"
proof -
  have "sorted_wrt (<) (map fst (runs 0 input))"
    unfolding sorted_wrt_map
    by (rule sorted_wrt_mono_rel [OF _ runs_ordered [of 0 input]]) simp
  from sorted_index_card [OF this, of i] assms
  have "card {x \<in> fst ` set (runs 0 input). x < fst (runs 0 input ! i)} = i" by simp
  moreover have "(\<exists>e. maximal_run input s e) \<longleftrightarrow> s \<in> fst ` set (runs 0 input)" for s
  proof
    assume "\<exists>e. maximal_run input s e"
    then obtain e where e: "maximal_run input s e" ..
    then have "length (text_slice input s e) = e - s" "s \<le> e"
      by (auto simp: text_slice_def maximal_run_def)
    with e have "(s, text_slice input s e) \<in> set (runs 0 input)"
      by (simp add: runs_iff_maximal text_slice_def)
    then show "s \<in> fst ` set (runs 0 input)" by force
  next
    assume "s \<in> fst ` set (runs 0 input)"
    then show "\<exists>e. maximal_run input s e"
      using runs_iff_maximal by (metis imageE prod.collapse)
  qed
  ultimately show ?thesis
    by (simp add: conj_commute)
qed

lemma run_token_fields:
  assumes "length input < 2 ^ 32" and "(s, w) \<in> set (runs 0 input)"
  shows "unat (of_nat s :: u32) = s" and "unat (of_nat (s + length w) :: u32) = s + length w"
    and "w = text_slice input s (s + length w)"
proof -
  note h = runs_slice [OF assms(2)]
  then show "unat (of_nat s :: u32) = s" "unat (of_nat (s + length w) :: u32) = s + length w"
    using assms(1) by (auto simp: unat_of_nat_small simp del: of_nat_add)
  show "w = text_slice input s (s + length w)"
    using h by (simp add: text_slice_def)
qed

lemma run_tokens_offsets_iff:
  assumes "length input < 2 ^ 32"
  shows "(\<exists>tok \<in> set (run_tokens stops 0 (runs 0 input)).
       unat (tok_start_offset tok) = s \<and> unat (tok_end_offset tok) = e) \<longleftrightarrow>
    maximal_run input s e \<and> ascii_lower (text_slice input s e) \<notin> set stops" (is "?L \<longleftrightarrow> ?R")
proof
  let ?rs = "runs 0 input"
  note flds = run_token_fields [OF assms]
  assume ?L
  then obtain i where i: "i < length ?rs" and stop: "ascii_lower (snd (?rs ! i)) \<notin> set stops"
    and o: "unat (of_nat (fst (?rs ! i)) :: u32) = s"
      "unat (of_nat (fst (?rs ! i) + length (snd (?rs ! i))) :: u32) = e"
    by (auto simp: run_tokens_iff simp del: of_nat_add)
  have m: "(fst (?rs ! i), snd (?rs ! i)) \<in> set ?rs"
    using nth_mem [OF i] by simp
  have "s = fst (?rs ! i)" "e = fst (?rs ! i) + length (snd (?rs ! i))"
    using o flds(1,2) [OF m] by (simp_all del: of_nat_add)
  then show ?R
    using m stop runs_iff_maximal [of "fst (?rs ! i)" "snd (?rs ! i)" input] flds(3) [OF m] by auto
next
  let ?rs = "runs 0 input"
  assume R: ?R
  then have len: "s + length (text_slice input s e) = e"
    by (auto simp: text_slice_def maximal_run_def)
  with R have m: "(s, text_slice input s e) \<in> set ?rs"
    by (simp add: runs_iff_maximal text_slice_def)
  then obtain i where i: "i < length ?rs" "?rs ! i = (s, text_slice input s e)"
    by (metis in_set_conv_nth)
  let ?tok = "\<lparr>tok_term = ascii_lower (text_slice input s e), tok_position = of_nat (0 + i),
      tok_start_offset = of_nat s, tok_end_offset = of_nat (s + length (text_slice input s e))\<rparr>"
  have "?tok \<in> set (run_tokens stops 0 ?rs)"
    unfolding run_tokens_iff using R i by (intro exI [of _ i]) simp
  then show ?L
    using run_token_fields(1,2) [OF assms m] len
    by (intro bexI [of _ ?tok]) (simp_all del: of_nat_add)
qed

lemma run_tokens_term_position:
  assumes "length input < 2 ^ 32" and "tok \<in> set (run_tokens stops 0 (runs 0 input))"
  shows "tok_term tok =
      ascii_lower (text_slice input (unat (tok_start_offset tok)) (unat (tok_end_offset tok))) \<and>
    unat (tok_position tok) =
      card {s. s < unat (tok_start_offset tok) \<and> (\<exists>e. maximal_run input s e)}"
proof
  let ?rs = "runs 0 input"
  obtain i where i: "i < length ?rs" and tok: "tok = \<lparr>tok_term = ascii_lower (snd (?rs ! i)),
      tok_position = of_nat (0 + i), tok_start_offset = of_nat (fst (?rs ! i)),
      tok_end_offset = of_nat (fst (?rs ! i) + length (snd (?rs ! i)))\<rparr>"
    using assms(2) by (auto simp: run_tokens_iff)
  have m: "(fst (?rs ! i), snd (?rs ! i)) \<in> set ?rs"
    using nth_mem [OF i] by simp
  note flds = run_token_fields [OF assms(1) m]
  show "tok_term tok =
      ascii_lower (text_slice input (unat (tok_start_offset tok)) (unat (tok_end_offset tok)))"
    using flds by (simp add: tok del: of_nat_add)
  have "i < 2 ^ 32"
    using runs_nth_start [OF runs_ordered i] runs_slice [OF m] assms(1) by simp
  then show "unat (tok_position tok) =
      card {s. s < unat (tok_start_offset tok) \<and> (\<exists>e. maximal_run input s e)}"
    using flds(1) run_position_card [OF i] by (simp add: tok unat_of_nat_small)
qed

text \<open>
  C32: on a text shorter than 2^32 bytes the standard analyzer never throws, and its tokens are
  exactly the maximal runs of token bytes (ASCII alphanumerics and bytes from 0x80 on) whose
  lower-case form is not a stop word: a token with offsets \<open>s\<close> and \<open>e\<close> is returned iff
  \<open>[s, e)\<close> is such a run, its term is the run in lower case, and its position counts the
  runs before it, stop words included.
\<close>

theorem standard_analyze_maximal_runs:
  assumes "length input < 2 ^ 32"
  shows "\<exists>tokens. analyze (StandardAnalyzer stops) input = Inr tokens \<and>
    (\<forall>s e. (\<exists>tok \<in> set tokens. unat (tok_start_offset tok) = s \<and> unat (tok_end_offset tok) = e) \<longleftrightarrow>
       maximal_run input s e \<and> ascii_lower (text_slice input s e) \<notin> set stops) \<and>
    (\<forall>tok \<in> set tokens.
       tok_term tok =
         ascii_lower (text_slice input (unat (tok_start_offset tok)) (unat (tok_end_offset tok))) \<and>
       unat (tok_position tok) =
         card {s. s < unat (tok_start_offset tok) \<and> (\<exists>e. maximal_run input s e)})"
proof (intro exI conjI allI ballI)
  have "\<not> too_far stops (runs 0 input)"
    using assms runs_slice [of _ _ 0 input] by (fastforce simp: too_far_def)
  then show "analyze (StandardAnalyzer stops) input = Inr (run_tokens stops 0 (runs 0 input))"
    by (simp add: standard_analyze_runs)
qed (use run_tokens_offsets_iff [OF assms] run_tokens_term_position [OF assms] in blast)+

text \<open>The theorem at a concrete text with a stop word.\<close>

theorem standard_analyze_maximal_runs_witness:
  "length ''The Cat'' < 2 ^ 32 \<and>
   (\<exists>tokens. analyze (StandardAnalyzer [''the'']) ''The Cat'' = Inr tokens \<and>
     (\<exists>tok \<in> set tokens. unat (tok_start_offset tok) = 4 \<and> unat (tok_end_offset tok) = 7))"
proof -
  have len: "length ''The Cat'' < 2 ^ 32" by simp
  have idx: "i = 4 \<or> i = 5 \<or> i = 6" if "4 \<le> i" "i < 7" for i :: nat
    using that by arith
  have run: "maximal_run ''The Cat'' 4 7"
    by (auto simp: maximal_run_def is_token_byte_def ctype_defs dest!: idx)
  have low: "ascii_lower (text_slice ''The Cat'' 4 7) \<notin> set [''the'']"
    by (simp add: text_slice_def ascii_lower_def ctype_defs)
  show ?thesis
    using len run low standard_analyze_maximal_runs [OF len, of "[''the'']"] by blast
qed

text \<open>
  Whatever the length of the text, the tokens of both analyzers of the sources have
  non-empty terms and strictly increasing positions: the 32-bit position counter of the
  standard analyzer never wraps around in a returned list.
\<close>

theorem analyzer_positions_increase:
  assumes "a = standard_analyzer words \<or> a = KeywordAnalyzer"
    and "analyze a input = Inr tokens"
  shows "sorted_wrt (<) (map tok_position tokens) \<and> (\<forall>tok \<in> set tokens. tok_term tok \<noteq> [])"
  using assms standard.positions_increasing standard.terms_nonempty
    keyword.positions_increasing keyword.terms_nonempty
  unfolding standard_analyzer_def by blast

theorem analyzer_positions_increase_witness:
  "\<exists>tokens. analyze (standard_analyzer [''THE'']) ''a b'' = Inr tokens \<and> length tokens = 2 \<and>
     sorted_wrt (<) (map tok_position tokens) \<and> tok_term (hd tokens) \<noteq> []"
proof -
  let ?ts = "[\<lparr>tok_term = ''a'', tok_position = 0, tok_start_offset = 0, tok_end_offset = 1\<rparr>,
      \<lparr>tok_term = ''b'', tok_position = 1, tok_start_offset = 2, tok_end_offset = 3\<rparr>]"
  have a: "analyze (standard_analyzer [''THE'']) ''a b'' = Inr ?ts"
    by (simp add: standard_analyzer_def standard_analyze_def standard_loop.simps is_token_byte_def
        ctype_defs ascii_lower_def checked_offset_def Let_def)
  show ?thesis
    using analyzer_positions_increase [OF disjI1 [OF refl] a] a by auto
qed

end
