(* ===== verification/Doubles.thy ===== *)
theory Doubles
  imports CLib
begin

text \<open>
  IEEE 754 binary64, the type \<^verbatim>\<open>double\<close> of the sources, as its 64 bits, so that
  \<^verbatim>\<open>std::bit_cast\<close> between \<^verbatim>\<open>double\<close> and \<^verbatim>\<open>uint64_t\<close> is the identity. Comparison is exact
  on the bits; \<open>+\<close>, \<open>*\<close> and \<open>/\<close> compute the exact rational result and round it to nearest,
  ties to even (the default mode, which the sources never change). Every NaN an operation
  produces is the same quiet NaN: no code under \<^verbatim>\<open>src/\<close> looks at a NaN's payload.
  \<^verbatim>\<open>std::log1p\<close>, whose last bits the standard leaves to the implementation, is not defined
  here: definitions that call it take it as an argument.
\<close>

section \<open>Bits, classes and comparison\<close>

type_synonym double = u64

definition fp_sign_bit :: int where "fp_sign_bit = 0x8000000000000000"
definition fp_inf_mag :: int where "fp_inf_mag = 0x7ff0000000000000"
definition fp_hidden_bit :: int where "fp_hidden_bit = 0x10000000000000"

definition fp_neg :: "double \<Rightarrow> bool" where
  "fp_neg x \<longleftrightarrow> fp_sign_bit \<le> uint x"

definition fp_mag :: "double \<Rightarrow> int" where
  "fp_mag x = (if fp_neg x then uint x - fp_sign_bit else uint x)"

definition fp_pack :: "bool \<Rightarrow> int \<Rightarrow> double" where
  "fp_pack s mag = word_of_int (if s then mag + fp_sign_bit else mag)"

definition fp_nan :: double where "fp_nan = 0x7ff8000000000000"
definition fp_inf :: "bool \<Rightarrow> double" where "fp_inf s = fp_pack s fp_inf_mag"
definition fp_zero :: double where "fp_zero = 0"
definition fp_one :: double where "fp_one = 0x3ff0000000000000"
definition fp_half :: double where "fp_half = 0x3fe0000000000000"

definition isfinite :: "double \<Rightarrow> bool" where
  "isfinite x \<longleftrightarrow> fp_mag x < fp_inf_mag"

definition isnan :: "double \<Rightarrow> bool" where
  "isnan x \<longleftrightarrow> fp_inf_mag < fp_mag x"

definition isinf :: "double \<Rightarrow> bool" where
  "isinf x \<longleftrightarrow> fp_mag x = fp_inf_mag"

text \<open>
  Sign and magnitude read as an integer orders all doubles but NaN by value; both zeros have
  key 0.
\<close>

definition fp_key :: "double \<Rightarrow> int" where
  "fp_key x = (if fp_neg x then - fp_mag x else fp_mag x)"

definition fp_less :: "double \<Rightarrow> double \<Rightarrow> bool" where
  "fp_less x y \<longleftrightarrow> \<not> isnan x \<and> \<not> isnan y \<and> fp_key x < fp_key y"

definition fp_le :: "double \<Rightarrow> double \<Rightarrow> bool" where
  "fp_le x y \<longleftrightarrow> \<not> isnan x \<and> \<not> isnan y \<and> fp_key x \<le> fp_key y"

definition fp_eq :: "double \<Rightarrow> double \<Rightarrow> bool" where
  "fp_eq x y \<longleftrightarrow> \<not> isnan x \<and> \<not> isnan y \<and> fp_key x = fp_key y"

lemmas fp_cmp_defs = fp_less_def fp_le_def fp_eq_def
lemmas fp_const_defs = fp_sign_bit_def fp_inf_mag_def fp_hidden_bit_def

lemma isfinite_not_nan: "isfinite x \<Longrightarrow> \<not> isnan x"
  by (simp add: isfinite_def isnan_def)

lemma fp_less_irrefl [simp]: "\<not> fp_less x x"
  by (simp add: fp_less_def)

lemma fp_less_trans: "fp_less x y \<Longrightarrow> fp_less y z \<Longrightarrow> fp_less x z"
  by (auto simp: fp_less_def)

lemma fp_less_key: "isfinite x \<Longrightarrow> isfinite y \<Longrightarrow> fp_less x y \<longleftrightarrow> fp_key x < fp_key y"
  by (simp add: fp_less_def isfinite_not_nan)

lemma fp_eq_key: "isfinite x \<Longrightarrow> isfinite y \<Longrightarrow> fp_eq x y \<longleftrightarrow> fp_key x = fp_key y"
  by (simp add: fp_eq_def isfinite_not_nan)

section \<open>Rounding\<close>

function bit_length :: "int \<Rightarrow> int" where
  "bit_length n = (if n \<le> 0 then 0 else 1 + bit_length (n div 2))"
  by pat_completeness auto
termination
  by (relation "measure nat") auto

function pow2 :: "int \<Rightarrow> int" where
  "pow2 k = (if k \<le> 0 then 1 else 2 * pow2 (k - 1))"
  by pat_completeness auto
termination
  by (relation "measure nat") auto

declare bit_length.simps [simp del] pow2.simps [simp del]

text \<open>
  \<open>fp_round s num den\<close> is the double nearest to \<open>num / den\<close> with sign \<open>s\<close>. The exponent of
  the last place is \<open>e\<close>: \<open>2^k \<le> num / den < 2^(k + 1)\<close> and \<open>e = k - 52\<close>, or the least
  exponent for a subnormal result. Adding the rounded significand to the shifted exponent
  packs normal and subnormal results alike, and a carry out of the significand moves to the
  next exponent by itself.
\<close>

definition fp_scale :: "int \<Rightarrow> int \<Rightarrow> int" where
  "fp_scale num den =
     (let k = bit_length num - bit_length den
      in if num * pow2 (- k) < den * pow2 k then k - 1 else k)"

text \<open>Overflow: a magnitude past the largest finite one is infinite.\<close>

definition fp_clamp :: "int \<Rightarrow> int" where
  "fp_clamp m = max 0 (min fp_inf_mag m)"

definition fp_round :: "bool \<Rightarrow> int \<Rightarrow> int \<Rightarrow> double" where
  "fp_round s num den =
     (if num = 0 then fp_pack s 0
      else let e = max (fp_scale num den - 52) (- 1074);
               n = num * pow2 (- e);
               d = den * pow2 e;
               q = n div d;
               r = n mod d;
               m = (if d < 2 * r \<or> (2 * r = d \<and> odd q) then q + 1 else q)
           in fp_pack s (fp_clamp ((e + 1074) * fp_hidden_bit + m)))"

definition fp_significand :: "double \<Rightarrow> int" where
  "fp_significand x =
     (if fp_mag x < fp_hidden_bit then fp_mag x
      else fp_hidden_bit + fp_mag x mod fp_hidden_bit)"

definition fp_exponent :: "double \<Rightarrow> int" where
  "fp_exponent x =
     (if fp_mag x < fp_hidden_bit then - 1074 else fp_mag x div fp_hidden_bit - 1075)"

section \<open>Arithmetic\<close>

definition fp_scaled :: "double \<Rightarrow> int \<Rightarrow> int" where
  "fp_scaled x e =
     (let m = fp_significand x * pow2 (fp_exponent x - e) in if fp_neg x then - m else m)"

definition fadd :: "double \<Rightarrow> double \<Rightarrow> double" where
  "fadd x y =
     (if isnan x \<or> isnan y then fp_nan
      else if isinf x \<and> isinf y then (if fp_neg x = fp_neg y then x else fp_nan)
      else if isinf x then x
      else if isinf y then y
      else let e = min (fp_exponent x) (fp_exponent y);
               s = fp_scaled x e + fp_scaled y e
           in if s = 0 then fp_pack (fp_neg x \<and> fp_neg y) 0
              else fp_round (s < 0) (\<bar>s\<bar> * pow2 e) (pow2 (- e)))"

definition fneg :: "double \<Rightarrow> double" where
  "fneg x = fp_pack (\<not> fp_neg x) (fp_mag x)"

definition fsub :: "double \<Rightarrow> double \<Rightarrow> double" where
  "fsub x y = fadd x (fneg y)"

definition fmul :: "double \<Rightarrow> double \<Rightarrow> double" where
  "fmul x y =
     (let s = (fp_neg x \<noteq> fp_neg y); e = fp_exponent x + fp_exponent y
      in if isnan x \<or> isnan y then fp_nan
         else if isinf x \<or> isinf y then (if fp_mag x = 0 \<or> fp_mag y = 0 then fp_nan else fp_inf s)
         else fp_round s (fp_significand x * fp_significand y * pow2 e) (pow2 (- e)))"

definition fdiv :: "double \<Rightarrow> double \<Rightarrow> double" where
  "fdiv x y =
     (let s = (fp_neg x \<noteq> fp_neg y); e = fp_exponent x - fp_exponent y
      in if isnan x \<or> isnan y then fp_nan
         else if isinf x then (if isinf y then fp_nan else fp_inf s)
         else if isinf y then fp_pack s 0
         else if fp_mag y = 0 then (if fp_mag x = 0 then fp_nan else fp_inf s)
         else fp_round s (fp_significand x * pow2 e) (fp_significand y * pow2 (- e)))"

text \<open>\<^verbatim>\<open>static_cast<double>\<close> of an unsigned integer.\<close>

definition fp_of_int :: "int \<Rightarrow> double" where
  "fp_of_int n = fp_round False n 1"

section \<open>The sign of a result\<close>

lemma fp_mag_bounds: "0 \<le> fp_mag x" "fp_mag x < fp_sign_bit"
proof -
  have "uint x < 2 ^ 64" "0 \<le> uint x"
    using uint_bounded [of x] by simp_all
  then show "0 \<le> fp_mag x" "fp_mag x < fp_sign_bit"
    by (auto simp: fp_mag_def fp_neg_def fp_sign_bit_def)
qed

lemma uint_fp_pack:
  "0 \<le> m \<Longrightarrow> m < fp_sign_bit \<Longrightarrow> uint (fp_pack s m) = (if s then m + fp_sign_bit else m)"
  by (simp add: fp_pack_def fp_sign_bit_def uint_word_of_int)

lemma fp_neg_pack [simp]: "0 \<le> m \<Longrightarrow> m < fp_sign_bit \<Longrightarrow> fp_neg (fp_pack s m) = s"
  by (auto simp: fp_neg_def uint_fp_pack)

lemma fp_mag_pack [simp]: "0 \<le> m \<Longrightarrow> m < fp_sign_bit \<Longrightarrow> fp_mag (fp_pack s m) = m"
  by (auto simp: fp_mag_def uint_fp_pack)

lemma fp_clamp_bounds [simp]:
  "0 \<le> fp_clamp k" "fp_clamp k < fp_sign_bit" "fp_clamp k \<le> fp_inf_mag"
  by (auto simp: fp_clamp_def fp_inf_mag_def fp_sign_bit_def)

lemma fp_sign_bit_pos [simp]: "0 < fp_sign_bit"
  by (simp add: fp_sign_bit_def)

lemma fp_neg_round [simp]: "fp_neg (fp_round s n d) = s"
  by (simp add: fp_round_def Let_def)

lemma fp_round_not_nan: "\<not> isnan (fp_round s n d)"
  by (simp add: fp_round_def Let_def isnan_def not_less) (simp add: fp_inf_mag_def)

lemma fp_neg_nan [simp]: "\<not> fp_neg fp_nan"
  by (simp add: fp_neg_def fp_nan_def fp_sign_bit_def)

lemma fp_neg_inf [simp]: "fp_neg (fp_inf s) = s"
  unfolding fp_inf_def by (rule fp_neg_pack) (simp_all add: fp_inf_mag_def fp_sign_bit_def)

lemma fp_neg_of_int [simp]: "\<not> fp_neg (fp_of_int n)"
  by (simp add: fp_of_int_def)

lemma fp_neg_fmul: "\<not> fp_neg x \<Longrightarrow> \<not> fp_neg y \<Longrightarrow> \<not> fp_neg (fmul x y)"
  by (simp add: fmul_def Let_def)

lemma fp_neg_fdiv: "\<not> fp_neg x \<Longrightarrow> \<not> fp_neg y \<Longrightarrow> \<not> fp_neg (fdiv x y)"
  by (simp add: fdiv_def Let_def)

lemma pow2_pos [simp]: "0 < pow2 k"
proof (induction k rule: pow2.induct)
  case (1 k)
  then show ?case by (cases "k \<le> 0") (simp_all add: pow2.simps [of k])
qed

lemma fp_significand_nonneg [simp]: "0 \<le> fp_significand x"
  using fp_mag_bounds(1) [of x] by (simp add: fp_significand_def fp_hidden_bit_def)

lemma fp_scaled_nonneg: "\<not> fp_neg x \<Longrightarrow> 0 \<le> fp_scaled x e"
  by (simp add: fp_scaled_def Let_def less_imp_le)

lemma fp_neg_fadd: "\<not> fp_neg x \<Longrightarrow> \<not> fp_neg y \<Longrightarrow> \<not> fp_neg (fadd x y)"
  using fp_scaled_nonneg [of x] fp_scaled_nonneg [of y]
  by (simp add: fadd_def Let_def not_less)

lemmas fp_nonneg_arith = fp_neg_fmul fp_neg_fdiv fp_neg_fadd

lemmas fp_eval_defs = isfinite_def isnan_def isinf_def fp_less_def fp_le_def fp_eq_def fp_key_def
  fp_mag_def fp_neg_def fp_zero_def fp_one_def fp_half_def fp_sign_bit_def fp_inf_mag_def

section \<open>The range of a quotient of counters\<close>

lemma pow2_eq: "pow2 k = 2 ^ nat k"
proof (induction k rule: pow2.induct)
  case (1 k)
  show ?case
  proof (cases "k \<le> 0")
    case True
    then show ?thesis by (simp add: pow2.simps [of k])
  next
    case False
    then have "nat k = Suc (nat (k - 1))" by simp
    with 1 False show ?thesis by (simp add: pow2.simps [of k])
  qed
qed

lemma bit_length_bounds: "0 < n \<Longrightarrow> 2 ^ nat (bit_length n) \<le> 2 * n \<and> n < 2 ^ nat (bit_length n) \<and> 0 < bit_length n"
proof (induction n rule: bit_length.induct)
  case (1 n)
  show ?case
  proof (cases "n = 1")
    case True
    then show ?thesis by (simp add: bit_length.simps [of 1] bit_length.simps [of 0])
  next
    case False
    with 1 have "2 ^ nat (bit_length (n div 2)) \<le> 2 * (n div 2) \<and> n div 2 < 2 ^ nat (bit_length (n div 2)) \<and>
        0 < bit_length (n div 2)" by simp
    moreover have "nat (1 + bit_length (n div 2)) = Suc (nat (bit_length (n div 2)))"
      using calculation by linarith
    ultimately show ?thesis
      using 1(2) by (simp add: bit_length.simps [of n]) linarith
  qed
qed

lemma bit_length_le:
  assumes "0 < n" and "n < 2 ^ k"
  shows "bit_length n \<le> int k"
proof -
  have "2 ^ nat (bit_length n) < (2 :: int) ^ Suc k"
    using bit_length_bounds [OF assms(1)] assms(2) by simp
  then have "nat (bit_length n) < Suc k"
    by (rule power_less_imp_less_exp [rotated]) simp
  then show ?thesis by linarith
qed

text \<open>The magnitude that \<open>fp_round\<close> packs, for operands of bounded size.\<close>

lemma fp_round_normal:
  assumes "0 < num" and "0 < den" and "num < 2 ^ a" and "den < 2 ^ b" and "a \<le> 500" and "b \<le> 500"
  shows "\<exists>e m. fp_mag (fp_round s num den) = (e + 1074) * fp_hidden_bit + m \<and> 0 \<le> m \<and> m \<le> 2 ^ 54 \<and>
    - int b - 53 \<le> e \<and> e \<le> int a - 53"
proof -
  define k where "k = fp_scale num den"
  have bl: "0 < bit_length num" "bit_length num \<le> int a" "0 < bit_length den" "bit_length den \<le> int b"
    using bit_length_bounds assms bit_length_le by blast+
  have k: "bit_length num - bit_length den - 1 \<le> k" "k \<le> bit_length num - bit_length den"
    by (auto simp: k_def fp_scale_def Let_def)
  define e where "e = max (k - 52) (- 1074)"
  have e: "e = k - 52" using k bl assms(5,6) by (simp add: e_def)
  define n d where "n = num * pow2 (- e)" and "d = den * pow2 e"
  define q where "q = n div d"
  define m where "m = (if d < 2 * (n mod d) \<or> (2 * (n mod d) = d \<and> odd q) then q + 1 else q)"
  have pos: "0 < n" "0 < d" using assms by (simp_all add: n_def d_def)
  have q0: "0 \<le> q" using pos by (simp add: q_def pos_imp_zdiv_nonneg_iff)
  have "n < 2 ^ 54 * d"
  proof -
    let ?N = "nat (bit_length num)" and ?D = "nat (bit_length den)"
    have num: "num < 2 ^ ?N" and den: "2 ^ ?D \<le> 2 * den"
      using bit_length_bounds assms(1,2) by blast+
    have "n < 2 ^ (?N + nat (- e))"
      using num by (simp add: n_def pow2_eq power_add)
    also have "?N + nat (- e) \<le> 53 + ?D + nat e"
      using k(1) bl e by linarith
    then have "(2 :: int) ^ (?N + nat (- e)) \<le> 2 ^ (53 + ?D + nat e)"
      by (rule power_increasing) simp
    also have "\<dots> = 2 ^ 53 * 2 ^ ?D * 2 ^ nat e" by (simp add: power_add)
    also have "\<dots> \<le> 2 ^ 53 * (2 * den) * 2 ^ nat e"
      using den by (intro mult_right_mono mult_left_mono) simp_all
    also have "\<dots> = 2 ^ 54 * d" by (simp add: d_def pow2_eq)
    finally show ?thesis .
  qed
  moreover have "q * d \<le> n"
    using pos(2) by (simp add: q_def minus_mod_eq_div_mult [symmetric])
  ultimately have "q * d < 2 ^ 54 * d" by linarith
  then have "q < 2 ^ 54"
    using pos(2) by (rule mult_right_less_imp_less [OF _ less_imp_le])
  then have m: "0 \<le> m" "m \<le> 2 ^ 54" using q0 by (auto simp: m_def)
  have bounds: "- int b - 53 \<le> e" "e \<le> int a - 53"
    using k bl e by linarith+
  have "0 \<le> (e + 1074) * fp_hidden_bit" "(e + 1074) * fp_hidden_bit \<le> 1521 * fp_hidden_bit"
    using bounds assms(5,6) by (auto simp: fp_hidden_bit_def)
  then have "fp_clamp ((e + 1074) * fp_hidden_bit + m) = (e + 1074) * fp_hidden_bit + m"
    using m by (simp add: fp_clamp_def fp_hidden_bit_def fp_inf_mag_def)
  moreover have "fp_round s num den = fp_pack s (fp_clamp ((e + 1074) * fp_hidden_bit + m))"
    using assms(1) by (simp add: fp_round_def Let_def e_def k_def n_def d_def q_def m_def)
  ultimately have "fp_mag (fp_round s num den) = (e + 1074) * fp_hidden_bit + m"
    by (metis fp_clamp_bounds(1,2) fp_mag_pack)
  with m bounds show ?thesis by blast
qed


lemma fp_exponent_mag:
  assumes "fp_mag x = (e + 1074) * fp_hidden_bit + m" and "0 \<le> m" and "m \<le> 2 ^ 54" and "- 1073 \<le> e"
  shows "e - 1 \<le> fp_exponent x" and "fp_exponent x \<le> e + 4" and "0 < fp_significand x"
    and "fp_significand x < 2 ^ 54" and "0 < fp_mag x"
proof -
  have ge: "fp_hidden_bit \<le> fp_mag x"
    using assms by (simp add: fp_hidden_bit_def)
  then have ex: "fp_exponent x = (fp_mag x) div fp_hidden_bit - 1075"
    by (simp add: fp_exponent_def)
  have "fp_mag x div fp_hidden_bit = (e + 1074) + m div fp_hidden_bit"
    unfolding assms(1) by (simp add: fp_hidden_bit_def)
  moreover have "0 \<le> m div fp_hidden_bit" "m div fp_hidden_bit \<le> 2 ^ 54 div fp_hidden_bit"
    using assms(2,3) by (auto simp: fp_hidden_bit_def intro: zdiv_mono1)
  ultimately show "e - 1 \<le> fp_exponent x" "fp_exponent x \<le> e + 4"
    using ex by (simp_all add: fp_hidden_bit_def)
  show "0 < fp_significand x" "fp_significand x < 2 ^ 54" "0 < fp_mag x"
    using ge fp_mag_bounds(1) [of x]
    by (auto simp: fp_significand_def fp_hidden_bit_def intro: add_pos_nonneg)
qed

lemma fp_of_int_range:
  assumes "0 < n" and "n < 2 ^ 64"
  shows "- 60 \<le> fp_exponent (fp_of_int n)" and "fp_exponent (fp_of_int n) \<le> 20"
    and "0 < fp_significand (fp_of_int n)" and "fp_significand (fp_of_int n) < 2 ^ 54"
    and "0 < fp_mag (fp_of_int n)" and "fp_mag (fp_of_int n) < fp_inf_mag"
proof -
  have "\<exists>e m. fp_mag (fp_of_int n) = (e + 1074) * fp_hidden_bit + m \<and> 0 \<le> m \<and> m \<le> 2 ^ 54 \<and>
      - int 1 - 53 \<le> e \<and> e \<le> int 64 - 53"
    unfolding fp_of_int_def using assms by (intro fp_round_normal) simp_all
  then obtain e m where em: "fp_mag (fp_of_int n) = (e + 1074) * fp_hidden_bit + m" "0 \<le> m" "m \<le> 2 ^ 54"
      "- 54 \<le> e" "e \<le> 11" by auto
  have "- 1073 \<le> e" using em by simp
  from fp_exponent_mag [OF em(1-3) this] em(4,5)
  show "- 60 \<le> fp_exponent (fp_of_int n)" "fp_exponent (fp_of_int n) \<le> 20"
    "0 < fp_significand (fp_of_int n)" "fp_significand (fp_of_int n) < 2 ^ 54" "0 < fp_mag (fp_of_int n)"
    by linarith+
  show "fp_mag (fp_of_int n) < fp_inf_mag"
    using em by (simp add: fp_hidden_bit_def fp_inf_mag_def)
qed

lemma average_range:
  assumes "0 < t" and "t < 2 ^ 64" and "0 < c" and "c < 2 ^ 64"
  shows "isfinite (fdiv (fp_of_int t) (fp_of_int c))" and "fp_less fp_zero (fdiv (fp_of_int t) (fp_of_int c))"
proof -
  note T = fp_of_int_range [OF assms(1,2)] and C = fp_of_int_range [OF assms(3,4)]
  let ?x = "fp_of_int t" and ?y = "fp_of_int c"
  let ?e = "fp_exponent ?x - fp_exponent ?y"
  let ?num = "fp_significand ?x * pow2 ?e" and ?den = "fp_significand ?y * pow2 (- ?e)"
  have fin: "\<not> isnan ?x" "\<not> isnan ?y" "\<not> isinf ?x" "\<not> isinf ?y"
    using T(6) C(6) by (simp_all add: isnan_def isinf_def)
  then have d: "fdiv ?x ?y = fp_round False ?num ?den"
    using C(5) by (simp add: fdiv_def Let_def)
  have "pow2 ?e \<le> 2 ^ 80" "pow2 (- ?e) \<le> 2 ^ 80"
    using T C unfolding pow2_eq by (intro power_increasing; simp)+
  then have "?num < 2 ^ 54 * 2 ^ 80" "?den < 2 ^ 54 * 2 ^ 80"
    using T(3,4) C(3,4) by (intro mult_less_le_imp_less; simp)+
  then have "\<exists>e m. fp_mag (fp_round False ?num ?den) = (e + 1074) * fp_hidden_bit + m \<and> 0 \<le> m \<and> m \<le> 2 ^ 54 \<and>
      - int 134 - 53 \<le> e \<and> e \<le> int 134 - 53"
    using T(3) C(3) by (intro fp_round_normal) (simp_all flip: power_add)
  then have "0 < fp_mag (fdiv ?x ?y)" "fp_mag (fdiv ?x ?y) < fp_inf_mag"
    unfolding d by (auto simp: fp_hidden_bit_def fp_inf_mag_def)
  moreover have "\<not> fp_neg (fdiv ?x ?y)" by (simp add: d)
  ultimately show "isfinite (fdiv ?x ?y)" "fp_less fp_zero (fdiv ?x ?y)"
    by (auto simp: isfinite_def fp_less_def isnan_def fp_key_def) (simp_all add: fp_eval_defs)
qed

end
