(* ===== verification/Schema.thy ===== *)
theory Schema
  imports Analysis Doubles
begin

text \<open>
  The field schema: \<^verbatim>\<open>src/index/schema.cpp\<close> and its header. A schema is built once by
  \<open>schema_create\<close>, which rejects bad definitions, and then validates every value of a
  document and every range bound of a query. The theory shows when \<open>schema_create\<close>
  succeeds and what it builds, that a schema it returns is well formed, and that the
  timestamps it accepts are the valid Gregorian dates, on which the byte order of the text is
  the calendar order: range filters on timestamps compare text.
\<close>

section \<open>Definitions\<close>

datatype field_type = FT_text | FT_keyword | FT_int64 | FT_timestamp

record field_definition =
  fd_name :: string
  fd_type :: field_type
  fd_indexed :: bool
  fd_stored :: bool
  fd_boost :: double
  fd_analyzer :: "analyzer option"

datatype schema_error_code =
    Empty_field_name | Duplicate_field | Invalid_boost | Missing_analyzer | Unexpected_analyzer
  | Unknown_field | Field_not_indexed | Field_not_stored | Invalid_typed_value

record schema_error =
  se_code :: schema_error_code
  se_field :: string
  se_message :: string

type_synonym schema = "(string, field_definition) omap"

definition schema_fail :: "schema_error_code \<Rightarrow> string \<Rightarrow> string \<Rightarrow> schema_error" where
  "schema_fail code field message = \<lparr>se_code = code, se_field = field, se_message = message\<rparr>"

subsection \<open>Dates\<close>

text \<open>The local lambda \<^verbatim>\<open>digits\<close>: \<open>count\<close> characters from \<open>start\<close>, all of them one number.\<close>

definition iso_digits :: "string \<Rightarrow> nat \<Rightarrow> nat \<Rightarrow> int option" where
  "iso_digits value start count =
     (case from_chars_i32 (take count (drop start value)) of
        (ec, consumed, output) \<Rightarrow>
          if ec = Errc_ok \<and> consumed = count then Some output else None)"

definition days_per_month :: "int list" where
  "days_per_month = [31, 28, 31, 30, 31, 30, 31, 31, 30, 31, 30, 31]"

definition valid_day :: "int \<Rightarrow> int \<Rightarrow> int \<Rightarrow> bool" where
  "valid_day year month day =
     (let maximum_day = days_per_month ! nat (month - 1);
          leap = (year mod 4 = 0 \<and> (year mod 100 \<noteq> 0 \<or> year mod 400 = 0));
          maximum_day' = (if month = 2 \<and> leap then 29 else maximum_day)
      in 1 \<le> day \<and> day \<le> maximum_day')"

definition valid_iso_date :: "string \<Rightarrow> bool" where
  "valid_iso_date value =
     (if length value \<noteq> 10 \<or> value ! 4 \<noteq> CHR ''-'' \<or> value ! 7 \<noteq> CHR ''-'' then False
      else case iso_digits value 0 4 of None \<Rightarrow> False
           | Some year \<Rightarrow> (case iso_digits value 5 2 of None \<Rightarrow> False
           | Some month \<Rightarrow> (case iso_digits value 8 2 of None \<Rightarrow> False
           | Some day \<Rightarrow>
               if year < 1 \<or> month < 1 \<or> month > 12 then False
               else valid_day year month day)))"

subsection \<open>Construction and validation\<close>

definition needs_analyzer :: "field_definition \<Rightarrow> bool" where
  "needs_analyzer field \<longleftrightarrow>
     fd_indexed field \<and> (fd_type field = FT_text \<or> fd_type field = FT_keyword)"

text \<open>One round of the loop of \<^verbatim>\<open>IndexSchema::create\<close>.\<close>

definition schema_add :: "schema \<Rightarrow> field_definition \<Rightarrow> (schema_error, schema) result" where
  "schema_add flds field =
     (if fd_name field = [] then
        Inl (schema_fail Empty_field_name [] ''field name must not be empty'')
      else if \<not> isfinite (fd_boost field) \<or> fp_less (fd_boost field) fp_zero then
        Inl (schema_fail Invalid_boost (fd_name field)
               ''field boost must be finite and non-negative'')
      else if needs_analyzer field \<and> fd_analyzer field = None then
        Inl (schema_fail Missing_analyzer (fd_name field)
               ''indexed text and keyword fields require an analyzer'')
      else if \<not> needs_analyzer field \<and> fd_analyzer field \<noteq> None then
        Inl (schema_fail Unexpected_analyzer (fd_name field)
               ''typed or unindexed fields must not have an analyzer'')
      else case om_emplace (fd_name field) field flds of
             (flds', inserted) \<Rightarrow>
               if \<not> inserted then
                 Inl (schema_fail Duplicate_field (fd_name field)
                        ''field appears more than once in schema'')
               else Inr flds')"

fun schema_create_from ::
  "schema \<Rightarrow> field_definition list \<Rightarrow> (schema_error, schema) result" where
  "schema_create_from schema [] = Inr schema"
| "schema_create_from schema (field # rest) =
     (case schema_add schema field of
        Inl e \<Rightarrow> Inl e
      | Inr schema' \<Rightarrow> schema_create_from schema' rest)"

definition schema_create :: "field_definition list \<Rightarrow> (schema_error, schema) result" where
  "schema_create flds = schema_create_from [] flds"

definition default_fields :: "field_definition list" where
  "default_fields =
     (let standard = Some (standard_analyzer []); keyword = Some KeywordAnalyzer
      in [\<lparr>fd_name = ''title'', fd_type = FT_text, fd_indexed = True, fd_stored = True,
           fd_boost = fp_one, fd_analyzer = standard\<rparr>,
          \<lparr>fd_name = ''body'', fd_type = FT_text, fd_indexed = True, fd_stored = True,
           fd_boost = fp_one, fd_analyzer = standard\<rparr>,
          \<lparr>fd_name = ''tags'', fd_type = FT_keyword, fd_indexed = True, fd_stored = True,
           fd_boost = fp_one, fd_analyzer = keyword\<rparr>,
          \<lparr>fd_name = ''timestamp'', fd_type = FT_timestamp, fd_indexed = False, fd_stored = True,
           fd_boost = fp_one, fd_analyzer = None\<rparr>])"

definition schema_find :: "schema \<Rightarrow> string \<Rightarrow> field_definition option" where
  "schema_find schema field = map_of schema field"

definition validate_value :: "schema \<Rightarrow> string \<Rightarrow> string \<Rightarrow> (schema_error, unit) result" where
  "validate_value schema field value =
     (case schema_find schema field of
        None \<Rightarrow> Inl (schema_fail Unknown_field field ''field is not declared in schema'')
      | Some definition \<Rightarrow>
          if fd_type definition = FT_int64 then
            (case from_chars_i64 value of
               (ec, consumed, _) \<Rightarrow>
                 if value = [] \<or> ec \<noteq> Errc_ok \<or> consumed \<noteq> length value then
                   Inl (schema_fail Invalid_typed_value field ''value is not a valid int64'')
                 else Inr ())
          else if fd_type definition = FT_timestamp \<and> \<not> valid_iso_date value then
            Inl (schema_fail Invalid_typed_value field
                   ''timestamp must use a valid YYYY-MM-DD date'')
          else Inr ())"

section \<open>What \<open>schema_create\<close> accepts and builds\<close>

definition definition_ok :: "field_definition \<Rightarrow> bool" where
  "definition_ok field \<longleftrightarrow>
     fd_name field \<noteq> [] \<and> isfinite (fd_boost field) \<and> \<not> fp_less (fd_boost field) fp_zero \<and>
     (fd_analyzer field \<noteq> None \<longleftrightarrow> needs_analyzer field)"

definition schema_ok :: "schema \<Rightarrow> bool" where
  "schema_ok schema \<longleftrightarrow> om_ok schema \<and>
     (\<forall>name field. map_of schema name = Some field \<longrightarrow> fd_name field = name \<and> definition_ok field)"

lemma schema_add_Inr_iff:
  "schema_add schema field = Inr schema' \<longleftrightarrow>
     definition_ok field \<and> map_of schema (fd_name field) = None \<and>
     schema' = om_assign (fd_name field) field schema"
  by (auto simp: schema_add_def definition_ok_def om_emplace_def split: option.splits)

lemma schema_create_from_Inr_iff:
  "schema_create_from schema flds = Inr schema' \<longleftrightarrow>
     (\<forall>field \<in> set flds. definition_ok field \<and> map_of schema (fd_name field) = None) \<and>
     distinct (map fd_name flds) \<and>
     schema' = fold (\<lambda>field. om_assign (fd_name field) field) flds schema"
proof (induction flds arbitrary: schema)
  case (Cons field flds)
  show ?case
  proof (cases "definition_ok field \<and> map_of schema (fd_name field) = None")
    case True
    then have "schema_add schema field = Inr (om_assign (fd_name field) field schema)"
      by (simp add: schema_add_Inr_iff)
    with True show ?thesis
      by (auto simp: Cons.IH image_iff)
  next
    case False
    then obtain e where "schema_add schema field = Inl e"
      using schema_add_Inr_iff [of schema field] by (cases "schema_add schema field") blast+
    with False show ?thesis by auto
  qed
qed auto

lemma map_of_fold_assign:
  "distinct (map fd_name flds) \<Longrightarrow>
    map_of (fold (\<lambda>field. om_assign (fd_name field) field) flds schema) name =
      (case find (\<lambda>field. fd_name field = name) flds of
         None \<Rightarrow> map_of schema name | Some field \<Rightarrow> Some field)"
proof (induction flds arbitrary: schema)
  case (Cons field flds)
  have "find (\<lambda>f. fd_name f = fd_name field) flds = None"
    using Cons.prems by (auto simp: find_None_iff) (metis image_eqI)
  with Cons show ?case by (auto split: option.splits)
qed simp

lemma om_ok_fold_assign:
  "om_ok schema \<Longrightarrow> om_ok (fold (\<lambda>field. om_assign (fd_name field) field) flds schema)"
  by (induction flds arbitrary: schema) (auto intro: om_ok_assign)

lemma schema_create_ok: "schema_create flds = Inr schema \<Longrightarrow> schema_ok schema"
  by (auto simp: schema_create_def schema_create_from_Inr_iff schema_ok_def om_ok_fold_assign
      map_of_fold_assign find_Some_iff split: option.splits)

lemma schema_create_finds:
  assumes "schema_create flds = Inr schema" and "schema_find schema name = Some field"
  shows "field \<in> set flds" and "fd_name field = name" and "definition_ok field"
  using assms
  by (auto simp: schema_create_def schema_create_from_Inr_iff schema_find_def map_of_fold_assign
      find_Some_iff split: option.splits)

section \<open>Lexicographic order of texts of one length\<close>

lemma append_less_append:
  "length x = length y \<Longrightarrow>
    (x @ u :: 'a::linorder list) < y @ v \<longleftrightarrow> x < y \<or> x = y \<and> u < v"
  by (induction x y rule: list_induct2) auto

lemma digits_value_foldl:
  "foldl (\<lambda>v c. 10 * v + digit_value c) a s = a * 10 ^ length s + digits_value s"
proof (induction s arbitrary: a)
  case (Cons c s)
  have "digits_value (c # s) = digit_value c * 10 ^ length s + digits_value s"
    using Cons [of "digit_value c"] by (simp add: digits_value_def)
  with Cons [of "10 * a + digit_value c"] show ?case
    by (simp add: algebra_simps)
qed simp

lemma digits_value_Cons: "digits_value (c # s) = digit_value c * 10 ^ length s + digits_value s"
  using digits_value_foldl [of "digit_value c" s] by (simp add: digits_value_def)

lemma digit_value_less: "isdigit c \<Longrightarrow> digit_value c < 10"
  by (auto simp: isdigit_def digit_value_def)

lemma digits_value_bound: "\<forall>c \<in> set s. isdigit c \<Longrightarrow> digits_value s < 10 ^ length s"
proof (induction s)
  case (Cons c s)
  then have "digit_value c * 10 ^ length s \<le> 9 * 10 ^ length s"
    using digit_value_less [of c] by (intro mult_le_mono1) simp
  moreover have "digits_value s < 10 ^ length s"
    using Cons by simp
  ultimately show ?case
    unfolding digits_value_Cons list.size add_Suc_right power_Suc add_0_right by linarith
qed simp

lemma char_less_byte: "c < d \<longleftrightarrow> byte_of c < byte_of d"
  by (simp add: less_char_def)

lemma digits_less_iff:
  assumes "length s = length t" and "\<forall>c \<in> set s. isdigit c" and "\<forall>c \<in> set t. isdigit c"
  shows "s < t \<longleftrightarrow> digits_value s < digits_value t"
  using assms
proof (induction s t rule: list_induct2)
  case (Cons c s d t)
  let ?p = "10 ^ length s :: nat"
  have bs: "digits_value s < ?p" "digits_value t < ?p"
    using Cons.prems Cons.hyps digits_value_bound [of s] digits_value_bound [of t] by auto
  have cd: "c < d \<longleftrightarrow> digit_value c < digit_value d" "c = d \<longleftrightarrow> digit_value c = digit_value d"
    using Cons.prems
    by (auto simp: char_less_byte digit_value_def isdigit_def) (metis eq_diff_iff of_char_eq_iff)
  have step: "a * ?p + x < b * ?p + y" if "a < b" "x < ?p" for a b x y
  proof -
    have "(a + 1) * ?p \<le> b * ?p"
      using that(1) by (intro mult_le_mono1) simp
    with that(2) show ?thesis by (simp add: algebra_simps)
  qed
  consider "digit_value c < digit_value d" | "digit_value d < digit_value c" | "c = d"
    using cd by linarith
  then show ?case
  proof cases
    case 1
    with step [OF 1 bs(1), of "digits_value t"] cd show ?thesis
      by (simp add: digits_value_Cons flip: Cons.hyps)
  next
    case 2
    with step [OF 2 bs(2), of "digits_value s"] cd show ?thesis
      by (simp add: digits_value_Cons flip: Cons.hyps)
  next
    case 3
    with Cons show ?thesis by (simp add: digits_value_Cons)
  qed
qed simp

section \<open>Timestamps\<close>

definition date_year :: "string \<Rightarrow> nat" where "date_year s = digits_value (take 4 s)"
definition date_month :: "string \<Rightarrow> nat" where "date_month s = digits_value (take 2 (drop 5 s))"
definition date_day :: "string \<Rightarrow> nat" where "date_day s = digits_value (take 2 (drop 8 s))"

lemma iso_digits_positive:
  assumes "iso_digits value start count = Some v" and "1 \<le> v"
    and "length (take count (drop start value)) = count"
  shows "(\<forall>c \<in> set (take count (drop start value)). isdigit c) \<and>
    v = int (digits_value (take count (drop start value)))"
proof -
  let ?s = "take count (drop start value)"
  from assms(1) have f: "from_chars_i32 ?s = (Errc_ok, count, v)"
    by (auto simp: iso_digits_def split: prod.splits if_splits)
  have "\<not> (case ?s of [] \<Rightarrow> False | c # _ \<Rightarrow> c = CHR ''-'')"
    using f assms(2) by (auto simp: from_chars_i32_def from_chars_signed_def Let_def split: if_splits)
  then have "length (takeWhile isdigit ?s) = count \<and> v = int (digits_value (takeWhile isdigit ?s))"
    using f by (simp add: from_chars_i32_def from_chars_signed_def Let_def split: if_splits)
  moreover from this have "takeWhile isdigit ?s = ?s"
    using assms(3) by (metis takeWhile_eq_take take_all order_refl)
  ultimately show ?thesis
    by (simp add: takeWhile_eq_all_conv)
qed

lemma valid_iso_date_shape:
  assumes "valid_iso_date s"
  shows "s = take 4 s @ ''-'' @ take 2 (drop 5 s) @ ''-'' @ take 2 (drop 8 s)" (is ?shape)
    and "length (take 4 s) = 4 \<and> length (take 2 (drop 5 s)) = 2 \<and> length (take 2 (drop 8 s)) = 2"
    and "\<forall>c \<in> set (take 4 s @ take 2 (drop 5 s) @ take 2 (drop 8 s)). isdigit c"
    and "1 \<le> date_year s \<and> date_month s \<in> {1..12} \<and>
      valid_day (int (date_year s)) (int (date_month s)) (int (date_day s))"
proof -
  from assms have len: "length s = 10" and dash: "s ! 4 = CHR ''-''" "s ! 7 = CHR ''-''"
    by (auto simp: valid_iso_date_def split: if_splits)
  from len show l: "length (take 4 s) = 4 \<and> length (take 2 (drop 5 s)) = 2 \<and>
      length (take 2 (drop 8 s)) = 2" by simp
  obtain a b c d e f g h i j where s: "s = [a, b, c, d, e, f, g, h, i, j]"
    using len by (auto simp: numeral_eq_Suc length_Suc_conv)
  with dash show ?shape by simp
  from assms len dash obtain y m dd where d: "iso_digits s 0 4 = Some y" "iso_digits s 5 2 = Some m"
      "iso_digits s 8 2 = Some dd" and r: "1 \<le> y" "1 \<le> m" "m \<le> 12" "valid_day y m dd"
    by (auto simp: valid_iso_date_def split: if_splits option.splits)
  have "1 \<le> dd" using r(4) by (simp add: valid_day_def Let_def)
  note Y = iso_digits_positive [OF d(1) r(1)] and M = iso_digits_positive [OF d(2) r(2)]
    and D = iso_digits_positive [OF d(3) \<open>1 \<le> dd\<close>]
  from Y M D l show "\<forall>c \<in> set (take 4 s @ take 2 (drop 5 s) @ take 2 (drop 8 s)). isdigit c"
    by (auto simp: s)
  from Y M D l r show "1 \<le> date_year s \<and> date_month s \<in> {1..12} \<and>
      valid_day (int (date_year s)) (int (date_month s)) (int (date_day s))"
    by (simp add: date_year_def date_month_def date_day_def)
qed

section \<open>Properties\<close>

lemma find_named:
  "distinct (map fd_name flds) \<Longrightarrow>
    find (\<lambda>f. fd_name f = name) flds = Some field \<longleftrightarrow> field \<in> set flds \<and> fd_name field = name"
  by (induction flds) (auto simp: image_iff)

text \<open>
  C34: \<^verbatim>\<open>IndexSchema::create\<close> fails exactly when a definition lacks a name, has an infinite, NaN or
  negative boost, or has an analyzer without being an indexed text or keyword field or the other
  way round, or when a name occurs twice; otherwise the schema it returns finds exactly the
  given definitions by name.
\<close>

theorem schema_create_spec:
  "case schema_create flds of
     Inl e \<Rightarrow> (\<exists>field \<in> set flds. \<not> definition_ok field) \<or> \<not> distinct (map fd_name flds)
   | Inr schema \<Rightarrow>
       (\<forall>field \<in> set flds. definition_ok field) \<and> distinct (map fd_name flds) \<and> om_ok schema \<and>
       (\<forall>name field. schema_find schema name = Some field \<longleftrightarrow>
          field \<in> set flds \<and> fd_name field = name)"
proof (cases "schema_create flds")
  case (Inl e)
  then show ?thesis
    using schema_create_from_Inr_iff [of "[]" flds] by (auto simp: schema_create_def)
next
  case (Inr schema)
  then have "(\<forall>field \<in> set flds. definition_ok field) \<and> distinct (map fd_name flds)"
    and "schema = fold (\<lambda>field. om_assign (fd_name field) field) flds []"
    by (simp_all add: schema_create_def schema_create_from_Inr_iff)
  moreover from this have "schema_find schema name = find (\<lambda>f. fd_name f = name) flds" for name
    by (simp add: schema_find_def map_of_fold_assign split: option.splits)
  ultimately show ?thesis
    using Inr by (simp add: om_ok_fold_assign find_named)
qed

theorem schema_create_spec_witness:
  "\<exists>schema. schema_create default_fields = Inr schema \<and> om_ok schema \<and>
     (\<forall>name field. schema_find schema name = Some field \<longleftrightarrow>
        field \<in> set default_fields \<and> fd_name field = name)"
proof -
  have "(\<forall>field \<in> set default_fields. definition_ok field) \<and> distinct (map fd_name default_fields)"
    by (simp add: default_fields_def definition_ok_def needs_analyzer_def fp_eval_defs
        Let_def)
  with schema_create_spec [of default_fields] show ?thesis
    by (auto split: sum.splits)
qed

text \<open>
  On the timestamps the schema accepts, the byte order of the text that range filters use
  is the calendar order.
\<close>

theorem iso_date_order:
  assumes "valid_iso_date s" and "valid_iso_date t"
  shows "s < t \<longleftrightarrow>
    date_year s < date_year t \<or>
    date_year s = date_year t \<and> (date_month s < date_month t \<or>
      date_month s = date_month t \<and> date_day s < date_day t)"
proof -
  note S = valid_iso_date_shape [OF assms(1)] and T = valid_iso_date_shape [OF assms(2)]
  have eq: "x = y \<longleftrightarrow> digits_value x = digits_value y" and lt: "x < y \<longleftrightarrow> digits_value x < digits_value y"
    if "length x = length y" "\<forall>c \<in> set x. isdigit c" "\<forall>c \<in> set y. isdigit c" for x y
    using digits_less_iff [of x y] digits_less_iff [of y x] that
    by (metis linorder_neq_iff, simp)
  have dash: "''-'' @ u < ''-'' @ v \<longleftrightarrow> u < v" for u v :: string
    by simp
  show ?thesis
    by (subst S(1), subst T(1))
      (use S(2,3) T(2,3) in \<open>simp add: append_less_append dash eq lt
        date_year_def date_month_def date_day_def del: append_Cons append_Nil\<close>)
qed

theorem iso_date_order_witness:
  "valid_iso_date ''2024-02-29'' \<and> valid_iso_date ''2024-10-01'' \<and>
   ''2024-02-29'' < ''2024-10-01'' \<and> \<not> valid_iso_date ''2023-02-29''"
proof -
  have v: "valid_iso_date ''2024-02-29''" "valid_iso_date ''2024-10-01''"
    by (simp_all add: valid_iso_date_def iso_digits_def from_chars_i32_def from_chars_signed_def
        isdigit_def digits_value_def digit_value_def valid_day_def days_per_month_def Let_def)
  have "\<not> valid_iso_date ''2023-02-29''"
    by (simp add: valid_iso_date_def iso_digits_def from_chars_i32_def from_chars_signed_def
        isdigit_def digits_value_def digit_value_def valid_day_def days_per_month_def Let_def)
  with v iso_date_order [OF v] show ?thesis
    by (simp add: date_year_def date_month_def date_day_def digits_value_def digit_value_def)
qed

end
