(* ===== verification/Document.thy ===== *)
theory Document
  imports Prelude
begin

text \<open>
  Documents: \<^verbatim>\<open>include/dse/document.hpp\<close>. A \<^verbatim>\<open>DocumentId\<close> is a \<^verbatim>\<open>StrongId\<close> over a string and
  an \<^verbatim>\<open>InternalDocumentId\<close> one over a \<^verbatim>\<open>uint32_t\<close> (\<^verbatim>\<open>include/dse/types.hpp\<close>); both compare as
  their values do and are modelled by them.
\<close>

type_synonym document_id = string
type_synonym internal_document_id = u32
type_synonym generation_id = u64
type_synonym segment_id = u64

record document =
  doc_id :: document_id
  doc_fields :: "(string, string) omap"
  doc_metadata :: "(string, string) omap"
  doc_version :: u64
  doc_deleted :: bool

text \<open>The class invariant of the two \<^verbatim>\<open>std::map\<close> members.\<close>

definition document_ok :: "document \<Rightarrow> bool" where
  "document_ok d \<longleftrightarrow> om_ok (doc_fields d) \<and> om_ok (doc_metadata d)"

definition tombstone :: "document_id \<Rightarrow> u64 \<Rightarrow> document" where
  "tombstone did version =
     \<lparr>doc_id = did, doc_fields = [], doc_metadata = [], doc_version = version, doc_deleted = True\<rparr>"

lemma tombstone_simps [simp]:
  "doc_id (tombstone did version) = did" "doc_fields (tombstone did version) = []"
  "doc_metadata (tombstone did version) = []" "doc_version (tombstone did version) = version"
  "doc_deleted (tombstone did version)" "document_ok (tombstone did version)"
  by (simp_all add: tombstone_def document_ok_def)

end
