(* ===== verification/Index.thy ===== *)
theory Index
  imports Schema Document
begin

text \<open>
  The in-memory inverted index: \<^verbatim>\<open>src/index/in_memory_index.cpp\<close> with the data types of
  \<^verbatim>\<open>include/dse/index/search_index_view.hpp\<close>. The state is one record; \<open>index_put\<close> and
  \<open>index_erase\<close> are the mutations, the other operations read.

  A mutation validates, analyses into prepared postings, then changes staged copies and
  publishes them. An early return is \<open>Inl\<close>. Dereferencing a null pointer, which C++ leaves
  undefined, is the separate result \<open>Null_dereference\<close>: the sources reach it when a document
  has a value for an indexed field without an analyzer, which the schema allows for the types
  \<^verbatim>\<open>int64\<close> and \<^verbatim>\<open>timestamp\<close>.
\<close>

section \<open>State\<close>

record posting =
  p_doc :: internal_document_id
  p_tf :: u32
  p_positions :: "u32 list"

record term_entry =
  te_df :: u32
  te_postings :: "posting list"

record document_record =
  dr_internal_id :: internal_document_id
  dr_document :: document
  dr_field_lengths :: "(string, u32) omap"
  dr_indexed_terms :: "(string, string list) omap"

type_synonym dictionary = "(string, term_entry) omap"
type_synonym field_dictionaries = "(string, dictionary) omap"
type_synonym document_records = "(document_id, document_record) omap"
type_synonym external_id_map = "(internal_document_id, document_id) omap"

record field_accumulator =
  fa_count :: u64
  fa_total :: u64

record field_statistics =
  fs_count :: u64
  fs_total :: u64
  fs_average :: double

record index =
  ix_schema :: schema
  ix_fields :: field_dictionaries
  ix_documents :: document_records
  ix_external_ids :: external_id_map
  ix_statistics :: "(string, field_accumulator) omap"
  ix_next_internal_id :: u32
  ix_maximum_internal_id :: u32

datatype index_error_code =
    Empty_document_id | Stale_version | Schema_error | Internal_id_exhausted
  | Analysis_failed | Field_length_overflow

record index_error =
  ie_code :: index_error_code
  ie_message :: string
  ie_schema_error :: "schema_error option"

datatype index_fault = Rejected index_error | Null_dereference

definition index_new :: "schema \<Rightarrow> u32 \<Rightarrow> index" where
  "index_new schema maximum_internal_id =
     \<lparr>ix_schema = schema, ix_fields = [], ix_documents = [], ix_external_ids = [],
      ix_statistics = [], ix_next_internal_id = 1, ix_maximum_internal_id = maximum_internal_id\<rparr>"

section \<open>Preparation\<close>

definition index_fail :: "index_error_code \<Rightarrow> string \<Rightarrow> index_fault" where
  "index_fail code message =
     Rejected \<lparr>ie_code = code, ie_message = message, ie_schema_error = None\<rparr>"

definition schema_fault :: "schema_error \<Rightarrow> index_fault" where
  "schema_fault e =
     Rejected \<lparr>ie_code = Schema_error, ie_message = se_message e, ie_schema_error = Some e\<rparr>"

text \<open>
  The two validation loops of \<open>put\<close>, over the indexed fields and over the stored metadata;
  they differ in the policy they ask of the definition and in the error for it.
\<close>

fun validate_all ::
  "schema \<Rightarrow> (field_definition \<Rightarrow> bool) \<Rightarrow> (string \<Rightarrow> schema_error) \<Rightarrow> (string, string) omap \<Rightarrow>
   (index_fault, unit) result" where
  "validate_all schema policy policy_error [] = Inr ()"
| "validate_all schema policy policy_error ((field, value) # rest) =
     (case validate_value schema field value of
        Inl e \<Rightarrow> Inl (schema_fault e)
      | Inr _ \<Rightarrow> (case schema_find schema field of
          None \<Rightarrow> Inl Null_dereference
        | Some definition \<Rightarrow>
            if \<not> policy definition then Inl (schema_fault (policy_error field))
            else validate_all schema policy policy_error rest))"

definition validate_document :: "schema \<Rightarrow> document \<Rightarrow> (index_fault, unit) result" where
  "validate_document schema d =
     (case validate_all schema fd_indexed
             (\<lambda>field. schema_fail Field_not_indexed field ''field is not configured for indexing'')
             (doc_fields d) of
        Inl e \<Rightarrow> Inl e
      | Inr _ \<Rightarrow> validate_all schema fd_stored
             (\<lambda>field. schema_fail Field_not_stored field
                ''field is not configured for stored metadata'')
             (doc_metadata d))"

text \<open>The prepared state of one document: lengths, positions by field and term, terms by field.\<close>

record prepared =
  pr_lengths :: "(string, u32) omap"
  pr_postings :: "(string, (string, u32 list) omap) omap"
  pr_terms :: "(string, string list) omap"

fun add_positions :: "token list \<Rightarrow> (string, u32 list) omap \<Rightarrow> (string, u32 list) omap" where
  "add_positions [] positions = positions"
| "add_positions (tok # rest) positions =
     add_positions rest
       (om_assign (tok_term tok) (om_get [] positions (tok_term tok) @ [tok_position tok]) positions)"

definition prepare_field :: "string \<Rightarrow> token list \<Rightarrow> prepared \<Rightarrow> prepared" where
  "prepare_field field tokens p =
     (let positions = add_positions tokens (om_get [] (pr_postings p) field)
      in \<lparr>pr_lengths = om_assign field (of_nat (length tokens)) (pr_lengths p),
          pr_postings = om_assign field positions (pr_postings p),
          pr_terms = om_assign field (om_get [] (pr_terms p) field @ map fst positions)
                       (pr_terms p)\<rparr>)"

fun analyze_fields ::
  "schema \<Rightarrow> (string, string) omap \<Rightarrow> prepared \<Rightarrow> (index_fault, prepared) result" where
  "analyze_fields schema [] p = Inr p"
| "analyze_fields schema ((field, value) # rest) p =
     (case schema_find schema field of
        None \<Rightarrow> analyze_fields schema rest p
      | Some definition \<Rightarrow>
          if \<not> fd_indexed definition then analyze_fields schema rest p
          else (case fd_analyzer definition of
                  None \<Rightarrow> Inl Null_dereference
                | Some a \<Rightarrow> (case analyze a value of
                    Inl what \<Rightarrow>
                      Inl (index_fail Analysis_failed (''document analysis failed: '' @ what))
                  | Inr tokens \<Rightarrow>
                      if length tokens > 2 ^ 32 - 1 then
                        Inl (index_fail Field_length_overflow
                               ''analyzed field length exceeds uint32 range'')
                      else analyze_fields schema rest (prepare_field field tokens p))))"

definition prepare :: "schema \<Rightarrow> document \<Rightarrow> (index_fault, prepared) result" where
  "prepare schema d =
     (let empty = \<lparr>pr_lengths = [], pr_postings = [], pr_terms = []\<rparr>
      in if doc_deleted d then Inr empty else analyze_fields schema (doc_fields d) empty)"

section \<open>Publication\<close>

text \<open>Removal of the visible version of the document, through its own term references.\<close>

fun remove_length ::
  "string \<times> u32 \<Rightarrow> (string, field_accumulator) omap \<Rightarrow> (string, field_accumulator) omap" where
  "remove_length (field, len) statistics =
     (case map_of statistics field of
        None \<Rightarrow> statistics
      | Some st \<Rightarrow>
          let st' = \<lparr>fa_count = fa_count st - 1, fa_total = fa_total st - ucast len\<rparr>
          in if fa_count st' = 0 then om_erase field statistics
             else om_assign field st' statistics)"

definition remove_term :: "internal_document_id \<Rightarrow> string \<Rightarrow> dictionary \<Rightarrow> dictionary" where
  "remove_term internal trm dict =
     (case map_of dict trm of
        None \<Rightarrow> dict
      | Some entry \<Rightarrow>
          let ps = filter (\<lambda>p. p_doc p \<noteq> internal) (te_postings entry)
          in if ps = [] then om_erase trm dict
             else om_assign trm \<lparr>te_df = of_nat (length ps), te_postings = ps\<rparr> dict)"

fun remove_terms ::
  "internal_document_id \<Rightarrow> string \<times> string list \<Rightarrow> field_dictionaries \<Rightarrow> field_dictionaries" where
  "remove_terms internal (field, terms) dicts =
     (case map_of dicts field of
        None \<Rightarrow> dicts
      | Some dict \<Rightarrow>
          let dict' = fold (remove_term internal) terms dict
          in if dict' = [] then om_erase field dicts else om_assign field dict' dicts)"

text \<open>Insertion of the prepared postings and lengths.\<close>

fun insert_posting ::
  "internal_document_id \<Rightarrow> string \<Rightarrow> string \<times> u32 list \<Rightarrow> field_dictionaries \<Rightarrow>
   field_dictionaries" where
  "insert_posting internal field (trm, positions) dicts =
     (let dict = om_get [] dicts field;
          entry = om_get \<lparr>te_df = 0, te_postings = []\<rparr> dict trm;
          p = \<lparr>p_doc = internal, p_tf = of_nat (length positions), p_positions = positions\<rparr>;
          ps = sort_key p_doc (te_postings entry @ [p])
      in om_assign field
           (om_assign trm \<lparr>te_df = of_nat (length ps), te_postings = ps\<rparr> dict) dicts)"

fun insert_field ::
  "internal_document_id \<Rightarrow> string \<times> (string, u32 list) omap \<Rightarrow> field_dictionaries \<Rightarrow>
   field_dictionaries" where
  "insert_field internal (field, positions) dicts = fold (insert_posting internal field) positions dicts"

fun insert_length ::
  "string \<times> u32 \<Rightarrow> (string, field_accumulator) omap \<Rightarrow> (string, field_accumulator) omap" where
  "insert_length (field, len) statistics =
     (let st = om_get \<lparr>fa_count = 0, fa_total = 0\<rparr> statistics field
      in om_assign field \<lparr>fa_count = fa_count st + 1, fa_total = fa_total st + ucast len\<rparr> statistics)"

definition publish :: "index \<Rightarrow> internal_document_id \<Rightarrow> document \<Rightarrow> prepared \<Rightarrow> index" where
  "publish ix internal d p =
     (let existing = map_of (ix_documents ix) (doc_id d);
          record' = \<lparr>dr_internal_id = internal, dr_document = d, dr_field_lengths = pr_lengths p,
                     dr_indexed_terms = pr_terms p\<rparr>;
          (dicts1, stats1) =
            (case existing of
               None \<Rightarrow> (ix_fields ix, ix_statistics ix)
             | Some old \<Rightarrow>
                 if doc_deleted (dr_document old) then (ix_fields ix, ix_statistics ix)
                 else (fold (remove_terms internal) (dr_indexed_terms old) (ix_fields ix),
                       fold remove_length (dr_field_lengths old) (ix_statistics ix)));
          (dicts2, stats2) =
            (if doc_deleted d then (dicts1, stats1)
             else (fold (insert_field internal) (pr_postings p) dicts1,
                   fold insert_length (pr_lengths p) stats1))
      in ix\<lparr>ix_fields := dicts2,
            ix_documents := om_assign (doc_id d) record' (ix_documents ix),
            ix_external_ids := om_assign internal (doc_id d) (ix_external_ids ix),
            ix_statistics := stats2,
            ix_next_internal_id :=
              (if existing = None then ix_next_internal_id ix + 1 else ix_next_internal_id ix)\<rparr>)"

section \<open>Mutations\<close>

definition allocate :: "index \<Rightarrow> document_id \<Rightarrow> (index_fault, internal_document_id) result" where
  "allocate ix did =
     (case map_of (ix_documents ix) did of
        None \<Rightarrow>
          if ix_next_internal_id ix = 0 \<or> ix_next_internal_id ix > ix_maximum_internal_id ix then
            Inl (index_fail Internal_id_exhausted ''segment-local document ID space is exhausted'')
          else Inr (ix_next_internal_id ix)
      | Some old \<Rightarrow> Inr (dr_internal_id old))"

definition stale :: "index \<Rightarrow> document_id \<Rightarrow> u64 \<Rightarrow> bool" where
  "stale ix did version =
     (case map_of (ix_documents ix) did of
        None \<Rightarrow> False
      | Some old \<Rightarrow> version \<le> doc_version (dr_document old))"

definition index_put :: "index \<Rightarrow> document \<Rightarrow> (index_fault, index) result" where
  "index_put ix d =
     (if doc_id d = [] then Inl (index_fail Empty_document_id ''document ID must not be empty'')
      else if stale ix (doc_id d) (doc_version d) then
        Inl (index_fail Stale_version ''document version must be newer than visible version'')
      else case validate_document (ix_schema ix) d of
             Inl e \<Rightarrow> Inl e
           | Inr _ \<Rightarrow> (case allocate ix (doc_id d) of
               Inl e \<Rightarrow> Inl e
             | Inr internal \<Rightarrow> (case prepare (ix_schema ix) d of
                 Inl e \<Rightarrow> Inl e
               | Inr p \<Rightarrow> Inr (publish ix internal d p))))"

definition index_erase :: "index \<Rightarrow> document_id \<Rightarrow> u64 \<Rightarrow> (index_fault, index) result" where
  "index_erase ix did version =
     (if stale ix did version then
        Inl (index_fail Stale_version ''delete version must be newer than visible version'')
      else index_put ix (tombstone did version))"

section \<open>Reads\<close>

definition index_lookup :: "index \<Rightarrow> string \<Rightarrow> string \<Rightarrow> term_entry option" where
  "index_lookup ix field trm =
     (case map_of (ix_fields ix) field of None \<Rightarrow> None | Some dict \<Rightarrow> map_of dict trm)"

definition index_document :: "index \<Rightarrow> document_id \<Rightarrow> document_record option" where
  "index_document ix did = map_of (ix_documents ix) did"

definition index_external_id :: "index \<Rightarrow> internal_document_id \<Rightarrow> document_id option" where
  "index_external_id ix internal = map_of (ix_external_ids ix) internal"

definition index_document_internal :: "index \<Rightarrow> internal_document_id \<Rightarrow> document_record option" where
  "index_document_internal ix internal =
     (case index_external_id ix internal of None \<Rightarrow> None | Some did \<Rightarrow> index_document ix did)"

definition index_internal_id :: "index \<Rightarrow> document_id \<Rightarrow> internal_document_id option" where
  "index_internal_id ix did = map_option dr_internal_id (map_of (ix_documents ix) did)"

definition index_live_document_ids :: "index \<Rightarrow> internal_document_id list" where
  "index_live_document_ids ix =
     map fst (filter (\<lambda>(internal, did).
       case index_document ix did of None \<Rightarrow> False | Some r \<Rightarrow> \<not> doc_deleted (dr_document r))
       (ix_external_ids ix))"

definition index_live_document_count :: "index \<Rightarrow> nat" where
  "index_live_document_count ix =
     length (filter (\<lambda>(did, r). \<not> doc_deleted (dr_document r)) (ix_documents ix))"

definition statistics_of :: "field_accumulator \<Rightarrow> field_statistics" where
  "statistics_of st =
     \<lparr>fs_count = fa_count st, fs_total = fa_total st,
      fs_average = fdiv (fp_of_int (uint (fa_total st))) (fp_of_int (uint (fa_count st)))\<rparr>"

definition index_field_statistics :: "index \<Rightarrow> string \<Rightarrow> field_statistics" where
  "index_field_statistics ix field =
     (case map_of (ix_statistics ix) field of
        None \<Rightarrow> \<lparr>fs_count = 0, fs_total = 0, fs_average = fp_zero\<rparr>
      | Some st \<Rightarrow> statistics_of st)"

section \<open>The self check\<close>

text \<open>
  \<^verbatim>\<open>validate_invariants\<close>: the first test that fails gives its reason. An analyzer that throws
  here lets the exception through. The first loop has tested that every list of postings is
  sorted when \<^verbatim>\<open>std::ranges::lower_bound\<close> searches it.
\<close>

datatype validation_failure = Reason string | Null_analyzer | Threw string

definition validate_posting ::
  "index \<Rightarrow> string \<Rightarrow> string \<Rightarrow> posting \<Rightarrow> unit \<Rightarrow> (validation_failure, unit) result" where
  "validate_posting ix field trm p u =
     (case index_document_internal ix (p_doc p) of
        None \<Rightarrow> Inl (Reason ''posting references missing/deleted document'')
      | Some r \<Rightarrow>
          if doc_deleted (dr_document r) then
            Inl (Reason ''posting references missing/deleted document'')
          else if unat (p_tf p) \<noteq> length (p_positions p) then Inl (Reason ''term frequency mismatch'')
          else if \<not> sorted (p_positions p) \<or> \<not> no_adjacent_equal (p_positions p) then
            Inl (Reason ''positions not strictly increasing'')
          else if \<not> om_contains (dr_field_lengths r) field then Inl (Reason ''field length missing'')
          else if trm = [] then Inl (Reason ''empty term'')
          else Inr ())"

definition validate_entry ::
  "index \<Rightarrow> string \<Rightarrow> string \<times> term_entry \<Rightarrow> unit \<Rightarrow> (validation_failure, unit) result" where
  "validate_entry ix field = (\<lambda>(trm, entry) u.
     if unat (te_df entry) \<noteq> length (te_postings entry) then
       Inl (Reason ''document frequency mismatch'')
     else if \<not> sorted (map p_doc (te_postings entry)) then Inl (Reason ''unsorted postings'')
     else fold_result (validate_posting ix field trm) (te_postings entry) ())"

definition validate_reference ::
  "index \<Rightarrow> document_record \<Rightarrow> string \<Rightarrow> string \<Rightarrow> unit \<Rightarrow> (validation_failure, unit) result" where
  "validate_reference ix r field trm u =
     (case index_lookup ix field trm of
        None \<Rightarrow> Inl (Reason ''document term reference is missing from dictionary'')
      | Some entry \<Rightarrow>
          (case lower_bound p_doc (dr_internal_id r) (te_postings entry) of
             [] \<Rightarrow> Inl (Reason ''document term reference is missing its posting'')
           | p # _ \<Rightarrow>
               if p_doc p \<noteq> dr_internal_id r then
                 Inl (Reason ''document term reference is missing its posting'')
               else Inr ()))"

definition validate_terms ::
  "index \<Rightarrow> document_record \<Rightarrow> string \<Rightarrow> (validation_failure, unit) result" where
  "validate_terms ix r field =
     (case map_of (dr_indexed_terms r) field of
        None \<Rightarrow> Inl (Reason ''document term references are missing, unsorted, or duplicated'')
      | Some terms \<Rightarrow>
          if \<not> sorted terms \<or> \<not> no_adjacent_equal terms then
            Inl (Reason ''document term references are missing, unsorted, or duplicated'')
          else fold_result (validate_reference ix r field) terms ())"

text \<open>One field of a live document; the state is \<^verbatim>\<open>expected_statistics\<close>.\<close>

definition validate_field ::
  "index \<Rightarrow> document_record \<Rightarrow> string \<times> string \<Rightarrow> (string, field_accumulator) omap \<Rightarrow>
   (validation_failure, (string, field_accumulator) omap) result" where
  "validate_field ix r = (\<lambda>(field, value) expected_statistics.
     case schema_find (ix_schema ix) field of
       None \<Rightarrow> Inl (Reason ''document contains unknown field'')
     | Some fd \<Rightarrow>
         if \<not> fd_indexed fd then Inr expected_statistics
         else (case fd_analyzer fd of
           None \<Rightarrow> Inl Null_analyzer
         | Some a \<Rightarrow> (case analyze a value of
             Inl what \<Rightarrow> Inl (Threw what)
           | Inr tokens \<Rightarrow> (case map_of (dr_field_lengths r) field of
               None \<Rightarrow> Inl (Reason ''field length mismatch'')
             | Some len \<Rightarrow>
                 if unat len \<noteq> length tokens then Inl (Reason ''field length mismatch'')
                 else let expected' = insert_length (field, len) expected_statistics
                      in (case validate_terms ix r field of
                            Inl e \<Rightarrow> Inl e
                          | Inr _ \<Rightarrow> Inr expected')))))"

definition validate_record ::
  "index \<Rightarrow> document_id \<times> document_record \<Rightarrow> (string, field_accumulator) omap \<Rightarrow>
   (validation_failure, (string, field_accumulator) omap) result" where
  "validate_record ix = (\<lambda>(did, r) expected_statistics.
     if did \<noteq> doc_id (dr_document r) then Inl (Reason ''document key mismatch'')
     else if map_of (ix_external_ids ix) (dr_internal_id r) \<noteq> Some did then
       Inl (Reason ''document ID mapping mismatch'')
     else if doc_deleted (dr_document r) \<and> (dr_field_lengths r \<noteq> [] \<or> dr_indexed_terms r \<noteq> []) then
       Inl (Reason ''tombstone has analyzed field state'')
     else if doc_deleted (dr_document r) then Inr expected_statistics
     else fold_result (validate_field ix r) (doc_fields (dr_document r)) expected_statistics)"

definition validate_statistic ::
  "index \<Rightarrow> string \<times> field_accumulator \<Rightarrow> unit \<Rightarrow> (validation_failure, unit) result" where
  "validate_statistic ix = (\<lambda>(field, expected) u.
     if map_of (ix_statistics ix) field \<noteq> Some expected then
       Inl (Reason ''field statistics mismatch'')
     else Inr ())"

definition validate_invariants :: "index \<Rightarrow> (validation_failure, unit) result" where
  "validate_invariants ix =
     (case fold_result (\<lambda>(field, dict). fold_result (validate_entry ix field) dict) (ix_fields ix) () of
        Inl e \<Rightarrow> Inl e
      | Inr _ \<Rightarrow> (case fold_result (validate_record ix) (ix_documents ix) [] of
          Inl e \<Rightarrow> Inl e
        | Inr expected_statistics \<Rightarrow>
            if length (ix_external_ids ix) \<noteq> length (ix_documents ix) then
              Inl (Reason ''document mapping size mismatch'')
            else if length expected_statistics \<noteq> length (ix_statistics ix) then
              Inl (Reason ''field statistics size mismatch'')
            else fold_result (validate_statistic ix) expected_statistics ()))"

section \<open>Snapshots\<close>

text \<open>\<^verbatim>\<open>IndexSnapshot\<close>: the immutable copy a segment is written from.\<close>

record index_snapshot =
  sn_schema :: schema
  sn_fields :: field_dictionaries
  sn_documents :: document_records
  sn_external_ids :: external_id_map
  sn_statistics :: "(string, field_statistics) omap"

definition index_snapshot_of :: "index \<Rightarrow> index_snapshot" where
  "index_snapshot_of ix =
     \<lparr>sn_schema = ix_schema ix, sn_fields = ix_fields ix, sn_documents = ix_documents ix,
      sn_external_ids = ix_external_ids ix,
      sn_statistics = map (\<lambda>(field, st). (field, statistics_of st)) (ix_statistics ix)\<rparr>"

end
