(* ===== verification/Index_Proofs.thy ===== *)
theory Index_Proofs
  imports Index
begin

text \<open>
  What the index means: the abstract content of a document (\<open>doc_analysed\<close>: what the analysers
  return for its indexed fields), the inverted index as the inversion of the document store
  (\<open>plist_inv\<close>), the statistics as sums over it (\<open>stats_inv\<close>), and the lemmas that each stage
  of \<open>index_put\<close> moves one to the other. \<open>index_inv\<close> is the representation invariant;
  the properties that rest on it are at the end.
\<close>

section \<open>The abstract content of a document\<close>

definition field_tokens :: "schema \<Rightarrow> string \<Rightarrow> string \<Rightarrow> token list option" where
  "field_tokens schema field value =
     (case schema_find schema field of
        None \<Rightarrow> None
      | Some definition \<Rightarrow>
          if \<not> fd_indexed definition then None
          else (case fd_analyzer definition of
                  None \<Rightarrow> None
                | Some a \<Rightarrow> (case analyze a value of Inl _ \<Rightarrow> None | Inr tokens \<Rightarrow> Some tokens)))"

fun analysed :: "schema \<Rightarrow> (string, string) omap \<Rightarrow> (string, token list) omap" where
  "analysed schema [] = []"
| "analysed schema ((field, value) # rest) =
     (case field_tokens schema field value of
        None \<Rightarrow> analysed schema rest
      | Some tokens \<Rightarrow> (field, tokens) # analysed schema rest)"

definition doc_analysed :: "schema \<Rightarrow> document \<Rightarrow> (string, token list) omap" where
  "doc_analysed schema d = (if doc_deleted d then [] else analysed schema (doc_fields d))"

definition positions_of :: "string \<Rightarrow> token list \<Rightarrow> u32 list" where
  "positions_of trm tokens = map tok_position (filter (\<lambda>tok. tok_term tok = trm) tokens)"

definition term_positions :: "schema \<Rightarrow> document \<Rightarrow> string \<Rightarrow> string \<Rightarrow> u32 list" where
  "term_positions schema d field trm =
     positions_of trm (om_get [] (doc_analysed schema d) field)"

definition doc_posting :: "schema \<Rightarrow> document_record \<Rightarrow> string \<Rightarrow> string \<Rightarrow> posting" where
  "doc_posting schema r field trm =
     (let ps = term_positions schema (dr_document r) field trm
      in \<lparr>p_doc = dr_internal_id r, p_tf = of_nat (length ps), p_positions = ps\<rparr>)"

lemma doc_posting_doc [simp]: "p_doc (doc_posting schema r field trm) = dr_internal_id r"
  by (simp add: doc_posting_def Let_def)

lemma positions_of_Nil [simp]: "positions_of trm [] = []"
  by (simp add: positions_of_def)

lemma positions_of_Nil_iff: "positions_of trm tokens = [] \<longleftrightarrow> trm \<notin> tok_term ` set tokens"
  by (auto simp: positions_of_def filter_empty_conv)

lemma keys_analysed: "fst ` set (analysed schema xs) \<subseteq> fst ` set xs"
  by (induction schema xs rule: analysed.induct) (auto split: option.splits)

lemma om_ok_analysed: "om_ok xs \<Longrightarrow> om_ok (analysed schema xs)"
proof (induction schema xs rule: analysed.induct)
  case (2 schema field "value" rest)
  then show ?case
    using keys_analysed [of schema rest] by (fastforce split: option.splits)
qed simp

lemma map_of_analysed:
  "distinct (map fst xs) \<Longrightarrow>
    map_of (analysed schema xs) f = Option.bind (map_of xs f) (field_tokens schema f)"
proof (induction schema xs rule: analysed.induct)
  case (2 schema field "value" rest)
  then have "map_of (analysed schema rest) field = None"
    using keys_analysed [of schema rest] by (auto simp: map_of_eq_None_iff)
  with 2 show ?case by (auto split: option.splits)
qed simp

lemma om_ok_doc_analysed: "document_ok d \<Longrightarrow> om_ok (doc_analysed schema d)"
  by (simp add: doc_analysed_def document_ok_def om_ok_analysed)

section \<open>Preparation\<close>

lemma map_of_add_positions:
  "map_of (add_positions tokens m) trm =
     (case map_of m trm of
        None \<Rightarrow> if positions_of trm tokens = [] then None else Some (positions_of trm tokens)
      | Some ps \<Rightarrow> Some (ps @ positions_of trm tokens))"
  by (induction tokens m rule: add_positions.induct)
    (auto simp: positions_of_def om_get_def split: option.splits)

lemma om_ok_add_positions: "om_ok m \<Longrightarrow> om_ok (add_positions tokens m)"
  by (induction tokens m rule: add_positions.induct) (auto intro: om_ok_assign)

definition term_list :: "token list \<Rightarrow> string list" where
  "term_list tokens = map fst (add_positions tokens [])"

lemma set_term_list: "set (term_list tokens) = tok_term ` set tokens"
proof -
  have "set (term_list tokens) = dom (map_of (add_positions tokens []))"
    by (simp add: term_list_def dom_map_of_conv_image_fst)
  also have "\<dots> = {trm. positions_of trm tokens \<noteq> []}"
    by (auto simp: dom_def map_of_add_positions)
  finally show ?thesis
    by (auto simp: positions_of_Nil_iff)
qed

lemma term_list_sorted: "sorted_wrt (<) (term_list tokens)"
  using om_ok_add_positions [OF om_ok_Nil, of tokens] by (simp add: term_list_def om_ok_def)

text \<open>
  The prepared state as a function of the analysed fields: as the fields come in key order,
  every assignment appends.
\<close>

definition lengths_of :: "(string, token list) omap \<Rightarrow> (string, u32) omap" where
  "lengths_of = map (\<lambda>(f, ts). (f, of_nat (length ts)))"

definition postings_of :: "(string, token list) omap \<Rightarrow> (string, (string, u32 list) omap) omap" where
  "postings_of = map (\<lambda>(f, ts). (f, add_positions ts []))"

definition terms_of :: "(string, token list) omap \<Rightarrow> (string, string list) omap" where
  "terms_of = map (\<lambda>(f, ts). (f, term_list ts))"

lemmas prepared_defs = lengths_of_def postings_of_def terms_of_def

lemma map_of_prepared [simp]:
  "map_of (lengths_of m) f = map_option (\<lambda>ts. of_nat (length ts)) (map_of m f)"
  "map_of (postings_of m) f = map_option (\<lambda>ts. add_positions ts []) (map_of m f)"
  "map_of (terms_of m) f = map_option term_list (map_of m f)"
  by (simp_all add: prepared_defs map_of_map)

lemma fst_prepared [simp]:
  "map fst (lengths_of m) = map fst m" "map fst (postings_of m) = map fst m"
  "map fst (terms_of m) = map fst m"
  by (simp_all add: prepared_defs case_prod_beta comp_def)

lemma prepared_Nil [simp]: "lengths_of [] = []" "postings_of [] = []" "terms_of [] = []"
  by (simp_all add: prepared_defs)

definition prepared_of :: "(string, token list) omap \<Rightarrow> prepared" where
  "prepared_of m =
     \<lparr>pr_lengths = lengths_of m, pr_postings = postings_of m, pr_terms = terms_of m\<rparr>"

lemma prepare_field_append:
  assumes "\<forall>x \<in> set m. fst x < field"
  shows "prepare_field field tokens (prepared_of m) = prepared_of (m @ [(field, tokens)])"
proof -
  have "map_of m field = None"
    using assms by (auto simp: map_of_eq_None_iff)
  moreover have "\<And>k v. (k, v) \<in> set m \<Longrightarrow> k < field"
    using assms by fastforce
  ultimately show ?thesis
    by (auto simp: prepare_field_def prepared_of_def Let_def om_get_def prepared_defs term_list_def
        map_of_map intro!: om_assign_append)
qed

text \<open>\<open>indexable\<close>: the field has an analyser and a text that it accepts, of a countable length.\<close>

definition indexable :: "schema \<Rightarrow> string \<Rightarrow> string \<Rightarrow> bool" where
  "indexable schema f v \<longleftrightarrow>
     (\<exists>tokens. field_tokens schema f v = Some tokens \<and> length tokens < 2 ^ 32)"

lemma analyze_fields_Inr:
  assumes "analyze_fields schema xs (prepared_of m) = Inr q" and "om_ok (map (\<lambda>(f, v). (f, ())) xs)"
    and "\<forall>x \<in> set m. \<forall>y \<in> set xs. fst x < fst y"
  shows "q = prepared_of (m @ analysed schema xs) \<and>
    (\<forall>(f, v) \<in> set xs.
       (\<exists>fd. schema_find schema f = Some fd \<and> fd_indexed fd) \<longrightarrow>
       indexable schema f v)"
  using assms
proof (induction xs arbitrary: m)
  case (Cons x xs)
  obtain f v where x: "x = (f, v)" by fastforce
  show ?case
  proof (cases "\<exists>fd. schema_find schema f = Some fd \<and> fd_indexed fd")
    case True
    then obtain fd where d: "schema_find schema f = Some fd" "fd_indexed fd"
      by blast
    with Cons.prems(1) obtain a tokens where a: "fd_analyzer fd = Some a"
        "analyze a v = Inr tokens" "length tokens \<le> 2 ^ 32 - 1"
        "analyze_fields schema xs (prepare_field f tokens (prepared_of m)) = Inr q"
      by (auto simp: x split: option.splits sum.splits if_splits)
    have t: "field_tokens schema f v = Some tokens"
      using d a by (simp add: field_tokens_def)
    have "prepare_field f tokens (prepared_of m) = prepared_of (m @ [(f, tokens)])"
      using Cons.prems(3) by (intro prepare_field_append) (auto simp: x)
    with a(4) have "analyze_fields schema xs (prepared_of (m @ [(f, tokens)])) = Inr q" by simp
    from Cons.IH [OF this] Cons.prems(2,3) t a(3) show ?thesis
      by (fastforce simp: x indexable_def)
  next
    case False
    then have "analyze_fields schema xs (prepared_of m) = Inr q" "field_tokens schema f v = None"
      using Cons.prems(1) by (auto simp: x field_tokens_def split: option.splits if_splits)
    with Cons.IH [of m] Cons.prems(2,3) False show ?thesis
      by (auto simp: x)
  qed
qed simp

lemma validate_all_indexed:
  "validate_all schema policy err xs = Inr () \<Longrightarrow> (f, v) \<in> set xs \<Longrightarrow>
    \<exists>fd. schema_find schema f = Some fd \<and> policy fd"
  by (induction schema policy err xs rule: validate_all.induct)
    (auto split: sum.splits option.splits if_splits)

lemma prepare_Inr:
  assumes "prepare schema d = Inr p" and "validate_document schema d = Inr u" and "document_ok d"
  shows "p = prepared_of (doc_analysed schema d)"
    and "\<not> doc_deleted d \<Longrightarrow> map_of (doc_fields d) f = Some v \<Longrightarrow> indexable schema f v"
proof -
  have E: "prepared_of [] = \<lparr>pr_lengths = [], pr_postings = [], pr_terms = []\<rparr>"
    by (simp add: prepared_of_def)
  have ok: "om_ok (map (\<lambda>(f, v). (f, ())) (doc_fields d))"
    using assms(3) by (simp add: document_ok_def om_ok_def case_prod_beta comp_def)
  have ix: "\<exists>fd. schema_find schema f = Some fd \<and> fd_indexed fd" if "(f, v) \<in> set (doc_fields d)" for f v
    using assms(2) that validate_all_indexed
    by (fastforce simp: validate_document_def split: sum.splits)
  have live: "p = prepared_of (analysed schema (doc_fields d)) \<and>
      (\<forall>(f, v) \<in> set (doc_fields d). indexable schema f v)" if "\<not> doc_deleted d"
    using assms(1) that ok ix analyze_fields_Inr [of schema "doc_fields d" "[]" p]
    by (fastforce simp: prepare_def E)
  show "p = prepared_of (doc_analysed schema d)"
    using live assms(1) by (cases "doc_deleted d") (simp_all add: prepare_def E doc_analysed_def)
  show "indexable schema f v" if "\<not> doc_deleted d" "map_of (doc_fields d) f = Some v"
    using live that map_of_SomeD by fastforce
qed

section \<open>The dictionaries\<close>

definition plist :: "field_dictionaries \<Rightarrow> string \<Rightarrow> string \<Rightarrow> posting list" where
  "plist dicts f t =
     (case Option.bind (map_of dicts f) (\<lambda>dict. map_of dict t) of
        None \<Rightarrow> [] | Some entry \<Rightarrow> te_postings entry)"

definition entry_ok :: "term_entry \<Rightarrow> bool" where
  "entry_ok entry \<longleftrightarrow> te_postings entry \<noteq> [] \<and> te_df entry = of_nat (length (te_postings entry))"

definition dict_ok :: "dictionary \<Rightarrow> bool" where
  "dict_ok dict \<longleftrightarrow> om_ok dict \<and> (\<forall>t entry. map_of dict t = Some entry \<longrightarrow> entry_ok entry)"

definition dicts_ok :: "field_dictionaries \<Rightarrow> bool" where
  "dicts_ok dicts \<longleftrightarrow> om_ok dicts \<and>
     (\<forall>f dict. map_of dicts f = Some dict \<longrightarrow> dict \<noteq> [] \<and> dict_ok dict)"

definition dlist :: "dictionary \<Rightarrow> string \<Rightarrow> posting list" where
  "dlist dict t = (case map_of dict t of None \<Rightarrow> [] | Some entry \<Rightarrow> te_postings entry)"

lemma dlist_Nil [simp]: "dlist [] t = []"
  by (simp add: dlist_def)

lemma plist_dlist: "plist dicts f t = dlist (om_get [] dicts f) t"
  by (simp add: plist_def dlist_def om_get_def split: option.splits)

lemma lookup_plist:
  assumes "dicts_ok (ix_fields ix)"
  shows "index_lookup ix f t =
    (let ps = plist (ix_fields ix) f t
     in if ps = [] then None else Some \<lparr>te_df = of_nat (length ps), te_postings = ps\<rparr>)"
proof (cases "index_lookup ix f t")
  case None
  then show ?thesis
    by (auto simp: index_lookup_def plist_def split: option.splits)
next
  case (Some entry)
  then obtain dict where d: "map_of (ix_fields ix) f = Some dict" "map_of dict t = Some entry"
    by (auto simp: index_lookup_def split: option.splits)
  with assms have "entry_ok entry"
    by (auto simp: dicts_ok_def dict_ok_def)
  with d Some show ?thesis
    by (auto simp: plist_def entry_ok_def Let_def)
qed

subsection \<open>Removal\<close>

lemma dict_ok_remove_term: "dict_ok dict \<Longrightarrow> dict_ok (remove_term i t dict)"
  by (auto simp: dict_ok_def remove_term_def Let_def entry_ok_def om_ok_assign om_ok_erase
      split: option.splits if_splits)

lemma dlist_remove_term:
  "dlist (remove_term i t dict) s =
    (if s = t then filter (\<lambda>p. p_doc p \<noteq> i) (dlist dict t) else dlist dict s)"
  by (auto simp: dlist_def remove_term_def Let_def split: option.splits)

lemma dlist_fold_remove_term:
  "dlist (fold (remove_term i) ts dict) s =
    (if s \<in> set ts then filter (\<lambda>p. p_doc p \<noteq> i) (dlist dict s) else dlist dict s)"
  by (induction ts arbitrary: dict) (auto simp: dlist_remove_term)

lemma dict_ok_fold_remove_term: "dict_ok dict \<Longrightarrow> dict_ok (fold (remove_term i) ts dict)"
  by (rule fold_keeps) (simp_all add: dict_ok_remove_term)

lemma dicts_ok_remove_terms: "dicts_ok dicts \<Longrightarrow> dicts_ok (remove_terms i x dicts)"
  by (cases x) (auto simp: dicts_ok_def Let_def om_ok_assign om_ok_erase dict_ok_fold_remove_term
      split: option.splits if_splits)

lemma map_of_remove_terms:
  "map_of (remove_terms i (f, ts) dicts) g =
    (if g = f then
       Option.bind (map_of dicts f) (\<lambda>dict. let dict' = fold (remove_term i) ts dict
         in if dict' = [] then None else Some dict')
     else map_of dicts g)"
  by (auto simp: Let_def split: option.splits)

lemma fold_remove_term_Nil [simp]: "fold (remove_term i) ts [] = []"
  by (induction ts) (simp_all add: remove_term_def)

lemma om_get_fold_remove:
  assumes "distinct (map fst terms)"
  shows "om_get [] (fold (remove_terms i) terms dicts) f =
    fold (remove_term i) (om_get [] terms f) (om_get [] dicts f)"
  using map_of_fold_local [where h = "\<lambda>_ ts o'. Option.bind o' (\<lambda>dict.
        let dict' = fold (remove_term i) ts dict in if dict' = [] then None else Some dict')",
      OF map_of_remove_terms assms, of dicts f]
  by (simp add: om_get_def Let_def split: option.splits)

lemma plist_fold_remove:
  assumes "distinct (map fst terms)"
  shows "plist (fold (remove_terms i) terms dicts) f t =
    (if t \<in> set (om_get [] terms f) then filter (\<lambda>p. p_doc p \<noteq> i) (plist dicts f t)
     else plist dicts f t)"
  by (simp add: plist_dlist om_get_fold_remove [OF assms] dlist_fold_remove_term)

lemma dicts_ok_fold_remove: "dicts_ok dicts \<Longrightarrow> dicts_ok (fold (remove_terms i) terms dicts)"
  by (rule fold_keeps) (simp_all add: dicts_ok_remove_terms)

subsection \<open>Insertion\<close>

definition ins :: "internal_document_id \<Rightarrow> string \<times> u32 list \<Rightarrow> dictionary \<Rightarrow> dictionary" where
  "ins i = (\<lambda>(t, positions) dict.
     let ps = sort_key p_doc (dlist dict t @
           [\<lparr>p_doc = i, p_tf = of_nat (length positions), p_positions = positions\<rparr>])
     in om_assign t \<lparr>te_df = of_nat (length ps), te_postings = ps\<rparr> dict)"

lemma insert_posting_ins:
  "insert_posting i f x dicts = om_assign f (ins i x (om_get [] dicts f)) dicts"
  by (cases x)
    (simp add: ins_def Let_def om_get_def [of "\<lparr>te_df = 0, te_postings = []\<rparr>"] dlist_def
      split: option.splits)

lemma map_of_insert_field:
  "map_of (insert_field i (f, positions) dicts) g =
    (if g = f then
       (if positions = [] then map_of dicts f
        else Some (fold (ins i) positions (case map_of dicts f of None \<Rightarrow> [] | Some dict \<Rightarrow> dict)))
     else map_of dicts g)"
proof -
  have "map_of (fold (insert_posting i f) positions dicts) g =
      (if g = f \<and> positions \<noteq> [] then Some (fold (ins i) positions (om_get [] dicts f))
       else map_of dicts g)"
    by (induction positions arbitrary: dicts) (auto simp: insert_posting_ins om_get_def)
  then show ?thesis by (auto simp: om_get_def)
qed

lemma map_of_ins:
  "map_of (ins i (t, positions) dict) s =
    (if s = t then
       (let ps = sort_key p_doc ((case map_of dict t of None \<Rightarrow> [] | Some e \<Rightarrow> te_postings e) @
           [\<lparr>p_doc = i, p_tf = of_nat (length positions), p_positions = positions\<rparr>])
        in Some \<lparr>te_df = of_nat (length ps), te_postings = ps\<rparr>)
     else map_of dict s)"
  by (auto simp: ins_def Let_def dlist_def)

lemma dict_ok_ins: "dict_ok dict \<Longrightarrow> dict_ok (ins i x dict)"
proof (cases x)
  case (Pair t positions)
  have "sort_key p_doc (xs @ [y]) \<noteq> []" for xs y
    by (metis append_is_Nil_conv list.distinct(1) set_empty set_sort)
  then show "dict_ok dict \<Longrightarrow> dict_ok (ins i x dict)"
    by (auto simp: Pair dict_ok_def map_of_ins Let_def entry_ok_def split: if_splits)
      (simp add: ins_def Let_def om_ok_assign)
qed

lemma dlist_fold_ins:
  assumes "distinct (map fst positions)"
  shows "dlist (fold (ins i) positions dict) t =
    (case map_of positions t of None \<Rightarrow> dlist dict t
     | Some ps \<Rightarrow> sort_key p_doc (dlist dict t @
         [\<lparr>p_doc = i, p_tf = of_nat (length ps), p_positions = ps\<rparr>]))"
  using map_of_fold_local [where h = "\<lambda>_ ps o'.
        (let qs = sort_key p_doc ((case o' of None \<Rightarrow> [] | Some e \<Rightarrow> te_postings e) @
           [\<lparr>p_doc = i, p_tf = of_nat (length ps), p_positions = ps\<rparr>])
         in Some \<lparr>te_df = of_nat (length qs), te_postings = qs\<rparr>)", OF map_of_ins assms, of dict t]
  by (simp add: dlist_def Let_def split: option.splits)

lemma om_ok_insert_field: "om_ok dicts \<Longrightarrow> om_ok (insert_field i x dicts)"
proof (cases x)
  case (Pair f positions)
  show "om_ok dicts \<Longrightarrow> om_ok (insert_field i x dicts)"
    unfolding Pair insert_field.simps
    by (rule fold_keeps) (simp_all add: insert_posting_ins om_ok_assign del: insert_posting.simps)
qed

lemma fold_ins_not_Nil: "xs \<noteq> [] \<Longrightarrow> fold (ins i) xs dict \<noteq> []"
proof (induction xs rule: rev_induct)
  case (snoc x xs)
  then show ?case by (cases x) (simp add: ins_def Let_def)
qed simp

lemma dicts_ok_insert_field:
  assumes "dicts_ok dicts"
  shows "dicts_ok (insert_field i x dicts)"
proof (cases x)
  case (Pair f positions)
  let ?dict = "fold (ins i) positions (case map_of dicts f of None \<Rightarrow> [] | Some dict \<Rightarrow> dict)"
  have "dict_ok (case map_of dicts f of None \<Rightarrow> [] | Some dict \<Rightarrow> dict)"
    using assms by (simp add: dicts_ok_def dict_ok_def split: option.splits)
  then have "dict_ok ?dict"
    by (rule fold_keeps) (rule dict_ok_ins)
  with assms have "dict \<noteq> [] \<and> dict_ok dict" if "map_of (insert_field i (f, positions) dicts) g = Some dict"
    for g dict
    using that fold_ins_not_Nil
    unfolding dicts_ok_def map_of_insert_field by (metis option.inject)
  then show ?thesis
    using assms om_ok_insert_field unfolding dicts_ok_def Pair by blast
qed

lemma dicts_ok_fold_insert: "dicts_ok dicts \<Longrightarrow> dicts_ok (fold (insert_field i) posts dicts)"
  by (rule fold_keeps) (simp_all add: dicts_ok_insert_field del: insert_field.simps)

lemma plist_fold_insert:
  assumes "distinct (map fst m)"
  shows "plist (fold (insert_field i) (postings_of m) dicts) f t =
    (let ps = positions_of t (om_get [] m f)
     in if ps = [] then plist dicts f t
        else sort_key p_doc (plist dicts f t @
          [\<lparr>p_doc = i, p_tf = of_nat (length ps), p_positions = ps\<rparr>]))"
proof -
  have "distinct (map fst (add_positions ts []))" for ts
    by (simp add: om_ok_distinct om_ok_add_positions)
  note inner = dlist_fold_ins [OF this]
  have nil: "add_positions ts [] = [] \<Longrightarrow> positions_of t ts = []" for ts
    using map_of_add_positions [of ts "[]" t] by (simp split: if_splits)
  have keys: "distinct (map fst (postings_of m))" using assms by simp
  note outer = map_of_fold_local [where h = "\<lambda>_ positions o'. if positions = [] then o'
        else Some (fold (ins i) positions (case o' of None \<Rightarrow> [] | Some dict \<Rightarrow> dict))",
      OF map_of_insert_field keys, of dicts f]
  have "om_get [] (fold (insert_field i) (postings_of m) dicts) f =
      (case map_of m f of None \<Rightarrow> om_get [] dicts f
       | Some ts \<Rightarrow> fold (ins i) (add_positions ts []) (om_get [] dicts f))"
    using outer by (auto simp: om_get_def split: option.splits)
  then show ?thesis
    unfolding plist_dlist
    by (simp add: om_get_def [of _ m] inner nil map_of_add_positions Let_def split: option.splits)
qed

section \<open>The statistics\<close>

definition len_count :: "document_record \<Rightarrow> string \<Rightarrow> nat" where
  "len_count r f = (if map_of (dr_field_lengths r) f = None then 0 else 1)"

definition len_total :: "document_record \<Rightarrow> string \<Rightarrow> nat" where
  "len_total r f = (case map_of (dr_field_lengths r) f of None \<Rightarrow> 0 | Some l \<Rightarrow> unat l)"

definition field_count :: "document_records \<Rightarrow> string \<Rightarrow> nat" where
  "field_count docs f = (\<Sum>(did, r)\<leftarrow>docs. len_count r f)"

definition field_total :: "document_records \<Rightarrow> string \<Rightarrow> nat" where
  "field_total docs f = (\<Sum>(did, r)\<leftarrow>docs. len_total r f)"

definition accumulated :: "nat \<Rightarrow> nat \<Rightarrow> field_accumulator option" where
  "accumulated c t = (if c = 0 then None else Some \<lparr>fa_count = of_nat c, fa_total = of_nat t\<rparr>)"

definition stats_inv :: "(string, field_accumulator) omap \<Rightarrow> document_records \<Rightarrow> bool" where
  "stats_inv stats docs \<longleftrightarrow> om_ok stats \<and>
     (\<forall>f. map_of stats f = accumulated (field_count docs f) (field_total docs f))"

lemma len_total_zero: "len_count r f = 0 \<Longrightarrow> len_total r f = 0"
  by (auto simp: len_count_def len_total_def split: if_splits)

lemma field_total_zero: "field_count docs f = 0 \<Longrightarrow> field_total docs f = 0"
  by (induction docs) (auto simp: field_count_def field_total_def len_total_zero)

lemma field_count_le: "field_count docs f \<le> length docs"
  by (induction docs) (auto simp: field_count_def len_count_def)

lemma field_total_le: "field_total docs f \<le> (2 ^ 32 - 1) * field_count docs f"
proof (induction docs)
  case (Cons e docs)
  have "unat l \<le> 2 ^ 32 - 1" for l :: u32
    using unsigned_less [of l, where ?'a = nat] by simp
  then have "len_total (snd e) f \<le> (2 ^ 32 - 1) * len_count (snd e) f"
    by (auto simp: len_total_def len_count_def split: option.splits)
  with Cons show ?case
    by (simp add: field_total_def field_count_def case_prod_beta distrib_left)
qed (simp add: field_total_def)

lemma map_of_remove_length:
  "map_of (remove_length (f, l) stats) g =
    (if g = f then
       Option.bind (map_of stats f) (\<lambda>st. if fa_count st - 1 = 0 then None
         else Some \<lparr>fa_count = fa_count st - 1, fa_total = fa_total st - ucast l\<rparr>)
     else map_of stats g)"
  by (auto simp: Let_def split: option.splits)

lemma map_of_insert_length:
  "map_of (insert_length (f, l) stats) g =
    (if g = f then
       (case map_of stats f of
          None \<Rightarrow> Some \<lparr>fa_count = 1, fa_total = ucast l\<rparr>
        | Some st \<Rightarrow> Some \<lparr>fa_count = fa_count st + 1, fa_total = fa_total st + ucast l\<rparr>)
     else map_of stats g)"
  by (auto simp: om_get_def Let_def split: option.splits)

lemma om_ok_lengths:
  "om_ok stats \<Longrightarrow> om_ok (fold remove_length ls stats)"
  "om_ok stats \<Longrightarrow> om_ok (fold insert_length ls stats)"
proof -
  have "om_ok s \<Longrightarrow> om_ok (remove_length x s)" "om_ok s \<Longrightarrow> om_ok (insert_length x s)" for x s
    by (cases x, simp add: Let_def om_ok_assign om_ok_erase split: option.splits)+
  then show "om_ok stats \<Longrightarrow> om_ok (fold remove_length ls stats)"
      "om_ok stats \<Longrightarrow> om_ok (fold insert_length ls stats)"
    by (rule_tac fold_keeps; simp)+
qed

lemma fold_remove_accumulated:
  assumes "distinct (map fst (dr_field_lengths r))" and "c < 2 ^ 64"
    and "map_of stats f = accumulated (c + len_count r f) (n + len_total r f)"
  shows "map_of (fold remove_length (dr_field_lengths r) stats) f = accumulated c n"
proof -
  have "(of_nat c :: u64) = 0 \<longleftrightarrow> c = 0"
    using assms(2) by (simp add: of_nat_zero_iff)
  with assms(3)
    map_of_fold_local [where h = "\<lambda>_ l o'. Option.bind o' (\<lambda>st. if fa_count st - 1 = 0 then None
        else Some \<lparr>fa_count = fa_count st - 1, fa_total = fa_total st - ucast l\<rparr>)",
      OF map_of_remove_length assms(1), of stats f]
  show ?thesis
    by (auto simp: accumulated_def len_count_def len_total_def split: option.splits)
qed

lemma fold_insert_accumulated:
  assumes "distinct (map fst (dr_field_lengths r))" and "c = 0 \<Longrightarrow> n = 0"
    and "map_of stats f = accumulated c n"
  shows "map_of (fold insert_length (dr_field_lengths r) stats) f =
    accumulated (c + len_count r f) (n + len_total r f)"
  using assms(2,3)
    map_of_fold_local [where h = "\<lambda>_ l o'. case o' of
          None \<Rightarrow> Some \<lparr>fa_count = 1, fa_total = ucast l\<rparr>
        | Some st \<Rightarrow> Some \<lparr>fa_count = fa_count st + 1, fa_total = fa_total st + ucast l\<rparr>",
      OF map_of_insert_length assms(1), of stats f]
  by (auto simp: accumulated_def len_count_def len_total_def split: option.splits)

lemma stats_inv_replace:
  assumes "stats_inv stats docs" and "om_ok docs" and "length docs \<le> 2 ^ 32"
    and "old = (case map_of docs did of None \<Rightarrow> [] | Some r \<Rightarrow> dr_field_lengths r)"
    and "distinct (map fst old)" and "distinct (map fst (dr_field_lengths new))"
  shows "stats_inv (fold insert_length (dr_field_lengths new) (fold remove_length old stats))
    (om_assign did new docs)"
  unfolding stats_inv_def
proof (intro conjI allI)
  show "om_ok (fold insert_length (dr_field_lengths new) (fold remove_length old stats))"
    using assms(1) by (simp add: stats_inv_def om_ok_lengths)
  fix f
  define c n where "c = field_count (om_erase did docs) f" and "n = field_total (om_erase did docs) f"
  have new: "field_count (om_assign did new docs) f = c + len_count new f"
      "field_total (om_assign did new docs) f = n + len_total new f"
    by (simp_all add: c_def n_def field_count_def field_total_def sum_om_assign [OF assms(2)])
  have "length (om_erase did docs) \<le> length docs"
    by (simp add: om_erase_def)
  then have bound: "c < 2 ^ 64"
    using field_count_le [of "om_erase did docs" f] assms(3) by (simp add: c_def)
  have "map_of (fold remove_length old stats) f = accumulated c n"
  proof (cases "map_of docs did")
    case None
    with assms(1,4) show ?thesis
      by (simp add: c_def n_def stats_inv_def om_erase_idle)
  next
    case (Some r)
    then have "field_count docs f = c + len_count r f" "field_total docs f = n + len_total r f"
      using sum_om_erase [OF assms(2), of "\<lambda>_ r. len_count r f" did]
        sum_om_erase [OF assms(2), of "\<lambda>_ r. len_total r f" did]
      by (simp_all add: c_def n_def field_count_def field_total_def)
    with Some assms(1,4,5) bound show ?thesis
      by (simp add: fold_remove_accumulated stats_inv_def)
  qed
  from fold_insert_accumulated [OF assms(6) _ this] field_total_zero
  show "map_of (fold insert_length (dr_field_lengths new) (fold remove_length old stats)) f =
      accumulated (field_count (om_assign did new docs) f) (field_total (om_assign did new docs) f)"
    unfolding new by (simp add: c_def n_def)
qed

section \<open>The representation invariant\<close>

definition record_ok :: "schema \<Rightarrow> document_record \<Rightarrow> bool" where
  "record_ok schema r \<longleftrightarrow>
     document_ok (dr_document r) \<and>
     dr_field_lengths r = lengths_of (doc_analysed schema (dr_document r)) \<and>
     dr_indexed_terms r = terms_of (doc_analysed schema (dr_document r)) \<and>
     (\<not> doc_deleted (dr_document r) \<longrightarrow>
        (\<forall>f v. map_of (doc_fields (dr_document r)) f = Some v \<longrightarrow> indexable schema f v))"

definition documents_inv :: "schema \<Rightarrow> document_records \<Rightarrow> bool" where
  "documents_inv schema docs \<longleftrightarrow> om_ok docs \<and>
     (\<forall>did r. map_of docs did = Some r \<longrightarrow>
        did \<noteq> [] \<and> doc_id (dr_document r) = did \<and> record_ok schema r)"

text \<open>Internal and external identifiers are each other's inverse, and \<open>next\<close> is fresh.\<close>

definition ids_inv :: "document_records \<Rightarrow> external_id_map \<Rightarrow> bool" where
  "ids_inv docs exts \<longleftrightarrow> om_ok exts \<and>
     (\<forall>did i. map_option dr_internal_id (map_of docs did) = Some i \<longleftrightarrow> map_of exts i = Some did)"

definition next_inv :: "external_id_map \<Rightarrow> u32 \<Rightarrow> u32 \<Rightarrow> bool" where
  "next_inv exts nxt maximum \<longleftrightarrow>
     (\<forall>i. map_of exts i \<noteq> None \<longrightarrow> i \<noteq> 0 \<and> i \<le> maximum \<and> (nxt = 0 \<or> i < nxt))"

definition plist_inv :: "schema \<Rightarrow> document_records \<Rightarrow> field_dictionaries \<Rightarrow> bool" where
  "plist_inv schema docs dicts \<longleftrightarrow>
     (\<forall>f t. ssorted_by p_doc (plist dicts f t) \<and>
        set (plist dicts f t) =
          {doc_posting schema r f t | r did.
             map_of docs did = Some r \<and> term_positions schema (dr_document r) f t \<noteq> []})"

definition index_inv :: "index \<Rightarrow> bool" where
  "index_inv ix \<longleftrightarrow>
     documents_inv (ix_schema ix) (ix_documents ix) \<and>
     ids_inv (ix_documents ix) (ix_external_ids ix) \<and>
     next_inv (ix_external_ids ix) (ix_next_internal_id ix) (ix_maximum_internal_id ix) \<and>
     dicts_ok (ix_fields ix) \<and>
     plist_inv (ix_schema ix) (ix_documents ix) (ix_fields ix) \<and>
     stats_inv (ix_statistics ix) (ix_documents ix)"

lemma index_inv_new: "index_inv (index_new schema maximum)"
  by (simp add: index_inv_def index_new_def documents_inv_def ids_inv_def next_inv_def dicts_ok_def
      plist_inv_def plist_def stats_inv_def accumulated_def field_count_def)

lemma ids_invD:
  assumes "ids_inv docs exts"
  shows "map_of docs did = Some r \<Longrightarrow> map_of exts (dr_internal_id r) = Some did"
    and "map_of exts i = Some did \<Longrightarrow> \<exists>r. map_of docs did = Some r \<and> dr_internal_id r = i"
  using assms by (auto simp: ids_inv_def)

lemma ids_length:
  assumes "om_ok docs" and "ids_inv docs exts"
  shows "length docs = length exts" and "length docs \<le> 2 ^ 32"
proof -
  have bij: "bij_betw (\<lambda>did. dr_internal_id (the (map_of docs did))) (dom (map_of docs)) (dom (map_of exts))"
    by (rule bij_betw_byWitness [where f' = "\<lambda>i. the (map_of exts i)"])
      (use ids_invD [OF assms(2)] in fastforce)+
  have card: "card (dom (map_of m)) = length m" if "om_ok m" for m :: "('a::linorder, 'b) omap"
    using distinct_card [OF om_ok_distinct [OF that]] by (simp add: dom_map_of_conv_image_fst)
  show "length docs = length exts"
    using bij_betw_same_card [OF bij] card assms by (metis ids_inv_def)
  moreover have "card (dom (map_of exts)) \<le> card (UNIV :: u32 set)"
    by (intro card_mono) simp_all
  ultimately show "length docs \<le> 2 ^ 32"
    using card [of exts] assms(2) by (simp add: ids_inv_def card_word)
qed

lemma ids_inv_unique:
  "ids_inv docs exts \<Longrightarrow> map_of docs a = Some r \<Longrightarrow> map_of docs b = Some s \<Longrightarrow>
    dr_internal_id r = dr_internal_id s \<Longrightarrow> a = b"
  unfolding ids_inv_def by (metis option.inject option.simps(9))

lemma ids_inv_assign:
  assumes "ids_inv docs exts"
    and "case map_of docs did of None \<Rightarrow> map_of exts i = None | Some old \<Rightarrow> dr_internal_id old = i"
    and "dr_internal_id r = i"
  shows "ids_inv (om_assign did r docs) (om_assign i did exts)"
  unfolding ids_inv_def
proof (intro conjI allI)
  show "om_ok (om_assign i did exts)"
    using assms(1) by (simp add: ids_inv_def om_ok_assign)
  fix d j
  have I: "map_option dr_internal_id (map_of docs d) = Some j \<longleftrightarrow> map_of exts j = Some d" for d j
    using assms(1) by (simp add: ids_inv_def)
  show "map_option dr_internal_id (map_of (om_assign did r docs) d) = Some j \<longleftrightarrow>
      map_of (om_assign i did exts) j = Some d"
    using assms(2,3) I [of d j] I [of did i] I [of d i] I [of did j]
    by (auto split: option.splits if_splits)
qed

lemma plist_inv_replace:
  assumes "plist_inv schema docs dicts" and "ids_inv docs exts"
    and "case map_of docs did of None \<Rightarrow> map_of exts i = None | Some old \<Rightarrow> dr_internal_id old = i"
    and "dr_internal_id r = i"
    and "\<And>f t. plist dicts' f t =
      (let ps = term_positions schema (dr_document r) f t;
           kept = filter (\<lambda>p. p_doc p \<noteq> i) (plist dicts f t)
       in if ps = [] then kept else sort_key p_doc (kept @ [doc_posting schema r f t]))"
  shows "plist_inv schema (om_assign did r docs) dicts'"
  unfolding plist_inv_def
proof (intro allI conjI)
  fix f t
  let ?kept = "filter (\<lambda>p. p_doc p \<noteq> i) (plist dicts f t)"
  let ?added = "if term_positions schema (dr_document r) f t = [] then [] else [doc_posting schema r f t]"
  have kept: "ssorted_by p_doc ?kept"
    using assms(1) by (simp add: plist_inv_def ssorted_by_filter)
  have p: "plist dicts' f t = sort_key p_doc (?kept @ ?added)"
    using kept by (simp add: assms(5) Let_def sort_key_id_if_sorted ssorted_by_def strict_sorted_iff)
  have "distinct (?kept @ ?added)" "inj_on p_doc (set (?kept @ ?added))"
    using ssorted_by_distinct [OF kept] ssorted_by_inj [OF kept] assms(4)
    by (auto simp: inj_on_insert)
  then show "ssorted_by p_doc (plist dicts' f t)"
    unfolding p by (rule ssorted_by_sort_key [rotated])
  have other: "dr_internal_id s \<noteq> i \<longleftrightarrow> d \<noteq> did" if "map_of docs d = Some s" for d s
  proof (cases "map_of docs did")
    case None
    with that assms(3) ids_invD(1) [OF assms(2) that] show ?thesis by auto
  next
    case (Some old)
    with that assms(3) ids_inv_unique [OF assms(2) that Some] show ?thesis by auto
  qed
  show "set (plist dicts' f t) =
      {doc_posting schema s f t | s d. map_of (om_assign did r docs) d = Some s \<and>
         term_positions schema (dr_document s) f t \<noteq> []}"
    unfolding p using assms(1) other
    by (auto simp: plist_inv_def) (metis | blast)+
qed

section \<open>Mutations keep the invariant\<close>

definition published :: "schema \<Rightarrow> internal_document_id \<Rightarrow> document \<Rightarrow> document_record" where
  "published schema i d =
     (let m = doc_analysed schema d
      in \<lparr>dr_internal_id = i, dr_document = d, dr_field_lengths = lengths_of m,
          dr_indexed_terms = terms_of m\<rparr>)"

lemma published_simps [simp]:
  "dr_internal_id (published schema i d) = i" "dr_document (published schema i d) = d"
  by (simp_all add: published_def Let_def)

lemma doc_analysed_deleted [simp]: "doc_deleted d \<Longrightarrow> doc_analysed schema d = []"
  by (simp add: doc_analysed_def)

lemma record_deleted:
  "record_ok schema r \<Longrightarrow> doc_deleted (dr_document r) \<Longrightarrow>
    dr_field_lengths r = [] \<and> dr_indexed_terms r = []"
  by (simp add: record_ok_def)

text \<open>
  A tombstone has no lengths and no terms, so skipping the removal or the insertion for it is
  the same as looping over nothing.
\<close>

lemma publish_eq:
  assumes "documents_inv (ix_schema ix) (ix_documents ix)"
    and "p = prepared_of (doc_analysed (ix_schema ix) d)"
  shows "publish ix i d p =
    (let old = map_of (ix_documents ix) (doc_id d); r = published (ix_schema ix) i d
     in ix\<lparr>ix_fields := fold (insert_field i) (postings_of (doc_analysed (ix_schema ix) d))
             (fold (remove_terms i) (case old of None \<Rightarrow> [] | Some o' \<Rightarrow> dr_indexed_terms o') (ix_fields ix)),
           ix_documents := om_assign (doc_id d) r (ix_documents ix),
           ix_external_ids := om_assign i (doc_id d) (ix_external_ids ix),
           ix_statistics := fold insert_length (dr_field_lengths r)
             (fold remove_length (case old of None \<Rightarrow> [] | Some o' \<Rightarrow> dr_field_lengths o') (ix_statistics ix)),
           ix_next_internal_id :=
             (if old = None then ix_next_internal_id ix + 1 else ix_next_internal_id ix)\<rparr>)"
proof -
  have "dr_field_lengths o' = [] \<and> dr_indexed_terms o' = []"
    if "map_of (ix_documents ix) (doc_id d) = Some o'" "doc_deleted (dr_document o')" for o'
    using assms(1) that record_deleted by (auto simp: documents_inv_def)
  then show ?thesis
    by (simp add: publish_def Let_def published_def prepared_of_def assms(2) split: option.splits)
qed

lemma record_ok_published:
  assumes "prepare schema d = Inr p" and "validate_document schema d = Inr u" and "document_ok d"
  shows "record_ok schema (published schema i d)"
  using prepare_Inr(2) [OF assms] assms(3) by (simp add: record_ok_def published_def Let_def)

lemma next_inv_assign:
  assumes "next_inv exts nxt maximum" and "nxt \<noteq> 0" and "nxt \<le> maximum"
  shows "next_inv (om_assign nxt did exts) (nxt + 1) maximum"
proof -
  have "i < nxt + 1" if "nxt + 1 \<noteq> 0" "i < nxt \<or> i = nxt" for i
    using that word_le_less_succ [of i nxt] by (auto simp: less_imp_le)
  with assms show ?thesis
    by (auto simp: next_inv_def)
qed

lemma allocate_Inr:
  assumes "allocate ix did = Inr i" and "ids_inv (ix_documents ix) (ix_external_ids ix)"
    and "next_inv (ix_external_ids ix) (ix_next_internal_id ix) (ix_maximum_internal_id ix)"
  shows "case map_of (ix_documents ix) did of
      None \<Rightarrow> map_of (ix_external_ids ix) i = None | Some old \<Rightarrow> dr_internal_id old = i"
    and "next_inv (om_assign i did (ix_external_ids ix))
      (if map_of (ix_documents ix) did = None then ix_next_internal_id ix + 1 else ix_next_internal_id ix)
      (ix_maximum_internal_id ix)"
proof -
  show "case map_of (ix_documents ix) did of
      None \<Rightarrow> map_of (ix_external_ids ix) i = None | Some old \<Rightarrow> dr_internal_id old = i"
    using assms(1,3)
    by (auto simp: allocate_def next_inv_def split: option.splits if_splits)
  show "next_inv (om_assign i did (ix_external_ids ix))
      (if map_of (ix_documents ix) did = None then ix_next_internal_id ix + 1 else ix_next_internal_id ix)
      (ix_maximum_internal_id ix)"
  proof (cases "map_of (ix_documents ix) did")
    case None
    with assms(1,3) next_inv_assign show ?thesis
      by (auto simp: allocate_def split: if_splits)
  next
    case (Some old)
    with assms(1) ids_invD(1) [OF assms(2) Some] assms(3) show ?thesis
      by (auto simp: allocate_def next_inv_def)
  qed
qed

lemma plist_publish:
  assumes "plist_inv schema docs dicts" and "ids_inv docs exts" and "documents_inv schema docs"
    and "document_ok d"
    and "case map_of docs did of None \<Rightarrow> map_of exts i = None | Some old \<Rightarrow> dr_internal_id old = i"
  shows "plist (fold (insert_field i) (postings_of (doc_analysed schema d))
      (fold (remove_terms i) (case map_of docs did of None \<Rightarrow> [] | Some o' \<Rightarrow> dr_indexed_terms o') dicts)) f t =
    (let ps = term_positions schema (dr_document (published schema i d)) f t;
         kept = filter (\<lambda>p. p_doc p \<noteq> i) (plist dicts f t)
     in if ps = [] then kept
        else sort_key p_doc (kept @ [doc_posting schema (published schema i d) f t]))"
proof -
  let ?terms = "case map_of docs did of None \<Rightarrow> [] | Some o' \<Rightarrow> dr_indexed_terms o'"
  have keys: "distinct (map fst ?terms)"
    using assms(3) by (auto simp: documents_inv_def record_ok_def om_ok_distinct om_ok_doc_analysed
        split: option.splits)
  have "filter (\<lambda>p. p_doc p \<noteq> i) (plist dicts f t) = plist dicts f t"
    if "t \<notin> set (om_get [] ?terms f)"
  proof (rule filter_True, rule ballI, rule notI)
    fix p
    assume "p \<in> set (plist dicts f t)" "p_doc p = i"
    then obtain r k where r: "map_of docs k = Some r" "dr_internal_id r = i"
        "term_positions schema (dr_document r) f t \<noteq> []"
      using assms(1) by (auto simp: plist_inv_def)
    with assms(5) ids_invD(1) [OF assms(2) r(1)] obtain o' where o': "map_of docs did = Some o'"
        "dr_internal_id o' = i"
      by (auto split: option.splits)
    with r ids_inv_unique [OF assms(2) r(1) o'(1)] have "o' = r" by simp
    with o' r(3) assms(3) have "t \<in> set (om_get [] ?terms f)"
      by (auto simp: documents_inv_def record_ok_def om_get_def term_positions_def set_term_list
          positions_of_Nil_iff split: option.splits)
    with that show False by blast
  qed
  then have "plist (fold (remove_terms i) ?terms dicts) f t = filter (\<lambda>p. p_doc p \<noteq> i) (plist dicts f t)"
    by (simp add: plist_fold_remove [OF keys])
  with assms(4) show ?thesis
    by (simp add: plist_fold_insert om_ok_distinct om_ok_doc_analysed term_positions_def Let_def
        doc_posting_def)
qed

lemma index_put_Inr:
  assumes "index_put ix d = Inr ix'"
  obtains i p u where "validate_document (ix_schema ix) d = Inr u" "allocate ix (doc_id d) = Inr i"
    "prepare (ix_schema ix) d = Inr p" "ix' = publish ix i d p" "doc_id d \<noteq> []"
    "\<not> stale ix (doc_id d) (doc_version d)"
  using assms by (auto simp: index_put_def split: if_splits sum.splits)

lemma index_inv_put:
  assumes "index_inv ix" and "document_ok d" and "index_put ix d = Inr ix'"
  shows "index_inv ix'"
proof -
  from assms(3) obtain i p u where v: "validate_document (ix_schema ix) d = Inr u"
    and a: "allocate ix (doc_id d) = Inr i" and p: "prepare (ix_schema ix) d = Inr p"
    and ix': "ix' = publish ix i d p" and ne: "doc_id d \<noteq> []"
    by (rule index_put_Inr)
  from assms(1) have inv: "documents_inv (ix_schema ix) (ix_documents ix)"
      "ids_inv (ix_documents ix) (ix_external_ids ix)"
      "next_inv (ix_external_ids ix) (ix_next_internal_id ix) (ix_maximum_internal_id ix)"
      "dicts_ok (ix_fields ix)" "plist_inv (ix_schema ix) (ix_documents ix) (ix_fields ix)"
      "stats_inv (ix_statistics ix) (ix_documents ix)"
    by (simp_all add: index_inv_def)
  note al = allocate_Inr [OF a inv(2,3)]
  have docs: "om_ok (ix_documents ix)"
    and rec: "\<And>k r. map_of (ix_documents ix) k = Some r \<Longrightarrow> record_ok (ix_schema ix) r"
    using inv(1) by (auto simp: documents_inv_def)
  have old_ok: "distinct (map fst (case map_of (ix_documents ix) (doc_id d) of
      None \<Rightarrow> [] | Some r \<Rightarrow> dr_field_lengths r))"
    using rec by (auto simp: record_ok_def om_ok_distinct om_ok_doc_analysed split: option.splits)
  have new_ok: "distinct (map fst (dr_field_lengths (published (ix_schema ix) i d)))"
    using assms(2) by (simp add: published_def Let_def om_ok_distinct om_ok_doc_analysed)
  show ?thesis
    unfolding ix' publish_eq [OF inv(1) prepare_Inr(1) [OF p v assms(2)]] index_inv_def Let_def
    using inv(1) ne record_ok_published [OF p v assms(2)]
      ids_inv_assign [OF inv(2) al(1)] al(2) inv(4)
      plist_inv_replace [OF inv(5) inv(2) al(1) _ plist_publish [OF inv(5) inv(2) inv(1) assms(2) al(1)]]
      stats_inv_replace [OF inv(6) docs ids_length(2) [OF docs inv(2)] refl old_ok new_ok]
    by (simp add: documents_inv_def om_ok_assign dicts_ok_fold_insert dicts_ok_fold_remove
        del: insert_field.simps)
qed

end
