(* ===== verification/Index_Properties.thy ===== *)
theory Index_Properties
  imports Index_Proofs
begin

text \<open>
  The properties of the in-memory index: reachable states satisfy the invariant, the
  dictionaries are the inversion of the visible documents, the statistics are exact, the self
  check of the sources accepts every reachable state, and the mutations refine updates of a
  versioned document store.
\<close>

section \<open>Reachable states\<close>

inductive index_reachable :: "schema \<Rightarrow> u32 \<Rightarrow> index \<Rightarrow> bool" for schema maximum where
  start: "index_reachable schema maximum (index_new schema maximum)"
| put: "index_reachable schema maximum ix \<Longrightarrow> document_ok d \<Longrightarrow> index_put ix d = Inr ix' \<Longrightarrow>
    index_reachable schema maximum ix'"
| erase: "index_reachable schema maximum ix \<Longrightarrow> index_erase ix did version = Inr ix' \<Longrightarrow>
    index_reachable schema maximum ix'"

lemma index_erase_put: "index_erase ix did version = Inr ix' \<Longrightarrow> index_put ix (tombstone did version) = Inr ix'"
  by (simp add: index_erase_def split: if_splits)

lemma put_schema: "index_put ix d = Inr ix' \<Longrightarrow> ix_schema ix' = ix_schema ix"
  by (erule index_put_Inr) (simp add: publish_def Let_def case_prod_beta)

lemma index_reachable_schema: "index_reachable schema maximum ix \<Longrightarrow> ix_schema ix = schema"
  by (induction rule: index_reachable.induct)
    (auto dest: put_schema index_erase_put simp: index_new_def)

lemma reachable_inv: "index_reachable schema maximum ix \<Longrightarrow> index_inv ix"
proof (induction rule: index_reachable.induct)
  case (erase ix did version ix')
  then show ?case
    using index_inv_put [of ix "tombstone did version"] index_erase_put by fastforce
qed (auto intro: index_inv_new index_inv_put)

lemma index_invD:
  assumes "index_inv ix"
  shows "documents_inv (ix_schema ix) (ix_documents ix)"
    and "ids_inv (ix_documents ix) (ix_external_ids ix)"
    and "next_inv (ix_external_ids ix) (ix_next_internal_id ix) (ix_maximum_internal_id ix)"
    and "dicts_ok (ix_fields ix)" and "plist_inv (ix_schema ix) (ix_documents ix) (ix_fields ix)"
    and "stats_inv (ix_statistics ix) (ix_documents ix)"
  using assms by (simp_all add: index_inv_def)

lemma documents_invD:
  assumes "index_inv ix" and "index_document ix did = Some r"
  shows "did \<noteq> []" and "doc_id (dr_document r) = did" and "record_ok (ix_schema ix) r"
    and "index_external_id ix (dr_internal_id r) = Some did"
    and "index_document_internal ix (dr_internal_id r) = Some r"
  using assms(2) index_invD(1) [OF assms(1)] ids_invD(1) [OF index_invD(2) [OF assms(1)]]
  by (auto simp: documents_inv_def index_document_def index_external_id_def
      index_document_internal_def)

lemma live_posting_docs:
  assumes "index_inv ix"
  shows "map p_doc (plist (ix_fields ix) f t) = sorted_list_of_set
    {i. \<exists>r. index_document_internal ix i = Some r \<and>
      term_positions (ix_schema ix) (dr_document r) f t \<noteq> []}" (is "_ = sorted_list_of_set ?D")
proof -
  have "set (map p_doc (plist (ix_fields ix) f t)) = ?D"
  proof (intro set_eqI iffI)
    fix i
    assume "i \<in> set (map p_doc (plist (ix_fields ix) f t))"
    then obtain r did where "map_of (ix_documents ix) did = Some r" "i = dr_internal_id r"
        "term_positions (ix_schema ix) (dr_document r) f t \<noteq> []"
      using index_invD(5) [OF assms] by (auto simp: plist_inv_def)
    with documents_invD(5) [OF assms, of did r] show "i \<in> ?D"
      by (auto simp: index_document_def)
  next
    fix i
    assume "i \<in> ?D"
    then obtain r where r: "index_document_internal ix i = Some r"
        "term_positions (ix_schema ix) (dr_document r) f t \<noteq> []" by blast
    then obtain did where did: "map_of (ix_external_ids ix) i = Some did" "map_of (ix_documents ix) did = Some r"
      by (auto simp: index_document_internal_def index_external_id_def index_document_def
          split: option.splits)
    with ids_invD(2) [OF index_invD(2) [OF assms] did(1)] have "dr_internal_id r = i" by auto
    with r did have "doc_posting (ix_schema ix) r f t \<in> set (plist (ix_fields ix) f t)"
      using index_invD(5) [OF assms] by (auto simp: plist_inv_def)
    then show "i \<in> set (map p_doc (plist (ix_fields ix) f t))"
      using \<open>dr_internal_id r = i\<close> by force
  qed
  moreover have "sorted_wrt (<) (map p_doc (plist (ix_fields ix) f t))"
    using index_invD(5) [OF assms] by (simp add: plist_inv_def ssorted_by_def)
  ultimately show ?thesis
    by (metis sorted_list_of_set.idem_if_sorted_distinct strict_sorted_iff)
qed

lemma ids_bound:
  assumes "index_inv ix" and "\<And>i. i \<in> D \<Longrightarrow> index_external_id ix i \<noteq> None"
  shows "card D < 2 ^ 32"
proof -
  have "D \<subseteq> UNIV - {0}"
    using assms(2) index_invD(3) [OF assms(1)] by (auto simp: next_inv_def index_external_id_def)
  then have "card D \<le> card (UNIV - {0 :: u32})"
    by (intro card_mono) simp_all
  then show ?thesis
    by (simp add: card_Diff_singleton card_word)
qed

lemma plist_length:
  assumes "index_inv ix"
  shows "length (plist (ix_fields ix) f t) < 2 ^ 32"
proof -
  let ?D = "{i. \<exists>r. index_document_internal ix i = Some r \<and>
      term_positions (ix_schema ix) (dr_document r) f t \<noteq> []}"
  have "length (plist (ix_fields ix) f t) = card ?D"
    using arg_cong [OF live_posting_docs [OF assms], of length] by simp
  moreover have "card ?D < 2 ^ 32"
    by (rule ids_bound [OF assms]) (auto simp: index_document_internal_def split: option.splits)
  ultimately show ?thesis by simp
qed

lemma analysed_length:
  assumes "record_ok schema r" and "map_of (doc_analysed schema (dr_document r)) f = Some tokens"
  shows "length tokens < 2 ^ 32" and "\<not> doc_deleted (dr_document r)"
    and "\<exists>v. map_of (doc_fields (dr_document r)) f = Some v \<and> field_tokens schema f v = Some tokens"
proof -
  show live: "\<not> doc_deleted (dr_document r)"
    using assms(2) by (auto simp: doc_analysed_def split: if_splits)
  with assms show v: "\<exists>v. map_of (doc_fields (dr_document r)) f = Some v \<and> field_tokens schema f v = Some tokens"
    by (auto simp: record_ok_def document_ok_def doc_analysed_def map_of_analysed om_ok_distinct
        bind_eq_Some_conv)
  with live assms(1) show "length tokens < 2 ^ 32"
    unfolding record_ok_def indexable_def by (metis option.inject)
qed

lemma positions_of_length: "length (positions_of t tokens) \<le> length tokens"
  by (simp add: positions_of_def)

lemma term_positions_live:
  assumes "record_ok schema r" and "term_positions schema (dr_document r) f t \<noteq> []"
  shows "\<not> doc_deleted (dr_document r)" and "length (term_positions schema (dr_document r) f t) < 2 ^ 32"
    and "\<exists>tokens. map_of (doc_analysed schema (dr_document r)) f = Some tokens \<and>
      term_positions schema (dr_document r) f t = positions_of t tokens"
proof -
  from assms(2) obtain tokens where t: "map_of (doc_analysed schema (dr_document r)) f = Some tokens"
      "term_positions schema (dr_document r) f t = positions_of t tokens"
    by (auto simp: term_positions_def om_get_def split: option.splits)
  then show "\<exists>tokens. map_of (doc_analysed schema (dr_document r)) f = Some tokens \<and>
      term_positions schema (dr_document r) f t = positions_of t tokens" by blast
  show "\<not> doc_deleted (dr_document r)" "length (term_positions schema (dr_document r) f t) < 2 ^ 32"
    using analysed_length [OF assms(1) t(1)] positions_of_length [of t tokens] t(2) by simp_all
qed

lemma plist_posting:
  assumes "index_inv ix" and "p \<in> set (plist (ix_fields ix) f t)"
  obtains r where "index_document_internal ix (p_doc p) = Some r" "record_ok (ix_schema ix) r"
    "p_positions p = term_positions (ix_schema ix) (dr_document r) f t"
    "p_positions p \<noteq> []" "unat (p_tf p) = length (p_positions p)"
proof -
  obtain r did where r: "map_of (ix_documents ix) did = Some r" "p = doc_posting (ix_schema ix) r f t"
      "term_positions (ix_schema ix) (dr_document r) f t \<noteq> []"
    using assms(2) index_invD(5) [OF assms(1)] by (auto simp: plist_inv_def)
  note D = documents_invD [OF assms(1), of did r, unfolded index_document_def, OF r(1)]
  show thesis
    by (rule that [of r]) (use r D term_positions_live [OF D(3) r(3)] in
      \<open>simp_all add: doc_posting_def Let_def unat_of_nat_small\<close>)
qed

section \<open>Properties\<close>

text \<open>
  C2: the inverted index is the inversion of the document store. In every reachable state a lookup
  of a term in a field returns nothing exactly when no visible document has the term there;
  otherwise the postings name, in increasing order and without repetition, exactly the visible
  documents whose analysed field has the term, each with the positions of its occurrences and
  their number, and the document frequency is the number of postings, without wrap-around.
\<close>

theorem inverted_index:
  assumes "index_reachable schema maximum ix"
  shows "case index_lookup ix field trm of
      None \<Rightarrow> \<forall>i r. index_document_internal ix i = Some r \<longrightarrow>
        term_positions schema (dr_document r) field trm = []
    | Some entry \<Rightarrow>
        te_postings entry \<noteq> [] \<and> unat (te_df entry) = length (te_postings entry) \<and>
        map p_doc (te_postings entry) =
          sorted_list_of_set {i. \<exists>r. index_document_internal ix i = Some r \<and>
            term_positions schema (dr_document r) field trm \<noteq> []} \<and>
        (\<forall>p \<in> set (te_postings entry). \<exists>r.
           index_document_internal ix (p_doc p) = Some r \<and> \<not> doc_deleted (dr_document r) \<and>
           p_positions p = term_positions schema (dr_document r) field trm \<and>
           unat (p_tf p) = length (p_positions p))"
proof -
  have inv: "index_inv ix" and s: "ix_schema ix = schema"
    using assms reachable_inv index_reachable_schema by blast+
  let ?ps = "plist (ix_fields ix) field trm"
  let ?D = "{i. \<exists>r. index_document_internal ix i = Some r \<and>
    term_positions schema (dr_document r) field trm \<noteq> []}"
  have D: "map p_doc ?ps = sorted_list_of_set ?D"
    using live_posting_docs [OF inv, of field trm] by (simp add: s)
  have fin: "finite ?D" by (rule finite_subset [OF subset_UNIV]) simp
  have "?D = {}" if "?ps = []"
    using arg_cong [OF D, of set] that fin by simp
  moreover have "\<exists>r. index_document_internal ix (p_doc p) = Some r \<and> \<not> doc_deleted (dr_document r) \<and>
      p_positions p = term_positions schema (dr_document r) field trm \<and>
      unat (p_tf p) = length (p_positions p)" if "p \<in> set ?ps" for p
    by (rule plist_posting [OF inv that]) (use s term_positions_live(1) in metis)
  ultimately show ?thesis
    using D plist_length [OF inv, of field trm]
    by (auto simp: lookup_plist [OF index_invD(4) [OF inv]] Let_def unat_of_nat_small)
qed

section \<open>The self check\<close>

lemma validate_posting_ok:
  assumes "index_inv ix" and "p \<in> set (plist (ix_fields ix) f t)" and "t \<noteq> []"
    and "\<And>tokens v. field_tokens (ix_schema ix) f v = Some tokens \<Longrightarrow>
      sorted_wrt (<) (map tok_position tokens)"
  shows "validate_posting ix f t p u = Inr u"
proof -
  from assms(1,2) obtain r where r: "index_document_internal ix (p_doc p) = Some r"
    "record_ok (ix_schema ix) r" "p_positions p = term_positions (ix_schema ix) (dr_document r) f t"
    "p_positions p \<noteq> []" "unat (p_tf p) = length (p_positions p)"
    by (rule plist_posting)
  then obtain tokens where tk: "map_of (doc_analysed (ix_schema ix) (dr_document r)) f = Some tokens"
      "p_positions p = positions_of t tokens"
    using term_positions_live(3) [OF r(2), of f t] by auto
  have "sorted_wrt (<) (map tok_position tokens)"
    using analysed_length(3) [OF r(2) tk(1)] assms(4) by blast
  then have "sorted_wrt (<) (p_positions p)"
    unfolding tk(2) positions_of_def sorted_wrt_map by (rule sorted_wrt_filter)
  then have "sorted (p_positions p) \<and> no_adjacent_equal (p_positions p)"
    by (simp only: no_adjacent_equal_sorted)
  moreover have "om_contains (dr_field_lengths r) f"
    using r(2) tk(1) by (simp add: record_ok_def om_contains_def)
  ultimately show ?thesis
    using r analysed_length(2) [OF r(2) tk(1)] assms(3) by (simp add: validate_posting_def)
qed

lemma validate_reference_ok:
  assumes "index_inv ix" and "index_document ix did = Some r"
    and "map_of (dr_indexed_terms r) f = Some terms" and "t \<in> set terms"
  shows "validate_reference ix r f t u = Inr u"
proof -
  let ?ps = "plist (ix_fields ix) f t"
  have rec: "record_ok (ix_schema ix) r"
    using assms(1,2) by (rule documents_invD)
  with assms(3,4) have "term_positions (ix_schema ix) (dr_document r) f t \<noteq> []"
    by (auto simp: record_ok_def term_positions_def om_get_def positions_of_Nil_iff set_term_list)
  with assms(1,2) have p: "doc_posting (ix_schema ix) r f t \<in> set ?ps"
    using index_invD(5) by (fastforce simp: plist_inv_def index_document_def)
  have "sorted (map p_doc ?ps)"
    using index_invD(5) [OF assms(1)] by (simp add: plist_inv_def ssorted_by_def strict_sorted_iff)
  with p have "\<exists>q qs. lower_bound p_doc (dr_internal_id r) ?ps = q # qs \<and> p_doc q = dr_internal_id r"
    using lower_bound_found by fastforce
  with p show ?thesis
    by (auto simp: validate_reference_def lookup_plist [OF index_invD(4) [OF assms(1)]] Let_def)
qed

lemma validate_terms_ok:
  assumes "index_inv ix" and "index_document ix did = Some r"
    and "map_of (dr_indexed_terms r) f = Some terms"
  shows "validate_terms ix r f = Inr ()"
proof -
  have "record_ok (ix_schema ix) r"
    using assms(1,2) by (rule documents_invD)
  with assms(3) have "sorted_wrt (<) terms"
    by (auto simp: record_ok_def term_list_sorted)
  then have "sorted terms \<and> no_adjacent_equal terms"
    by (simp only: no_adjacent_equal_sorted)
  with assms validate_reference_ok [OF assms] show ?thesis
    by (auto simp: validate_terms_def intro!: fold_result_all)
qed

lemma validate_field_ok:
  assumes "index_inv ix" and "index_document ix did = Some r" and "\<not> doc_deleted (dr_document r)"
    and "(f, v) \<in> set (doc_fields (dr_document r))"
  shows "\<exists>len. map_of (dr_field_lengths r) f = Some len \<and>
    validate_field ix r (f, v) expected = Inr (insert_length (f, len) expected)"
proof -
  have rec: "record_ok (ix_schema ix) r"
    using assms(1,2) by (rule documents_invD)
  then have v: "map_of (doc_fields (dr_document r)) f = Some v"
    using assms(4) by (simp add: record_ok_def document_ok_def om_ok_map_of)
  with rec assms(3) obtain tokens where t: "field_tokens (ix_schema ix) f v = Some tokens"
      "length tokens < 2 ^ 32"
    by (auto simp: record_ok_def indexable_def)
  from t(1) obtain fd a where fd: "schema_find (ix_schema ix) f = Some fd" "fd_indexed fd"
      "fd_analyzer fd = Some a" "analyze a v = Inr tokens"
    by (auto simp: field_tokens_def split: option.splits if_splits sum.splits)
  have an: "map_of (doc_analysed (ix_schema ix) (dr_document r)) f = Some tokens"
    using v t(1) assms(3) rec
    by (simp add: doc_analysed_def map_of_analysed record_ok_def document_ok_def om_ok_distinct)
  then have "map_of (dr_field_lengths r) f = Some (of_nat (length tokens))"
      "map_of (dr_indexed_terms r) f = Some (term_list tokens)"
    using rec by (simp_all add: record_ok_def)
  with fd t(2) validate_terms_ok [OF assms(1,2)] show ?thesis
    by (simp add: validate_field_def unat_of_nat_small Let_def del: insert_length.simps)
qed

lemma validate_record_ok:
  assumes "index_inv ix" and "index_document ix did = Some r"
  shows "validate_record ix (did, r) expected = Inr (fold insert_length (dr_field_lengths r) expected)"
proof (cases "doc_deleted (dr_document r)")
  case True
  with documents_invD [OF assms] show ?thesis
    by (simp add: validate_record_def record_ok_def index_external_id_def)
next
  case False
  note rec = documents_invD(3) [OF assms]
  define g where "g = (\<lambda>(f, v :: string). (f, the (map_of (dr_field_lengths r) f)))"
  let ?flds = "doc_fields (dr_document r)"
  note vf = validate_field_ok [OF assms False]
  have "fold_result (validate_field ix r) ?flds expected = Inr (fold (\<lambda>x. insert_length (g x)) ?flds expected)"
    using vf by (intro fold_result_fold) (fastforce simp: g_def simp del: insert_length.simps)
  also have "fold (\<lambda>x. insert_length (g x)) ?flds expected = fold insert_length (map g ?flds) expected"
    by (simp add: fold_map comp_def)
  also have "map g ?flds = dr_field_lengths r"
  proof (rule om_ext)
    have doc: "om_ok ?flds"
      using rec by (simp add: record_ok_def document_ok_def)
    then show "om_ok (map g ?flds)"
      by (simp add: om_ok_def g_def case_prod_beta comp_def)
    show "om_ok (dr_field_lengths r)"
      using rec om_ok_doc_analysed [of "dr_document r"] by (simp add: record_ok_def om_ok_def)
    fix f
    have "map_of (map g xs) f = map_option (\<lambda>_. the (map_of (dr_field_lengths r) f)) (map_of xs f)" for xs
      by (induction xs) (auto simp: g_def)
    note this [of ?flds]
    moreover have "map_of (dr_field_lengths r) f = None" if "map_of ?flds f = None"
      using analysed_length(3) [OF rec, of f] rec that
      by (cases "map_of (doc_analysed (ix_schema ix) (dr_document r)) f") (auto simp: record_ok_def)
    moreover have "map_of (dr_field_lengths r) f \<noteq> None" if "map_of ?flds f = Some v" for v
      using vf [OF map_of_SomeD [OF that]] by auto
    ultimately show "map_of (map g ?flds) f = map_of (dr_field_lengths r) f"
      by (cases "map_of ?flds f") auto
  qed
  finally show ?thesis
    using documents_invD [OF assms] False
    by (simp add: validate_record_def index_external_id_def)
qed

lemma fold_insert_documents:
  assumes "\<And>did r. (did, r) \<in> set docs \<Longrightarrow> distinct (map fst (dr_field_lengths r))"
    and "c = 0 \<Longrightarrow> n = 0"
    and "map_of stats f = accumulated c n"
  shows "map_of (fold (\<lambda>(did, r). fold insert_length (dr_field_lengths r)) docs stats) f =
    accumulated (c + field_count docs f) (n + field_total docs f)"
  using assms
proof (induction docs arbitrary: stats c n)
  case (Cons e docs)
  obtain did r where e: "e = (did, r)" by fastforce
  have step: "map_of (fold insert_length (dr_field_lengths r) stats) f =
      accumulated (c + len_count r f) (n + len_total r f)"
    using Cons.prems by (intro fold_insert_accumulated) (auto simp: e)
  have "map_of (fold (\<lambda>(did, r). fold insert_length (dr_field_lengths r)) docs
      (fold insert_length (dr_field_lengths r) stats)) f =
    accumulated (c + len_count r f + field_count docs f) (n + len_total r f + field_total docs f)"
    by (rule Cons.IH [OF _ _ step]) (use Cons.prems len_total_zero in auto)
  then show ?case
    by (simp add: e field_count_def field_total_def add.assoc)
qed (simp add: field_count_def field_total_def)

lemma validate_documents_ok:
  assumes "index_inv ix"
  shows "fold_result (validate_record ix) (ix_documents ix) [] = Inr (ix_statistics ix)"
proof -
  let ?upd = "\<lambda>(did, r). fold insert_length (dr_field_lengths r)"
  have docs: "om_ok (ix_documents ix)"
    using index_invD(1) [OF assms] by (simp add: documents_inv_def)
  have step: "validate_record ix x s = Inr (?upd x s)" if "x \<in> set (ix_documents ix)" for x s
  proof (cases x)
    case (Pair did r)
    with that om_ok_map_of [OF docs] have "index_document ix did = Some r"
      by (simp add: index_document_def)
    then show ?thesis
      by (simp add: Pair validate_record_ok [OF assms])
  qed
  have "fold ?upd (ix_documents ix) [] = ix_statistics ix"
  proof (rule om_ext)
    show "om_ok (fold ?upd (ix_documents ix) [])"
      by (rule fold_keeps) (auto simp: om_ok_lengths split: prod.splits)
    show "om_ok (ix_statistics ix)"
      using index_invD(6) [OF assms] by (simp add: stats_inv_def)
    fix f
    have "distinct (map fst (dr_field_lengths r))" if "(did, r) \<in> set (ix_documents ix)" for did r
      using that documents_invD(3) [OF assms, of did r] om_ok_map_of [OF docs]
      by (auto simp: index_document_def record_ok_def om_ok_distinct om_ok_doc_analysed)
    from fold_insert_documents [where c = 0 and n = 0 and stats = "[]", OF this]
    have "map_of (fold ?upd (ix_documents ix) []) f =
        accumulated (field_count (ix_documents ix) f) (field_total (ix_documents ix) f)"
      by (simp add: accumulated_def)
    then show "map_of (fold ?upd (ix_documents ix) []) f = map_of (ix_statistics ix) f"
      using index_invD(6) [OF assms] by (simp add: stats_inv_def)
  qed
  with fold_result_fold [OF step, of "ix_documents ix"] show ?thesis by simp
qed

lemma validate_dictionaries_ok:
  assumes "index_inv ix"
    and "\<And>f tokens v. field_tokens (ix_schema ix) f v = Some tokens \<Longrightarrow>
      sorted_wrt (<) (map tok_position tokens) \<and> (\<forall>tok \<in> set tokens. tok_term tok \<noteq> [])"
    and "(f, dict) \<in> set (ix_fields ix)"
  shows "fold_result (validate_entry ix f) dict () = Inr ()"
proof (rule fold_result_all)
  fix x
  assume x: "x \<in> set dict"
  obtain t entry where e: "x = (t, entry)" by fastforce
  have ok: "dicts_ok (ix_fields ix)"
    using assms(1) by (rule index_invD)
  then have d: "map_of (ix_fields ix) f = Some dict" "om_ok dict"
    using assms(3) by (auto simp: dicts_ok_def dict_ok_def om_ok_map_of)
  then have l: "index_lookup ix f t = Some entry"
    using x by (simp add: index_lookup_def om_ok_map_of e)
  then have ps: "te_postings entry = plist (ix_fields ix) f t" "te_postings entry \<noteq> []"
      "te_df entry = of_nat (length (te_postings entry))"
    by (auto simp: lookup_plist [OF ok] Let_def split: if_splits)
  obtain p where p: "p \<in> set (plist (ix_fields ix) f t)"
    using ps(1,2) by (metis list.set_intros(1) neq_Nil_conv)
  have "t \<noteq> []"
  proof (rule plist_posting [OF assms(1) p])
    fix r
    assume r: "record_ok (ix_schema ix) r" "p_positions p \<noteq> []"
      "p_positions p = term_positions (ix_schema ix) (dr_document r) f t"
    then obtain tokens where tk: "map_of (doc_analysed (ix_schema ix) (dr_document r)) f = Some tokens"
        "positions_of t tokens \<noteq> []"
      using term_positions_live(3) [OF r(1), of f t] by auto
    then show "t \<noteq> []"
      using analysed_length(3) [OF r(1) tk(1)] assms(2) by (auto simp: positions_of_Nil_iff)
  qed
  then have "fold_result (validate_posting ix f t) (te_postings entry) () = Inr ()"
    using assms(1,2) unfolding ps(1) by (intro fold_result_all validate_posting_ok) blast+
  moreover have "sorted (map p_doc (te_postings entry))"
    using index_invD(5) [OF assms(1)] by (simp add: ps(1) plist_inv_def ssorted_by_def strict_sorted_iff)
  ultimately show "validate_entry ix f x () = Inr ()"
    using ps plist_length [OF assms(1), of f t] by (simp add: validate_entry_def e unat_of_nat_small)
qed

text \<open>\<open>engine_analyzer\<close>: an analyzer class of the sources.\<close>

definition engine_analyzer :: "analyzer \<Rightarrow> bool" where
  "engine_analyzer a \<longleftrightarrow> (case a of CustomAnalyzer _ _ \<Rightarrow> False | _ \<Rightarrow> True)"

definition engine_schema :: "schema \<Rightarrow> bool" where
  "engine_schema schema \<longleftrightarrow>
     (\<forall>(name, fd) \<in> set schema. case fd_analyzer fd of None \<Rightarrow> True | Some a \<Rightarrow> engine_analyzer a)"

lemma engine_tokens:
  assumes "engine_schema schema" and "field_tokens schema f v = Some tokens"
  shows "sorted_wrt (<) (map tok_position tokens) \<and> (\<forall>tok \<in> set tokens. tok_term tok \<noteq> [])"
proof -
  from assms(2) obtain fd a where fd: "map_of schema f = Some fd" "fd_analyzer fd = Some a"
      "analyze a v = Inr tokens"
    by (auto simp: field_tokens_def schema_find_def split: option.splits if_splits sum.splits)
  with assms(1) map_of_SomeD [OF fd(1)] have "engine_analyzer a"
    by (fastforce simp: engine_schema_def)
  with fd(3) show ?thesis
    using standard.positions_increasing standard.terms_nonempty keyword.positions_increasing
      keyword.terms_nonempty
    by (cases a) (auto simp: engine_analyzer_def simp del: analyze.simps)
qed

lemma reachable_validates:
  assumes "index_reachable schema maximum ix" and "engine_schema schema"
  shows "validate_invariants ix = Inr ()"
proof -
  have inv: "index_inv ix" and s: "ix_schema ix = schema"
    using assms reachable_inv index_reachable_schema by blast+
  have "fold_result (\<lambda>(field, dict). fold_result (validate_entry ix field) dict) (ix_fields ix) () = Inr ()"
    using validate_dictionaries_ok [OF inv] engine_tokens [OF assms(2)]
    by (intro fold_result_all) (auto simp: s)
  moreover have "length (ix_external_ids ix) = length (ix_documents ix)"
    using ids_length(1) [OF _ index_invD(2) [OF inv]] index_invD(1) [OF inv]
    by (simp add: documents_inv_def)
  moreover have "fold_result (validate_statistic ix) (ix_statistics ix) () = Inr ()"
    using index_invD(6) [OF inv]
    by (intro fold_result_all) (auto simp: validate_statistic_def stats_inv_def om_ok_map_of)
  ultimately show ?thesis
    by (simp add: validate_invariants_def validate_documents_ok [OF inv])
qed

text \<open>
  C3: the self check of the sources accepts every reachable state of an index whose analyzers are
  those of the sources: no test of \<^verbatim>\<open>validate_invariants\<close> fails, and it neither dereferences a null
  analyzer nor lets an exception through.
\<close>

theorem validate_invariants_ok:
  assumes "index_reachable schema maximum ix" and "engine_schema schema"
  shows "validate_invariants ix = Inr ()"
  using assms by (rule reachable_validates)

section \<open>Statistics\<close>

lemma len_count_analysed:
  "record_ok schema r \<Longrightarrow>
    len_count r f = (if map_of (doc_analysed schema (dr_document r)) f = None then 0 else 1)"
  by (simp add: len_count_def record_ok_def)

lemma len_total_analysed:
  assumes "record_ok schema r"
  shows "len_total r f = length (om_get [] (doc_analysed schema (dr_document r)) f)"
  using assms analysed_length(1) [OF assms, of f]
  by (auto simp: len_total_def record_ok_def om_get_def unat_of_nat_small split: option.splits)

lemma field_sums_analysed:
  assumes "\<And>did r. (did, r) \<in> set docs \<Longrightarrow> record_ok schema r"
  shows "field_count docs f =
      length (filter (\<lambda>(did, r). map_of (doc_analysed schema (dr_document r)) f \<noteq> None) docs)"
    and "field_total docs f =
      (\<Sum>(did, r)\<leftarrow>docs. length (om_get [] (doc_analysed schema (dr_document r)) f))"
proof -
  from assms have "\<forall>(did, r) \<in> set docs. record_ok schema r" by blast
  then have "field_count docs f =
      length (filter (\<lambda>(did, r). map_of (doc_analysed schema (dr_document r)) f \<noteq> None) docs) \<and>
    field_total docs f =
      (\<Sum>(did, r)\<leftarrow>docs. length (om_get [] (doc_analysed schema (dr_document r)) f))"
  proof (induction docs)
    case (Cons e docs)
    then show ?case
      by (auto simp: field_count_def field_total_def len_count_analysed len_total_analysed)
  qed (simp add: field_count_def field_total_def)
  then show "field_count docs f =
      length (filter (\<lambda>(did, r). map_of (doc_analysed schema (dr_document r)) f \<noteq> None) docs)"
    "field_total docs f =
      (\<Sum>(did, r)\<leftarrow>docs. length (om_get [] (doc_analysed schema (dr_document r)) f))"
    by blast+
qed

lemma record_of_document:
  assumes "index_inv ix" and "(did, r) \<in> set (ix_documents ix)"
  shows "record_ok (ix_schema ix) r"
proof -
  have "om_ok (ix_documents ix)"
    using index_invD(1) [OF assms(1)] by (simp add: documents_inv_def)
  with assms(2) have "index_document ix did = Some r"
    by (simp add: index_document_def om_ok_map_of)
  then show ?thesis by (rule documents_invD(3) [OF assms(1)])
qed

lemma statistics_sums:
  assumes "index_inv ix"
  shows "unat (fs_count (index_field_statistics ix f)) = field_count (ix_documents ix) f"
    and "unat (fs_total (index_field_statistics ix f)) = field_total (ix_documents ix) f"
    and "fs_average (index_field_statistics ix f) =
      (if field_count (ix_documents ix) f = 0 then fp_zero
       else fdiv (fp_of_int (int (field_total (ix_documents ix) f))) (fp_of_int (int (field_count (ix_documents ix) f))))"
    and "field_total (ix_documents ix) f < 2 ^ 64" and "field_count (ix_documents ix) f \<le> 2 ^ 32"
proof -
  have docs: "om_ok (ix_documents ix)"
    using index_invD(1) [OF assms] by (simp add: documents_inv_def)
  let ?c = "field_count (ix_documents ix) f" and ?n = "field_total (ix_documents ix) f"
  show c: "?c \<le> 2 ^ 32"
    using field_count_le [of "ix_documents ix" f] ids_length(2) [OF docs index_invD(2) [OF assms]] by simp
  then have "(2 ^ 32 - 1) * ?c \<le> (2 ^ 32 - 1) * 2 ^ 32" by simp
  then show n: "?n < 2 ^ 64"
    using field_total_le [of "ix_documents ix" f] by simp
  have m: "map_of (ix_statistics ix) f = accumulated ?c ?n"
    using index_invD(6) [OF assms] by (simp add: stats_inv_def)
  have z: "?c = 0 \<Longrightarrow> ?n = 0" by (rule field_total_zero)
  have u: "unat (of_nat ?c :: u64) = ?c" "unat (of_nat ?n :: u64) = ?n"
    using c n by (simp_all add: unat_of_nat_small)
  show "unat (fs_count (index_field_statistics ix f)) = ?c" "unat (fs_total (index_field_statistics ix f)) = ?n"
    using m z u by (simp_all add: index_field_statistics_def accumulated_def statistics_of_def)
  have "uint (of_nat ?c :: u64) = int ?c" "uint (of_nat ?n :: u64) = int ?n"
    using u by (metis int_eq_iff unat_eq_nat_uint uint_nat)+
  with m show "fs_average (index_field_statistics ix f) =
      (if ?c = 0 then fp_zero else fdiv (fp_of_int (int ?n)) (fp_of_int (int ?c)))"
    by (simp add: index_field_statistics_def accumulated_def statistics_of_def)
qed

text \<open>
  The statistics of a field are exact in every reachable state: the number of visible documents
  with an analysed value for it and the sum of their token counts. Neither 64-bit counter can
  wrap around, as there are fewer than 2^32 documents with fewer than 2^32 tokens each.
\<close>

theorem statistics_exact:
  assumes "index_reachable schema maximum ix"
  shows "unat (fs_count (index_field_statistics ix f)) =
      length (filter (\<lambda>(did, r). map_of (doc_analysed schema (dr_document r)) f \<noteq> None) (ix_documents ix)) \<and>
    unat (fs_total (index_field_statistics ix f)) =
      (\<Sum>(did, r)\<leftarrow>ix_documents ix. length (om_get [] (doc_analysed schema (dr_document r)) f))"
  using field_sums_analysed [of "ix_documents ix" schema f] record_of_document [OF reachable_inv [OF assms]]
    statistics_sums(1,2) [OF reachable_inv [OF assms]] index_reachable_schema [OF assms] by simp

section \<open>Refinement of a versioned document store\<close>

definition visible :: "index \<Rightarrow> document_id \<Rightarrow> document option" where
  "visible ix did = map_option dr_document (index_document ix did)"

text \<open>The specification: a store that keeps the newest version of each document.\<close>

definition store_put :: "(document_id \<Rightarrow> document option) \<Rightarrow> document \<Rightarrow> (document_id \<Rightarrow> document option) option" where
  "store_put m d =
     (if doc_id d = [] then None
      else case m (doc_id d) of
             None \<Rightarrow> Some (m(doc_id d \<mapsto> d))
           | Some old \<Rightarrow> if doc_version old < doc_version d then Some (m(doc_id d \<mapsto> d)) else None)"

lemma put_effect:
  assumes "index_inv ix" and "document_ok d" and "index_put ix d = Inr ix'"
  obtains i where "allocate ix (doc_id d) = Inr i" "ix_schema ix' = ix_schema ix"
    "ix_documents ix' = om_assign (doc_id d) (published (ix_schema ix) i d) (ix_documents ix)"
    "\<And>f t. plist (ix_fields ix') f t =
      (let kept = filter (\<lambda>p. p_doc p \<noteq> i) (plist (ix_fields ix) f t)
       in if term_positions (ix_schema ix) d f t = [] then kept
          else sort_key p_doc (kept @ [doc_posting (ix_schema ix) (published (ix_schema ix) i d) f t]))"
proof -
  from assms(3) obtain i p u where v: "validate_document (ix_schema ix) d = Inr u"
    and a: "allocate ix (doc_id d) = Inr i" and p: "prepare (ix_schema ix) d = Inr p"
    and ix': "ix' = publish ix i d p"
    by (rule index_put_Inr)
  note inv = index_invD [OF assms(1)]
  note pub = publish_eq [OF inv(1) prepare_Inr(1) [OF p v assms(2)], of i]
  show thesis
    using that [OF a] unfolding ix' pub Let_def
    using plist_publish [OF inv(5,2,1) assms(2) allocate_Inr(1) [OF a inv(2,3)]] by (simp add: Let_def)
qed

lemma store_put_accepts:
  "store_put (visible ix) d = None \<longleftrightarrow> doc_id d = [] \<or> stale ix (doc_id d) (doc_version d)"
  by (auto simp: store_put_def visible_def index_document_def stale_def not_less split: option.splits)

lemma late_failure:
  assumes "index_put ix d = Inl (Rejected e)" and "doc_id d \<noteq> []" and "\<not> stale ix (doc_id d) (doc_version d)"
  shows "ie_code e \<notin> {Empty_document_id, Stale_version}"
proof -
  have a: "validate_all s policy err xs = Inl (Rejected e) \<Longrightarrow> ie_code e = Schema_error" for s policy err xs
    by (induction s policy err xs rule: validate_all.induct)
      (auto simp: schema_fault_def split: sum.splits option.splits if_splits)
  have b: "analyze_fields s xs p = Inl (Rejected e) \<Longrightarrow> ie_code e \<in> {Analysis_failed, Field_length_overflow}"
    for s xs p
    by (induction s xs p rule: analyze_fields.induct)
      (auto simp: index_fail_def split: sum.splits option.splits if_splits)
  have c: "allocate ix did = Inl (Rejected e) \<Longrightarrow> ie_code e = Internal_id_exhausted" for did
    by (auto simp: allocate_def index_fail_def split: option.splits if_splits)
  have "ie_code e \<in> {Schema_error, Internal_id_exhausted, Analysis_failed, Field_length_overflow}"
    using assms
    by (auto simp: index_put_def validate_document_def prepare_def Let_def
        split: sum.splits if_splits dest!: a b c)
  then show ?thesis by auto
qed

text \<open>
  C4: \<^verbatim>\<open>put\<close> refines the versioned store, in every reachable state and for every document. If it
  succeeds, the store accepts the document and the visible documents change as the store's do;
  if the store refuses (an empty identifier, or a version that is not newer), so does \<^verbatim>\<open>put\<close>,
  with the code for that reason; no other failure carries one of these two codes.
\<close>

theorem put_refines_store:
  assumes "index_reachable schema maximum ix" and "document_ok d"
  shows "case index_put ix d of
      Inr ix' \<Rightarrow> store_put (visible ix) d = Some (visible ix')
    | Inl (Rejected e) \<Rightarrow>
        store_put (visible ix) d = None \<longleftrightarrow> ie_code e \<in> {Empty_document_id, Stale_version}
    | Inl Null_dereference \<Rightarrow> store_put (visible ix) d \<noteq> None"
proof (cases "doc_id d = [] \<or> stale ix (doc_id d) (doc_version d)")
  case True
  then have "\<exists>e. index_put ix d = Inl (Rejected e) \<and> ie_code e \<in> {Empty_document_id, Stale_version}"
    by (auto simp: index_put_def index_fail_def)
  with True show ?thesis
    using store_put_accepts [of ix d] by auto
next
  case False
  then have acc: "store_put (visible ix) d = Some ((visible ix)(doc_id d \<mapsto> d))"
    using store_put_accepts [of ix d] by (auto simp: store_put_def split: option.splits if_splits)
  show ?thesis
  proof (cases "index_put ix d")
    case (Inr ix')
    have "visible ix' = (visible ix)(doc_id d \<mapsto> d)"
      by (rule put_effect [OF reachable_inv [OF assms(1)] assms(2) Inr])
        (simp add: visible_def index_document_def fun_eq_iff)
    with Inr acc show ?thesis by simp
  next
    case (Inl e)
    with False late_failure [of ix d] acc show ?thesis
      by (cases e) auto
  qed
qed

section \<open>Deletion\<close>

text \<open>
  A successful \<^verbatim>\<open>erase\<close> hides the document for good. Afterwards no posting of any term names it, the
  postings of every other document are unchanged, its record is a tombstone, and every later
  \<^verbatim>\<open>put\<close> or \<^verbatim>\<open>erase\<close> of it with a version up to the tombstone's is rejected as stale.
\<close>

theorem erase_hides:
  assumes "index_reachable schema maximum ix" and "index_erase ix did version = Inr ix'"
  shows "\<exists>i. index_internal_id ix' did = Some i \<and>
    visible ix' did = Some (tombstone did version) \<and> i \<notin> set (index_live_document_ids ix') \<and>
    (\<forall>f t. plist (ix_fields ix') f t = filter (\<lambda>p. p_doc p \<noteq> i) (plist (ix_fields ix) f t)) \<and>
    (\<forall>d. doc_id d = did \<and> doc_version d \<le> version \<longrightarrow>
       index_put ix' d = Inl (index_fail Stale_version ''document version must be newer than visible version'')) \<and>
    (\<forall>v \<le> version.
       index_erase ix' did v = Inl (index_fail Stale_version ''delete version must be newer than visible version''))"
proof -
  note put = index_erase_put [OF assms(2)]
  have inv: "index_inv ix" and inv': "index_inv ix'"
    using assms reachable_inv index_reachable.erase by blast+
  have ok: "document_ok (tombstone did version)" by simp
  obtain i where
      docs: "ix_documents ix' = om_assign did (published (ix_schema ix) i (tombstone did version)) (ix_documents ix)"
    and pl: "\<And>f t. plist (ix_fields ix') f t = filter (\<lambda>p. p_doc p \<noteq> i) (plist (ix_fields ix) f t)"
    by (rule put_effect [OF inv ok put]) (simp add: term_positions_def om_get_def)
  let ?r = "published (ix_schema ix) i (tombstone did version)"
  have r: "index_document ix' did = Some ?r"
    by (simp add: index_document_def docs)
  then have ext: "index_external_id ix' i = Some did"
    using documents_invD(4) [OF inv' r] by simp
  have "did \<noteq> []"
    using documents_invD(1) [OF inv' r] .
  moreover have "i \<notin> set (index_live_document_ids ix')"
  proof
    assume "i \<in> set (index_live_document_ids ix')"
    then obtain k where k: "(i, k) \<in> set (ix_external_ids ix')"
        "case index_document ix' k of None \<Rightarrow> False | Some r \<Rightarrow> \<not> doc_deleted (dr_document r)"
      by (auto simp: index_live_document_ids_def)
    then have "index_external_id ix' i = Some k"
      using index_invD(2) [OF inv'] by (simp add: index_external_id_def ids_inv_def om_ok_map_of)
    with ext r k(2) show False by simp
  qed
  ultimately show ?thesis
    using r pl
    by (intro exI [of _ i])
      (auto simp: index_internal_id_def index_document_def visible_def index_put_def index_erase_def stale_def)
qed

section \<open>Success and undefined behaviour of \<open>put\<close>\<close>

lemma validate_all_Inr_iff:
  "validate_all schema policy err xs = Inr () \<longleftrightarrow>
    (\<forall>(f, v) \<in> set xs. validate_value schema f v = Inr () \<and>
       (\<exists>fd. schema_find schema f = Some fd \<and> policy fd))"
  by (induction schema policy err xs rule: validate_all.induct)
    (auto split: sum.splits option.splits)

lemma validate_document_Inr_iff:
  "validate_document schema d = Inr () \<longleftrightarrow>
    (\<forall>(f, v) \<in> set (doc_fields d). validate_value schema f v = Inr () \<and>
       (\<exists>fd. schema_find schema f = Some fd \<and> fd_indexed fd)) \<and>
    (\<forall>(f, v) \<in> set (doc_metadata d). validate_value schema f v = Inr () \<and>
       (\<exists>fd. schema_find schema f = Some fd \<and> fd_stored fd))"
proof -
  let ?err = "\<lambda>field. schema_fail Field_not_indexed field ''field is not configured for indexing''"
  let ?err' = "\<lambda>field. schema_fail Field_not_stored field ''field is not configured for stored metadata''"
  have "validate_document schema d = Inr () \<longleftrightarrow>
      validate_all schema fd_indexed ?err (doc_fields d) = Inr () \<and>
      validate_all schema fd_stored ?err' (doc_metadata d) = Inr ()"
    by (simp add: validate_document_def split: sum.splits)
  then show ?thesis
    by (simp only: validate_all_Inr_iff)
qed

lemma analyze_fields_total:
  assumes "\<forall>(f, v) \<in> set xs. indexable schema f v"
  shows "\<exists>q. analyze_fields schema xs p = Inr q"
  using assms
proof (induction schema xs p rule: analyze_fields.induct)
  case (2 schema f v rest p)
  from "2.prems" obtain tokens where t: "field_tokens schema f v = Some tokens" "length tokens < 2 ^ 32"
    by (auto simp: indexable_def)
  then obtain fd a where "schema_find schema f = Some fd" "fd_indexed fd" "fd_analyzer fd = Some a"
      "analyze a v = Inr tokens"
    by (auto simp: field_tokens_def split: option.splits if_splits sum.splits)
  with 2 t(2) show ?case by auto
qed simp

text \<open>
  \<^verbatim>\<open>put\<close> succeeds exactly when the identifier is not empty and the version is newer than the
  visible one, every field value is valid for an indexed field and every metadata value for a
  stored one, an internal identifier is available, and, unless the document is a tombstone, the
  analyzers accept every field and return fewer than 2^32 tokens.
\<close>

theorem put_succeeds_iff:
  assumes "document_ok d"
  shows "(\<exists>ix'. index_put ix d = Inr ix') \<longleftrightarrow>
    doc_id d \<noteq> [] \<and> \<not> stale ix (doc_id d) (doc_version d) \<and>
    (\<forall>(f, v) \<in> set (doc_fields d). validate_value (ix_schema ix) f v = Inr () \<and>
       (\<exists>fd. schema_find (ix_schema ix) f = Some fd \<and> fd_indexed fd)) \<and>
    (\<forall>(f, v) \<in> set (doc_metadata d). validate_value (ix_schema ix) f v = Inr () \<and>
       (\<exists>fd. schema_find (ix_schema ix) f = Some fd \<and> fd_stored fd)) \<and>
    (index_document ix (doc_id d) \<noteq> None \<or>
       ix_next_internal_id ix \<noteq> 0 \<and> ix_next_internal_id ix \<le> ix_maximum_internal_id ix) \<and>
    (doc_deleted d \<or> (\<forall>(f, v) \<in> set (doc_fields d). indexable (ix_schema ix) f v))"
    (is "?L \<longleftrightarrow> ?R")
proof -
  have alloc: "(\<exists>i. allocate ix (doc_id d) = Inr i) \<longleftrightarrow> index_document ix (doc_id d) \<noteq> None \<or>
      ix_next_internal_id ix \<noteq> 0 \<and> ix_next_internal_id ix \<le> ix_maximum_internal_id ix"
    by (auto simp: allocate_def index_document_def split: option.splits)
  have prep: "(\<exists>p. prepare (ix_schema ix) d = Inr p) \<longleftrightarrow>
      doc_deleted d \<or> (\<forall>(f, v) \<in> set (doc_fields d). indexable (ix_schema ix) f v)"
    if "validate_document (ix_schema ix) d = Inr ()"
    using prepare_Inr(2) [OF _ that assms] analyze_fields_total assms
    by (auto simp: prepare_def document_ok_def om_ok_map_of Let_def)
  have "?L \<longleftrightarrow> doc_id d \<noteq> [] \<and> \<not> stale ix (doc_id d) (doc_version d) \<and>
      validate_document (ix_schema ix) d = Inr () \<and> (\<exists>i. allocate ix (doc_id d) = Inr i) \<and>
      (\<exists>p. prepare (ix_schema ix) d = Inr p)"
    by (auto simp: index_put_def split: sum.splits)
  then show ?thesis
    using validate_document_Inr_iff alloc prep by blast
qed

lemma validate_all_not_null: "validate_all schema policy err xs \<noteq> Inl Null_dereference"
proof -
  have known: "schema_find s f \<noteq> None" if "validate_value s f v = Inr u" for s f v u
    using that by (auto simp: validate_value_def split: option.splits)
  show ?thesis
    by (induction schema policy err xs rule: validate_all.induct)
      (auto simp: schema_fault_def dest: known split: sum.splits option.splits)
qed

text \<open>
  \<^verbatim>\<open>put\<close> has no undefined behaviour on a schema that \<^verbatim>\<open>IndexSchema::create\<close> returned for
  definitions in which only text and keyword fields are indexed, as in the default schema: it
  never dereferences a null definition or analyzer.
\<close>

theorem put_no_null_dereference:
  assumes "schema_create flds = Inr schema" and "ix_schema ix = schema"
    and "\<forall>field \<in> set flds. fd_indexed field \<longrightarrow> fd_type field = FT_text \<or> fd_type field = FT_keyword"
  shows "index_put ix d \<noteq> Inl Null_dereference"
proof -
  have an: "fd_analyzer fd \<noteq> None" if "schema_find schema f = Some fd" "fd_indexed fd" for f fd
    using assms(3) schema_create_finds [OF assms(1), of f fd] that
    by (auto simp: definition_ok_def needs_analyzer_def)
  have a: "analyze_fields schema xs p \<noteq> Inl Null_dereference" for xs p
  proof (induction xs arbitrary: p)
    case (Cons x xs)
    obtain f v where x: "x = (f, v)" by fastforce
    show ?case
      using Cons an [of f] by (auto simp: x index_fail_def split: sum.splits option.splits)
  qed simp
  show ?thesis
    using validate_all_not_null [of schema] a
    by (auto simp: index_put_def assms(2) index_fail_def validate_document_def allocate_def prepare_def Let_def
        split: sum.splits option.splits)
qed

lemma first_split_Cons:
  "(\<exists>us y ws. x # xs = us @ y # ws \<and> (\<forall>u \<in> set us. P u) \<and> Q y) \<longleftrightarrow>
   Q x \<or> (P x \<and> (\<exists>us y ws. xs = us @ y # ws \<and> (\<forall>u \<in> set us. P u) \<and> Q y))" (is "?L \<longleftrightarrow> ?R")
proof
  assume ?L
  then obtain us y ws where "x # xs = us @ y # ws" "\<forall>u \<in> set us. P u" "Q y" by blast
  then show ?R by (cases us) auto
next
  assume ?R
  then show ?L
  proof
    assume "Q x"
    then show ?L by (intro exI [of _ "[]"] exI [of _ x] exI [of _ xs]) simp
  next
    assume "P x \<and> (\<exists>us y ws. xs = us @ y # ws \<and> (\<forall>u \<in> set us. P u) \<and> Q y)"
    then obtain us y ws where "P x" "xs = us @ y # ws" "\<forall>u \<in> set us. P u" "Q y" by blast
    then show ?L by (intro exI [of _ "x # us"] exI [of _ y] exI [of _ ws]) simp
  qed
qed

lemma analyze_fields_null:
  assumes "\<forall>x \<in> set xs. \<exists>fd. schema_find schema (fst x) = Some fd \<and> fd_indexed fd"
  shows "analyze_fields schema xs p = Inl Null_dereference \<longleftrightarrow>
    (\<exists>us y ws. xs = us @ y # ws \<and> (\<forall>u \<in> set us. indexable schema (fst u) (snd u)) \<and>
      (\<exists>fd. schema_find schema (fst y) = Some fd \<and> fd_analyzer fd = None))"
  using assms
proof (induction xs arbitrary: p)
  case (Cons x xs)
  obtain f v where x: "x = (f, v)" by fastforce
  from Cons.prems obtain fd where fd: "schema_find schema f = Some fd" "fd_indexed fd" by (auto simp: x)
  have IH: "(\<exists>us y ws. xs = us @ y # ws \<and> (\<forall>u \<in> set us. indexable schema (fst u) (snd u)) \<and>
      (\<exists>fd. schema_find schema (fst y) = Some fd \<and> fd_analyzer fd = None)) \<longleftrightarrow> analyze_fields schema xs q = Inl Null_dereference" for q
    using Cons.IH [of q] Cons.prems by simp
  show ?case
    unfolding first_split_Cons IH [of "prepare_field f (the (field_tokens schema f v)) p"]
    using fd by (simp add: x indexable_def field_tokens_def index_fail_def split: option.split sum.split)
qed simp

text \<open>
  C33: exactly when \<^verbatim>\<open>put\<close> reaches undefined behaviour. Take any schema that \<^verbatim>\<open>IndexSchema::create\<close> accepts, and any index
  over it. \<^verbatim>\<open>put\<close> calls an analyzer through a null pointer if and only if the document passes every check (its identifier is not
  empty, its version is not stale, all its values are valid for the schema, an internal identifier is left), is
  not a tombstone, and has a value for an \<^verbatim>\<open>int64\<close> or \<^verbatim>\<open>timestamp\<close> field that comes before any field whose analysis
  fails. So every valid document with such a field crashes the program unless an analyzer throws first; \<^verbatim>\<open>create\<close> lets the
  fields be indexed and refuses to let them have an analyzer.
\<close>

theorem put_null_dereference:
  assumes "schema_create flds = Inr schema" and "ix_schema ix = schema"
  shows "index_put ix d = Inl Null_dereference \<longleftrightarrow>
    doc_id d \<noteq> [] \<and> \<not> stale ix (doc_id d) (doc_version d) \<and> validate_document schema d = Inr () \<and>
    (\<exists>i. allocate ix (doc_id d) = Inr i) \<and> \<not> doc_deleted d \<and>
    (\<exists>us x ws fd. doc_fields d = us @ x # ws \<and> (\<forall>u \<in> set us. indexable schema (fst u) (snd u)) \<and>
      schema_find schema (fst x) = Some fd \<and> fd_type fd \<in> {FT_int64, FT_timestamp})"
proof -
  have v: "validate_document schema d \<noteq> Inl Null_dereference" and a: "allocate ix (doc_id d) \<noteq> Inl Null_dereference"
    using validate_all_not_null [of schema]
    by (auto simp: validate_document_def allocate_def index_fail_def split: sum.splits option.splits)
  have put: "index_put ix d = Inl Null_dereference \<longleftrightarrow>
      doc_id d \<noteq> [] \<and> \<not> stale ix (doc_id d) (doc_version d) \<and> validate_document schema d = Inr () \<and>
      (\<exists>i. allocate ix (doc_id d) = Inr i) \<and> \<not> doc_deleted d \<and>
      analyze_fields schema (doc_fields d) \<lparr>pr_lengths = [], pr_postings = [], pr_terms = []\<rparr> = Inl Null_dereference"
    using v a by (auto simp: index_put_def assms(2) prepare_def index_fail_def Let_def split: sum.splits)
  have typed: "fd_analyzer fd = None \<longleftrightarrow> fd_type fd \<in> {FT_int64, FT_timestamp}"
    if "schema_find schema f = Some fd" "fd_indexed fd" for f fd
    using schema_create_finds(3) [OF assms(1) that(1)] that(2)
    by (cases "fd_type fd") (auto simp: definition_ok_def needs_analyzer_def)
  show ?thesis
  proof (cases "validate_document schema d = Inr ()")
    case True
    then have known: "\<forall>x \<in> set (doc_fields d). \<exists>fd. schema_find schema (fst x) = Some fd \<and> fd_indexed fd"
      by (auto simp: validate_document_Inr_iff)
    have "schema_find schema (fst x) = Some fd \<and> fd_analyzer fd = None \<longleftrightarrow>
        schema_find schema (fst x) = Some fd \<and> fd_type fd \<in> {FT_int64, FT_timestamp}" if "x \<in> set (doc_fields d)" for x fd
      using known that typed by fastforce
    then have "(\<exists>us x ws. doc_fields d = us @ x # ws \<and> (\<forall>u \<in> set us. indexable schema (fst u) (snd u)) \<and>
          (\<exists>fd. schema_find schema (fst x) = Some fd \<and> fd_analyzer fd = None)) \<longleftrightarrow>
        (\<exists>us x ws fd. doc_fields d = us @ x # ws \<and> (\<forall>u \<in> set us. indexable schema (fst u) (snd u)) \<and>
          schema_find schema (fst x) = Some fd \<and> fd_type fd \<in> {FT_int64, FT_timestamp})"
      by (metis in_set_conv_decomp)
    then show ?thesis unfolding put analyze_fields_null [OF known] by blast
  qed (simp add: put)
qed

theorem put_null_dereference_witness:
  "\<exists>schema. schema_create [\<lparr>fd_name = ''n'', fd_type = FT_int64, fd_indexed = True, fd_stored = True,
      fd_boost = fp_one, fd_analyzer = None\<rparr>] = Inr schema \<and>
    index_put (index_new schema 10) \<lparr>doc_id = ''d'', doc_fields = [(''n'', ''7'')], doc_metadata = [],
      doc_version = 1, doc_deleted = False\<rparr> = Inl Null_dereference"
proof -
  let ?fd = "\<lparr>fd_name = ''n'', fd_type = FT_int64, fd_indexed = True, fd_stored = True,
      fd_boost = fp_one, fd_analyzer = None\<rparr>"
  let ?d = "\<lparr>doc_id = ''d'', doc_fields = [(''n'', ''7'')], doc_metadata = [], doc_version = 1, doc_deleted = False\<rparr>"
  have "validate_document [(''n'', ?fd)] ?d = Inr ()"
    by (simp add: validate_document_def validate_value_def schema_find_def from_chars_i64_def from_chars_signed_def isdigit_def
        digits_value_def digit_value_def Let_def)
  moreover have c: "schema_create [?fd] = Inr [(''n'', ?fd)]"
    by (simp add: schema_create_def schema_add_def needs_analyzer_def om_emplace_def fp_eval_defs)
  moreover have "\<exists>us x ws fd. doc_fields ?d = us @ x # ws \<and> (\<forall>u \<in> set us. indexable [(''n'', ?fd)] (fst u) (snd u)) \<and>
      schema_find [(''n'', ?fd)] (fst x) = Some fd \<and> fd_type fd \<in> {FT_int64, FT_timestamp}"
    by (rule exI [of _ "[]"]) (simp add: schema_find_def)
  ultimately have "index_put (index_new [(''n'', ?fd)] 10) ?d = Inl Null_dereference"
    by (subst put_null_dereference [OF c]) (simp_all add: index_new_def stale_def allocate_def)
  with c show ?thesis by blast
qed

section \<open>A concrete index\<close>

definition ex_schema :: schema where
  "ex_schema = [(''body'', \<lparr>fd_name = ''body'', fd_type = FT_text, fd_indexed = True, fd_stored = True,
     fd_boost = fp_one, fd_analyzer = Some (StandardAnalyzer [])\<rparr>)]"

definition ex_document :: document where
  "ex_document = \<lparr>doc_id = ''d'', doc_fields = [(''body'', ''a b a'')], doc_metadata = [],
     doc_version = 1, doc_deleted = False\<rparr>"

definition ex_index :: index where
  "ex_index =
     \<lparr>ix_schema = ex_schema,
      ix_fields = [(''body'',
        [(''a'', \<lparr>te_df = 1, te_postings = [\<lparr>p_doc = 1, p_tf = 2, p_positions = [0, 2]\<rparr>]\<rparr>),
         (''b'', \<lparr>te_df = 1, te_postings = [\<lparr>p_doc = 1, p_tf = 1, p_positions = [1]\<rparr>]\<rparr>)])],
      ix_documents = [(''d'', \<lparr>dr_internal_id = 1, dr_document = ex_document,
         dr_field_lengths = [(''body'', 3)], dr_indexed_terms = [(''body'', [''a'', ''b''])]\<rparr>)],
      ix_external_ids = [(1, ''d'')],
      ix_statistics = [(''body'', \<lparr>fa_count = 1, fa_total = 3\<rparr>)],
      ix_next_internal_id = 2, ix_maximum_internal_id = 10\<rparr>"

lemma ex_analyze:
  "analyze (StandardAnalyzer []) ''a b a'' = Inr
    [\<lparr>tok_term = ''a'', tok_position = 0, tok_start_offset = 0, tok_end_offset = 1\<rparr>,
     \<lparr>tok_term = ''b'', tok_position = 1, tok_start_offset = 2, tok_end_offset = 3\<rparr>,
     \<lparr>tok_term = ''a'', tok_position = 2, tok_start_offset = 4, tok_end_offset = 5\<rparr>]"
  by (simp add: standard_analyze_def standard_loop.simps is_token_byte_def
      ctype_defs ascii_lower_def checked_offset_def Let_def)

lemma ex_document_ok: "document_ok ex_document"
  by (simp add: document_ok_def ex_document_def)

lemma ex_put: "index_put (index_new ex_schema 10) ex_document = Inr ex_index"
  by (simp add: index_put_def index_new_def stale_def validate_document_def schema_find_def
      allocate_def prepare_def Let_def ex_schema_def ex_document_def ex_analyze validate_value_def
      prepare_field_def om_get_def publish_def ex_index_def del: analyze.simps)

lemma ex_reachable: "index_reachable ex_schema 10 ex_index"
  using index_reachable.start ex_document_ok ex_put by (rule index_reachable.put)

lemma ex_erase:
  "\<exists>ix'. index_erase ex_index ''d'' 2 = Inr ix'"
  by (simp add: index_erase_def index_put_def stale_def validate_document_def allocate_def prepare_def
      Let_def ex_index_def ex_document_def word_le_nat_alt)

section \<open>The properties at the concrete index\<close>

theorem inverted_index_witness:
  "index_reachable ex_schema 10 ex_index \<and>
   sorted_list_of_set {i. \<exists>r. index_document_internal ex_index i = Some r \<and>
     term_positions ex_schema (dr_document r) ''body'' ''a'' \<noteq> []} = [1]"
proof -
  have "index_lookup ex_index ''body'' ''a'' =
      Some \<lparr>te_df = 1, te_postings = [\<lparr>p_doc = 1, p_tf = 2, p_positions = [0, 2]\<rparr>]\<rparr>"
    by (simp add: index_lookup_def ex_index_def)
  with inverted_index [OF ex_reachable, of "''body''" "''a''"] ex_reachable show ?thesis
    by simp
qed

theorem validate_invariants_ok_witness:
  "index_reachable ex_schema 10 ex_index \<and> engine_schema ex_schema \<and> validate_invariants ex_index = Inr ()"
proof -
  have "engine_schema ex_schema"
    by (simp add: engine_schema_def ex_schema_def engine_analyzer_def)
  with validate_invariants_ok [OF ex_reachable this] ex_reachable show ?thesis by simp
qed

theorem statistics_exact_witness:
  "index_reachable ex_schema 10 ex_index \<and>
   length (filter (\<lambda>(did, r). map_of (doc_analysed ex_schema (dr_document r)) ''body'' \<noteq> None)
     (ix_documents ex_index)) = 1"
proof -
  have "fs_count (index_field_statistics ex_index ''body'') = 1"
    by (simp add: index_field_statistics_def ex_index_def statistics_of_def)
  with statistics_exact [OF ex_reachable, of "''body''"] ex_reachable show ?thesis by simp
qed

theorem put_refines_store_witness:
  "\<exists>e. index_reachable ex_schema 10 ex_index \<and> document_ok ex_document \<and>
     index_put ex_index ex_document = Inl (Rejected e) \<and> store_put (visible ex_index) ex_document = None"
proof -
  have "index_put ex_index ex_document =
      Inl (index_fail Stale_version ''document version must be newer than visible version'')"
    by (simp add: index_put_def ex_document_def ex_index_def stale_def)
  with put_refines_store [OF ex_reachable ex_document_ok] ex_reachable ex_document_ok show ?thesis
    by (simp add: index_fail_def)
qed

theorem erase_hides_witness:
  "\<exists>ix'. index_reachable ex_schema 10 ex_index \<and> index_erase ex_index ''d'' 2 = Inr ix' \<and>
     visible ix' ''d'' = Some (tombstone ''d'' 2)"
proof -
  obtain ix' where e: "index_erase ex_index ''d'' 2 = Inr ix'"
    using ex_erase by blast
  from erase_hides [OF ex_reachable e] e ex_reachable show ?thesis by blast
qed

theorem put_succeeds_iff_witness:
  "document_ok ex_document \<and> indexable ex_schema ''body'' ''a b a''"
  using put_succeeds_iff [OF ex_document_ok, of "index_new ex_schema 10"] ex_put ex_document_ok
  by (auto simp: ex_document_def index_new_def)

theorem put_no_null_dereference_witness:
  "\<exists>schema. schema_create default_fields = Inr schema \<and>
     index_put (index_new schema 10) ex_document \<noteq> Inl Null_dereference"
proof -
  have "(\<forall>field \<in> set default_fields. definition_ok field) \<and> distinct (map fd_name default_fields)"
    by (simp add: default_fields_def definition_ok_def needs_analyzer_def fp_eval_defs Let_def)
  then have "\<exists>schema. schema_create default_fields = Inr schema"
    by (simp add: schema_create_def schema_create_from_Inr_iff)
  then obtain schema where s: "schema_create default_fields = Inr schema" ..
  have "index_put (index_new schema 10) ex_document \<noteq> Inl Null_dereference"
    by (rule put_no_null_dereference [OF s]) (simp_all add: index_new_def default_fields_def Let_def)
  with s show ?thesis by blast
qed

end
