(* ===== verification/View.thy ===== *)
theory View
  imports Index_Properties
begin

text \<open>
  \<^verbatim>\<open>SearchIndexView\<close>, the interface between an index and the query engine
  (\<^verbatim>\<open>include/dse/index/search_index_view.hpp\<close>): a class with virtual methods is a record of
  functions. The locale \<open>view_provider\<close> states what the query engine relies on, for a family
  of states with an invariant; it is interpreted on the in-memory index.
\<close>

record view =
  v_lookup :: "string \<Rightarrow> string \<Rightarrow> term_entry option"
  v_document :: "document_id \<Rightarrow> document_record option"
  v_document_internal :: "internal_document_id \<Rightarrow> document_record option"
  v_internal_id :: "document_id \<Rightarrow> internal_document_id option"
  v_external_id :: "internal_document_id \<Rightarrow> document_id option"
  v_live_document_ids :: "internal_document_id list"
  v_live_document_count :: nat
  v_field_statistics :: "string \<Rightarrow> field_statistics"
  v_schema :: schema

definition memory_view :: "index \<Rightarrow> view" where
  "memory_view ix =
     \<lparr>v_lookup = index_lookup ix, v_document = index_document ix,
      v_document_internal = index_document_internal ix, v_internal_id = index_internal_id ix,
      v_external_id = index_external_id ix, v_live_document_ids = index_live_document_ids ix,
      v_live_document_count = index_live_document_count ix,
      v_field_statistics = index_field_statistics ix, v_schema = ix_schema ix\<rparr>"

text \<open>The statistics with which a term of a field can be scored.\<close>

definition scorable :: "field_statistics \<Rightarrow> bool" where
  "scorable st \<longleftrightarrow> isfinite (fs_average st) \<and> fp_less fp_zero (fs_average st)"

definition live :: "view \<Rightarrow> internal_document_id \<Rightarrow> document_record \<Rightarrow> bool" where
  "live v i r \<longleftrightarrow> v_document_internal v i = Some r \<and> \<not> doc_deleted (dr_document r)"

locale view_provider =
  fixes view_of :: "'s \<Rightarrow> view" and inv :: "'s \<Rightarrow> bool"
  assumes live_ids_sorted: "inv s \<Longrightarrow> sorted_wrt (<) (v_live_document_ids (view_of s))"
    and live_ids_iff: "inv s \<Longrightarrow>
      i \<in> set (v_live_document_ids (view_of s)) \<longleftrightarrow> (\<exists>r. live (view_of s) i r)"
    and external_live: "inv s \<Longrightarrow> live (view_of s) i r \<Longrightarrow>
      v_external_id (view_of s) i = Some (doc_id (dr_document r))"
    and external_inj: "inv s \<Longrightarrow> live (view_of s) i r \<Longrightarrow> live (view_of s) j r' \<Longrightarrow>
      doc_id (dr_document r) = doc_id (dr_document r') \<Longrightarrow> i = j"
    and internal_live: "inv s \<Longrightarrow> live (view_of s) i r \<Longrightarrow>
      v_internal_id (view_of s) (doc_id (dr_document r)) = Some i"
    and internal_external: "inv s \<Longrightarrow> v_internal_id (view_of s) did = Some i \<Longrightarrow>
      v_external_id (view_of s) i = Some did"
    and postings_sorted: "inv s \<Longrightarrow> v_lookup (view_of s) f t = Some e \<Longrightarrow>
      ssorted_by p_doc (te_postings e)"
    and posting_iff: "inv s \<Longrightarrow>
      (\<exists>e p. v_lookup (view_of s) f t = Some e \<and> p \<in> set (te_postings e) \<and> p_doc p = i \<and> p_positions p = ps) \<longleftrightarrow>
      (\<exists>r. live (view_of s) i r \<and> term_positions (v_schema (view_of s)) (dr_document r) f t = ps \<and> ps \<noteq> [])"
    and positions_sorted: "inv s \<Longrightarrow> v_lookup (view_of s) f t = Some e \<Longrightarrow> p \<in> set (te_postings e) \<Longrightarrow>
      sorted_wrt (<) (p_positions p)"
    and posting_lengths: "inv s \<Longrightarrow> v_lookup (view_of s) f t = Some e \<Longrightarrow> p \<in> set (te_postings e) \<Longrightarrow>
      v_document_internal (view_of s) (p_doc p) = Some r \<Longrightarrow>
      \<exists>len. map_of (dr_field_lengths r) f = Some len \<and> 0 < p_tf p \<and> p_tf p \<le> len"
    and frequencies: "inv s \<Longrightarrow> v_lookup (view_of s) f t = Some e \<Longrightarrow>
      te_df e \<noteq> 0 \<and> unat (te_df e) \<le> unat (fs_count (v_field_statistics (view_of s) f)) \<and>
      scorable (v_field_statistics (view_of s) f)"

section \<open>The in-memory index provides a view\<close>

definition engine_inv :: "index \<Rightarrow> bool" where
  "engine_inv ix \<longleftrightarrow> index_inv ix \<and> engine_schema (ix_schema ix)"

lemma memory_view_simps [simp]:
  "v_lookup (memory_view ix) = index_lookup ix" "v_document (memory_view ix) = index_document ix"
  "v_document_internal (memory_view ix) = index_document_internal ix"
  "v_internal_id (memory_view ix) = index_internal_id ix"
  "v_external_id (memory_view ix) = index_external_id ix"
  "v_live_document_ids (memory_view ix) = index_live_document_ids ix"
  "v_live_document_count (memory_view ix) = index_live_document_count ix"
  "v_field_statistics (memory_view ix) = index_field_statistics ix"
  "v_schema (memory_view ix) = ix_schema ix"
  by (simp_all add: memory_view_def)

lemma document_internal_iff:
  assumes "index_inv ix"
  shows "index_document_internal ix i = Some r \<longleftrightarrow>
    (\<exists>did. index_external_id ix i = Some did \<and> index_document ix did = Some r \<and> dr_internal_id r = i)"
  using ids_invD(2) [OF index_invD(2) [OF assms]]
  by (fastforce simp: index_document_internal_def index_external_id_def index_document_def split: option.splits)

lemma live_ids_memory:
  assumes "index_inv ix"
  shows "sorted_wrt (<) (index_live_document_ids ix)"
    and "i \<in> set (index_live_document_ids ix) \<longleftrightarrow> (\<exists>r. live (memory_view ix) i r)"
proof -
  have ext: "om_ok (ix_external_ids ix)"
    using index_invD(2) [OF assms] by (simp add: ids_inv_def)
  then show "sorted_wrt (<) (index_live_document_ids ix)"
    using om_ok_filter [OF ext] by (auto simp: index_live_document_ids_def om_ok_def)
  have "i \<in> set (index_live_document_ids ix) \<longleftrightarrow> (\<exists>did r. map_of (ix_external_ids ix) i = Some did \<and>
      index_document ix did = Some r \<and> \<not> doc_deleted (dr_document r))"
    using om_ok_map_of [OF ext] by (force simp: index_live_document_ids_def split: option.splits)
  also have "\<dots> \<longleftrightarrow> (\<exists>r. live (memory_view ix) i r)"
    by (auto simp: live_def index_document_internal_def index_external_id_def split: option.splits)
  finally show "i \<in> set (index_live_document_ids ix) \<longleftrightarrow> (\<exists>r. live (memory_view ix) i r)" .
qed

lemma lookup_postings:
  "index_inv ix \<Longrightarrow> index_lookup ix f t = Some e \<Longrightarrow>
    te_postings e = plist (ix_fields ix) f t \<and> te_postings e \<noteq> [] \<and> te_df e = of_nat (length (te_postings e))"
  using lookup_plist [OF index_invD(4), of ix f t] by (auto simp: Let_def split: if_splits)

lemma posting_iff_memory:
  assumes "index_inv ix"
  shows "(\<exists>e p. index_lookup ix f t = Some e \<and> p \<in> set (te_postings e) \<and> p_doc p = i \<and> p_positions p = ps) \<longleftrightarrow>
    (\<exists>r. live (memory_view ix) i r \<and> term_positions (ix_schema ix) (dr_document r) f t = ps \<and> ps \<noteq> [])"
    (is "?L \<longleftrightarrow> ?R")
proof
  assume ?L
  then obtain p where p: "p \<in> set (plist (ix_fields ix) f t)" "p_doc p = i" "p_positions p = ps"
    using lookup_postings [OF assms] by metis
  from plist_posting [OF assms p(1)] obtain r where "index_document_internal ix (p_doc p) = Some r"
      "record_ok (ix_schema ix) r" "p_positions p = term_positions (ix_schema ix) (dr_document r) f t"
      "p_positions p \<noteq> []" by metis
  with p term_positions_live(1) show ?R by (auto simp: live_def)
next
  assume ?R
  then obtain r where r: "index_document_internal ix i = Some r"
      "term_positions (ix_schema ix) (dr_document r) f t = ps" "ps \<noteq> []" by (auto simp: live_def)
  then obtain did where "map_of (ix_documents ix) did = Some r" "dr_internal_id r = i"
    using document_internal_iff [OF assms] by (auto simp: index_document_def)
  with r have "doc_posting (ix_schema ix) r f t \<in> set (plist (ix_fields ix) f t)"
    using index_invD(5) [OF assms] by (auto simp: plist_inv_def)
  moreover from this have "index_lookup ix f t = Some \<lparr>te_df = of_nat (length (plist (ix_fields ix) f t)),
      te_postings = plist (ix_fields ix) f t\<rparr>"
    using lookup_plist [OF index_invD(4) [OF assms], of f t] by (auto simp: Let_def)
  ultimately show ?L
    using r(2) \<open>dr_internal_id r = i\<close> by (force simp: doc_posting_def Let_def)
qed

lemma positions_sorted_memory:
  assumes "engine_inv ix" and "index_lookup ix f t = Some e" and "p \<in> set (te_postings e)"
  shows "sorted_wrt (<) (p_positions p)"
proof -
  have inv: "index_inv ix" and eng: "engine_schema (ix_schema ix)"
    using assms(1) by (simp_all add: engine_inv_def)
  have "p \<in> set (plist (ix_fields ix) f t)"
    using lookup_postings [OF inv assms(2)] assms(3) by simp
  from plist_posting [OF inv this] obtain r where r: "record_ok (ix_schema ix) r"
      "p_positions p = term_positions (ix_schema ix) (dr_document r) f t" "p_positions p \<noteq> []" by metis
  then obtain tokens where tk: "map_of (doc_analysed (ix_schema ix) (dr_document r)) f = Some tokens"
      "p_positions p = positions_of t tokens"
    using term_positions_live(3) [OF r(1), of f t] by auto
  have "sorted_wrt (<) (map tok_position tokens)"
    using analysed_length(3) [OF r(1) tk(1)] engine_tokens [OF eng] by blast
  then show ?thesis
    unfolding tk(2) positions_of_def sorted_wrt_map by (rule sorted_wrt_filter)
qed

lemma posting_lengths_memory:
  assumes "index_inv ix" and "index_lookup ix f t = Some e" and "p \<in> set (te_postings e)"
    and "index_document_internal ix (p_doc p) = Some r"
  shows "\<exists>len. map_of (dr_field_lengths r) f = Some len \<and> 0 < p_tf p \<and> p_tf p \<le> len"
proof -
  have "p \<in> set (plist (ix_fields ix) f t)"
    using lookup_postings [OF assms(1,2)] assms(3) by simp
  from plist_posting [OF assms(1) this] assms(4) have r: "record_ok (ix_schema ix) r"
      "p_positions p = term_positions (ix_schema ix) (dr_document r) f t" "p_positions p \<noteq> []"
      "unat (p_tf p) = length (p_positions p)" by (metis option.inject)+
  obtain tokens where tk: "map_of (doc_analysed (ix_schema ix) (dr_document r)) f = Some tokens"
      "p_positions p = positions_of t tokens"
    using term_positions_live(3) [OF r(1), of f t] r by auto
  have len: "map_of (dr_field_lengths r) f = Some (of_nat (length tokens))"
    using r(1) tk(1) by (simp add: record_ok_def)
  have "unat (of_nat (length tokens) :: u32) = length tokens"
    using analysed_length(1) [OF r(1) tk(1)] by (simp add: unat_of_nat_small)
  then have "p_tf p \<le> of_nat (length tokens)"
    using r(4) tk(2) positions_of_length [of t tokens] by (simp add: word_le_nat_alt)
  moreover have "0 < p_tf p"
    using r(3,4) by (simp add: word_less_nat_alt)
  ultimately show ?thesis using len by blast
qed

lemma field_count_card:
  assumes "om_ok docs"
  shows "field_count docs f = card {did. \<exists>r. map_of docs did = Some r \<and> map_of (dr_field_lengths r) f \<noteq> None}"
proof -
  let ?P = "\<lambda>(did, r). map_of (dr_field_lengths r) f \<noteq> None"
  have "field_count docs f = length (filter ?P docs)"
    by (induction docs) (auto simp: field_count_def len_count_def)
  also have "\<dots> = card (set (map fst (filter ?P docs)))"
    using distinct_card [OF om_ok_distinct [OF om_ok_filter [OF assms]], of ?P] by simp
  also have "set (map fst (filter ?P docs)) = {did. \<exists>r. (did, r) \<in> set docs \<and> map_of (dr_field_lengths r) f \<noteq> None}"
    by force
  also have "\<dots> = {did. \<exists>r. map_of docs did = Some r \<and> map_of (dr_field_lengths r) f \<noteq> None}"
    by (simp only: om_ok_map_of [OF assms])
  finally show ?thesis .
qed

lemma df_le_count:
  assumes "index_inv ix"
  shows "length (plist (ix_fields ix) f t) \<le> field_count (ix_documents ix) f"
proof -
  let ?ps = "plist (ix_fields ix) f t"
  let ?S = "{did. \<exists>r. map_of (ix_documents ix) did = Some r \<and> map_of (dr_field_lengths r) f \<noteq> None}"
  let ?g = "\<lambda>p. the (index_external_id ix (p_doc p))"
  have docs: "om_ok (ix_documents ix)"
    using index_invD(1) [OF assms] by (simp add: documents_inv_def)
  have s: "ssorted_by p_doc ?ps"
    using index_invD(5) [OF assms] by (simp add: plist_inv_def)
  have g: "\<exists>r. index_external_id ix (p_doc p) = Some (?g p) \<and> index_document ix (?g p) = Some r \<and>
      dr_internal_id r = p_doc p \<and> map_of (dr_field_lengths r) f \<noteq> None" if "p \<in> set ?ps" for p
  proof (rule plist_posting [OF assms that])
    fix r
    assume r: "index_document_internal ix (p_doc p) = Some r" "record_ok (ix_schema ix) r"
      "p_positions p = term_positions (ix_schema ix) (dr_document r) f t" "p_positions p \<noteq> []"
    then have "map_of (dr_field_lengths r) f \<noteq> None"
      using term_positions_live(3) [OF r(2), of f t] by (auto simp: record_ok_def)
    with r(1) document_internal_iff [OF assms] show ?thesis by force
  qed
  have "inj_on ?g (set ?ps)"
    using g ssorted_by_inj [OF s] unfolding inj_on_def by (metis option.inject)
  moreover have "?g ` set ?ps \<subseteq> ?S"
    using g by (auto simp: index_document_def) blast
  moreover have "finite ?S"
    by (rule finite_subset [of _ "dom (map_of (ix_documents ix))"]) (auto simp: finite_dom_map_of)
  ultimately have "card (set ?ps) \<le> card ?S"
    by (rule card_inj_on_le)
  then show ?thesis
    using field_count_card [OF docs] distinct_card [OF ssorted_by_distinct [OF s]] by simp
qed

lemma frequencies_memory:
  assumes "index_inv ix" and "index_lookup ix f t = Some e"
  shows "te_df e \<noteq> 0 \<and> unat (te_df e) \<le> unat (fs_count (index_field_statistics ix f)) \<and>
    scorable (index_field_statistics ix f)"
proof -
  let ?c = "field_count (ix_documents ix) f" and ?n = "field_total (ix_documents ix) f"
  note e = lookup_postings [OF assms] and st = statistics_sums [OF assms(1), of f]
  have df: "unat (te_df e) = length (plist (ix_fields ix) f t)"
    using e plist_length [OF assms(1), of f t] by (simp add: unat_of_nat_small)
  have "plist (ix_fields ix) f t \<noteq> []" using e by metis
  with df have pos: "0 < unat (te_df e)" by simp
  have le: "unat (te_df e) \<le> ?c"
    using df df_le_count [OF assms(1), of f t] by simp
  obtain p where p: "p \<in> set (te_postings e)" using e by (meson list.set_sel(1))
  have "p \<in> set (plist (ix_fields ix) f t)" using e p by simp
  then obtain r where r: "index_document_internal ix (p_doc p) = Some r"
    by (rule plist_posting [OF assms(1)])
  then obtain len did where "map_of (dr_field_lengths r) f = Some len" "0 < len"
      "map_of (ix_documents ix) did = Some r"
    using posting_lengths_memory [OF assms(1,2) p r] document_internal_iff [OF assms(1)]
    by (auto simp: index_document_def dest: order_less_le_trans)
  then have "0 < len_total r f" "len_total r f \<le> ?n"
    using map_of_le_sum [of "ix_documents ix" did r "\<lambda>_ r. len_total r f"]
    by (auto simp: len_total_def field_total_def word_less_nat_alt)
  then have "scorable (index_field_statistics ix f)"
    unfolding scorable_def st(3) using st(4,5) le pos average_range [of "int ?n" "int ?c"] by simp
  with pos le st(1) show ?thesis by auto
qed

interpretation memory: view_provider memory_view engine_inv
proof
  fix ix f t e p i r j r' ps did
  assume inv: "engine_inv ix"
  then have ix: "index_inv ix" by (simp add: engine_inv_def)
  show "sorted_wrt (<) (v_live_document_ids (memory_view ix))"
    "i \<in> set (v_live_document_ids (memory_view ix)) \<longleftrightarrow> (\<exists>r. live (memory_view ix) i r)"
    using live_ids_memory [OF ix] by simp_all
  have ext: "index_external_id ix i = Some (doc_id (dr_document r)) \<and>
      index_internal_id ix (doc_id (dr_document r)) = Some i" if "live (memory_view ix) i r" for i r
    using that document_internal_iff [OF ix, of i r] documents_invD(2) [OF ix]
    by (auto simp: live_def index_internal_id_def index_document_def)
  then show "live (memory_view ix) i r \<Longrightarrow> v_external_id (memory_view ix) i = Some (doc_id (dr_document r))"
    "live (memory_view ix) i r \<Longrightarrow> v_internal_id (memory_view ix) (doc_id (dr_document r)) = Some i"
    by simp_all
  show "v_internal_id (memory_view ix) did = Some i \<Longrightarrow> v_external_id (memory_view ix) i = Some did"
    using documents_invD(4) [OF ix] by (auto simp: index_internal_id_def index_document_def)
  show "live (memory_view ix) i r \<Longrightarrow> live (memory_view ix) j r' \<Longrightarrow>
      doc_id (dr_document r) = doc_id (dr_document r') \<Longrightarrow> i = j"
    using ext [of i r] ext [of j r'] by auto
  show "v_lookup (memory_view ix) f t = Some e \<Longrightarrow> ssorted_by p_doc (te_postings e)"
    using lookup_postings [OF ix] index_invD(5) [OF ix] by (simp add: plist_inv_def)
  show "(\<exists>e p. v_lookup (memory_view ix) f t = Some e \<and> p \<in> set (te_postings e) \<and> p_doc p = i \<and> p_positions p = ps) \<longleftrightarrow>
      (\<exists>r. live (memory_view ix) i r \<and> term_positions (v_schema (memory_view ix)) (dr_document r) f t = ps \<and> ps \<noteq> [])"
    using posting_iff_memory [OF ix] by simp
  show "v_lookup (memory_view ix) f t = Some e \<Longrightarrow> p \<in> set (te_postings e) \<Longrightarrow> sorted_wrt (<) (p_positions p)"
    using positions_sorted_memory [OF inv] by simp
  show "v_lookup (memory_view ix) f t = Some e \<Longrightarrow> p \<in> set (te_postings e) \<Longrightarrow>
      v_document_internal (memory_view ix) (p_doc p) = Some r \<Longrightarrow>
      \<exists>len. map_of (dr_field_lengths r) f = Some len \<and> 0 < p_tf p \<and> p_tf p \<le> len"
    using posting_lengths_memory [OF ix] by simp
  show "v_lookup (memory_view ix) f t = Some e \<Longrightarrow>
      te_df e \<noteq> 0 \<and> unat (te_df e) \<le> unat (fs_count (v_field_statistics (memory_view ix) f)) \<and>
      scorable (v_field_statistics (memory_view ix) f)"
    using frequencies_memory [OF ix] by simp
qed

end
