(* ===== verification/Lexer.thy ===== *)
theory Lexer
  imports CLib
begin

text \<open>
  The query lexer: \<^verbatim>\<open>src/query/lexer.cpp\<close>, with the types of \<^verbatim>\<open>lexer.hpp\<close> and \<^verbatim>\<open>error.hpp\<close>.
  A successful result ends with the lexeme \<open>End\<close>, the sentinel on which the parser relies, and
  has it nowhere else; the limits bound it. Rendering a list of lexemes as text and lexing
  the text gives the list back, so the lexer finds every lexeme list that fits the limits.
\<close>

section \<open>Types\<close>

datatype parse_error_code =
    Empty_query | Unexpected_character | Unterminated_phrase | Expected_expression
  | Unexpected_token | Expected_range_bound | Parse_invalid_boost | Nesting_too_deep | Resource_limit

record parse_error =
  pe_code :: parse_error_code
  pe_position :: nat
  pe_message :: string

record query_limits =
  maximum_query_bytes :: nat
  maximum_lexemes :: nat
  maximum_lexeme_bytes :: nat
  maximum_nesting_depth :: nat

definition default_limits :: query_limits where
  "default_limits = \<lparr>maximum_query_bytes = 16 * 1024, maximum_lexemes = 2048,
     maximum_lexeme_bytes = 4 * 1024, maximum_nesting_depth = 128\<rparr>"

datatype token_kind =
    Word | Phrase | And_operator | Or_operator | Not_operator | To_operator
  | Left_parenthesis | Right_parenthesis | Colon | Caret | Left_bracket | Right_bracket | Star | End

record lexeme =
  lx_kind :: token_kind
  lx_text :: string
  lx_position :: nat

section \<open>Classification\<close>

definition ascii_equal_ignore_case :: "string \<Rightarrow> string \<Rightarrow> bool" where
  "ascii_equal_ignore_case lhs rhs \<longleftrightarrow>
     length lhs = length rhs \<and> list_all2 (\<lambda>l r. tolower l = tolower r) lhs rhs"

definition is_delimiter :: "char \<Rightarrow> bool" where
  "is_delimiter c \<longleftrightarrow> isspace c \<or> c = CHR ''('' \<or> c = CHR '')'' \<or> c = CHR '':'' \<or> c = CHR ''^'' \<or>
     c = CHR ''['' \<or> c = CHR '']'' \<or> c = CHR 0x22 \<or> c = CHR ''*''"

definition classify_word :: "string \<Rightarrow> token_kind" where
  "classify_word word =
     (if ascii_equal_ignore_case word ''AND'' then And_operator
      else if ascii_equal_ignore_case word ''OR'' then Or_operator
      else if ascii_equal_ignore_case word ''NOT'' then Not_operator
      else if ascii_equal_ignore_case word ''TO'' then To_operator
      else Word)"

text \<open>The seven cases of the \<^verbatim>\<open>switch\<close> that append a lexeme of one character.\<close>

definition symbol_kind :: "char \<Rightarrow> token_kind option" where
  "symbol_kind c =
     (if c = CHR ''('' then Some Left_parenthesis
      else if c = CHR '')'' then Some Right_parenthesis
      else if c = CHR '':'' then Some Colon
      else if c = CHR ''^'' then Some Caret
      else if c = CHR ''['' then Some Left_bracket
      else if c = CHR '']'' then Some Right_bracket
      else if c = CHR ''*'' then Some Star
      else None)"

section \<open>Scanning\<close>

definition limit_error :: "nat \<Rightarrow> string \<Rightarrow> parse_error" where
  "limit_error position message =
     \<lparr>pe_code = Resource_limit, pe_position = position, pe_message = message\<rparr>"

definition lex_append ::
  "query_limits \<Rightarrow> lexeme \<Rightarrow> lexeme list \<Rightarrow> (parse_error, lexeme list) result" where
  "lex_append limits token tokens =
     (if length (lx_text token) > maximum_lexeme_bytes limits then
        Inl (limit_error (lx_position token) ''query lexeme byte limit exceeded'')
      else if length tokens \<ge> maximum_lexemes limits then
        Inl (limit_error (lx_position token) ''query lexeme count limit exceeded'')
      else Inr (tokens @ [token]))"

text \<open>
  The inner loop of a quoted phrase, from the byte after the opening quote. The result is the
  phrase with the rest of the input and its position, or \<open>None\<close> when the quote is not closed.
\<close>

fun scan_phrase ::
  "string \<Rightarrow> nat \<Rightarrow> string \<Rightarrow> (parse_error, (string \<times> string \<times> nat) option) result" where
  "scan_phrase [] cursor phrase = Inr None"
| "scan_phrase (c # rest) cursor phrase =
     (if c = CHR 0x22 then Inr (Some (phrase, rest, cursor + 1))
      else if c = CHR 0x5C then
        (case rest of
           [] \<Rightarrow> Inl \<lparr>pe_code = Unexpected_character, pe_position = cursor,
                     pe_message = ''only quote and backslash may be escaped''\<rparr>
         | e # rest' \<Rightarrow>
             if e \<noteq> CHR 0x22 \<and> e \<noteq> CHR 0x5C then
               Inl \<lparr>pe_code = Unexpected_character, pe_position = cursor,
                    pe_message = ''only quote and backslash may be escaped''\<rparr>
             else scan_phrase rest' (cursor + 2) (phrase @ [e]))
      else scan_phrase rest (cursor + 1) (phrase @ [c]))"

lemma scan_phrase_shorter:
  "scan_phrase s cursor phrase = Inr (Some (ph, rest, cursor')) \<Longrightarrow> length rest < length s"
  by (induction s cursor phrase rule: scan_phrase.induct)
    (fastforce split: if_splits list.splits)+

text \<open>The main loop; \<open>rest\<close> is the input from \<open>cursor\<close> on.\<close>

function lex_loop ::
  "query_limits \<Rightarrow> string \<Rightarrow> nat \<Rightarrow> lexeme list \<Rightarrow> (parse_error, lexeme list) result" where
  "lex_loop limits rest cursor tokens =
     (case rest of
        [] \<Rightarrow> Inr (tokens @ [\<lparr>lx_kind = End, lx_text = [], lx_position = cursor\<rparr>])
      | c # after \<Rightarrow>
          if isspace c then lex_loop limits after (cursor + 1) tokens
          else (case symbol_kind c of
            Some kind \<Rightarrow>
              (case lex_append limits \<lparr>lx_kind = kind, lx_text = [c], lx_position = cursor\<rparr> tokens of
                 Inl e \<Rightarrow> Inl e
               | Inr tokens' \<Rightarrow> lex_loop limits after (cursor + 1) tokens')
          | None \<Rightarrow>
              if c = CHR 0x22 then
                (case scan_phrase after (cursor + 1) [] of
                   Inl e \<Rightarrow> Inl e
                 | Inr None \<Rightarrow>
                     Inl \<lparr>pe_code = Unterminated_phrase, pe_position = cursor,
                          pe_message = ''quoted phrase is missing its closing quote''\<rparr>
                 | Inr (Some (phrase, rest', cursor')) \<Rightarrow>
                     (case lex_append limits \<lparr>lx_kind = Phrase, lx_text = phrase, lx_position = cursor\<rparr>
                             tokens of
                        Inl e \<Rightarrow> Inl e
                      | Inr tokens' \<Rightarrow> lex_loop limits rest' cursor' tokens'))
              else
                (let word = takeWhile (\<lambda>b. \<not> is_delimiter b) rest
                 in if word = [] then
                      Inl \<lparr>pe_code = Unexpected_character, pe_position = cursor,
                           pe_message = ''unexpected character in query''\<rparr>
                    else (case lex_append limits
                                 \<lparr>lx_kind = classify_word word, lx_text = word, lx_position = cursor\<rparr>
                                 tokens of
                            Inl e \<Rightarrow> Inl e
                          | Inr tokens' \<Rightarrow>
                              lex_loop limits (drop (length word) rest) (cursor + length word) tokens'))))"
  by pat_completeness auto
termination
  by (relation "measure (\<lambda>(limits, rest, cursor, tokens). length rest)")
    (auto dest: scan_phrase_shorter)

declare lex_loop.simps [simp del]

definition lex :: "string \<Rightarrow> query_limits \<Rightarrow> (parse_error, lexeme list) result" where
  "lex input limits =
     (if maximum_query_bytes limits = 0 \<or> maximum_lexemes limits = 0 \<or>
         maximum_lexeme_bytes limits = 0 \<or> maximum_nesting_depth limits = 0 then
        Inl (limit_error 0 ''query limits must be greater than zero'')
      else if length input > maximum_query_bytes limits then
        Inl (limit_error (maximum_query_bytes limits) ''query byte limit exceeded'')
      else lex_loop limits input 0 [])"

section \<open>The shape of a result\<close>

definition lexeme_wf :: "lexeme \<Rightarrow> bool" where
  "lexeme_wf t \<longleftrightarrow>
     lx_kind t = Phrase \<or>
     (\<exists>c. symbol_kind c = Some (lx_kind t) \<and> lx_text t = [c]) \<or>
     (lx_text t \<noteq> [] \<and> (\<forall>c \<in> set (lx_text t). \<not> is_delimiter c) \<and> lx_kind t = classify_word (lx_text t))"

lemma classify_word_kinds: "classify_word w \<in> {And_operator, Or_operator, Not_operator, To_operator, Word}"
  by (simp add: classify_word_def)

lemma symbol_kind_delimiter: "symbol_kind c = Some k \<Longrightarrow> is_delimiter c \<and> \<not> isspace c \<and> k \<notin> {End, Word, Phrase}"
  by (auto simp: symbol_kind_def is_delimiter_def isspace_def split: if_splits)

lemma delimiter_cases: "is_delimiter c \<longleftrightarrow> isspace c \<or> symbol_kind c \<noteq> None \<or> c = CHR 0x22"
  by (auto simp: symbol_kind_def is_delimiter_def)

lemma lexeme_wf_not_End: "lexeme_wf t \<Longrightarrow> lx_kind t \<noteq> End"
  using classify_word_kinds [of "lx_text t"] symbol_kind_delimiter by (fastforce simp: lexeme_wf_def)

lemma lex_append_Inr:
  "lex_append limits t ts = Inr ts' \<longleftrightarrow>
    length (lx_text t) \<le> maximum_lexeme_bytes limits \<and> length ts < maximum_lexemes limits \<and> ts' = ts @ [t]"
  by (auto simp: lex_append_def)

lemma scan_phrase_cursor:
  "scan_phrase s cursor phrase = Inr (Some (ph, rest, cursor')) \<Longrightarrow>
    cursor < cursor' \<and> cursor' + length rest = cursor + length s"
  by (induction s cursor phrase rule: scan_phrase.induct)
    (fastforce split: if_splits list.splits)+

text \<open>
  \<open>lexed limits lo hi n body\<close>: \<open>body\<close> may follow \<open>n\<close> lexemes, its positions increase from
  \<open>lo\<close> to below \<open>hi\<close>.
\<close>

definition lexed :: "query_limits \<Rightarrow> nat \<Rightarrow> nat \<Rightarrow> nat \<Rightarrow> lexeme list \<Rightarrow> bool" where
  "lexed limits lo hi n body \<longleftrightarrow>
     (\<forall>t \<in> set body. lexeme_wf t \<and> length (lx_text t) \<le> maximum_lexeme_bytes limits \<and>
        lo \<le> lx_position t \<and> lx_position t < hi) \<and>
     sorted_wrt (<) (map lx_position body) \<and>
     (body \<noteq> [] \<longrightarrow> n + length body \<le> maximum_lexemes limits)"

lemma lexed_Nil [simp]: "lexed limits lo hi n []"
  by (simp add: lexed_def)

lemma lexed_Cons:
  assumes "lexed limits lo' hi (Suc n) body" and "lexeme_wf t"
    and "length (lx_text t) \<le> maximum_lexeme_bytes limits" and "n < maximum_lexemes limits"
    and "lx_position t = lo" and "lo < lo'" and "lo < hi"
  shows "lexed limits lo hi n (t # body)"
  using assms by (cases body) (auto simp: lexed_def)

lemma lexed_weaken: "lexed limits lo' hi n body \<Longrightarrow> lo \<le> lo' \<Longrightarrow> lexed limits lo hi n body"
  by (auto simp: lexed_def)

text \<open>\<open>lex_post\<close>: what the loop has appended when it returns \<open>ts\<close>.\<close>

definition lex_post :: "query_limits \<Rightarrow> string \<Rightarrow> nat \<Rightarrow> lexeme list \<Rightarrow> lexeme list \<Rightarrow> bool" where
  "lex_post limits rest cursor tokens ts \<longleftrightarrow>
     (\<exists>body. ts = tokens @ body @ [\<lparr>lx_kind = End, lx_text = [], lx_position = cursor + length rest\<rparr>] \<and>
        lexed limits cursor (cursor + length rest) (length tokens) body)"

lemma lex_post_step:
  assumes "lexeme_wf t" and "lx_position t = cursor" and "lex_append limits t tokens = Inr tokens'"
    and "lex_post limits rest' cursor' tokens' ts"
    and "cursor < cursor'" and "cursor' + length rest' = cursor + length rest"
  shows "lex_post limits rest cursor tokens ts"
proof -
  from assms(4) obtain body where
      b: "ts = tokens' @ body @ [\<lparr>lx_kind = End, lx_text = [], lx_position = cursor' + length rest'\<rparr>]"
      "lexed limits cursor' (cursor' + length rest') (length tokens') body"
    unfolding lex_post_def by blast
  have a: "length (lx_text t) \<le> maximum_lexeme_bytes limits" "length tokens < maximum_lexemes limits"
      "tokens' = tokens @ [t]"
    using assms(3) by (simp_all add: lex_append_Inr)
  then have "lexed limits cursor (cursor + length rest) (length tokens) (t # body)"
    using b(2) assms(1,2,5,6) by (intro lexed_Cons) auto
  then show ?thesis
    unfolding lex_post_def using b(1) a(3) assms(6) by (intro exI [of _ "t # body"]) simp
qed

lemma lex_loop_shape: "lex_loop limits rest cursor tokens = Inr ts \<Longrightarrow> lex_post limits rest cursor tokens ts"
proof (induction limits rest cursor tokens rule: lex_loop.induct)
  case (1 limits rest cursor tokens)
  show ?case
  proof (cases rest)
    case Nil
    with "1.prems" show ?thesis by (auto simp: lex_loop.simps [of _ "[]"] lex_post_def)
  next
    case (Cons c after)
    consider (space) "isspace c" | (sym) k where "\<not> isspace c" "symbol_kind c = Some k"
      | (quote) "\<not> isspace c" "symbol_kind c = None" "c = CHR 0x22"
      | (word) "\<not> isspace c" "symbol_kind c = None" "c \<noteq> CHR 0x22"
      by (cases "symbol_kind c") blast+
    then show ?thesis
    proof cases
      case space
      with "1.prems" have "lex_loop limits after (cursor + 1) tokens = Inr ts"
        by (simp add: lex_loop.simps [of _ "c # after"] Cons)
      from "1.IH"(1) [OF Cons space this] lexed_weaken [of limits "cursor + 1" _ _ _ cursor]
      show ?thesis by (auto simp: lex_post_def Cons)
    next
      case sym
      let ?t = "\<lparr>lx_kind = k, lx_text = [c], lx_position = cursor\<rparr>"
      from sym "1.prems" obtain ts' where a: "lex_append limits ?t tokens = Inr ts'"
          "lex_loop limits after (cursor + 1) ts' = Inr ts"
        by (auto simp: lex_loop.simps [of _ "c # after"] Cons split: sum.splits)
      show ?thesis
        by (rule lex_post_step [OF _ _ a(1) "1.IH"(4) [OF Cons sym a]]) (use sym Cons in \<open>auto simp: lexeme_wf_def\<close>)
    next
      case quote
      from quote "1.prems" obtain ph rest' cursor' ts' where
          s: "scan_phrase after (cursor + 1) [] = Inr (Some (ph, rest', cursor'))" and
          a: "lex_append limits \<lparr>lx_kind = Phrase, lx_text = ph, lx_position = cursor\<rparr> tokens = Inr ts'"
          "lex_loop limits rest' cursor' ts' = Inr ts"
        by (auto simp: lex_loop.simps [of _ "_ # after"] Cons split: sum.splits option.splits)
      show ?thesis
        by (rule lex_post_step [OF _ _ a(1) "1.IH"(2) [OF Cons quote s refl refl refl a]])
          (use scan_phrase_cursor [OF s] Cons in \<open>auto simp: lexeme_wf_def\<close>)
    next
      case word
      let ?w = "takeWhile (\<lambda>b. \<not> is_delimiter b) rest"
      have ne: "?w \<noteq> []"
        using word delimiter_cases [of c] by (simp add: Cons)
      from word ne "1.prems" obtain ts' where
          a: "lex_append limits \<lparr>lx_kind = classify_word ?w, lx_text = ?w, lx_position = cursor\<rparr> tokens = Inr ts'"
          "lex_loop limits (drop (length ?w) rest) (cursor + length ?w) ts' = Inr ts"
        by (auto simp: lex_loop.simps [of _ "c # after"] Cons Let_def split: sum.splits if_splits)
      have "length ?w \<le> length rest" by (rule length_takeWhile_le)
      then show ?thesis
        by (intro lex_post_step [OF _ _ a(1) "1.IH"(3) [OF Cons word refl ne a]])
          (use ne in \<open>auto simp: lexeme_wf_def dest: set_takeWhileD\<close>)
    qed
  qed
qed

section \<open>Rendering\<close>

fun escape :: "string \<Rightarrow> string" where
  "escape [] = []"
| "escape (c # s) = (if c = CHR 0x22 \<or> c = CHR 0x5C then [CHR 0x5C, c] else [c]) @ escape s"

definition render :: "lexeme \<Rightarrow> string" where
  "render t = (if lx_kind t = Phrase then [CHR 0x22] @ escape (lx_text t) @ [CHR 0x22] else lx_text t)"

fun render_all :: "lexeme list \<Rightarrow> string" where
  "render_all [] = []"
| "render_all (t # ts) = render t @ '' '' @ render_all ts"

text \<open>The lexemes with the positions they have in the rendered text.\<close>

fun place :: "nat \<Rightarrow> lexeme list \<Rightarrow> lexeme list" where
  "place n [] = []"
| "place n (t # ts) = t\<lparr>lx_position := n\<rparr> # place (n + length (render t) + 1) ts"

lemma scan_phrase_escape:
  "scan_phrase (escape s @ CHR 0x22 # rest) cursor phrase =
    Inr (Some (phrase @ s, rest, cursor + length (escape s) + 1))"
  by (induction s arbitrary: cursor phrase) (auto simp: algebra_simps)

lemma space_not_symbol: "isspace c \<Longrightarrow> is_delimiter c"
  by (simp add: is_delimiter_def)

lemma takeWhile_word:
  "(\<forall>c \<in> set w. \<not> is_delimiter c) \<Longrightarrow> takeWhile (\<lambda>b. \<not> is_delimiter b) (w @ '' '' @ s) = w"
  by (subst takeWhile_append2) (auto simp: is_delimiter_def isspace_def)

lemma lex_loop_space: "lex_loop limits (CHR '' '' # s) cursor tokens = lex_loop limits s (cursor + 1) tokens"
  by (subst lex_loop.simps) (simp add: isspace_def)

lemma lex_loop_render:
  assumes "lexeme_wf t" and "length (lx_text t) \<le> maximum_lexeme_bytes limits"
    and "length tokens < maximum_lexemes limits"
  shows "lex_loop limits (render t @ '' '' @ s) cursor tokens =
    lex_loop limits s (cursor + length (render t) + 1) (tokens @ [t\<lparr>lx_position := cursor\<rparr>])"
proof -
  have app: "lex_append limits (t\<lparr>lx_position := cursor\<rparr>) tokens = Inr (tokens @ [t\<lparr>lx_position := cursor\<rparr>])"
    using assms(2,3) by (simp add: lex_append_Inr)
  have t: "t\<lparr>lx_position := n\<rparr> = \<lparr>lx_kind = lx_kind t, lx_text = lx_text t, lx_position = n\<rparr>" for n
    by simp
  consider (phrase) "lx_kind t = Phrase" | (sym) c where "symbol_kind c = Some (lx_kind t)" "lx_text t = [c]"
    | (word) "lx_text t \<noteq> []" "\<forall>c \<in> set (lx_text t). \<not> is_delimiter c" "lx_kind t = classify_word (lx_text t)"
    using assms(1) by (auto simp: lexeme_wf_def)
  then show ?thesis
  proof cases
    case phrase
    have "\<not> isspace (CHR 0x22)" "symbol_kind (CHR 0x22) = None"
      by (simp_all add: isspace_def symbol_kind_def)
    with phrase app show ?thesis
      unfolding t by (subst lex_loop.simps)
        (simp add: render_def scan_phrase_escape lex_loop_space algebra_simps)
  next
    case sym
    with symbol_kind_delimiter [OF sym(1)] app show ?thesis
      unfolding t by (subst lex_loop.simps) (auto simp: render_def lex_loop_space)
  next
    case word
    then obtain c w where w: "lx_text t = c # w" by (cases "lx_text t") auto
    have kind: "lx_kind t \<noteq> Phrase"
      using word(3) classify_word_kinds [of "lx_text t"] by auto
    have "\<not> isspace c" "symbol_kind c = None" "c \<noteq> CHR 0x22"
      using word(2) delimiter_cases [of c] by (auto simp: w)
    with kind takeWhile_word [OF word(2), of s] app word(3) show ?thesis
      unfolding t by (subst lex_loop.simps) (simp add: render_def w Let_def lex_loop_space)
  qed
qed

lemma lex_loop_render_all:
  assumes "\<forall>t \<in> set ts. lexeme_wf t \<and> length (lx_text t) \<le> maximum_lexeme_bytes limits"
    and "length tokens + length ts \<le> maximum_lexemes limits"
  shows "lex_loop limits (render_all ts) cursor tokens =
    Inr (tokens @ place cursor ts @
      [\<lparr>lx_kind = End, lx_text = [], lx_position = cursor + length (render_all ts)\<rparr>])"
  using assms
proof (induction ts arbitrary: cursor tokens)
  case Nil
  show ?case by (simp add: lex_loop.simps [of _ "[]"])
next
  case (Cons t ts)
  then show ?case
    by (simp add: lex_loop_render [simplified] algebra_simps)
qed

section \<open>Properties\<close>

text \<open>
  A successful \<^verbatim>\<open>lex\<close> returns well-formed lexemes at strictly increasing positions inside the
  query, then the sentinel \<open>End\<close> at its length and nowhere else; it respects the limits on the
  number of lexemes and on their size.
\<close>

theorem lex_result:
  assumes "lex input limits = Inr ts"
  shows "\<exists>body. ts = body @ [\<lparr>lx_kind = End, lx_text = [], lx_position = length input\<rparr>] \<and>
    length body \<le> maximum_lexemes limits \<and> sorted_wrt (<) (map lx_position body) \<and>
    (\<forall>t \<in> set body. lexeme_wf t \<and> lx_kind t \<noteq> End \<and> lx_position t < length input \<and>
       length (lx_text t) \<le> maximum_lexeme_bytes limits)"
proof -
  have "lex_loop limits input 0 [] = Inr ts"
    using assms by (simp add: lex_def split: if_splits)
  from lex_loop_shape [OF this] show ?thesis
    using lexeme_wf_not_End unfolding lex_post_def lexed_def by fastforce
qed

theorem lex_result_witness:
  "lex ''a OR b'' default_limits = Inr
     [\<lparr>lx_kind = Word, lx_text = ''a'', lx_position = 0\<rparr>,
      \<lparr>lx_kind = Or_operator, lx_text = ''OR'', lx_position = 2\<rparr>,
      \<lparr>lx_kind = Word, lx_text = ''b'', lx_position = 5\<rparr>,
      \<lparr>lx_kind = End, lx_text = [], lx_position = 6\<rparr>] \<and>
   lexeme_wf \<lparr>lx_kind = Word, lx_text = ''a'', lx_position = 0\<rparr>"
proof -
  have l: "lex ''a OR b'' default_limits = Inr
     [\<lparr>lx_kind = Word, lx_text = ''a'', lx_position = 0\<rparr>,
      \<lparr>lx_kind = Or_operator, lx_text = ''OR'', lx_position = 2\<rparr>,
      \<lparr>lx_kind = Word, lx_text = ''b'', lx_position = 5\<rparr>,
      \<lparr>lx_kind = End, lx_text = [], lx_position = 6\<rparr>]"
    by (simp add: lex_def default_limits_def lex_loop.simps isspace_def symbol_kind_def is_delimiter_def
        classify_word_def ascii_equal_ignore_case_def lex_append_def ctype_defs Let_def)
  from lex_result [OF l] show ?thesis
    using l by (auto simp: append_eq_Cons_conv)
qed

text \<open>
  Lexing inverts rendering. For every list of well-formed lexemes that fits the limits, the text
  that spells them (phrases in quotes with escapes, one space after each) lexes to exactly that
  list, at the positions of the text, followed by the sentinel.
\<close>

theorem lex_render:
  assumes "\<forall>t \<in> set ts. lexeme_wf t \<and> length (lx_text t) \<le> maximum_lexeme_bytes limits"
    and "length ts \<le> maximum_lexemes limits" and "length (render_all ts) \<le> maximum_query_bytes limits"
    and "0 < maximum_query_bytes limits" and "0 < maximum_lexemes limits"
    and "0 < maximum_lexeme_bytes limits" and "0 < maximum_nesting_depth limits"
  shows "lex (render_all ts) limits =
    Inr (place 0 ts @ [\<lparr>lx_kind = End, lx_text = [], lx_position = length (render_all ts)\<rparr>])"
  using assms lex_loop_render_all [of ts limits "[]" 0] by (simp add: lex_def)

theorem lex_render_witness:
  "lex (render_all [\<lparr>lx_kind = Phrase, lx_text = [CHR 0x22], lx_position = 0\<rparr>]) default_limits =
     Inr [\<lparr>lx_kind = Phrase, lx_text = [CHR 0x22], lx_position = 0\<rparr>,
          \<lparr>lx_kind = End, lx_text = [], lx_position = 5\<rparr>]"
  by (subst lex_render) (simp_all add: lexeme_wf_def render_def default_limits_def)

end
