(* ===== verification/Float_Text.thy ===== *)
theory Float_Text
  imports CLib Doubles
begin

text \<open>
  The text of doubles. \<^verbatim>\<open>std::from_chars\<close> for \<^verbatim>\<open>double\<close> in the general format: an optional minus sign, a decimal with an
  optional exponent, or one of the names of an infinity or a NaN. The value is the double
  nearest to the decimal, computed exactly. A decimal that no finite double approximates, or a
  non-zero one whose nearest double is zero, is out of range.
\<close>

definition starts_ci :: "string \<Rightarrow> string \<Rightarrow> bool" where
  "starts_ci word s \<longleftrightarrow> length word \<le> length s \<and> map tolower (take (length word) s) = word"

text \<open>\<open>m \<times> 10^e\<close> as a double.\<close>

definition decimal_double :: "bool \<Rightarrow> nat \<Rightarrow> int \<Rightarrow> double" where
  "decimal_double neg m e = fp_round neg (int m * 10 ^ nat e) (10 ^ nat (- e))"

text \<open>The exponent part, if there is one: its length and its value.\<close>

definition exponent_part :: "string \<Rightarrow> nat \<times> int" where
  "exponent_part s =
     (case s of
        [] \<Rightarrow> (0, 0)
      | c # rest \<Rightarrow>
          if c \<noteq> CHR ''e'' \<and> c \<noteq> CHR ''E'' then (0, 0)
          else let signed = (case rest of [] \<Rightarrow> False | d # _ \<Rightarrow> d = CHR ''+'' \<or> d = CHR ''-'');
                   neg = (case rest of [] \<Rightarrow> False | d # _ \<Rightarrow> d = CHR ''-'');
                   ds = takeWhile isdigit (if signed then tl rest else rest);
                   v = int (digits_value ds)
               in if ds = [] then (0, 0)
                  else (1 + (if signed then 1 else 0) + length ds, if neg then - v else v))"

definition from_chars_double :: "string \<Rightarrow> errc \<times> nat \<times> double" where
  "from_chars_double s =
     (let neg = (case s of [] \<Rightarrow> False | c # _ \<Rightarrow> c = CHR ''-'');
          body = (if neg then tl s else s);
          sgn = (if neg then 1 else 0 :: nat);
          ip = takeWhile isdigit body;
          rest = dropWhile isdigit body;
          dot = (case rest of [] \<Rightarrow> False | c # _ \<Rightarrow> c = CHR ''.'');
          fp = (if dot then takeWhile isdigit (tl rest) else []);
          after = (if dot then dropWhile isdigit (tl rest) else rest);
          (elen, ex) = exponent_part after
      in if ip = [] \<and> fp = [] then
           (if starts_ci ''infinity'' body then (Errc_ok, sgn + 8, fp_inf neg)
            else if starts_ci ''inf'' body then (Errc_ok, sgn + 3, fp_inf neg)
            else if starts_ci ''nan'' body then (Errc_ok, sgn + 3, fp_nan)
            else (Errc_invalid_argument, 0, fp_zero))
         else let m = digits_value (ip @ fp);
                  v = decimal_double neg m (ex - int (length fp));
                  n = sgn + length ip + (if dot then 1 else 0) + length fp + elen
              in if isinf v \<or> (m \<noteq> 0 \<and> fp_mag v = 0) then (Errc_result_out_of_range, n, fp_zero)
                 else (Errc_ok, n, v))"

section \<open>Printing\<close>

text \<open>
  \<^verbatim>\<open>std::ostream << double\<close> with \<^verbatim>\<open>precision(17)\<close> and the default format, which is \<^verbatim>\<open>%.17g\<close>: seventeen
  significant digits rounded to nearest even, in positional notation for a decimal exponent
  from -4 to 16 and in scientific notation otherwise, without trailing zeros.
\<close>

function exponent_up :: "int \<Rightarrow> int \<Rightarrow> int" where
  "exponent_up num den = (if 0 < den \<and> 10 * den \<le> num then 1 + exponent_up num (10 * den) else 0)"
  by pat_completeness auto
termination
  by (relation "measure (\<lambda>(num, den). nat (num - den))") auto

function exponent_down :: "int \<Rightarrow> int \<Rightarrow> int" where
  "exponent_down num den = (if 0 < num \<and> num < den then exponent_down (10 * num) den - 1 else 0)"
  by pat_completeness auto
termination
  by (relation "measure (\<lambda>(num, den). nat (den - num))") auto

declare exponent_up.simps [simp del] exponent_down.simps [simp del]

definition round_half_even :: "int \<Rightarrow> int \<Rightarrow> int" where
  "round_half_even n d =
     (let q = n div d; r = n mod d in if d < 2 * r \<or> (2 * r = d \<and> odd q) then q + 1 else q)"

text \<open>The seventeen digits of a positive rational and the exponent of the first.\<close>

definition significant_digits :: "int \<Rightarrow> int \<Rightarrow> string \<times> int" where
  "significant_digits num den =
     (let x = (if num < den then exponent_down num den else exponent_up num den);
          d = round_half_even (num * 10 ^ nat (16 - x)) (den * 10 ^ nat (x - 16))
      in if d = 10 ^ 17 then (to_string_nat (10 ^ 16), x + 1) else (to_string_nat (nat d), x))"

definition strip_zeros :: "string \<Rightarrow> string" where
  "strip_zeros s = rev (dropWhile (\<lambda>c. c = CHR ''0'') (rev s))"

definition with_fraction :: "string \<Rightarrow> string \<Rightarrow> string" where
  "with_fraction whole frac =
     (let f = strip_zeros frac in if f = [] then whole else whole @ ''.'' @ f)"

definition format_g17 :: "string \<Rightarrow> int \<Rightarrow> string" where
  "format_g17 ds x =
     (if x < - 4 \<or> 17 \<le> x then
        with_fraction (take 1 ds) (drop 1 ds) @ ''e'' @ (if x < 0 then ''-'' else ''+'') @
          (let e = to_string_nat (nat \<bar>x\<bar>) in if length e < 2 then ''0'' @ e else e)
      else if 0 \<le> x then with_fraction (take (nat x + 1) ds) (drop (nat x + 1) ds)
      else with_fraction ''0'' (replicate (nat (- x) - 1) (CHR ''0'') @ ds))"

definition fp_text :: "double \<Rightarrow> string" where
  "fp_text v =
     (if isnan v then ''nan''
      else (if fp_neg v then ''-'' else []) @
        (if isinf v then ''inf''
         else if fp_mag v = 0 then ''0''
         else let e = fp_exponent v; m = fp_significand v
              in case significant_digits (m * pow2 e) (pow2 (- e)) of (ds, x) \<Rightarrow> format_g17 ds x))"

text \<open>The text has none of the separators of the plan's canonical form.\<close>

definition plain_char :: "char \<Rightarrow> bool" where
  "plain_char c \<longleftrightarrow> isalnum c \<or> c \<in> {CHR ''.'', CHR ''-'', CHR ''+''}"

lemma plain_digits: "\<forall>c \<in> set (to_string_nat n). plain_char c"
  using to_string_nat_digits [of n] by (auto simp: plain_char_def isalnum_def)

lemma set_strip_zeros: "set (strip_zeros s) \<subseteq> set s"
  by (auto simp: strip_zeros_def dest: set_dropWhileD)

lemma set_with_fraction: "set (with_fraction a b) \<subseteq> set a \<union> {CHR ''.''} \<union> set b"
  using set_strip_zeros [of b] by (auto simp: with_fraction_def Let_def)

lemma plain_format:
  assumes "\<forall>c \<in> set ds. plain_char c"
  shows "\<forall>c \<in> set (format_g17 ds x). plain_char c"
proof -
  have lit: "plain_char (CHR ''.'')" "plain_char (CHR ''0'')" "plain_char (CHR ''e'')"
      "plain_char (CHR ''-'')" "plain_char (CHR ''+'')"
    by (simp_all add: plain_char_def ctype_defs)
  have frac: "\<forall>c \<in> set (with_fraction a b). plain_char c"
    if "\<forall>c \<in> set a. plain_char c" "\<forall>c \<in> set b. plain_char c" for a b
    using set_with_fraction [of a b] that lit by auto
  have "\<forall>c \<in> set (take n ds). plain_char c" "\<forall>c \<in> set (drop n ds). plain_char c" for n
    using assms by (auto dest: in_set_takeD in_set_dropD)
  then show ?thesis
    using lit plain_digits assms
    by (auto simp: format_g17_def Let_def dest!: frac [THEN bspec, rotated 2] split: if_splits)
qed

lemma plain_fp_text: "\<forall>c \<in> set (fp_text v). plain_char c"
proof -
  have ds: "\<forall>c \<in> set (fst (significant_digits a b)). plain_char c" for a b
    using plain_digits by (auto simp: significant_digits_def Let_def)
  have lit: "plain_char (CHR ''n'')" "plain_char (CHR ''a'')" "plain_char (CHR ''i'')" "plain_char (CHR ''f'')"
      "plain_char (CHR ''0'')" "plain_char (CHR ''-'')"
    by (simp_all add: plain_char_def ctype_defs)
  have num: "list_all plain_char (case significant_digits a b of (ds, x) \<Rightarrow> format_g17 ds x)" for a b
    using plain_format [OF ds] by (simp add: case_prod_beta list_all_iff)
  have "list_all plain_char (fp_text v)"
    unfolding fp_text_def Let_def by (simp add: lit num)
  then show ?thesis by (simp add: list_all_iff)
qed

end
