(* ===== verification/Parser.thy ===== *)
theory Parser
  imports Lexer Float_Text
begin

text \<open>
  The query parser: \<^verbatim>\<open>src/query/parser.cpp\<close> with the syntax trees of \<^verbatim>\<open>ast.hpp\<close>. The state of the
  class \<^verbatim>\<open>Parser\<close> is the cursor into the lexemes, modelled by the lexemes from the cursor on,
  and the depth, which every method restores and which is therefore an argument.

  Two outcomes are not results of the sources. \<open>Out_of_bounds\<close> is an access past the last
  lexeme, which C++ leaves undefined. \<open>No_progress\<close> guards the recursion that follows
  another call: it would be returned if that call had consumed nothing. The theory shows that
  \<open>parse\<close> gives neither, for any input.

  The reference is a grammar as inductive relations on lists of lexemes, one per method.
\<close>

section \<open>Syntax trees\<close>

datatype query =
    TermQuery (position: nat) string
  | PhraseQuery (position: nat) string
  | AndQuery (position: nat) query query
  | OrQuery (position: nat) query query
  | NotQuery (position: nat) query
  | FieldQuery (position: nat) string query
  | RangeFilter (position: nat) string string string bool bool
  | BoostQuery (position: nat) query double
  | MatchAllQuery (position: nat)

datatype parse_fault = Failed parse_error | Out_of_bounds | No_progress

type_synonym parse_result = "(parse_fault, query \<times> lexeme list) result"

section \<open>Methods without recursion\<close>

definition parse_fail :: "parse_error_code \<Rightarrow> lexeme \<Rightarrow> string \<Rightarrow> parse_fault" where
  "parse_fail code token message =
     Failed \<lparr>pe_code = code, pe_position = lx_position token, pe_message = message\<rparr>"

definition begins_primary :: "token_kind \<Rightarrow> bool" where
  "begins_primary kind \<longleftrightarrow> kind = Word \<or> kind = Phrase \<or> kind = Left_parenthesis \<or> kind = Star"

fun consume_range_bound :: "lexeme list \<Rightarrow> (parse_fault, string \<times> lexeme list) result" where
  "consume_range_bound [] = Inl Out_of_bounds"
| "consume_range_bound (t # ts) =
     (if lx_kind t \<noteq> Word \<and> lx_kind t \<noteq> Star then
        Inl (parse_fail Expected_range_bound t ''expected range bound'')
      else Inr (lx_text t, ts))"

text \<open>\<open>expect\<close>: test the next lexeme's kind, then consume it.\<close>

fun expect ::
  "token_kind \<Rightarrow> parse_error_code \<Rightarrow> string \<Rightarrow> lexeme list \<Rightarrow> (parse_fault, lexeme list) result" where
  "expect kind code message [] = Inl Out_of_bounds"
| "expect kind code message (t # ts) =
     (if lx_kind t \<noteq> kind then Inl (parse_fail code t message) else Inr ts)"

definition parse_range :: "lexeme \<Rightarrow> lexeme list \<Rightarrow> parse_result" where
  "parse_range field ts =
     (case ts of
        [] \<Rightarrow> Inl Out_of_bounds
      | _ # ts1 \<Rightarrow> (case consume_range_bound ts1 of
          Inl e \<Rightarrow> Inl e
        | Inr (lower, ts2) \<Rightarrow>
            (case expect To_operator Expected_range_bound ''range requires TO between bounds'' ts2 of
               Inl e \<Rightarrow> Inl e
             | Inr ts3 \<Rightarrow> (case consume_range_bound ts3 of
                 Inl e \<Rightarrow> Inl e
               | Inr (upper, ts4) \<Rightarrow>
                   (case expect Right_bracket Unexpected_token ''range is missing closing bracket'' ts4 of
                      Inl e \<Rightarrow> Inl e
                    | Inr ts5 \<Rightarrow>
                        Inr (RangeFilter (lx_position field) (lx_text field) lower upper True True,
                             ts5))))))"

definition valid_boost :: "string \<Rightarrow> double option" where
  "valid_boost s =
     (case from_chars_double s of
        (ec, consumed, boost) \<Rightarrow>
          if ec \<noteq> Errc_ok \<or> consumed \<noteq> length s \<or> \<not> isfinite boost \<or> fp_le boost fp_zero then None
          else Some boost)"

text \<open>The loop of \<open>parse_postfix\<close> over the boosts that follow a primary.\<close>

fun boost_loop :: "query \<Rightarrow> lexeme list \<Rightarrow> parse_result" where
  "boost_loop q [] = Inl Out_of_bounds"
| "boost_loop q (t # ts) =
     (if lx_kind t \<noteq> Caret then Inr (q, t # ts)
      else (case ts of
        [] \<Rightarrow> Inl Out_of_bounds
      | b # ts' \<Rightarrow>
          if lx_kind b \<noteq> Word then
            Inl (parse_fail Parse_invalid_boost b ''boost requires a positive number'')
          else (case valid_boost (lx_text b) of
                  None \<Rightarrow> Inl (parse_fail Parse_invalid_boost b
                                ''boost must be a finite number greater than zero'')
                | Some boost \<Rightarrow> boost_loop (BoostQuery (position q) q boost) ts')))"

text \<open>\<^verbatim>\<open>text.find_first_not_of(" \t\r\n") == npos\<close>.\<close>

definition blank_phrase :: "string \<Rightarrow> bool" where
  "blank_phrase s \<longleftrightarrow> (\<forall>c \<in> set s. c \<in> {CHR '' '', CHR 0x09, CHR 0x0D, CHR 0x0A})"

section \<open>The recursive methods\<close>

text \<open>
  \<open>or_loop\<close> and \<open>and_loop\<close> are the loops of \<^verbatim>\<open>parse_or\<close> and \<^verbatim>\<open>parse_and\<close>, with the operand
  parsed so far. \<open>m\<close> is \<^verbatim>\<open>maximum_depth_\<close> and \<open>d\<close> is \<^verbatim>\<open>depth_\<close>.
\<close>

function (sequential)
  parse_or :: "nat \<Rightarrow> nat \<Rightarrow> lexeme list \<Rightarrow> parse_result" and
  or_loop :: "nat \<Rightarrow> nat \<Rightarrow> query \<Rightarrow> lexeme list \<Rightarrow> parse_result" and
  parse_and :: "nat \<Rightarrow> nat \<Rightarrow> lexeme list \<Rightarrow> parse_result" and
  and_loop :: "nat \<Rightarrow> nat \<Rightarrow> query \<Rightarrow> lexeme list \<Rightarrow> parse_result" and
  parse_unary :: "nat \<Rightarrow> nat \<Rightarrow> lexeme list \<Rightarrow> parse_result" and
  parse_postfix :: "nat \<Rightarrow> nat \<Rightarrow> lexeme list \<Rightarrow> parse_result" and
  parse_field_operand :: "nat \<Rightarrow> nat \<Rightarrow> lexeme list \<Rightarrow> parse_result" and
  parse_primary :: "nat \<Rightarrow> nat \<Rightarrow> lexeme list \<Rightarrow> parse_result"
where
  "parse_or m d ts =
     (case parse_and m d ts of
        Inl e \<Rightarrow> Inl e
      | Inr (left, ts') \<Rightarrow>
          if length ts' < length ts then or_loop m d left ts' else Inl No_progress)"
| "or_loop m d left [] = Inl Out_of_bounds"
| "or_loop m d left (t # ts) =
     (if lx_kind t = Or_operator \<or> begins_primary (lx_kind t) then
        (let ts1 = (if lx_kind t = Or_operator then ts else t # ts)
         in case parse_and m d ts1 of
              Inl e \<Rightarrow> Inl e
            | Inr (right, ts') \<Rightarrow>
                if length ts' < length (t # ts)
                then or_loop m d (OrQuery (position left) left right) ts'
                else Inl No_progress)
      else Inr (left, t # ts))"
| "parse_and m d ts =
     (case parse_unary m d ts of
        Inl e \<Rightarrow> Inl e
      | Inr (left, ts') \<Rightarrow>
          if length ts' < length ts then and_loop m d left ts' else Inl No_progress)"
| "and_loop m d left [] = Inl Out_of_bounds"
| "and_loop m d left (t # ts) =
     (if lx_kind t = And_operator then
        (case parse_unary m d ts of
           Inl e \<Rightarrow> Inl e
         | Inr (right, ts') \<Rightarrow>
             if length ts' < length (t # ts)
             then and_loop m d (AndQuery (position left) left right) ts'
             else Inl No_progress)
      else Inr (left, t # ts))"
| "parse_unary m d [] = Inl Out_of_bounds"
| "parse_unary m d (t # ts) =
     (if lx_kind t = Not_operator then
        (case parse_unary m d ts of
           Inl e \<Rightarrow> Inl e
         | Inr (operand, ts') \<Rightarrow> Inr (NotQuery (lx_position t) operand, ts'))
      else parse_postfix m d (t # ts))"
| "parse_postfix m d ts =
     (case parse_primary m d ts of
        Inl e \<Rightarrow> Inl e
      | Inr (q, ts') \<Rightarrow> boost_loop q ts')"
| "parse_field_operand m d [] = Inl Out_of_bounds"
| "parse_field_operand m d (t # ts) =
     (if lx_kind t = Not_operator then
        (case parse_field_operand m d ts of
           Inl e \<Rightarrow> Inl e
         | Inr (operand, ts') \<Rightarrow> Inr (NotQuery (lx_position t) operand, ts'))
      else parse_primary m d (t # ts))"
| "parse_primary m d [] = Inl Out_of_bounds"
| "parse_primary m d (token # ts) =
     (if lx_kind token = Word then
        (case ts of
           [] \<Rightarrow> Inl Out_of_bounds
         | t2 # ts2 \<Rightarrow>
             if lx_kind t2 \<noteq> Colon then Inr (TermQuery (lx_position token) (lx_text token), t2 # ts2)
             else (case ts2 of
               [] \<Rightarrow> Inl Out_of_bounds
             | t3 # ts3 \<Rightarrow>
                 if lx_kind t3 = Left_bracket then parse_range token (t3 # ts3)
                 else if \<not> begins_primary (lx_kind t3) \<and> lx_kind t3 \<noteq> Not_operator then
                   Inl (parse_fail Expected_expression t3 ''field name must be followed by a query'')
                 else (case parse_field_operand m d (t3 # ts3) of
                         Inl e \<Rightarrow> Inl e
                       | Inr (child, ts') \<Rightarrow>
                           Inr (FieldQuery (lx_position token) (lx_text token) child, ts'))))
      else if lx_kind token = Phrase then
        (if blank_phrase (lx_text token) then
           Inl (parse_fail Expected_expression token ''phrase must contain text'')
         else Inr (PhraseQuery (lx_position token) (lx_text token), ts))
      else if lx_kind token = Star then Inr (MatchAllQuery (lx_position token), ts)
      else if lx_kind token = Left_parenthesis then
        (if d \<ge> m then Inl (parse_fail Nesting_too_deep token ''query nesting limit exceeded'')
         else (case parse_or m (d + 1) ts of
                 Inl e \<Rightarrow> Inl e
               | Inr (inner, ts') \<Rightarrow>
                   (case expect Right_parenthesis Unexpected_token ''expected closing parenthesis'' ts' of
                      Inl e \<Rightarrow> Inl e
                    | Inr ts'' \<Rightarrow> Inr (inner, ts''))))
      else Inl (parse_fail Expected_expression token ''expected query expression''))"
  by pat_completeness auto
termination
  by (relation "measures [\<lambda>x. case x of
        Inl (Inl (Inl (m, d, ts))) \<Rightarrow> length ts
      | Inl (Inl (Inr (m, d, q, ts))) \<Rightarrow> length ts
      | Inl (Inr (Inl (m, d, ts))) \<Rightarrow> length ts
      | Inl (Inr (Inr (m, d, q, ts))) \<Rightarrow> length ts
      | Inr (Inl (Inl (m, d, ts))) \<Rightarrow> length ts
      | Inr (Inl (Inr (m, d, ts))) \<Rightarrow> length ts
      | Inr (Inr (Inl (m, d, ts))) \<Rightarrow> length ts
      | Inr (Inr (Inr (m, d, ts))) \<Rightarrow> length ts,
     \<lambda>x. case x of
        Inl (Inl (Inl _)) \<Rightarrow> 4
      | Inl (Inl (Inr _)) \<Rightarrow> 5
      | Inl (Inr (Inl _)) \<Rightarrow> 3
      | Inl (Inr (Inr _)) \<Rightarrow> 5
      | Inr (Inl (Inl _)) \<Rightarrow> 2
      | Inr (Inl (Inr _)) \<Rightarrow> 1
      | Inr (Inr (Inl _)) \<Rightarrow> 1
      | Inr (Inr (Inr _)) \<Rightarrow> (0 :: nat)]") auto

lemmas parser_simps = parse_or.simps or_loop.simps parse_and.simps and_loop.simps parse_unary.simps
  parse_postfix.simps parse_field_operand.simps parse_primary.simps

declare parser_simps [simp del]

definition parser_run :: "nat \<Rightarrow> lexeme list \<Rightarrow> (parse_fault, query) result" where
  "parser_run maximum_depth tokens =
     (case tokens of
        [] \<Rightarrow> Inl Out_of_bounds
      | t # _ \<Rightarrow>
          if lx_kind t = End then Inl (parse_fail Empty_query t ''query is empty'')
          else (case parse_or maximum_depth 0 tokens of
                  Inl e \<Rightarrow> Inl e
                | Inr (q, rest) \<Rightarrow> (case rest of
                    [] \<Rightarrow> Inl Out_of_bounds
                  | u # _ \<Rightarrow>
                      if lx_kind u \<noteq> End then
                        Inl (parse_fail Unexpected_token u ''unexpected token after query'')
                      else Inr q)))"

definition parse :: "string \<Rightarrow> query_limits \<Rightarrow> (parse_fault, query) result" where
  "parse input limits =
     (case lex input limits of
        Inl e \<Rightarrow> Inl (Failed e)
      | Inr tokens \<Rightarrow> parser_run (maximum_nesting_depth limits) tokens)"

section \<open>The grammar\<close>

inductive
  or_g :: "nat \<Rightarrow> nat \<Rightarrow> lexeme list \<Rightarrow> query \<Rightarrow> bool" and
  and_g :: "nat \<Rightarrow> nat \<Rightarrow> lexeme list \<Rightarrow> query \<Rightarrow> bool" and
  unary_g :: "nat \<Rightarrow> nat \<Rightarrow> lexeme list \<Rightarrow> query \<Rightarrow> bool" and
  postfix_g :: "nat \<Rightarrow> nat \<Rightarrow> lexeme list \<Rightarrow> query \<Rightarrow> bool" and
  operand_g :: "nat \<Rightarrow> nat \<Rightarrow> lexeme list \<Rightarrow> query \<Rightarrow> bool" and
  primary_g :: "nat \<Rightarrow> nat \<Rightarrow> lexeme list \<Rightarrow> query \<Rightarrow> bool"
  for m :: nat
where
  or_base: "and_g m d ts q \<Longrightarrow> or_g m d ts q"
| or_operator: "or_g m d ts1 q1 \<Longrightarrow> lx_kind t = Or_operator \<Longrightarrow> and_g m d ts2 q2 \<Longrightarrow>
    or_g m d (ts1 @ t # ts2) (OrQuery (position q1) q1 q2)"
| or_implicit: "or_g m d ts1 q1 \<Longrightarrow> begins_primary (lx_kind t) \<Longrightarrow> and_g m d (t # ts2) q2 \<Longrightarrow>
    or_g m d (ts1 @ t # ts2) (OrQuery (position q1) q1 q2)"
| and_base: "unary_g m d ts q \<Longrightarrow> and_g m d ts q"
| and_operator: "and_g m d ts1 q1 \<Longrightarrow> lx_kind t = And_operator \<Longrightarrow> unary_g m d ts2 q2 \<Longrightarrow>
    and_g m d (ts1 @ t # ts2) (AndQuery (position q1) q1 q2)"
| unary_not: "lx_kind t = Not_operator \<Longrightarrow> unary_g m d ts q \<Longrightarrow>
    unary_g m d (t # ts) (NotQuery (lx_position t) q)"
| unary_base: "postfix_g m d ts q \<Longrightarrow> unary_g m d ts q"
| postfix_base: "primary_g m d ts q \<Longrightarrow> postfix_g m d ts q"
| postfix_boost: "postfix_g m d ts q \<Longrightarrow> lx_kind c = Caret \<Longrightarrow> lx_kind b = Word \<Longrightarrow>
    valid_boost (lx_text b) = Some x \<Longrightarrow> postfix_g m d (ts @ [c, b]) (BoostQuery (position q) q x)"
| operand_not: "lx_kind t = Not_operator \<Longrightarrow> operand_g m d ts q \<Longrightarrow>
    operand_g m d (t # ts) (NotQuery (lx_position t) q)"
| operand_base: "primary_g m d ts q \<Longrightarrow> operand_g m d ts q"
| primary_term: "lx_kind t = Word \<Longrightarrow> primary_g m d [t] (TermQuery (lx_position t) (lx_text t))"
| primary_field: "lx_kind t = Word \<Longrightarrow> lx_kind c = Colon \<Longrightarrow> operand_g m d ts q \<Longrightarrow>
    primary_g m d (t # c # ts) (FieldQuery (lx_position t) (lx_text t) q)"
| primary_range: "lx_kind t = Word \<Longrightarrow> lx_kind c = Colon \<Longrightarrow> lx_kind lb = Left_bracket \<Longrightarrow>
    lx_kind lo \<in> {Word, Star} \<Longrightarrow> lx_kind u = To_operator \<Longrightarrow> lx_kind hi \<in> {Word, Star} \<Longrightarrow>
    lx_kind rb = Right_bracket \<Longrightarrow>
    primary_g m d [t, c, lb, lo, u, hi, rb]
      (RangeFilter (lx_position t) (lx_text t) (lx_text lo) (lx_text hi) True True)"
| primary_phrase: "lx_kind t = Phrase \<Longrightarrow> \<not> blank_phrase (lx_text t) \<Longrightarrow>
    primary_g m d [t] (PhraseQuery (lx_position t) (lx_text t))"
| primary_star: "lx_kind t = Star \<Longrightarrow> primary_g m d [t] (MatchAllQuery (lx_position t))"
| primary_group: "lx_kind lp = Left_parenthesis \<Longrightarrow> d < m \<Longrightarrow> or_g m (d + 1) ts q \<Longrightarrow>
    lx_kind rp = Right_parenthesis \<Longrightarrow> primary_g m d (lp # ts @ [rp]) q"

lemmas grammar_intros = or_g_and_g_unary_g_postfix_g_operand_g_primary_g.intros

lemma consume_range_bound_Inr:
  "consume_range_bound ts = Inr (s, rest) \<longleftrightarrow>
    (\<exists>t. ts = t # rest \<and> lx_kind t \<in> {Word, Star} \<and> s = lx_text t)"
  by (cases ts) auto

lemma expect_Inr: "expect k code msg ts = Inr rest \<longleftrightarrow> (\<exists>t. ts = t # rest \<and> lx_kind t = k)"
  by (cases ts) auto

lemma parse_range_Inr:
  "parse_range t (lb # ts) = Inr (q, rest) \<longleftrightarrow>
    (\<exists>lo u hi rb. ts = lo # u # hi # rb # rest \<and> lx_kind lo \<in> {Word, Star} \<and> lx_kind u = To_operator \<and>
      lx_kind hi \<in> {Word, Star} \<and> lx_kind rb = Right_bracket \<and>
      q = RangeFilter (lx_position t) (lx_text t) (lx_text lo) (lx_text hi) True True)"
  by (auto simp: parse_range_def consume_range_bound_Inr expect_Inr split: sum.splits)

lemma boost_loop_sound:
  "boost_loop q ts = Inr (q', rest) \<Longrightarrow> postfix_g m d pre q \<Longrightarrow>
    \<exists>used. ts = used @ rest \<and> postfix_g m d (pre @ used) q'"
proof (induction q ts arbitrary: pre rule: boost_loop.induct)
  case (2 q t ts)
  show ?case
  proof (cases "lx_kind t = Caret")
    case True
    with "2.prems"(1) obtain b ts' x where b: "ts = b # ts'" "lx_kind b = Word" "valid_boost (lx_text b) = Some x"
        "boost_loop (BoostQuery (position q) q x) ts' = Inr (q', rest)"
      by (auto split: list.splits if_splits option.splits)
    have "postfix_g m d (pre @ [t, b]) (BoostQuery (position q) q x)"
      using "2.prems"(2) True b(2,3) by (rule postfix_boost)
    from "2.IH" [OF _ b(1) _ b(3,4) this] True b show ?thesis by auto
  next
    case False
    with "2.prems" show ?thesis by auto
  qed
qed auto

lemma primary_word_cases:
  assumes "parse_primary m d (t # t2 # ts2) = Inr (q, rest)" and "lx_kind t = Word"
    and "q = TermQuery (lx_position t) (lx_text t) \<Longrightarrow> rest = t2 # ts2 \<Longrightarrow> P"
    and "\<And>lb lo u hi rb. ts2 = lb # lo # u # hi # rb # rest \<Longrightarrow> lx_kind t2 = Colon \<Longrightarrow> lx_kind lb = Left_bracket \<Longrightarrow>
      lx_kind lo \<in> {Word, Star} \<Longrightarrow> lx_kind u = To_operator \<Longrightarrow> lx_kind hi \<in> {Word, Star} \<Longrightarrow> lx_kind rb = Right_bracket \<Longrightarrow>
      q = RangeFilter (lx_position t) (lx_text t) (lx_text lo) (lx_text hi) True True \<Longrightarrow> P"
    and "\<And>t3 ts3 q'. ts2 = t3 # ts3 \<Longrightarrow> lx_kind t2 = Colon \<Longrightarrow> lx_kind t3 \<noteq> Left_bracket \<Longrightarrow>
      begins_primary (lx_kind t3) \<or> lx_kind t3 = Not_operator \<Longrightarrow>
      parse_field_operand m d (t3 # ts3) = Inr (q', rest) \<Longrightarrow> q = FieldQuery (lx_position t) (lx_text t) q' \<Longrightarrow> P"
  shows P
proof (cases "lx_kind t2 = Colon")
  case True
  with assms(1,2) obtain t3 ts3 where t3: "ts2 = t3 # ts3"
    by (auto simp: parse_primary.simps split: list.splits)
  show P
  proof (cases "lx_kind t3 = Left_bracket")
    case lb: True
    with True assms(1,2) t3 have "parse_range t (t3 # ts3) = Inr (q, rest)"
      by (simp add: parse_primary.simps)
    with True t3 lb assms(4) show P by (auto simp: parse_range_Inr)
  next
    case False
    with True assms(1,2) t3 assms(5) show P
      by (auto simp: parse_primary.simps split: if_splits sum.splits)
  qed
next
  case False
  with assms(1-3) show P by (simp add: parse_primary.simps)
qed

text \<open>What each method has consumed when it succeeds.\<close>

lemma parser_sound:
  "parse_or m d ts = Inr (q, rest) \<Longrightarrow> \<exists>used. ts = used @ rest \<and> or_g m d used q"
  "or_loop m d left ts = Inr (q, rest) \<Longrightarrow> or_g m d pre left \<Longrightarrow>
     \<exists>used. ts = used @ rest \<and> or_g m d (pre @ used) q"
  "parse_and m d ts = Inr (q, rest) \<Longrightarrow> \<exists>used. ts = used @ rest \<and> and_g m d used q"
  "and_loop m d left ts = Inr (q, rest) \<Longrightarrow> and_g m d pre left \<Longrightarrow>
     \<exists>used. ts = used @ rest \<and> and_g m d (pre @ used) q"
  "parse_unary m d ts = Inr (q, rest) \<Longrightarrow> \<exists>used. ts = used @ rest \<and> unary_g m d used q"
  "parse_postfix m d ts = Inr (q, rest) \<Longrightarrow> \<exists>used. ts = used @ rest \<and> postfix_g m d used q"
  "parse_field_operand m d ts = Inr (q, rest) \<Longrightarrow> \<exists>used. ts = used @ rest \<and> operand_g m d used q"
  "parse_primary m d ts = Inr (q, rest) \<Longrightarrow> \<exists>used. ts = used @ rest \<and> primary_g m d used q"
proof (induction m d ts and m d left ts and m d ts and m d left ts and m d ts and m d ts and m d ts and m d ts
    arbitrary: q rest and q rest pre and q rest and q rest pre and q rest and q rest and q rest and q rest
    rule: parse_or_or_loop_parse_and_and_loop_parse_unary_parse_postfix_parse_field_operand_parse_primary.induct)
  case (1 m d ts)
  from "1.prems" obtain left ts' where a: "parse_and m d ts = Inr (left, ts')" "length ts' < length ts"
      "or_loop m d left ts' = Inr (q, rest)"
    by (auto simp: parse_or.simps split: sum.splits if_splits)
  from "1.IH"(1) [OF a(1)] obtain u where u: "ts = u @ ts'" "and_g m d u left" by blast
  from "1.IH"(2) [OF a(1) refl a(2,3) or_base [OF u(2)]] u(1) show ?case by auto
next
  case (3 m d left t ts)
  show ?case
  proof (cases "lx_kind t = Or_operator \<or> begins_primary (lx_kind t)")
    case True
    let ?ts1 = "if lx_kind t = Or_operator then ts else t # ts"
    from "3.prems"(1) True obtain right ts' where a: "parse_and m d ?ts1 = Inr (right, ts')"
        "length ts' < length (t # ts)" "or_loop m d (OrQuery (position left) left right) ts' = Inr (q, rest)"
      by (auto simp: or_loop.simps Let_def split: sum.splits if_splits)
    from "3.IH"(1) [OF True refl a(1)] obtain u where u: "?ts1 = u @ ts'" "and_g m d u right" by blast
    obtain v where v: "t # ts = v @ ts'" "or_g m d (pre @ v) (OrQuery (position left) left right)"
    proof (cases "lx_kind t = Or_operator")
      case op: True
      from or_operator [OF "3.prems"(2) op u(2)] u(1) op show ?thesis
        by (intro that [of "t # u"]) auto
    next
      case False
      with u(1) True a(2) obtain w where "u = t # w" "begins_primary (lx_kind t)"
        by (cases u) auto
      with or_implicit [OF "3.prems"(2) _ , of t w right] u False show ?thesis
        by (intro that [of u]) auto
    qed
    from "3.IH"(2) [OF True refl a(1) refl a(2,3) v(2)] v(1) show ?thesis by auto
  next
    case False
    with "3.prems" show ?thesis by (auto simp: or_loop.simps)
  qed
next
  case (4 m d ts)
  from "4.prems" obtain left ts' where a: "parse_unary m d ts = Inr (left, ts')" "length ts' < length ts"
      "and_loop m d left ts' = Inr (q, rest)"
    by (auto simp: parse_and.simps split: sum.splits if_splits)
  from "4.IH"(1) [OF a(1)] obtain u where u: "ts = u @ ts'" "unary_g m d u left" by blast
  from "4.IH"(2) [OF a(1) refl a(2,3) and_base [OF u(2)]] u(1) show ?case by auto
next
  case (6 m d left t ts)
  show ?case
  proof (cases "lx_kind t = And_operator")
    case True
    from "6.prems"(1) True obtain right ts' where a: "parse_unary m d ts = Inr (right, ts')"
        "length ts' < length (t # ts)" "and_loop m d (AndQuery (position left) left right) ts' = Inr (q, rest)"
      by (auto simp: and_loop.simps split: sum.splits if_splits)
    from "6.IH"(1) [OF True a(1)] obtain u where u: "ts = u @ ts'" "unary_g m d u right" by blast
    from "6.IH"(2) [OF True a(1) refl a(2,3) and_operator [OF "6.prems"(2) True u(2)]] u(1)
    show ?thesis by auto
  next
    case False
    with "6.prems" show ?thesis by (auto simp: and_loop.simps)
  qed
next
  case (8 m d t ts)
  show ?case
  proof (cases "lx_kind t = Not_operator")
    case True
    with "8.prems" obtain q' where a: "parse_unary m d ts = Inr (q', rest)" "q = NotQuery (lx_position t) q'"
      by (auto simp: parse_unary.simps split: sum.splits)
    from "8.IH"(1) [OF True a(1)] a(2) True show ?thesis
      by (fastforce intro: unary_not)
  next
    case False
    with "8.prems" "8.IH"(2) show ?thesis
      by (fastforce simp: parse_unary.simps intro: unary_base)
  qed
next
  case (9 m d ts)
  then show ?case
    using boost_loop_sound postfix_base
    by (fastforce simp: parse_postfix.simps split: sum.splits)
next
  case (11 m d t ts)
  show ?case
  proof (cases "lx_kind t = Not_operator")
    case True
    with "11.prems" obtain q' where a: "parse_field_operand m d ts = Inr (q', rest)" "q = NotQuery (lx_position t) q'"
      by (auto simp: parse_field_operand.simps split: sum.splits)
    from "11.IH"(1) [OF True a(1)] a(2) True show ?thesis
      by (fastforce intro: operand_not)
  next
    case False
    with "11.prems" "11.IH"(2) show ?thesis
      by (fastforce simp: parse_field_operand.simps intro: operand_base)
  qed
next
  case (13 m d t ts)
  consider (word) "lx_kind t = Word" | (phrase) "lx_kind t = Phrase" | (star) "lx_kind t = Star"
    | (group) "lx_kind t = Left_parenthesis"
    using "13.prems" by (auto simp: parse_primary.simps split: if_splits)
  then show ?case
  proof cases
    case word
    from word "13.prems" obtain t2 ts2 where t2: "ts = t2 # ts2"
      by (auto simp: parse_primary.simps split: list.splits)
    show ?thesis
    proof (rule primary_word_cases [OF "13.prems" [unfolded t2] word])
      fix t3 ts3 q'
      assume a: "ts2 = t3 # ts3" "lx_kind t2 = Colon" "lx_kind t3 \<noteq> Left_bracket"
        "begins_primary (lx_kind t3) \<or> lx_kind t3 = Not_operator"
        "parse_field_operand m d (t3 # ts3) = Inr (q', rest)" "q = FieldQuery (lx_position t) (lx_text t) q'"
      then have "\<exists>used. t3 # ts3 = used @ rest \<and> operand_g m d used q'"
        by (intro "13.IH"(1) [OF word t2]) auto
      with a t2 word show ?thesis
        by (fastforce intro: primary_field)
    qed (use t2 word in \<open>auto intro: primary_term primary_range\<close>)
  next
    case group
    with "13.prems" obtain ts' where a: "d < m" "parse_or m (d + 1) ts = Inr (q, ts')"
        "expect Right_parenthesis Unexpected_token ''expected closing parenthesis'' ts' = Inr rest"
      by (auto simp: parse_primary.simps split: sum.splits if_splits)
    then obtain rp where rp: "ts' = rp # rest" "lx_kind rp = Right_parenthesis"
      by (auto simp: expect_Inr)
    from a(1,2) group have "\<exists>used. ts = used @ ts' \<and> or_g m (d + 1) used q"
      by (intro "13.IH"(2)) auto
    with rp group a(1) show ?thesis
      using primary_group by fastforce
  qed (use "13.prems" in \<open>auto simp: parse_primary.simps split: if_splits intro: primary_phrase primary_star\<close>)
qed (simp_all add: parser_simps)

lemma grammar_lexemes:
  "or_g m d ts q \<Longrightarrow> ts \<noteq> [] \<and> (\<forall>t \<in> set ts. lx_kind t \<noteq> End)"
  "and_g m d ts q \<Longrightarrow> ts \<noteq> [] \<and> (\<forall>t \<in> set ts. lx_kind t \<noteq> End)"
  "unary_g m d ts q \<Longrightarrow> ts \<noteq> [] \<and> (\<forall>t \<in> set ts. lx_kind t \<noteq> End)"
  "postfix_g m d ts q \<Longrightarrow> ts \<noteq> [] \<and> (\<forall>t \<in> set ts. lx_kind t \<noteq> End)"
  "operand_g m d ts q \<Longrightarrow> ts \<noteq> [] \<and> (\<forall>t \<in> set ts. lx_kind t \<noteq> End)"
  "primary_g m d ts q \<Longrightarrow> ts \<noteq> [] \<and> (\<forall>t \<in> set ts. lx_kind t \<noteq> End)"
  by (induction rule: or_g_and_g_unary_g_postfix_g_operand_g_primary_g.inducts) auto

section \<open>No access past the sentinel\<close>

definition ended :: "lexeme list \<Rightarrow> bool" where
  "ended ts \<longleftrightarrow> ts \<noteq> [] \<and> lx_kind (last ts) = End \<and> (\<forall>t \<in> set (butlast ts). lx_kind t \<noteq> End)"

lemma ended_Nil [simp]: "\<not> ended []"
  by (simp add: ended_def)

lemma ended_Cons: "ended (t # ts) \<Longrightarrow> lx_kind t \<noteq> End \<Longrightarrow> ended ts"
  by (auto simp: ended_def split: if_splits)

lemma ended_append: "ended (us @ ts) \<Longrightarrow> \<forall>u \<in> set us. lx_kind u \<noteq> End \<Longrightarrow> ended ts"
  by (induction us) (auto dest: ended_Cons)

definition fault_free :: "(parse_fault, 'a) result \<Rightarrow> bool" where
  "fault_free r \<longleftrightarrow> r \<noteq> Inl Out_of_bounds \<and> r \<noteq> Inl No_progress"

lemma fault_free_simps [simp]: "fault_free (Inr x)" "fault_free (Inl (parse_fail code t msg))"
  by (simp_all add: fault_free_def parse_fail_def)

lemma fault_free_Inl:
  "fault_free (r :: (parse_fault, 'a) result) \<Longrightarrow> r = Inl e \<Longrightarrow> fault_free (Inl e :: (parse_fault, 'b) result)"
  by (simp add: fault_free_def)

lemma fault_free_bound: "ended ts \<Longrightarrow> fault_free (consume_range_bound ts)"
  by (cases ts) auto

lemma fault_free_expect: "ended ts \<Longrightarrow> fault_free (expect k code msg ts)"
  by (cases ts) auto

lemma fault_free_range:
  assumes "ended (lb # ts)" and "lx_kind lb = Left_bracket"
  shows "fault_free (parse_range t (lb # ts))"
proof -
  have 1: "ended ts" using assms ended_Cons by force
  have bound: "ended r" if "consume_range_bound s = Inr (x, r)" "ended s" for s x r
    using that ended_Cons by (force simp: consume_range_bound_Inr)
  have exp: "ended r" if "expect k code msg s = Inr r" "ended s" "k \<noteq> End" for s k code msg r
    using that ended_Cons by (force simp: expect_Inr)
  show ?thesis
    using 1 fault_free_bound fault_free_expect bound exp
    by (auto simp: parse_range_def split: sum.splits intro: fault_free_Inl) (metis fault_free_Inl token_kind.distinct)+
qed

lemma fault_free_boost: "ended ts \<Longrightarrow> fault_free (boost_loop q ts)"
proof (induction q ts rule: boost_loop.induct)
  case (2 q t ts)
  show ?case
  proof (cases ts)
    case Nil
    with "2.prems" show ?thesis by (auto simp: ended_def)
  next
    case (Cons b ts')
    with "2.prems" "2.IH" ended_Cons show ?thesis
      by (auto split: option.splits) (metis ended_Cons token_kind.distinct)+
  qed
qed simp

lemma used_ended:
  assumes "ended ts" and "\<exists>used. ts = used @ rest \<and> R used" 
    and "\<And>used. R used \<Longrightarrow> used \<noteq> [] \<and> (\<forall>t \<in> set used. lx_kind t \<noteq> End)"
  shows "ended rest \<and> length rest < length ts"
  using assms ended_append by fastforce

lemma parsed_ended:
  "ended ts \<Longrightarrow> parse_or m d ts = Inr (q, rest) \<Longrightarrow> ended rest \<and> length rest < length ts"
  "ended ts \<Longrightarrow> parse_and m d ts = Inr (q, rest) \<Longrightarrow> ended rest \<and> length rest < length ts"
  "ended ts \<Longrightarrow> parse_unary m d ts = Inr (q, rest) \<Longrightarrow> ended rest \<and> length rest < length ts"
  "ended ts \<Longrightarrow> parse_primary m d ts = Inr (q, rest) \<Longrightarrow> ended rest \<and> length rest < length ts"
  by (rule used_ended [OF _ parser_sound(1) grammar_lexemes(1)]; assumption)
    (rule used_ended [OF _ parser_sound(3) grammar_lexemes(2)]
      used_ended [OF _ parser_sound(5) grammar_lexemes(3)]
      used_ended [OF _ parser_sound(8) grammar_lexemes(6)]; assumption)+

lemma parser_fault_free:
  "ended ts \<Longrightarrow> fault_free (parse_or m d ts)"
  "ended ts \<Longrightarrow> fault_free (or_loop m d left ts)"
  "ended ts \<Longrightarrow> fault_free (parse_and m d ts)"
  "ended ts \<Longrightarrow> fault_free (and_loop m d left ts)"
  "ended ts \<Longrightarrow> fault_free (parse_unary m d ts)"
  "ended ts \<Longrightarrow> fault_free (parse_postfix m d ts)"
  "ended ts \<Longrightarrow> fault_free (parse_field_operand m d ts)"
  "ended ts \<Longrightarrow> fault_free (parse_primary m d ts)"
proof (induction m d ts and m d left ts and m d ts and m d left ts and m d ts and m d ts and m d ts and m d ts
    rule: parse_or_or_loop_parse_and_and_loop_parse_unary_parse_postfix_parse_field_operand_parse_primary.induct)
  case (1 m d ts)
  then show ?case
    using parsed_ended(2) [OF "1.prems"]
    by (auto simp: parse_or.simps split: sum.splits intro: fault_free_Inl)
next
  case (3 m d left t ts)
  let ?ts1 = "if lx_kind t = Or_operator then ts else t # ts"
  have e: "ended ?ts1"
    using "3.prems" ended_Cons by force
  have "length ts' < length (t # ts) \<and> ended ts'" if "parse_and m d ?ts1 = Inr (right, ts')" for right ts'
    using parsed_ended(2) [OF e that] by (auto split: if_splits)
  with 3 e show ?case
    by (auto simp: or_loop.simps Let_def split: sum.splits intro: fault_free_Inl)
next
  case (4 m d ts)
  then show ?case
    using parsed_ended(3) [OF "4.prems"]
    by (auto simp: parse_and.simps split: sum.splits intro: fault_free_Inl)
next
  case (6 m d left t ts)
  show ?case
  proof (cases "lx_kind t = And_operator")
    case True
    with "6.prems" ended_Cons have "ended ts" by force
    with 6 True parsed_ended(3) [OF this] show ?thesis
      by (auto simp: and_loop.simps less_Suc_eq split: sum.splits intro: fault_free_Inl)
  qed (simp add: and_loop.simps)
next
  case (8 m d t ts)
  then show ?case
    using ended_Cons [of t ts]
    by (auto simp: parse_unary.simps split: sum.splits intro: fault_free_Inl)
next
  case (9 m d ts)
  then show ?case
    using parsed_ended(4) [OF "9.prems"] fault_free_boost
    by (auto simp: parse_postfix.simps split: sum.splits intro: fault_free_Inl)
next
  case (11 m d t ts)
  then show ?case
    using ended_Cons [of t ts]
    by (auto simp: parse_field_operand.simps split: sum.splits intro: fault_free_Inl)
next
  case (13 m d t ts)
  have e: "ended ts" if "lx_kind t \<noteq> End"
    using "13.prems" that by (rule ended_Cons)
  consider (word) "lx_kind t = Word" | (group) "lx_kind t = Left_parenthesis"
    | (other) "lx_kind t \<noteq> Word" "lx_kind t \<noteq> Left_parenthesis" by blast
  then show ?case
  proof cases
    case word
    with e obtain t2 ts2 where t2: "ts = t2 # ts2" "ended (t2 # ts2)" by (cases ts) auto
    show ?thesis
    proof (cases "lx_kind t2 = Colon")
      case True
      with t2(2) ended_Cons obtain t3 ts3 where t3: "ts2 = t3 # ts3" "ended (t3 # ts3)"
        by (cases ts2) force+
      have "fault_free (parse_field_operand m d (t3 # ts3))"
        if "lx_kind t3 \<noteq> Left_bracket" "begins_primary (lx_kind t3) \<or> lx_kind t3 = Not_operator"
        using that t3 True by (intro "13.IH"(1) [OF word t2(1)]) auto
      with word t2(1) True t3 fault_free_range show ?thesis
        by (auto simp: parse_primary.simps split: sum.splits intro: fault_free_Inl)
    qed (use word t2 in \<open>simp add: parse_primary.simps\<close>)
  next
    case group
    have "fault_free (parse_or m (d + 1) ts)" if "d < m"
      using that group e by (intro "13.IH"(2)) auto
    moreover have "fault_free (expect Right_parenthesis Unexpected_token ''expected closing parenthesis'' ts')"
      if "parse_or m (d + 1) ts = Inr (q, ts')" for q ts'
      using that group e parsed_ended(1) by (intro fault_free_expect) auto
    ultimately show ?thesis
      using group by (auto simp: parse_primary.simps split: sum.splits intro: fault_free_Inl)
  next
    case other
    then show ?thesis by (simp add: parse_primary.simps)
  qed
qed (simp_all add: parser_simps)

section \<open>The parser finds every derivation\<close>

lemma grammar_first:
  "or_g m d ts q \<Longrightarrow> begins_primary (lx_kind (hd ts)) \<or> lx_kind (hd ts) = Not_operator"
  "and_g m d ts q \<Longrightarrow> begins_primary (lx_kind (hd ts)) \<or> lx_kind (hd ts) = Not_operator"
  "unary_g m d ts q \<Longrightarrow> begins_primary (lx_kind (hd ts)) \<or> lx_kind (hd ts) = Not_operator"
  "postfix_g m d ts q \<Longrightarrow> begins_primary (lx_kind (hd ts))"
  "operand_g m d ts q \<Longrightarrow> begins_primary (lx_kind (hd ts)) \<or> lx_kind (hd ts) = Not_operator"
  "primary_g m d ts q \<Longrightarrow> begins_primary (lx_kind (hd ts))"
  by (induction rule: or_g_and_g_unary_g_postfix_g_operand_g_primary_g.inducts)
    (auto simp: begins_primary_def grammar_lexemes)

definition follows :: "token_kind set \<Rightarrow> lexeme list \<Rightarrow> bool" where
  "follows kinds rest \<longleftrightarrow> rest \<noteq> [] \<and> lx_kind (hd rest) \<notin> kinds"

lemma follows_Cons [simp]: "follows kinds (t # ts) \<longleftrightarrow> lx_kind t \<notin> kinds"
  by (simp add: follows_def)

lemma follows_weaken: "follows kinds rest \<Longrightarrow> kinds' \<subseteq> kinds \<Longrightarrow> follows kinds' rest"
  by (auto simp: follows_def)

lemma and_loop_stop: "follows {And_operator} rest \<Longrightarrow> and_loop m d q rest = Inr (q, rest)"
  by (cases rest) (simp_all add: and_loop.simps follows_def)

lemma or_loop_stop:
  "follows {Or_operator, Word, Phrase, Left_parenthesis, Star} rest \<Longrightarrow> or_loop m d q rest = Inr (q, rest)"
  by (cases rest) (simp_all add: or_loop.simps follows_def begins_primary_def)

lemma boost_loop_stop: "follows {Caret} rest \<Longrightarrow> boost_loop q rest = Inr (q, rest)"
  by (cases rest) (simp_all add: follows_def)

lemma parser_complete:
  "or_g m d ts q \<Longrightarrow> follows {Colon, Caret, And_operator} rest \<Longrightarrow>
    parse_or m d (ts @ rest) = or_loop m d q rest"
  "and_g m d ts q \<Longrightarrow> follows {Colon, Caret} rest \<Longrightarrow> parse_and m d (ts @ rest) = and_loop m d q rest"
  "unary_g m d ts q \<Longrightarrow> follows {Colon, Caret} rest \<Longrightarrow> parse_unary m d (ts @ rest) = Inr (q, rest)"
  "postfix_g m d ts q \<Longrightarrow> follows {Colon} rest \<Longrightarrow> parse_postfix m d (ts @ rest) = boost_loop q rest"
  "operand_g m d ts q \<Longrightarrow> follows {Colon} rest \<Longrightarrow> parse_field_operand m d (ts @ rest) = Inr (q, rest)"
  "primary_g m d ts q \<Longrightarrow> follows {Colon} rest \<Longrightarrow> parse_primary m d (ts @ rest) = Inr (q, rest)"
proof (induction arbitrary: rest and rest and rest and rest and rest and rest
    rule: or_g_and_g_unary_g_postfix_g_operand_g_primary_g.inducts)
  case (or_base d ts q)
  then show ?case
    using grammar_lexemes(2) [OF or_base(1)]
    by (simp add: parse_or.simps and_loop_stop follows_weaken [of "{Colon, Caret, And_operator}"])
next
  case (or_operator d ts1 q1 t ts2 q2)
  then have "parse_and m d (ts2 @ rest) = Inr (q2, rest)"
    by (simp add: and_loop_stop follows_weaken [of "{Colon, Caret, And_operator}"])
  with or_operator show ?case by (simp add: or_loop.simps)
next
  case (or_implicit d ts1 q1 t ts2 q2)
  then have "parse_and m d (t # ts2 @ rest) = Inr (q2, rest)"
    by (metis and_loop_stop append_Cons follows_weaken insert_commute subset_insertI subset_insertI2)
  with or_implicit show ?case by (auto simp: or_loop.simps begins_primary_def)
next
  case (and_base d ts q)
  then show ?case
    using grammar_lexemes(3) [OF and_base(1)] by (simp add: parse_and.simps)
next
  case (and_operator d ts1 q1 t ts2 q2)
  then show ?case by (simp add: and_loop.simps)
next
  case (unary_not t d ts q)
  then show ?case by (simp add: parse_unary.simps)
next
  case (unary_base d ts q)
  then obtain t ts' where ts: "ts = t # ts'" using grammar_lexemes(4) by (metis list.exhaust)
  have "parse_postfix m d (ts @ rest) = Inr (q, rest)"
    using unary_base by (simp add: boost_loop_stop follows_weaken [of "{Colon, Caret}"])
  with grammar_first(4) [OF unary_base(1)] show ?case
    by (auto simp: parse_unary.simps ts begins_primary_def)
next
  case (postfix_base d ts q)
  then show ?case by (simp add: parse_postfix.simps)
next
  case (operand_not t d ts q)
  then show ?case by (simp add: parse_field_operand.simps)
next
  case (operand_base d ts q)
  then obtain t ts' where ts: "ts = t # ts'" using grammar_lexemes(6) by (metis list.exhaust)
  with operand_base grammar_first(6) [OF operand_base(1)] show ?case
    by (auto simp: parse_field_operand.simps begins_primary_def)
next
  case (primary_term t d)
  then show ?case by (cases rest) (auto simp: parse_primary.simps follows_def)
next
  case (primary_field t c d ts q)
  then obtain t3 ts' where ts: "ts = t3 # ts'" using grammar_lexemes(5) by (metis list.exhaust)
  have "lx_kind t3 \<noteq> Left_bracket"
    using grammar_first(5) [OF primary_field(3)] by (auto simp: ts begins_primary_def)
  with primary_field grammar_first(5) [OF primary_field(3)] show ?case
    by (auto simp: parse_primary.simps ts)
next
  case (primary_range t c lb lo u hi rb d)
  have "parse_range t (lb # lo # u # hi # rb # rest) =
      Inr (RangeFilter (lx_position t) (lx_text t) (lx_text lo) (lx_text hi) True True, rest)"
    using primary_range by (simp add: parse_range_Inr)
  with primary_range show ?case by (simp add: parse_primary.simps)
next
  case (primary_group lp d ts q rp)
  then have "parse_or m (d + 1) (ts @ rp # rest) = Inr (q, rp # rest)"
    by (simp add: or_loop_stop)
  with primary_group show ?case by (simp add: parse_primary.simps)
qed (simp_all add: parse_primary.simps)

section \<open>Properties\<close>

lemma lex_ended:
  assumes "lex input limits = Inr ts"
  shows "ended ts"
proof -
  have "lex_loop limits input 0 [] = Inr ts"
    using assms by (simp add: lex_def split: if_splits)
  from lex_loop_shape [OF this] show ?thesis
    using lexeme_wf_not_End by (auto simp: lex_post_def lexed_def ended_def butlast_append)
qed

lemma ended_split: "ended ts \<longleftrightarrow> (\<exists>body e. ts = body @ [e] \<and> lx_kind e = End \<and> (\<forall>t \<in> set body. lx_kind t \<noteq> End))"
  by (cases ts rule: rev_cases) (auto simp: ended_def)

lemma parser_run_iff:
  assumes "ended (body @ [e])"
  shows "parser_run m (body @ [e]) = Inr q \<longleftrightarrow> or_g m 0 body q"
proof
  have kinds: "lx_kind e = End" "\<forall>t \<in> set body. lx_kind t \<noteq> End"
    using assms by (auto simp: ended_def)
  show "or_g m 0 body q" if "parser_run m (body @ [e]) = Inr q"
  proof -
    from that obtain u rest where p: "parse_or m 0 (body @ [e]) = Inr (q, u # rest)" "lx_kind u = End"
      by (auto simp: parser_run_def split: list.splits if_splits sum.splits)
    from parser_sound(1) [OF p(1)] obtain used where used: "body @ [e] = used @ u # rest" "or_g m 0 used q"
      by blast
    have "rest = []"
      using used(1) kinds(2) p(2) by (cases rest rule: rev_cases) auto
    with used show ?thesis by simp
  qed
  show "parser_run m (body @ [e]) = Inr q" if g: "or_g m 0 body q"
  proof -
    have "parse_or m 0 (body @ [e]) = Inr (q, [e])"
      using parser_complete(1) [OF g, of "[e]"] or_loop_stop [of "[e]" m 0 q] kinds(1) by simp
    moreover obtain t b where "body = t # b" using grammar_lexemes(1) [OF g] by (cases body) auto
    ultimately show ?thesis using kinds by (simp add: parser_run_def)
  qed
qed

lemma parse_returns:
  "(\<exists>q. parse input limits = Inr q) \<or> (\<exists>e. parse input limits = Inl (Failed e))"
proof (cases "lex input limits")
  case (Inr ts)
  have e: "ended ts" using lex_ended [OF Inr] .
  have "fault_free (parser_run m ts)" for m
    using parser_fault_free(1) [OF e, of m 0] parsed_ended(1) [OF e, of m 0] e
    by (auto simp: parser_run_def split: list.splits sum.splits intro: fault_free_Inl)
  then have "fault_free (parse input limits)"
    by (simp add: parse_def Inr)
  then show ?thesis
    unfolding fault_free_def by (cases "parse input limits") (metis parse_fault.exhaust, blast)
qed (simp add: parse_def)

text \<open>
  C14: parsing has no undefined behaviour and always returns: for every input and limits \<^verbatim>\<open>parse\<close>
  yields a query or a parse error. It never reads a lexeme past the sentinel, and no recursive
  method is re-entered without progress.
\<close>

theorem parse_total:
  "(\<exists>q. parse input limits = Inr q) \<or> (\<exists>e. parse input limits = Inl (Failed e))"
  by (rule parse_returns)

text \<open>
  A \<^verbatim>\<open>NOT\<close> directly after a complete expression is refused, whatever follows it, with the position of the \<^verbatim>\<open>NOT\<close>. The
  documentation of the query language derives such queries, \<^verbatim>\<open>gpu NOT cpu\<close> for example, for it lets any two adjacent expressions
  form an implicit disjunction.
\<close>

lemma adjacent_not_refused:
  assumes "lex input limits = Inr (body @ t # rest)" and "or_g (maximum_nesting_depth limits) 0 body q" and "lx_kind t = Not_operator"
  shows "parse input limits = Inl (parse_fail Unexpected_token t ''unexpected token after query'')"
proof -
  have "parse_or (maximum_nesting_depth limits) 0 (body @ t # rest) = Inr (q, t # rest)"
    using parser_complete(1) [OF assms(2), of "t # rest"] or_loop_stop [of "t # rest"] assms(3) by simp
  moreover obtain u b where "body = u # b" "lx_kind u \<noteq> End" using grammar_lexemes(1) [OF assms(2)] by (cases body) auto
  ultimately show ?thesis using assms(1,3) by (simp add: parse_def parser_run_def)
qed

lemma gpu_not_cpu_refused:
  "parse ''gpu NOT cpu'' default_limits = Inl (Failed \<lparr>pe_code = Unexpected_token, pe_position = 4, pe_message = ''unexpected token after query''\<rparr>)"
  by code_simp

text \<open>
  C13: the parser implements the grammar of its methods: \<^verbatim>\<open>parse\<close> returns the tree \<open>q\<close> exactly when the lexemes
  before the sentinel derive \<open>q\<close> from the start symbol within the nesting limit. In
  particular this grammar gives each input at most one tree. It is the grammar of the documentation with two differences, both as the code has them:
  an implicit disjunction does not continue with \<^verbatim>\<open>NOT\<close> (\<open>or_implicit\<close>, see \<open>adjacent_not_refused\<close>), and a boost behind
  a field binds to the field query and not to its operand (\<open>primary_field\<close>), which makes the grammar unambiguous.
\<close>

theorem parse_grammar:
  "parse input limits = Inr q \<longleftrightarrow>
    (\<exists>body e. lex input limits = Inr (body @ [e]) \<and> or_g (maximum_nesting_depth limits) 0 body q)"
proof (cases "lex input limits")
  case (Inr ts)
  then obtain body e where "ts = body @ [e]"
    using lex_ended ended_split by metis
  with parser_run_iff lex_ended [OF Inr] Inr show ?thesis
    by (auto simp: parse_def)
qed (simp add: parse_def)

end
