(* ===== verification/Planner.thy ===== *)
theory Planner
  imports View Parser "HOL-Library.Product_Lexorder"
begin

text \<open>
  The query planner: \<^verbatim>\<open>src/query/planner.cpp\<close> with the plans of \<^verbatim>\<open>plan.hpp\<close>. The class
  \<^verbatim>\<open>Builder\<close> has three counters, which are passed as a record; a failure discards them. Plans
  are never null in the sources' own use, so a \<^verbatim>\<open>std::unique_ptr\<close> to a plan or a query is
  the tree itself, and the tests for null are not modelled.
\<close>

section \<open>Plans\<close>

datatype plan =
    PlannedTerm (estimated_matches: nat) string string double
  | PlannedPhrase (estimated_matches: nat) string "token list" double
  | PlannedAnd (estimated_matches: nat) "plan list"
  | PlannedOr (estimated_matches: nat) "plan list"
  | PlannedNot (estimated_matches: nat) plan
  | PlannedRange (estimated_matches: nat) string string string bool bool
  | PlannedMatchAll (estimated_matches: nat)

definition atom :: "string \<Rightarrow> string" where
  "atom value = to_string_nat (length value) @ '':'' @ value"

fun canonical :: "plan \<Rightarrow> string" where
  "canonical (PlannedTerm _ field trm boost) =
     ''T('' @ atom field @ '','' @ atom trm @ '','' @ fp_text boost @ '')''"
| "canonical (PlannedPhrase _ field tokens boost) =
     ''P('' @ atom field @ '','' @ fp_text boost @
     concat (map (\<lambda>tok. '','' @ atom (tok_term tok) @ ''@'' @ to_string_nat (unat (tok_position tok))) tokens) @
     '')''"
| "canonical (PlannedAnd _ children) = ''A('' @ concat (map (\<lambda>c. canonical c @ '','') children) @ '')''"
| "canonical (PlannedOr _ children) = ''O('' @ concat (map (\<lambda>c. canonical c @ '','') children) @ '')''"
| "canonical (PlannedNot _ operand) = ''N('' @ canonical operand @ '')''"
| "canonical (PlannedRange _ field lower upper include_lower include_upper) =
     ''R('' @ atom field @ '','' @ atom lower @ '','' @ atom upper @ '','' @
     (if include_lower then ''1'' else ''0'') @ '','' @ (if include_upper then ''1'' else ''0'') @ '')''"
| "canonical (PlannedMatchAll _) = ''M()''"

section \<open>Options, errors and counters\<close>

record search_field =
  sf_name :: string
  sf_boost :: double

record planner_limits =
  maximum_nodes :: nat
  maximum_analyzed_tokens :: nat
  maximum_phrase_tokens :: nat
  maximum_depth :: nat

record planner_options =
  po_default_fields :: "search_field list"
  po_limits :: planner_limits

datatype planning_error_code =
    Invalid_options | Invalid_query_tree | Plan_unknown_field | Incompatible_field_type
  | Invalid_range | Plan_resource_limit | Plan_analysis_failed

record planning_error =
  ple_code :: planning_error_code
  ple_message :: string

record builder =
  source_nodes :: nat
  planned_nodes :: nat
  analyzed_tokens :: nat

definition plan_error :: "planning_error_code \<Rightarrow> string \<Rightarrow> planning_error" where
  "plan_error code message = \<lparr>ple_code = code, ple_message = message\<rparr>"

section \<open>The builder\<close>

definition make :: "planner_options \<Rightarrow> plan \<Rightarrow> builder \<Rightarrow> (planning_error, plan \<times> builder) result" where
  "make opts p b =
     (let b' = b\<lparr>planned_nodes := planned_nodes b + 1\<rparr>
      in if planned_nodes b' > maximum_nodes (po_limits opts) then
           Inl (plan_error Plan_resource_limit ''planned query node limit exceeded'')
         else Inr (p, b'))"

definition searchable_field :: "view \<Rightarrow> string \<Rightarrow> (planning_error, field_definition \<times> analyzer) result" where
  "searchable_field v field =
     (case schema_find (v_schema v) field of
        None \<Rightarrow> Inl (plan_error Plan_unknown_field (''query references unknown field: '' @ field))
      | Some fd \<Rightarrow>
          (case fd_analyzer fd of
             None \<Rightarrow> Inl (plan_error Incompatible_field_type (''field is not searchable as text: '' @ field))
           | Some a \<Rightarrow>
               if \<not> fd_indexed fd then
                 Inl (plan_error Incompatible_field_type (''field is not searchable as text: '' @ field))
               else Inr (fd, a)))"

definition plan_analyze ::
  "planner_options \<Rightarrow> analyzer \<Rightarrow> string \<Rightarrow> bool \<Rightarrow> builder \<Rightarrow> (planning_error, token list \<times> builder) result" where
  "plan_analyze opts a s phrase b =
     (case analyze a s of
        Inl what \<Rightarrow> Inl (plan_error Plan_analysis_failed (''query analysis failed: '' @ what))
      | Inr tokens \<Rightarrow>
          (let b' = b\<lparr>analyzed_tokens := analyzed_tokens b + length tokens\<rparr>
           in if analyzed_tokens b' > maximum_analyzed_tokens (po_limits opts) \<or>
                 (phrase \<and> length tokens > maximum_phrase_tokens (po_limits opts)) then
                Inl (plan_error Plan_resource_limit ''analyzed query token limit exceeded'')
              else Inr (tokens, b')))"

text \<open>
  \<^verbatim>\<open>normalize_boolean\<close>: drop children whose canonical form came before, sort by cost or by the
  canonical form, and collapse a single child. \<open>cost_order\<close> tells \<^verbatim>\<open>PlannedAnd\<close>, which is sorted by
  cost, from \<^verbatim>\<open>PlannedOr\<close>.
\<close>

fun keyed :: "plan list \<Rightarrow> (string \<times> plan) list \<Rightarrow> (string \<times> plan) list" where
  "keyed [] acc = acc"
| "keyed (child # rest) acc =
     (let key = canonical child
      in keyed rest (if key \<in> fst ` set acc then acc else acc @ [(key, child)]))"

definition combined_estimate :: "view \<Rightarrow> bool \<Rightarrow> plan list \<Rightarrow> nat" where
  "combined_estimate v cost_order children =
     (if cost_order then fold (\<lambda>c e. min e (estimated_matches c)) children (v_live_document_count v)
      else fold (\<lambda>c e. min (v_live_document_count v) (e + estimated_matches c)) children 0)"

definition boolean_node :: "bool \<Rightarrow> nat \<Rightarrow> plan list \<Rightarrow> plan" where
  "boolean_node cost_order e children = (if cost_order then PlannedAnd e children else PlannedOr e children)"

definition normalize_boolean ::
  "view \<Rightarrow> planner_options \<Rightarrow> bool \<Rightarrow> plan list \<Rightarrow> builder \<Rightarrow> (planning_error, plan \<times> builder) result" where
  "normalize_boolean v opts cost_order children b =
     (let ks = keyed children []
      in if ks = [] then make opts (boolean_node cost_order 0 []) b
         else if length ks = 1 then Inr (snd (hd ks), b)
         else let ordered = (if cost_order then sort_key (\<lambda>(key, p). (estimated_matches p, key)) ks
                            else sort_key fst ks);
                  normalized = map snd ordered
              in make opts (boolean_node cost_order (combined_estimate v cost_order normalized) normalized) b)"

definition normalize_or ::
  "view \<Rightarrow> planner_options \<Rightarrow> plan list \<Rightarrow> builder \<Rightarrow> (planning_error, plan \<times> builder) result" where
  "normalize_or v opts children b = normalize_boolean v opts False children b"

text \<open>The loop of \<^verbatim>\<open>term_for_field\<close> over the tokens, with the terms seen.\<close>

fun term_children ::
  "view \<Rightarrow> planner_options \<Rightarrow> string \<Rightarrow> double \<Rightarrow> token list \<Rightarrow> string list \<Rightarrow> plan list \<Rightarrow> builder \<Rightarrow>
   (planning_error, plan list \<times> builder) result" where
  "term_children v opts field boost [] seen children b = Inr (children, b)"
| "term_children v opts field boost (tok # rest) seen children b =
     (if tok_term tok \<in> set seen then term_children v opts field boost rest seen children b
      else let estimate = (case v_lookup v field (tok_term tok) of
                             None \<Rightarrow> 0 | Some entry \<Rightarrow> length (te_postings entry))
           in case make opts (PlannedTerm estimate field (tok_term tok) boost) b of
                Inl e \<Rightarrow> Inl e
              | Inr (child, b') \<Rightarrow>
                  term_children v opts field boost rest (tok_term tok # seen) (children @ [child]) b')"

definition term_for_field ::
  "view \<Rightarrow> planner_options \<Rightarrow> string \<Rightarrow> string \<Rightarrow> double \<Rightarrow> builder \<Rightarrow> (planning_error, plan \<times> builder) result" where
  "term_for_field v opts field s boost b =
     (case searchable_field v field of
        Inl e \<Rightarrow> Inl e
      | Inr (fd, a) \<Rightarrow> (case plan_analyze opts a s False b of
          Inl e \<Rightarrow> Inl e
        | Inr (tokens, b1) \<Rightarrow>
            (case term_children v opts field (fmul boost (fd_boost fd)) tokens [] [] b1 of
               Inl e \<Rightarrow> Inl e
             | Inr (children, b2) \<Rightarrow> normalize_or v opts children b2)))"

definition phrase_for_field ::
  "view \<Rightarrow> planner_options \<Rightarrow> string \<Rightarrow> string \<Rightarrow> double \<Rightarrow> builder \<Rightarrow> (planning_error, plan \<times> builder) result" where
  "phrase_for_field v opts field s boost b =
     (case searchable_field v field of
        Inl e \<Rightarrow> Inl e
      | Inr (fd, a) \<Rightarrow> (case plan_analyze opts a s True b of
          Inl e \<Rightarrow> Inl e
        | Inr (tokens, b1) \<Rightarrow>
            (let estimate = fold (\<lambda>tok e. min e (case v_lookup v field (tok_term tok) of
                                None \<Rightarrow> 0 | Some entry \<Rightarrow> length (te_postings entry)))
                              tokens (v_live_document_count v)
             in make opts (PlannedPhrase estimate field tokens (fmul boost (fd_boost fd))) b1)))"

text \<open>The loops over the default fields of a term or phrase without a field.\<close>

fun default_children ::
  "(string \<Rightarrow> double \<Rightarrow> builder \<Rightarrow> (planning_error, plan \<times> builder) result) \<Rightarrow> double \<Rightarrow> search_field list \<Rightarrow>
   plan list \<Rightarrow> builder \<Rightarrow> (planning_error, plan list \<times> builder) result" where
  "default_children child_for boost [] children b = Inr (children, b)"
| "default_children child_for boost (sf # rest) children b =
     (case child_for (sf_name sf) (fmul boost (sf_boost sf)) b of
        Inl e \<Rightarrow> Inl e
      | Inr (child, b') \<Rightarrow> default_children child_for boost rest (children @ [child]) b')"

definition build_leaf ::
  "view \<Rightarrow> planner_options \<Rightarrow> (string \<Rightarrow> double \<Rightarrow> builder \<Rightarrow> (planning_error, plan \<times> builder) result) \<Rightarrow>
   string option \<Rightarrow> double \<Rightarrow> builder \<Rightarrow> (planning_error, plan \<times> builder) result" where
  "build_leaf v opts child_for field boost b =
     (case field of
        Some f \<Rightarrow> child_for f boost b
      | None \<Rightarrow> (case default_children child_for boost (po_default_fields opts) [] b of
          Inl e \<Rightarrow> Inl e
        | Inr (children, b') \<Rightarrow> normalize_or v opts children b'))"

text \<open>One round of the loop of the range node over its two bounds.\<close>

definition normalize_bound :: "view \<Rightarrow> field_definition \<Rightarrow> string \<Rightarrow> string \<Rightarrow> (planning_error, string) result" where
  "normalize_bound v fd field bound =
     (if bound = ''*'' then Inr bound
      else case validate_value (v_schema v) field bound of
             Inl e \<Rightarrow> Inl (plan_error Invalid_range (se_message e))
           | Inr _ \<Rightarrow>
               if fd_type fd = FT_int64
               then Inr (to_string_int (snd (snd (from_chars_i64 bound))))
               else Inr bound)"

definition build_range ::
  "view \<Rightarrow> planner_options \<Rightarrow> string \<Rightarrow> string \<Rightarrow> string \<Rightarrow> bool \<Rightarrow> bool \<Rightarrow> builder \<Rightarrow>
   (planning_error, plan \<times> builder) result" where
  "build_range v opts field lower upper include_lower include_upper b =
     (case schema_find (v_schema v) field of
        None \<Rightarrow> Inl (plan_error Plan_unknown_field (''range references unknown field: '' @ field))
      | Some fd \<Rightarrow>
          if fd_type fd = FT_text then
            Inl (plan_error Incompatible_field_type ''text fields do not support range filters'')
          else (case normalize_bound v fd field lower of
            Inl e \<Rightarrow> Inl e
          | Inr lower' \<Rightarrow> (case normalize_bound v fd field upper of
              Inl e \<Rightarrow> Inl e
            | Inr upper' \<Rightarrow>
                make opts (PlannedRange (v_live_document_count v) field lower' upper'
                             include_lower include_upper) b)))"

definition invalid_tree :: planning_error where
  "invalid_tree = plan_error Invalid_query_tree ''query AST contains an invalid node''"

fun build ::
  "view \<Rightarrow> planner_options \<Rightarrow> query \<Rightarrow> string option \<Rightarrow> double \<Rightarrow> nat \<Rightarrow> builder \<Rightarrow>
   (planning_error, plan \<times> builder) result" where
  "build v opts q field boost depth b0 =
     (if depth > maximum_depth (po_limits opts) then
        Inl (plan_error Plan_resource_limit ''query planning depth limit exceeded'')
      else let b = b0\<lparr>source_nodes := source_nodes b0 + 1\<rparr>
      in if source_nodes b > maximum_nodes (po_limits opts) then
           Inl (plan_error Plan_resource_limit ''query AST node limit exceeded'')
         else case q of
           TermQuery _ s \<Rightarrow> build_leaf v opts (\<lambda>f. term_for_field v opts f s) field boost b
         | PhraseQuery _ s \<Rightarrow> build_leaf v opts (\<lambda>f. phrase_for_field v opts f s) field boost b
         | AndQuery _ l r \<Rightarrow> (case build v opts l field boost (depth + 1) b of
             Inl e \<Rightarrow> Inl e
           | Inr (lp, b1) \<Rightarrow> (case build v opts r field boost (depth + 1) b1 of
               Inl e \<Rightarrow> Inl e
             | Inr (rp, b2) \<Rightarrow> normalize_boolean v opts True [lp, rp] b2))
         | OrQuery _ l r \<Rightarrow> (case build v opts l field boost (depth + 1) b of
             Inl e \<Rightarrow> Inl e
           | Inr (lp, b1) \<Rightarrow> (case build v opts r field boost (depth + 1) b1 of
               Inl e \<Rightarrow> Inl e
             | Inr (rp, b2) \<Rightarrow> normalize_or v opts [lp, rp] b2))
         | NotQuery _ operand \<Rightarrow> (case build v opts operand field boost (depth + 1) b of
             Inl e \<Rightarrow> Inl e
           | Inr (p, b1) \<Rightarrow> make opts (PlannedNot (v_live_document_count v) p) b1)
         | FieldQuery _ f child \<Rightarrow>
             if f = [] then Inl invalid_tree
             else if schema_find (v_schema v) f = None then
               Inl (plan_error Plan_unknown_field (''query references unknown field: '' @ f))
             else build v opts child (Some f) boost (depth + 1) b
         | RangeFilter _ f lower upper il iu \<Rightarrow> build_range v opts f lower upper il iu b
         | BoostQuery _ child x \<Rightarrow>
             if \<not> isfinite x \<or> fp_le x fp_zero then Inl invalid_tree
             else build v opts child field (fmul boost x) (depth + 1) b
         | MatchAllQuery _ \<Rightarrow> make opts (PlannedMatchAll (v_live_document_count v)) b)"

declare build.simps [simp del]

definition plan_query :: "view \<Rightarrow> query \<Rightarrow> planner_options \<Rightarrow> (planning_error, plan) result" where
  "plan_query v q opts =
     (if po_default_fields opts = [] \<or> maximum_nodes (po_limits opts) = 0 \<or>
         maximum_analyzed_tokens (po_limits opts) = 0 \<or> maximum_depth (po_limits opts) = 0 then
        Inl (plan_error Invalid_options ''planner options contain a zero required limit'')
      else if \<exists>sf \<in> set (po_default_fields opts).
                sf_name sf = [] \<or> \<not> isfinite (sf_boost sf) \<or> fp_less (sf_boost sf) fp_zero then
        Inl (plan_error Invalid_options ''default fields require names and finite non-negative boosts'')
      else case build v opts q None fp_one 0
                  \<lparr>source_nodes = 0, planned_nodes = 0, analyzed_tokens = 0\<rparr> of
             Inl e \<Rightarrow> Inl e
           | Inr (p, _) \<Rightarrow> Inr p)"

end
