(* ===== verification/Ranking.thy ===== *)
theory Ranking
  imports Doubles Document "HOL-Library.Product_Lexorder"
begin

text \<open>
  Ranking: \<^verbatim>\<open>src/ranking/bm25.cpp\<close> and \<^verbatim>\<open>src/ranking/top_k.cpp\<close>. The scorer works on the bits of
  its doubles, with \<^verbatim>\<open>std::log1p\<close> as an argument. The collector keeps a bounded priority queue
  whose top is the worst kept document; it is shown to return the first \<open>k\<close> documents of the
  whole input in result order.
\<close>

section \<open>BM25\<close>

record bm25_parameters =
  bm_k1 :: double
  bm_b :: double

record bm25_term_statistics =
  ts_document_count :: u64
  ts_document_frequency :: u64
  ts_term_frequency :: u32
  ts_document_length :: u32
  ts_average_document_length :: double

datatype bm25_error = Invalid_parameters | Inconsistent_statistics | Bm25_invalid_boost

definition bm25_describe :: "bm25_error \<Rightarrow> string" where
  "bm25_describe e =
     (case e of
        Invalid_parameters \<Rightarrow> ''BM25 requires finite k1 > 0 and b in [0, 1]''
      | Inconsistent_statistics \<Rightarrow> ''BM25 corpus statistics are inconsistent''
      | Bm25_invalid_boost \<Rightarrow> ''BM25 boosts must be finite and non-negative'')"

definition bm25_create :: "bm25_parameters \<Rightarrow> (bm25_error, bm25_parameters) result" where
  "bm25_create parameters =
     (if \<not> isfinite (bm_k1 parameters) \<or> fp_le (bm_k1 parameters) fp_zero \<or>
         \<not> isfinite (bm_b parameters) \<or> fp_less (bm_b parameters) fp_zero \<or>
         fp_less fp_one (bm_b parameters)
      then Inl Invalid_parameters else Inr parameters)"

definition bm25_inconsistent :: "bm25_term_statistics \<Rightarrow> bool" where
  "bm25_inconsistent st \<longleftrightarrow>
     ts_document_frequency st > ts_document_count st \<or>
     \<not> isfinite (ts_average_document_length st) \<or>
     fp_less (ts_average_document_length st) fp_zero \<or>
     (ts_term_frequency st > 0 \<and>
      (ts_document_frequency st = 0 \<or> ts_document_count st = 0 \<or>
       fp_le (ts_average_document_length st) fp_zero \<or>
       ts_term_frequency st > ts_document_length st))"

text \<open>The last part of \<^verbatim>\<open>score\<close>: the formula, for statistics that passed the tests.\<close>

definition bm25_formula ::
  "(double \<Rightarrow> double) \<Rightarrow> bm25_parameters \<Rightarrow> bm25_term_statistics \<Rightarrow> double \<Rightarrow> double \<Rightarrow> double" where
  "bm25_formula log1p parameters st field_boost query_boost =
     (let document_count = fp_of_int (uint (ts_document_count st));
          document_frequency = fp_of_int (uint (ts_document_frequency st));
          term_frequency = fp_of_int (uint (ts_term_frequency st));
          document_length = fp_of_int (uint (ts_document_length st));
          idf = log1p (fdiv (fadd (fsub document_count document_frequency) fp_half)
                            (fadd document_frequency fp_half));
          length_ratio = fdiv document_length (ts_average_document_length st);
          normalization = fmul (bm_k1 parameters)
            (fadd (fsub fp_one (bm_b parameters)) (fmul (bm_b parameters) length_ratio));
          frequency_weight = fdiv (fmul term_frequency (fadd (bm_k1 parameters) fp_one))
            (fadd term_frequency normalization)
      in fmul (fmul (fmul idf frequency_weight) field_boost) query_boost)"

definition bm25_score ::
  "(double \<Rightarrow> double) \<Rightarrow> bm25_parameters \<Rightarrow> bm25_term_statistics \<Rightarrow> double \<Rightarrow> double \<Rightarrow>
   (bm25_error, double) result" where
  "bm25_score log1p parameters st field_boost query_boost =
     (if \<not> isfinite field_boost \<or> fp_less field_boost fp_zero \<or> \<not> isfinite query_boost \<or>
         fp_less query_boost fp_zero
      then Inl Bm25_invalid_boost
      else if bm25_inconsistent st then Inl Inconsistent_statistics
      else if ts_term_frequency st = 0 \<or> ts_document_frequency st = 0 \<or> ts_document_count st = 0 \<or>
              fp_eq field_boost fp_zero \<or> fp_eq query_boost fp_zero
      then Inr fp_zero
      else Inr (bm25_formula log1p parameters st field_boost query_boost))"

section \<open>Top-k collection\<close>

record scored_document =
  sd_id :: document_id
  sd_score :: double

definition better_score :: "scored_document \<Rightarrow> scored_document \<Rightarrow> bool" where
  "better_score lhs rhs =
     (if \<not> fp_eq (sd_score lhs) (sd_score rhs) then fp_less (sd_score rhs) (sd_score lhs)
      else sd_id lhs < sd_id rhs)"

text \<open>
  \<^verbatim>\<open>std::priority_queue\<close> with the comparison \<^verbatim>\<open>BetterScore\<close>: \<^verbatim>\<open>top\<close> is an element that no other
  one is worse than. The queue is modelled by the list of its elements, best first, so that
  the top is the last; \<^verbatim>\<open>push\<close> inserts before the first element that is not better.
\<close>

fun pq_push :: "scored_document \<Rightarrow> scored_document list \<Rightarrow> scored_document list" where
  "pq_push x [] = [x]"
| "pq_push x (y # ys) = (if better_score y x then y # pq_push x ys else x # y # ys)"

record top_k_collector =
  tk_capacity :: nat
  tk_heap :: "scored_document list"

definition top_k_new :: "nat \<Rightarrow> top_k_collector" where
  "top_k_new capacity = \<lparr>tk_capacity = capacity, tk_heap = []\<rparr>"

definition collect :: "scored_document \<Rightarrow> top_k_collector \<Rightarrow> top_k_collector \<times> bool" where
  "collect candidate c =
     (if \<not> isfinite (sd_score candidate) then (c, False)
      else if tk_capacity c = 0 then (c, True)
      else if length (tk_heap c) < tk_capacity c then
        (c\<lparr>tk_heap := pq_push candidate (tk_heap c)\<rparr>, True)
      else if better_score candidate (last (tk_heap c)) then
        (c\<lparr>tk_heap := pq_push candidate (butlast (tk_heap c))\<rparr>, True)
      else (c, True))"

text \<open>
  \<^verbatim>\<open>results\<close> pops every element off a copy and sorts them with \<^verbatim>\<open>BetterScore\<close>; insertion sort
  stands for \<^verbatim>\<open>std::ranges::sort\<close>.
\<close>

definition top_k_results :: "top_k_collector \<Rightarrow> scored_document list" where
  "top_k_results c = foldr pq_push (rev (tk_heap c)) []"

section \<open>The result order\<close>

definition rank :: "scored_document \<Rightarrow> int \<times> string" where
  "rank x = (- fp_key (sd_score x), sd_id x)"

lemma better_score_rank:
  "isfinite (sd_score x) \<Longrightarrow> isfinite (sd_score y) \<Longrightarrow> better_score x y \<longleftrightarrow> rank x < rank y"
  by (auto simp: better_score_def rank_def fp_eq_key fp_less_key)

lemma pq_push_insort:
  assumes "isfinite (sd_score x)" and "\<forall>y \<in> set ys. isfinite (sd_score y)"
  shows "pq_push x ys = insort_key rank x ys"
  using assms
proof (induction ys)
  case (Cons y ys)
  then show ?case
    by (auto simp: better_score_rank not_less [symmetric])
qed simp

lemma insort_key_sort: "insort_key f x (sort_key f xs) = sort_key f (x # xs)"
  by simp

lemma top_k_results_sorted:
  assumes "\<forall>y \<in> set (tk_heap c). isfinite (sd_score y)"
  shows "top_k_results c = sort_key rank (rev (tk_heap c))"
proof -
  have "foldr pq_push xs [] = sort_key rank xs" if "\<forall>y \<in> set xs. isfinite (sd_score y)" for xs
    using that
  proof (induction xs)
    case (Cons x xs)
    then show ?case by (simp add: pq_push_insort)
  qed simp
  with assms show ?thesis by (simp add: top_k_results_def)
qed

text \<open>Keeping the first \<open>k\<close> elements of a sorted list while one more is inserted.\<close>

lemma take_insort_full:
  assumes "sorted (map f ys)" and "0 < k" and "k \<le> length ys" and "f x \<notin> f ` set ys"
  shows "take k (insort_key f x ys) =
    (if f x < f (last (take k ys)) then insort_key f x (butlast (take k ys)) else take k ys)"
  using assms
proof (induction ys arbitrary: k)
  case (Cons y ys)
  have ne: "f x \<noteq> f y" using Cons.prems by auto
  show ?case
  proof (cases "k = 1")
    case True
    with ne show ?thesis by (cases ys) auto
  next
    case False
    then obtain j where k: "k = Suc j" "0 < j" using Cons.prems(2) by (cases k) auto
    have ys: "sorted (map f ys)" "j \<le> length ys" "f x \<notin> f ` set ys" and le: "\<forall>z \<in> set ys. f y \<le> f z"
      using Cons.prems k by auto
    have nonempty: "take j ys \<noteq> []" using k(2) ys(2) by auto
    have last: "f y \<le> f (last (take j ys))"
      using le last_in_set [OF nonempty] in_set_takeD by metis
    show ?thesis
    proof (cases "f x \<le> f y")
      case True
      with ne have "f x < f y" by simp
      moreover have "butlast (take j ys) = take (j - 1) ys" "take j (y # ys) = y # take (j - 1) ys"
        using k(2) ys(2) by (simp_all add: butlast_take take_Cons')
      ultimately show ?thesis
        using last nonempty k(1) by auto
    next
      case False
      then show ?thesis
        using Cons.IH [OF ys(1) k(2) ys(2,3)] nonempty k by (auto simp: not_le)
    qed
  qed
qed simp

section \<open>What the collector keeps\<close>

definition collect_all :: "scored_document list \<Rightarrow> top_k_collector \<Rightarrow> top_k_collector" where
  "collect_all xs c = fold (\<lambda>x c. fst (collect x c)) xs c"

lemma rank_inj: "distinct (map sd_id xs) \<Longrightarrow> inj_on rank (set xs)"
  by (auto simp: inj_on_def rank_def distinct_map)

lemma collect_heap:
  assumes "tk_heap c = take (tk_capacity c) (sort_key rank xs)"
    and "\<forall>y \<in> set (x # xs). isfinite (sd_score y)" and "rank x \<notin> rank ` set xs"
  shows "snd (collect x c)" and "tk_capacity (fst (collect x c)) = tk_capacity c"
    and "tk_heap (fst (collect x c)) = take (tk_capacity c) (sort_key rank (x # xs))"
proof -
  let ?ys = "sort_key rank xs" and ?k = "tk_capacity c"
  show "snd (collect x c)" "tk_capacity (fst (collect x c)) = ?k"
    using assms(2) by (simp_all add: collect_def)
  have fin: "\<forall>y \<in> set (take ?k ?ys). isfinite (sd_score y)"
    using assms(2) by (auto dest: in_set_takeD)
  have push: "pq_push x (take ?k ?ys) = insort_key rank x (take ?k ?ys)"
      "pq_push x (butlast (take ?k ?ys)) = insort_key rank x (butlast (take ?k ?ys))"
    using fin assms(2) by (auto intro!: pq_push_insort dest: in_set_butlastD)
  show "tk_heap (fst (collect x c)) = take ?k (sort_key rank (x # xs))"
  proof (cases "length xs < ?k")
    case True
    then show ?thesis
      using assms push by (simp add: collect_def)
  next
    case False
    have "better_score x (last (take ?k ?ys)) \<longleftrightarrow> rank x < rank (last (take ?k ?ys))" if "?k \<noteq> 0"
    proof (rule better_score_rank)
      have "length (take ?k ?ys) = ?k" using False by simp
      with that have "take ?k ?ys \<noteq> []" by force
      then show "isfinite (sd_score (last (take ?k ?ys)))" using fin last_in_set by blast
    qed (use assms(2) in simp)
    moreover have "take ?k (insort_key rank x ?ys) =
        (if rank x < rank (last (take ?k ?ys)) then insort_key rank x (butlast (take ?k ?ys)) else take ?k ?ys)"
      if "?k \<noteq> 0"
      using that False assms(3) by (intro take_insort_full) auto
    ultimately show ?thesis
      using assms(1,2) False push by (auto simp: collect_def)
  qed
qed

lemma collect_all_heap:
  assumes "\<forall>y \<in> set xs. isfinite (sd_score y)" and "distinct (map sd_id xs)"
  shows "tk_capacity (collect_all xs (top_k_new k)) = k \<and>
    tk_heap (collect_all xs (top_k_new k)) = take k (sort_key rank (rev xs))"
  using assms
proof (induction xs rule: rev_induct)
  case (snoc x xs)
  let ?c = "collect_all xs (top_k_new k)"
  have "rank x \<notin> rank ` set (rev xs)"
    using snoc.prems(2) by (auto simp: rank_def)
  with snoc collect_heap [of ?c "rev xs" x] show ?case
    by (simp add: collect_all_def)
qed (simp add: collect_all_def top_k_new_def)

lemma collector_take:
  assumes "\<forall>y \<in> set xs. isfinite (sd_score y)" and "distinct (map sd_id xs)"
  shows "top_k_results (collect_all xs (top_k_new k)) = take k (sort_key rank xs)"
proof -
  let ?c = "collect_all xs (top_k_new k)"
  have heap: "tk_heap ?c = take k (sort_key rank (rev xs))"
    using collect_all_heap [OF assms] by simp
  have inj: "inj_on rank (set xs)" and dis: "distinct xs"
    using assms(2) rank_inj by (auto simp: distinct_map)
  have same: "sort_key rank (rev xs) = sort_key rank xs"
    by (rule ssorted_by_eqI [of rank]) (simp_all add: ssorted_by_sort_key inj dis)
  have "\<forall>y \<in> set (tk_heap ?c). isfinite (sd_score y)"
    using assms(1) by (auto simp: heap dest: in_set_takeD)
  then have "top_k_results ?c = sort_key rank (rev (take k (sort_key rank xs)))"
    by (simp add: top_k_results_sorted heap same)
  also have "\<dots> = take k (sort_key rank xs)"
  proof (rule ssorted_by_eqI [of rank])
    have s: "ssorted_by rank (sort_key rank xs)"
      by (simp add: ssorted_by_sort_key inj dis)
    then show t: "ssorted_by rank (take k (sort_key rank xs))"
      by (metis append_take_drop_id ssorted_by_append)
    show "ssorted_by rank (sort_key rank (rev (take k (sort_key rank xs))))"
      using ssorted_by_inj [OF t] ssorted_by_distinct [OF t] by (simp add: ssorted_by_sort_key)
  qed simp
  finally show ?thesis .
qed

section \<open>Properties\<close>

text \<open>
  C15: the bounded collector agrees with sorting everything. After any candidates with finite scores
  and distinct identifiers, in any order, \<^verbatim>\<open>results\<close> is the first \<open>k\<close> of all of them by decreasing
  score and, for equal scores, increasing identifier, on the IEEE bits of the scores.
\<close>

theorem top_k_correct:
  assumes "\<forall>y \<in> set xs. isfinite (sd_score y)" and "distinct (map sd_id xs)"
  shows "top_k_results (collect_all xs (top_k_new k)) = take k (sort_key rank xs)"
  using assms by (rule collector_take)

theorem top_k_correct_witness:
  "top_k_results (collect_all [\<lparr>sd_id = ''a'', sd_score = fp_half\<rparr>, \<lparr>sd_id = ''b'', sd_score = fp_one\<rparr>]
     (top_k_new 1)) = [\<lparr>sd_id = ''b'', sd_score = fp_one\<rparr>]"
  by (subst top_k_correct) (simp_all add: fp_eval_defs rank_def)

end
