(* ===== verification/Executor.thy ===== *)
theory Executor
  imports Planner Ranking
begin

text \<open>
  The query executor: \<^verbatim>\<open>src/query/executor.cpp\<close>. A plan is evaluated to a list of candidates in
  increasing order of internal identifiers, by merging the lists of its children; the
  candidates are then ranked. Evaluation only reads the index through its view.
\<close>

section \<open>Candidates and merges\<close>

record candidate =
  c_doc :: internal_document_id
  c_score :: double

fun intersect :: "candidate list \<Rightarrow> candidate list \<Rightarrow> candidate list" where
  "intersect (l # left) (r # right) =
     (if c_doc l < c_doc r then intersect left (r # right)
      else if c_doc r < c_doc l then intersect (l # left) right
      else \<lparr>c_doc = c_doc l, c_score = fadd (c_score l) (c_score r)\<rparr> # intersect left right)"
| "intersect _ _ = []"

fun unite :: "candidate list \<Rightarrow> candidate list \<Rightarrow> candidate list" where
  "unite (l # left) (r # right) =
     (if c_doc l < c_doc r then l # unite left (r # right)
      else if c_doc r < c_doc l then r # unite (l # left) right
      else \<lparr>c_doc = c_doc l, c_score = fadd (c_score l) (c_score r)\<rparr> # unite left right)"
| "unite left [] = left"
| "unite [] right = right"

fun exclude :: "candidate list \<Rightarrow> candidate list \<Rightarrow> candidate list" where
  "exclude [] excluded = []"
| "exclude (c # universe) excluded =
     (let rest = dropWhile (\<lambda>x. c_doc x < c_doc c) excluded
      in (if rest = [] \<or> c_doc c < c_doc (hd rest) then [c] else []) @ exclude universe rest)"

section \<open>Errors\<close>

datatype execution_error_code =
    Ex_invalid_options | Ex_planning_error | Ex_invalid_query_tree | Ex_unknown_field
  | Ex_incompatible_field_type | Ex_ranking_error | Ex_nesting_too_deep

record execution_error =
  ee_code :: execution_error_code
  ee_message :: string

definition ex_error :: "execution_error_code \<Rightarrow> string \<Rightarrow> execution_error" where
  "ex_error code message = \<lparr>ee_code = code, ee_message = message\<rparr>"

definition planning_error_of :: "planning_error \<Rightarrow> execution_error" where
  "planning_error_of e =
     ex_error (case ple_code e of
         Invalid_options \<Rightarrow> Ex_invalid_options
       | Invalid_query_tree \<Rightarrow> Ex_invalid_query_tree
       | Plan_unknown_field \<Rightarrow> Ex_unknown_field
       | Incompatible_field_type \<Rightarrow> Ex_incompatible_field_type
       | Invalid_range \<Rightarrow> Ex_incompatible_field_type
       | Plan_resource_limit \<Rightarrow> Ex_planning_error
       | Plan_analysis_failed \<Rightarrow> Ex_planning_error) (ple_message e)"

section \<open>Terms\<close>

text \<open>The scorer is \<^verbatim>\<open>std::log1p\<close> with the parameters that \<^verbatim>\<open>BM25Scorer::create\<close> accepted.\<close>

record scorer =
  sc_log1p :: "double \<Rightarrow> double"
  sc_parameters :: bm25_parameters

definition score_posting ::
  "view \<Rightarrow> scorer \<Rightarrow> string \<Rightarrow> term_entry \<Rightarrow> posting \<Rightarrow> double \<Rightarrow> (execution_error, double) result" where
  "score_posting v sc field entry p boost =
     (case v_document_internal v (p_doc p) of
        None \<Rightarrow> Inl (ex_error Ex_invalid_query_tree ''unknown posting document'')
      | Some r \<Rightarrow> (case map_of (dr_field_lengths r) field of
          None \<Rightarrow> Inl (ex_error Ex_invalid_query_tree ''missing field length'')
        | Some len \<Rightarrow>
            (let stats = v_field_statistics v field
             in case bm25_score (sc_log1p sc) (sc_parameters sc)
                       \<lparr>ts_document_count = fs_count stats, ts_document_frequency = ucast (te_df entry),
                        ts_term_frequency = p_tf p, ts_document_length = len,
                        ts_average_document_length = fs_average stats\<rparr> boost fp_one of
                  Inl e \<Rightarrow> Inl (ex_error Ex_ranking_error (bm25_describe e))
                | Inr score \<Rightarrow> Inr score)))"

fun score_postings ::
  "view \<Rightarrow> scorer \<Rightarrow> string \<Rightarrow> term_entry \<Rightarrow> double \<Rightarrow> posting list \<Rightarrow> candidate list \<Rightarrow>
   (execution_error, candidate list) result" where
  "score_postings v sc field entry boost [] acc = Inr acc"
| "score_postings v sc field entry boost (p # ps) acc =
     (case score_posting v sc field entry p boost of
        Inl e \<Rightarrow> Inl e
      | Inr score \<Rightarrow>
          score_postings v sc field entry boost ps (acc @ [\<lparr>c_doc = p_doc p, c_score = score\<rparr>]))"

definition score_term ::
  "view \<Rightarrow> scorer \<Rightarrow> string \<Rightarrow> string \<Rightarrow> double \<Rightarrow> (execution_error, candidate list) result" where
  "score_term v sc field trm boost =
     (case v_lookup v field trm of
        None \<Rightarrow> Inr []
      | Some entry \<Rightarrow> score_postings v sc field entry boost (te_postings entry) [])"

section \<open>Phrases\<close>

definition posting_for :: "term_entry \<Rightarrow> internal_document_id \<Rightarrow> posting option" where
  "posting_for entry i =
     (case lower_bound p_doc i (te_postings entry) of
        [] \<Rightarrow> None
      | p # _ \<Rightarrow> if p_doc p \<noteq> i then None else Some p)"

text \<open>\<^verbatim>\<open>std::ranges::binary_search\<close> on a sorted range.\<close>

definition binary_search :: "'a::linorder list \<Rightarrow> 'a \<Rightarrow> bool" where
  "binary_search xs x = (case lower_bound (\<lambda>y. y) x xs of [] \<Rightarrow> False | y # _ \<Rightarrow> \<not> x < y)"

definition offsets_match :: "u32 \<Rightarrow> u32 \<Rightarrow> (posting \<times> token) list \<Rightarrow> bool" where
  "offsets_match base front rest \<longleftrightarrow>
     list_all (\<lambda>(p, tok). let offset = tok_position tok - front
        in \<not> (base > - 1 - offset \<or> \<not> binary_search (p_positions p) (base + offset))) rest"

definition positions_match :: "posting list \<Rightarrow> token list \<Rightarrow> bool" where
  "positions_match postings tokens =
     (case (postings, tokens) of
        (p # ps, tok # toks) \<Rightarrow>
          list_ex (\<lambda>base. offsets_match base (tok_position tok) (zip ps toks)) (p_positions p)
      | _ \<Rightarrow> False)"

fun lookup_all :: "view \<Rightarrow> string \<Rightarrow> token list \<Rightarrow> term_entry list option" where
  "lookup_all v field [] = Some []"
| "lookup_all v field (tok # rest) =
     (case v_lookup v field (tok_term tok) of
        None \<Rightarrow> None
      | Some entry \<Rightarrow> map_option (\<lambda>es. entry # es) (lookup_all v field rest))"

text \<open>The index of the first entry with the fewest postings.\<close>

fun anchor_from :: "term_entry list \<Rightarrow> nat \<Rightarrow> nat \<Rightarrow> nat \<Rightarrow> nat" where
  "anchor_from [] i anchor best = anchor"
| "anchor_from (e # es) i anchor best =
     (if length (te_postings e) < best then anchor_from es (i + 1) i (length (te_postings e))
      else anchor_from es (i + 1) anchor best)"

definition anchor_of :: "term_entry list \<Rightarrow> nat" where
  "anchor_of entries = (case entries of [] \<Rightarrow> 0 | e # es \<Rightarrow> anchor_from es 1 0 (length (te_postings e)))"

text \<open>The postings of all entries for the document of \<open>p\<close>, or \<open>None\<close> when one has none.\<close>

fun gather :: "term_entry list \<Rightarrow> nat \<Rightarrow> nat \<Rightarrow> posting \<Rightarrow> posting list option" where
  "gather [] i anchor p = Some []"
| "gather (e # es) i anchor p =
     (case (if i = anchor then Some p else posting_for e (p_doc p)) of
        None \<Rightarrow> None
      | Some q \<Rightarrow> map_option (\<lambda>qs. q # qs) (gather es (i + 1) anchor p))"

fun phrase_score ::
  "view \<Rightarrow> scorer \<Rightarrow> string \<Rightarrow> double \<Rightarrow> (term_entry \<times> posting) list \<Rightarrow> double \<Rightarrow> (execution_error, double) result" where
  "phrase_score v sc field boost [] score = Inr score"
| "phrase_score v sc field boost ((entry, p) # rest) score =
     (case score_posting v sc field entry p boost of
        Inl e \<Rightarrow> Inl e
      | Inr s \<Rightarrow> phrase_score v sc field boost rest (fadd score s))"

fun phrase_candidates ::
  "view \<Rightarrow> scorer \<Rightarrow> string \<Rightarrow> token list \<Rightarrow> double \<Rightarrow> term_entry list \<Rightarrow> posting list \<Rightarrow> candidate list \<Rightarrow>
   (execution_error, candidate list) result" where
  "phrase_candidates v sc field tokens boost entries [] acc = Inr acc"
| "phrase_candidates v sc field tokens boost entries (p # ps) acc =
     (case gather entries 0 (anchor_of entries) p of
        None \<Rightarrow> phrase_candidates v sc field tokens boost entries ps acc
      | Some postings \<Rightarrow>
          if \<not> positions_match postings tokens
          then phrase_candidates v sc field tokens boost entries ps acc
          else (case phrase_score v sc field boost (zip entries postings) fp_zero of
                  Inl e \<Rightarrow> Inl e
                | Inr score \<Rightarrow> phrase_candidates v sc field tokens boost entries ps
                                 (acc @ [\<lparr>c_doc = p_doc p, c_score = score\<rparr>])))"

definition evaluate_phrase ::
  "view \<Rightarrow> scorer \<Rightarrow> string \<Rightarrow> token list \<Rightarrow> double \<Rightarrow> (execution_error, candidate list) result" where
  "evaluate_phrase v sc field tokens boost =
     (if tokens = [] then Inr []
      else case lookup_all v field tokens of
             None \<Rightarrow> Inr []
           | Some entries \<Rightarrow>
               (case phrase_candidates v sc field tokens boost entries
                       (te_postings (entries ! anchor_of entries)) [] of
                  Inl e \<Rightarrow> Inl e
                | Inr cs \<Rightarrow> Inr (sort_key c_doc cs)))"

section \<open>Ranges and the universe\<close>

definition universe :: "view \<Rightarrow> candidate list" where
  "universe v = map (\<lambda>i. \<lparr>c_doc = i, c_score = fp_zero\<rparr>) (v_live_document_ids v)"

definition doc_value :: "document \<Rightarrow> string \<Rightarrow> string option" where
  "doc_value d field =
     (case map_of (doc_fields d) field of
        Some value \<Rightarrow> Some value
      | None \<Rightarrow> map_of (doc_metadata d) field)"

definition field_value :: "document_record \<Rightarrow> string \<Rightarrow> string option" where
  "field_value r field = doc_value (dr_document r) field"

definition int_bound_ok :: "int \<Rightarrow> string \<Rightarrow> bool \<Rightarrow> bool \<Rightarrow> bool" where
  "int_bound_ok actual bound is_lower inclusive =
     (if bound = ''*'' then True
      else let expected = (case from_chars_i64 bound of (ec, _, x) \<Rightarrow> if ec = Errc_ok then x else 0)
           in if is_lower then (if inclusive then actual \<ge> expected else actual > expected)
              else (if inclusive then actual \<le> expected else actual < expected))"

definition range_matches :: "field_definition \<Rightarrow> string \<Rightarrow> string \<Rightarrow> string \<Rightarrow> bool \<Rightarrow> bool \<Rightarrow> bool" where
  "range_matches fd value lower upper include_lower include_upper =
     (if fd_type fd = FT_int64 then
        (case from_chars_i64 value of (ec, _, actual) \<Rightarrow>
           if ec \<noteq> Errc_ok then False
           else int_bound_ok actual lower True include_lower \<and>
                int_bound_ok actual upper False include_upper)
      else
        (lower = ''*'' \<or> (if include_lower then value \<ge> lower else value > lower)) \<and>
        (upper = ''*'' \<or> (if include_upper then value \<le> upper else value < upper)))"

definition evaluate_range ::
  "view \<Rightarrow> string \<Rightarrow> string \<Rightarrow> string \<Rightarrow> bool \<Rightarrow> bool \<Rightarrow> (execution_error, candidate list) result" where
  "evaluate_range v field lower upper include_lower include_upper =
     (case schema_find (v_schema v) field of
        None \<Rightarrow> Inl (ex_error Ex_invalid_query_tree ''unknown planned field'')
      | Some fd \<Rightarrow>
          Inr (filter (\<lambda>c. case v_document_internal v (c_doc c) of
                 None \<Rightarrow> False
               | Some r \<Rightarrow> (case field_value r field of
                   None \<Rightarrow> False
                 | Some value \<Rightarrow> range_matches fd value lower upper include_lower include_upper))
               (universe v)))"

section \<open>Evaluation\<close>

fun
  evaluate :: "view \<Rightarrow> scorer \<Rightarrow> plan \<Rightarrow> (execution_error, candidate list) result" and
  evaluate_and :: "view \<Rightarrow> scorer \<Rightarrow> plan list \<Rightarrow> candidate list \<Rightarrow> (execution_error, candidate list) result" and
  evaluate_or :: "view \<Rightarrow> scorer \<Rightarrow> plan list \<Rightarrow> candidate list \<Rightarrow> (execution_error, candidate list) result"
where
  "evaluate v sc (PlannedTerm _ field trm boost) = score_term v sc field trm boost"
| "evaluate v sc (PlannedPhrase _ field tokens boost) = evaluate_phrase v sc field tokens boost"
| "evaluate v sc (PlannedAnd _ children) =
     (case children of
        [] \<Rightarrow> Inr []
      | first # rest \<Rightarrow> (case evaluate v sc first of
          Inl e \<Rightarrow> Inl e
        | Inr cs \<Rightarrow> evaluate_and v sc rest cs))"
| "evaluate v sc (PlannedOr _ children) = evaluate_or v sc children []"
| "evaluate v sc (PlannedNot _ operand) =
     (case evaluate v sc operand of
        Inl e \<Rightarrow> Inl e
      | Inr cs \<Rightarrow> Inr (exclude (universe v) cs))"
| "evaluate v sc (PlannedRange _ field lower upper il iu) = evaluate_range v field lower upper il iu"
| "evaluate v sc (PlannedMatchAll _) = Inr (universe v)"
| "evaluate_and v sc [] acc = Inr acc"
| "evaluate_and v sc (child # rest) acc =
     (case evaluate v sc child of
        Inl e \<Rightarrow> Inl e
      | Inr cs \<Rightarrow>
          (let acc' = intersect acc cs in if acc' = [] then Inr [] else evaluate_and v sc rest acc'))"
| "evaluate_or v sc [] acc = Inr acc"
| "evaluate_or v sc (child # rest) acc =
     (case evaluate v sc child of
        Inl e \<Rightarrow> Inl e
      | Inr cs \<Rightarrow> evaluate_or v sc rest (unite acc cs))"

section \<open>Search\<close>

record search_result =
  sr_hits :: "scored_document list"
  sr_total_hits :: nat

fun collect_candidates ::
  "view \<Rightarrow> candidate list \<Rightarrow> top_k_collector \<Rightarrow> (execution_error, top_k_collector) result" where
  "collect_candidates v [] c = Inr c"
| "collect_candidates v (cand # rest) c =
     (case v_external_id v (c_doc cand) of
        None \<Rightarrow> Inl (ex_error Ex_invalid_query_tree ''missing external ID'')
      | Some did \<Rightarrow>
          (case collect \<lparr>sd_id = did, sd_score = c_score cand\<rparr> c of
             (c', ok) \<Rightarrow>
               if \<not> ok then Inl (ex_error Ex_ranking_error ''non-finite score'')
               else collect_candidates v rest c'))"

definition search_plan ::
  "view \<Rightarrow> (double \<Rightarrow> double) \<Rightarrow> bm25_parameters \<Rightarrow> plan \<Rightarrow> nat \<Rightarrow> (execution_error, search_result) result" where
  "search_plan v log1p parameters p top_k =
     (case bm25_create parameters of
        Inl e \<Rightarrow> Inl (ex_error Ex_invalid_options (bm25_describe e))
      | Inr params \<Rightarrow>
          (case evaluate v \<lparr>sc_log1p = log1p, sc_parameters = params\<rparr> p of
             Inl e \<Rightarrow> Inl e
           | Inr cs \<Rightarrow> (case collect_candidates v cs (top_k_new top_k) of
               Inl e \<Rightarrow> Inl e
             | Inr c \<Rightarrow> Inr \<lparr>sr_hits = top_k_results c, sr_total_hits = length cs\<rparr>)))"

record search_options =
  so_top_k :: nat
  so_default_fields :: "search_field list"
  so_planner_limits :: planner_limits

definition search ::
  "view \<Rightarrow> (double \<Rightarrow> double) \<Rightarrow> bm25_parameters \<Rightarrow> query \<Rightarrow> search_options \<Rightarrow> (execution_error, search_result) result" where
  "search v log1p parameters q opts =
     (case plan_query v q \<lparr>po_default_fields = so_default_fields opts, po_limits = so_planner_limits opts\<rparr> of
        Inl e \<Rightarrow> Inl (planning_error_of e)
      | Inr p \<Rightarrow> search_plan v log1p parameters p (so_top_k opts))"

section \<open>Explanations\<close>

text \<open>
  \<^verbatim>\<open>QueryExecutor::explain\<close> evaluates every node of the plan again and reports whether the
  document is among its candidates. A phrase is explained by the term nodes of its tokens,
  which are built for the explanation only.
\<close>

datatype score_explanation =
  ScoreExplanation (description: string) (node_type: string) (se_field: string) (se_term: string)
    (matched: bool) (se_score: double) (corpus_documents: u64) (document_frequency: u64)
    (se_term_frequency: u32) (document_length: u32) (average_field_length: double) (se_boost: double)
    (se_children: "score_explanation list")

definition found_score :: "internal_document_id \<Rightarrow> candidate list \<Rightarrow> bool \<times> double" where
  "found_score i cs =
     (case lower_bound c_doc i cs of
        [] \<Rightarrow> (False, fp_zero)
      | c # _ \<Rightarrow> if c_doc c = i then (True, c_score c) else (False, fp_zero))"

definition explain_term ::
  "view \<Rightarrow> scorer \<Rightarrow> internal_document_id \<Rightarrow> nat \<Rightarrow> string \<Rightarrow> string \<Rightarrow> double \<Rightarrow>
   (execution_error, score_explanation) result" where
  "explain_term v sc i estimate field trm boost =
     (case evaluate v sc (PlannedTerm estimate field trm boost) of
        Inl e \<Rightarrow> Inl e
      | Inr cs \<Rightarrow>
          (let stats = v_field_statistics v field;
               entry = v_lookup v field trm
           in Inr (ScoreExplanation (canonical (PlannedTerm estimate field trm boost)) ''term'' field trm
                (fst (found_score i cs)) (snd (found_score i cs)) (fs_count stats)
                (case entry of None \<Rightarrow> 0 | Some e \<Rightarrow> ucast (te_df e))
                (case entry of None \<Rightarrow> 0
                 | Some e \<Rightarrow> (case posting_for e i of None \<Rightarrow> 0 | Some p \<Rightarrow> p_tf p))
                (case v_document_internal v i of None \<Rightarrow> 0
                 | Some r \<Rightarrow> (case map_of (dr_field_lengths r) field of None \<Rightarrow> 0 | Some len \<Rightarrow> len))
                (fs_average stats) boost [])))"

fun explain_tokens ::
  "view \<Rightarrow> scorer \<Rightarrow> internal_document_id \<Rightarrow> string \<Rightarrow> double \<Rightarrow> token list \<Rightarrow>
   (execution_error, score_explanation list) result" where
  "explain_tokens v sc i field boost [] = Inr []"
| "explain_tokens v sc i field boost (tok # rest) =
     (case explain_term v sc i 0 field (tok_term tok) boost of
        Inl e \<Rightarrow> Inl e
      | Inr x \<Rightarrow> (case explain_tokens v sc i field boost rest of
          Inl e \<Rightarrow> Inl e
        | Inr xs \<Rightarrow> Inr (x # xs)))"

definition node_explanation ::
  "plan \<Rightarrow> string \<Rightarrow> string \<Rightarrow> double \<Rightarrow> internal_document_id \<Rightarrow> candidate list \<Rightarrow> score_explanation list \<Rightarrow>
   score_explanation" where
  "node_explanation p kind field boost i cs children =
     ScoreExplanation (canonical p) kind field [] (fst (found_score i cs)) (snd (found_score i cs))
       0 0 0 0 fp_zero boost children"

fun
  explain_node :: "view \<Rightarrow> scorer \<Rightarrow> internal_document_id \<Rightarrow> plan \<Rightarrow> (execution_error, score_explanation) result" and
  explain_children :: "view \<Rightarrow> scorer \<Rightarrow> internal_document_id \<Rightarrow> plan list \<Rightarrow> (execution_error, score_explanation list) result"
where
  "explain_node v sc i p =
     (case evaluate v sc p of
        Inl e \<Rightarrow> Inl e
      | Inr cs \<Rightarrow>
          (case p of
             PlannedTerm estimate field trm boost \<Rightarrow> explain_term v sc i estimate field trm boost
           | PlannedPhrase _ field tokens boost \<Rightarrow>
               map_sum id (node_explanation p ''phrase'' field boost i cs) (explain_tokens v sc i field boost tokens)
           | PlannedAnd _ children \<Rightarrow>
               map_sum id (node_explanation p ''and'' [] fp_one i cs) (explain_children v sc i children)
           | PlannedOr _ children \<Rightarrow>
               map_sum id (node_explanation p ''or'' [] fp_one i cs) (explain_children v sc i children)
           | PlannedNot _ operand \<Rightarrow>
               map_sum id (\<lambda>x. node_explanation p ''not'' [] fp_one i cs [x]) (explain_node v sc i operand)
           | PlannedRange _ field _ _ _ _ \<Rightarrow> Inr (node_explanation p ''range'' field fp_one i cs [])
           | PlannedMatchAll _ \<Rightarrow> Inr (node_explanation p ''match_all'' [] fp_one i cs [])))"
| "explain_children v sc i [] = Inr []"
| "explain_children v sc i (p # rest) =
     (case explain_node v sc i p of
        Inl e \<Rightarrow> Inl e
      | Inr x \<Rightarrow> map_sum id (\<lambda>xs. x # xs) (explain_children v sc i rest))"

declare explain_node.simps [simp del]

definition explain ::
  "view \<Rightarrow> (double \<Rightarrow> double) \<Rightarrow> bm25_parameters \<Rightarrow> plan \<Rightarrow> document_id \<Rightarrow>
   (execution_error, score_explanation) result" where
  "explain v log1p parameters p did =
     (case bm25_create parameters of
        Inl e \<Rightarrow> Inl (ex_error Ex_invalid_options (bm25_describe e))
      | Inr params \<Rightarrow> (case v_internal_id v did of
          None \<Rightarrow> Inl (ex_error Ex_invalid_query_tree ''cannot explain an unknown document'')
        | Some i \<Rightarrow> explain_node v \<lparr>sc_log1p = log1p, sc_parameters = params\<rparr> i p))"

end
