(* ===== verification/Executor_Proofs.thy ===== *)
theory Executor_Proofs
  imports Executor
begin

text \<open>
  The executor computes what a plan means. \<open>plan_matches\<close> says when a document satisfies a plan,
  from the document alone; the candidates of a plan are shown to be the live documents that
  satisfy it, for every provider of a view, and ranking to return the best of them.
\<close>

section \<open>Merges of candidate lists\<close>

definition answers :: "candidate list \<Rightarrow> internal_document_id set \<Rightarrow> bool" where
  "answers cs S \<longleftrightarrow> ssorted_by c_doc cs \<and> c_doc ` set cs = S"

lemma intersect_subset:
  "c \<in> set (intersect l r) \<Longrightarrow> c_doc c \<in> c_doc ` set l \<and> c_doc c \<in> c_doc ` set r"
proof (induction l r rule: intersect.induct)
  case (1 l left r right)
  then show ?case by (cases "c_doc l" "c_doc r" rule: linorder_cases) (auto simp: less_not_sym)
qed simp_all

lemma answers_intersect:
  assumes "ssorted_by c_doc l" and "ssorted_by c_doc r"
  shows "answers (intersect l r) (c_doc ` set l \<inter> c_doc ` set r)"
  using assms
proof (induction l r rule: intersect.induct)
  case (1 l left r right)
  show ?case
  proof (cases "c_doc l" "c_doc r" rule: linorder_cases)
    case less
    with 1 have "c_doc l \<notin> c_doc ` set (r # right)" by fastforce
    with less 1 show ?thesis by (auto simp: answers_def)
  next
    case greater
    with 1 have "c_doc r \<notin> c_doc ` set (l # left)" by fastforce
    with greater 1 show ?thesis by (auto simp: answers_def)
  next
    case equal
    have "c_doc l < c_doc c" if "c \<in> set (intersect left right)" for c
      using intersect_subset [OF that] 1(4) by auto
    moreover have "c_doc l \<notin> c_doc ` set left" "c_doc r \<notin> c_doc ` set right"
      using 1(4,5) by auto
    ultimately show ?thesis
      using equal 1 by (auto simp: answers_def)
  qed
qed (auto simp: answers_def)

lemma unite_docs: "c_doc ` set (unite l r) = c_doc ` set l \<union> c_doc ` set r"
  by (induction l r rule: unite.induct) auto

lemma answers_unite:
  assumes "ssorted_by c_doc l" and "ssorted_by c_doc r"
  shows "answers (unite l r) (c_doc ` set l \<union> c_doc ` set r)"
proof -
  have lt: "\<forall>c \<in> set (unite l r). x < c_doc c"
    if "\<forall>c \<in> set l. x < c_doc c" "\<forall>c \<in> set r. x < c_doc c" for x l r
  proof
    fix c
    assume "c \<in> set (unite l r)"
    then have "c_doc c \<in> c_doc ` set l \<union> c_doc ` set r"
      unfolding unite_docs [symmetric] by (rule imageI)
    with that show "x < c_doc c" by auto
  qed
  have "ssorted_by c_doc (unite l r)"
    using assms
  proof (induction l r rule: unite.induct)
    case (1 l left r right)
    show ?case
    proof (cases "c_doc l" "c_doc r" rule: linorder_cases)
      case less
      with 1(4,5) have "\<forall>c \<in> set (unite left (r # right)). c_doc l < c_doc c" by (intro lt) auto
      with less 1 show ?thesis by simp
    next
      case greater
      with 1(4,5) have "\<forall>c \<in> set (unite (l # left) right). c_doc r < c_doc c" by (intro lt) auto
      with greater 1 show ?thesis by simp
    next
      case equal
      with 1(4,5) have "\<forall>c \<in> set (unite left right). c_doc l < c_doc c" by (intro lt) auto
      with equal 1 show ?thesis by simp
    qed
  qed simp_all
  then show ?thesis by (simp add: answers_def unite_docs)
qed

lemma exclude_filter:
  assumes "ssorted_by c_doc u" and "ssorted_by c_doc x"
  shows "exclude u x = filter (\<lambda>c. c_doc c \<notin> c_doc ` set x) u"
  using assms
proof (induction u x rule: exclude.induct)
  case (2 c u x)
  let ?rest = "dropWhile (\<lambda>e. c_doc e < c_doc c) x"
  have s: "ssorted_by c_doc ?rest"
    using 2(3) by (induction x) auto
  have drop: "c_doc e \<notin> c_doc ` set x \<longleftrightarrow> c_doc e \<notin> c_doc ` set ?rest" if "c_doc c \<le> c_doc e" for e
  proof -
    have "c_doc e \<notin> c_doc ` set (takeWhile (\<lambda>e. c_doc e < c_doc c) x)"
      using that by (auto dest: set_takeWhileD)
    moreover have "set x = set (takeWhile (\<lambda>e. c_doc e < c_doc c) x) \<union> set ?rest"
      by (metis set_append takeWhile_dropWhile_id)
    ultimately show ?thesis by (simp add: image_Un)
  qed
  have first: "c_doc c \<notin> c_doc ` set ?rest \<longleftrightarrow> ?rest = [] \<or> c_doc c < c_doc (hd ?rest)"
    using s hd_dropWhile [of "\<lambda>e. c_doc e < c_doc c" x]
    by (cases ?rest) (auto simp: not_less simp del: dropWhile_eq_Nil_conv)
  have "filter (\<lambda>e. c_doc e \<notin> c_doc ` set ?rest) u = filter (\<lambda>e. c_doc e \<notin> c_doc ` set x) u"
  proof (intro filter_cong refl)
    fix e
    assume "e \<in> set u"
    with 2(2) have "c_doc c \<le> c_doc e" by auto
    from drop [OF this] show "c_doc e \<notin> c_doc ` set ?rest \<longleftrightarrow> c_doc e \<notin> c_doc ` set x" by simp
  qed
  with 2 s first drop [of c] show ?case by (simp add: Let_def)
qed simp

lemma answers_exclude:
  assumes "ssorted_by c_doc u" and "ssorted_by c_doc x"
  shows "answers (exclude u x) (c_doc ` set u - c_doc ` set x)"
  using ssorted_by_filter [OF assms(1)] by (auto simp: answers_def exclude_filter [OF assms])

lemma answers_filter: "answers cs S \<Longrightarrow> answers (filter (\<lambda>c. P (c_doc c)) cs) (S \<inter> {i. P i})"
  using ssorted_by_filter by (auto simp: answers_def)

section \<open>What a plan means\<close>

text \<open>
  A phrase occurs in a document when some occurrence of its first token is followed, at the
  distances the tokens have in the phrase, by occurrences of the other tokens.
\<close>

definition phrase_occurs :: "(string \<Rightarrow> u32 list) \<Rightarrow> token list \<Rightarrow> bool" where
  "phrase_occurs positions tokens \<longleftrightarrow>
     (case tokens of
        [] \<Rightarrow> False
      | first # rest \<Rightarrow>
          (\<exists>base \<in> set (positions (tok_term first)). \<forall>tok \<in> set rest. \<exists>x \<in> set (positions (tok_term tok)).
             unat x = unat base + unat (tok_position tok - tok_position first)))"

fun plan_matches :: "schema \<Rightarrow> document \<Rightarrow> plan \<Rightarrow> bool" where
  "plan_matches schema d (PlannedTerm _ field trm _) = (term_positions schema d field trm \<noteq> [])"
| "plan_matches schema d (PlannedPhrase _ field tokens _) = phrase_occurs (term_positions schema d field) tokens"
| "plan_matches schema d (PlannedAnd _ children) = (children \<noteq> [] \<and> list_all (plan_matches schema d) children)"
| "plan_matches schema d (PlannedOr _ children) = list_ex (plan_matches schema d) children"
| "plan_matches schema d (PlannedNot _ operand) = (\<not> plan_matches schema d operand)"
| "plan_matches schema d (PlannedRange _ field lower upper il iu) =
     (case (schema_find schema field, doc_value d field) of
        (Some fd, Some value) \<Rightarrow> range_matches fd value lower upper il iu
      | _ \<Rightarrow> False)"
| "plan_matches schema d (PlannedMatchAll _) = True"

section \<open>Postings and positions\<close>

lemma phrase_occurs_positions: "phrase_occurs positions tokens \<Longrightarrow> tok \<in> set tokens \<Longrightarrow> positions (tok_term tok) \<noteq> []"
  by (fastforce simp: phrase_occurs_def split: list.splits)

lemma posting_for_iff:
  assumes "ssorted_by p_doc (te_postings e)"
  shows "posting_for e i = Some p \<longleftrightarrow> p \<in> set (te_postings e) \<and> p_doc p = i"
proof
  assume "posting_for e i = Some p"
  then obtain ps where "lower_bound p_doc i (te_postings e) = p # ps" "p_doc p = i"
    by (auto simp: posting_for_def split: list.splits if_splits)
  then show "p \<in> set (te_postings e) \<and> p_doc p = i"
    by (metis list.set_intros(1) lower_bound_def set_dropWhileD)
next
  assume p: "p \<in> set (te_postings e) \<and> p_doc p = i"
  moreover have "sorted (map p_doc (te_postings e))"
    using assms by (simp add: ssorted_by_def strict_sorted_iff)
  ultimately obtain q qs where q: "lower_bound p_doc i (te_postings e) = q # qs" "p_doc q = i"
    using lower_bound_found [of p_doc "te_postings e" p] by auto
  then have "q \<in> set (te_postings e)"
    by (metis list.set_intros(1) lower_bound_def set_dropWhileD)
  with p q have "q = p"
    using ssorted_by_inj [OF assms] by (auto dest: inj_onD)
  with q show "posting_for e i = Some p" by (simp add: posting_for_def)
qed

lemma binary_search_iff:
  assumes "sorted_wrt (<) xs"
  shows "binary_search xs x \<longleftrightarrow> x \<in> set xs"
proof
  assume b: "binary_search xs x"
  then obtain y ys where y: "lower_bound (\<lambda>y. y) x xs = y # ys" "\<not> x < y"
    by (auto simp: binary_search_def split: list.splits)
  then have "\<not> y < x" "y \<in> set xs"
    by (metis lower_bound_def hd_dropWhile list.sel(1) list.distinct(1),
        metis lower_bound_def list.set_intros(1) set_dropWhileD)
  with y show "x \<in> set xs" by (metis linorder_less_linear)
next
  assume "x \<in> set xs"
  then obtain ys where "lower_bound (\<lambda>y. y) x xs = x # ys"
    using lower_bound_found [of "\<lambda>y. y" xs x] assms by (auto simp: strict_sorted_iff)
  then show "binary_search xs x" by (simp add: binary_search_def)
qed

lemma offset_in_range:
  "\<not> base > - 1 - offset \<longleftrightarrow> unat (base :: u32) + unat offset < 2 ^ 32"
proof -
  have "unat (- 1 - offset) = unat (- 1 :: u32) - unat offset"
    by (rule unat_sub) simp
  moreover have "unat (- 1 :: u32) = 2 ^ 32 - 1" by (simp add: unsigned_minus_1_eq_mask mask_eq_exp_minus_1)
  ultimately have "\<not> base > - 1 - offset \<longleftrightarrow> unat base \<le> 2 ^ 32 - 1 - unat offset"
    by (simp add: word_le_nat_alt not_less)
  also have "\<dots> \<longleftrightarrow> unat base + unat offset < 2 ^ 32"
    using unat_u32_less [of offset] by auto
  finally show ?thesis .
qed

lemma offset_occurs:
  assumes "sorted_wrt (<) xs"
  shows "\<not> base > - 1 - offset \<and> binary_search xs (base + offset) \<longleftrightarrow>
    (\<exists>x \<in> set xs. unat x = unat (base :: u32) + unat offset)"
proof -
  have "unat (base + offset) = unat base + unat offset" if "unat base + unat offset < 2 ^ 32"
    using that by (simp add: unat_add_lem [symmetric])
  then show ?thesis
    unfolding offset_in_range binary_search_iff [OF assms] using unat_u32_less
    by (metis unsigned_word_eqI)
qed

lemma positions_match_iff:
  assumes "list_all2 (\<lambda>tok p. p_positions p = positions (tok_term tok) \<and> sorted_wrt (<) (p_positions p))
    tokens postings"
  shows "positions_match postings tokens \<longleftrightarrow> phrase_occurs positions tokens"
proof (cases tokens)
  case (Cons tok toks)
  with assms obtain p ps where p: "postings = p # ps" "p_positions p = positions (tok_term tok)"
      "list_all2 (\<lambda>tok p. p_positions p = positions (tok_term tok) \<and> sorted_wrt (<) (p_positions p)) toks ps"
    by (auto simp: list_all2_Cons1)
  have "offsets_match base (tok_position tok) (zip ps toks) \<longleftrightarrow>
      (\<forall>t \<in> set toks. \<exists>x \<in> set (positions (tok_term t)). unat x = unat base + unat (tok_position t - tok_position tok))"
    for base
    using p(3)
  proof (induction rule: list_all2_induct)
    case (Cons t ts q qs)
    have "offsets_match base (tok_position tok) (zip (q # qs) (t # ts)) \<longleftrightarrow>
        (\<not> base > - 1 - (tok_position t - tok_position tok) \<and>
         binary_search (p_positions q) (base + (tok_position t - tok_position tok))) \<and>
        offsets_match base (tok_position tok) (zip qs ts)"
      by (simp add: offsets_match_def Let_def del: not_less)
    also have "\<dots> \<longleftrightarrow> (\<exists>x \<in> set (p_positions q). unat x = unat base + unat (tok_position t - tok_position tok)) \<and>
        offsets_match base (tok_position tok) (zip qs ts)"
      by (subst offset_occurs) (use Cons(1) in auto)
    finally show ?case using Cons by simp
  qed (simp add: offsets_match_def)
  then show ?thesis
    using Cons p by (simp add: positions_match_def phrase_occurs_def list_ex_iff)
qed (use assms in \<open>simp add: positions_match_def phrase_occurs_def\<close>)

section \<open>The loops of evaluation\<close>

lemma score_postings_docs:
  "score_postings v sc f e boost ps acc = Inr cs \<Longrightarrow> map c_doc cs = map c_doc acc @ map p_doc ps"
  by (induction ps arbitrary: acc) (auto split: sum.splits)

lemma lookup_all_Some:
  "lookup_all v f tokens = Some es \<longleftrightarrow> list_all2 (\<lambda>tok e. v_lookup v f (tok_term tok) = Some e) tokens es"
  by (induction tokens arbitrary: es) (auto simp: list_all2_Cons1 split: option.splits)

lemma lookup_all_None: "lookup_all v f tokens = None \<longleftrightarrow> (\<exists>tok \<in> set tokens. v_lookup v f (tok_term tok) = None)"
  by (induction tokens) (auto split: option.splits)

lemma anchor_from_less: "anchor < i \<Longrightarrow> anchor_from es i anchor best < i + length es"
proof (induction es arbitrary: i anchor best)
  case (Cons e es)
  from Cons.IH [of i "Suc i"] Cons.IH [of anchor "Suc i"] Cons.prems show ?case by simp
qed simp

lemma anchor_of_less: "es \<noteq> [] \<Longrightarrow> anchor_of es < length es"
  using anchor_from_less [of 0 1 "tl es"] by (cases es) (auto simp: anchor_of_def)

lemma gather_iff:
  assumes "\<forall>e \<in> set es. ssorted_by p_doc (te_postings e)"
    and "\<forall>k < length es. i + k = anchor \<longrightarrow> p \<in> set (te_postings (es ! k))"
  shows "gather es i anchor p = Some qs \<longleftrightarrow>
    list_all2 (\<lambda>e q. q \<in> set (te_postings e) \<and> p_doc q = p_doc p) es qs"
  using assms
proof (induction es arbitrary: i qs)
  case (Cons e es)
  have "\<forall>k < length es. i + 1 + k = anchor \<longrightarrow> p \<in> set (te_postings (es ! k))"
    using Cons.prems(2) by (metis Suc_eq_plus1 Suc_less_eq add.assoc add.commute length_Cons nth_Cons_Suc)
  with Cons have IH: "gather es (i + 1) anchor p = Some qs \<longleftrightarrow>
      list_all2 (\<lambda>e q. q \<in> set (te_postings e) \<and> p_doc q = p_doc p) es qs" for qs by simp
  have e: "(if i = anchor then Some p else posting_for e (p_doc p)) = posting_for e (p_doc p)"
    using Cons.prems posting_for_iff [of e "p_doc p" p] by fastforce
  have "gather (e # es) i anchor p = Some qs \<longleftrightarrow>
      (\<exists>q qs'. posting_for e (p_doc p) = Some q \<and> gather es (i + 1) anchor p = Some qs' \<and> qs = q # qs')"
    unfolding gather.simps e by (auto split: option.splits)
  then show ?case
    using posting_for_iff [of e] Cons.prems(1) by (simp add: IH [simplified] list_all2_Cons1) blast
qed auto

lemma list_all2_choice: "(\<And>x. x \<in> set xs \<Longrightarrow> \<exists>y. P x y) \<Longrightarrow> \<exists>ys. list_all2 P xs ys"
proof (induction xs)
  case (Cons x xs)
  then show ?case by (metis list.rel_intros(2) list.set_intros)
qed (auto intro: list.rel_intros)

lemma phrase_candidates_docs:
  "phrase_candidates v sc f tokens boost es ps acc = Inr cs \<Longrightarrow>
     map c_doc cs = map c_doc acc @ map p_doc (filter (\<lambda>p. case gather es 0 (anchor_of es) p of
        None \<Rightarrow> False | Some qs \<Rightarrow> positions_match qs tokens) ps)"
  by (induction ps arbitrary: acc) (auto split: option.splits sum.splits if_splits)

lemma collect_candidates_all:
  "\<forall>c \<in> set cs. v_external_id v (c_doc c) = Some (ext (c_doc c)) \<Longrightarrow>
   collect_candidates v cs tk =
     (if \<forall>c \<in> set cs. isfinite (c_score c)
      then Inr (collect_all (map (\<lambda>c. \<lparr>sd_id = ext (c_doc c), sd_score = c_score c\<rparr>) cs) tk)
      else Inl (ex_error Ex_ranking_error ''non-finite score''))"
proof (induction cs arbitrary: tk)
  case (Cons c cs)
  then show ?case
    by (cases "isfinite (c_score c)") (simp_all add: case_prod_beta collect_all_def collect_def)
qed (simp add: collect_all_def)

lemma collect_all_subset: "set (tk_heap (collect_all xs tk)) \<subseteq> set (tk_heap tk) \<union> set xs"
proof (induction xs arbitrary: tk)
  case (Cons x xs)
  have push: "set (pq_push y ys) = insert y (set ys)" for y ys
    by (induction ys) auto
  have "set (tk_heap (fst (collect x tk))) \<subseteq> insert x (set (tk_heap tk))"
    by (auto simp: collect_def push dest: in_set_butlastD)
  with Cons [of "fst (collect x tk)"] show ?case by (auto simp: collect_all_def)
qed (simp add: collect_all_def)

lemma collect_candidates_hits:
  "collect_candidates v cs tk = Inr tk' \<Longrightarrow> x \<in> set (tk_heap tk') \<Longrightarrow> x \<notin> set (tk_heap tk) \<Longrightarrow>
   \<exists>c \<in> set cs. v_external_id v (c_doc c) = Some (sd_id x) \<and> sd_score x = c_score c"
proof (induction cs arbitrary: tk)
  case (Cons c cs)
  then obtain did where did: "v_external_id v (c_doc c) = Some did"
      "collect_candidates v cs (fst (collect \<lparr>sd_id = did, sd_score = c_score c\<rparr> tk)) = Inr tk'"
    by (auto split: option.splits if_splits prod.splits)
  show ?case
  proof (cases "x \<in> set (tk_heap (fst (collect \<lparr>sd_id = did, sd_score = c_score c\<rparr> tk)))")
    case True
    with collect_all_subset [of "[\<lparr>sd_id = did, sd_score = c_score c\<rparr>]" tk] Cons.prems(3) did(1) show ?thesis
      by (auto simp: collect_all_def)
  qed (use Cons did(2) in auto)
qed simp

lemma top_k_results_set: "set (top_k_results c) = set (tk_heap c)"
proof -
  have "set (pq_push y ys) = insert y (set ys)" for y ys
    by (induction ys) auto
  then have "set (foldr pq_push xs []) = set xs" for xs
    by (induction xs) auto
  then show ?thesis by (simp add: top_k_results_def)
qed

lemma search_plan_hits:
  assumes "search_plan v log1p parameters p k = Inr res"
    and "bm25_create parameters = Inr params \<and> evaluate v \<lparr>sc_log1p = log1p, sc_parameters = params\<rparr> p = Inr cs"
    and "h \<in> set (sr_hits res)"
  shows "\<exists>c \<in> set cs. v_external_id v (c_doc c) = Some (sd_id h) \<and> sd_score h = c_score c"
  using assms collect_candidates_hits [of v cs "top_k_new k" _ h]
  by (auto simp: search_plan_def top_k_results_set top_k_new_def split: sum.splits)

lemma found_score_answers:
  assumes "answers cs S"
  shows "fst (found_score i cs) \<longleftrightarrow> i \<in> S" and "c \<in> set cs \<Longrightarrow> found_score (c_doc c) cs = (True, c_score c)"
proof -
  have srt: "ssorted_by c_doc cs" "sorted (map c_doc cs)" and S: "c_doc ` set cs = S"
    using assms by (auto simp: answers_def ssorted_by_def strict_sorted_iff)
  have c: "found_score (c_doc c) cs = (True, c_score c)" if c: "c \<in> set cs" for c
  proof -
    obtain y ys where y: "lower_bound c_doc (c_doc c) cs = y # ys" "c_doc y = c_doc c"
      using lower_bound_found [OF srt(2) c] by blast
    then have "y \<in> set cs" by (metis list.set_intros(1) lower_bound_def set_dropWhileD)
    with y c have "y = c" using ssorted_by_inj [OF srt(1)] by (auto dest: inj_onD)
    with y show ?thesis by (simp add: found_score_def)
  qed
  then show "c \<in> set cs \<Longrightarrow> found_score (c_doc c) cs = (True, c_score c)" .
  show "fst (found_score i cs) \<longleftrightarrow> i \<in> S"
  proof
    assume "fst (found_score i cs)"
    then obtain y ys where "lower_bound c_doc i cs = y # ys" "c_doc y = i"
      by (auto simp: found_score_def split: list.splits if_splits)
    then show "i \<in> S" using S by (metis image_eqI list.set_intros(1) lower_bound_def set_dropWhileD)
  qed (use c S in auto)
qed

lemma map_sum_Inr: "map_sum id f x = Inr y \<longleftrightarrow> (\<exists>z. x = Inr z \<and> y = f z)"
  by (cases x) auto

lemma explain_node_found:
  "explain_node v sc i p = Inr x \<Longrightarrow> evaluate v sc p = Inr cs \<Longrightarrow>
   matched x = fst (found_score i cs) \<and> se_score x = snd (found_score i cs)"
  by (cases p) (auto simp: explain_node.simps explain_term_def node_explanation_def Let_def map_sum_Inr
      split: sum.splits)

section \<open>Plans that can be scored\<close>

definition valid_boost_value :: "double \<Rightarrow> bool" where
  "valid_boost_value x \<longleftrightarrow> isfinite x \<and> \<not> fp_less x fp_zero"

definition boost_error :: execution_error where
  "boost_error = ex_error Ex_ranking_error (bm25_describe Bm25_invalid_boost)"

text \<open>Every boost of the plan is finite and not negative, every range is over a field of the schema.\<close>

fun plan_scorable :: "schema \<Rightarrow> plan \<Rightarrow> bool" where
  "plan_scorable schema (PlannedTerm _ _ _ boost) = valid_boost_value boost"
| "plan_scorable schema (PlannedPhrase _ _ _ boost) = valid_boost_value boost"
| "plan_scorable schema (PlannedAnd _ children) = list_all (plan_scorable schema) children"
| "plan_scorable schema (PlannedOr _ children) = list_all (plan_scorable schema) children"
| "plan_scorable schema (PlannedNot _ operand) = plan_scorable schema operand"
| "plan_scorable schema (PlannedRange _ field _ _ _ _) = (schema_find schema field \<noteq> None)"
| "plan_scorable schema (PlannedMatchAll _) = True"

fun ranges_known :: "schema \<Rightarrow> plan \<Rightarrow> bool" where
  "ranges_known schema (PlannedAnd _ children) = list_all (ranges_known schema) children"
| "ranges_known schema (PlannedOr _ children) = list_all (ranges_known schema) children"
| "ranges_known schema (PlannedNot _ operand) = ranges_known schema operand"
| "ranges_known schema (PlannedRange _ field _ _ _ _) = (schema_find schema field \<noteq> None)"
| "ranges_known schema _ = True"

fun plan_boosts :: "plan \<Rightarrow> double list" where
  "plan_boosts (PlannedTerm _ _ _ boost) = [boost]"
| "plan_boosts (PlannedPhrase _ _ _ boost) = [boost]"
| "plan_boosts (PlannedAnd _ children) = concat (map plan_boosts children)"
| "plan_boosts (PlannedOr _ children) = concat (map plan_boosts children)"
| "plan_boosts (PlannedNot _ operand) = plan_boosts operand"
| "plan_boosts _ = []"

lemma plan_scorable_boosts:
  "ranges_known schema p \<Longrightarrow> plan_scorable schema p \<longleftrightarrow> list_all valid_boost_value (plan_boosts p)"
  by (induction p) (auto simp: list_all_iff)

lemma unat_ucast_u32: "unat (ucast (x :: u32) :: u64) = unat x"
  using unat_u32_less [of x] by (simp add: unsigned_ucast_eq take_bit_eq_mod)

section \<open>Evaluation over a provider of views\<close>

context view_provider
begin

definition matching :: "'s \<Rightarrow> plan \<Rightarrow> internal_document_id set" where
  "matching s p = {i. \<exists>r. live (view_of s) i r \<and> plan_matches (v_schema (view_of s)) (dr_document r) p}"

lemma matching_live: "matching s p \<subseteq> {i. \<exists>r. live (view_of s) i r}"
  by (auto simp: matching_def)

lemma posting_live:
  assumes "inv s" and "v_lookup (view_of s) f t = Some e" and "p \<in> set (te_postings e)"
  obtains r where "live (view_of s) (p_doc p) r"
    and "p_positions p = term_positions (v_schema (view_of s)) (dr_document r) f t" and "p_positions p \<noteq> []"
  using posting_iff [OF assms(1), of f t "p_doc p" "p_positions p"] assms(2,3) by metis

lemma live_posting:
  assumes "inv s" and "live (view_of s) i r" and "term_positions (v_schema (view_of s)) (dr_document r) f t \<noteq> []"
  obtains e p where "v_lookup (view_of s) f t = Some e" and "p \<in> set (te_postings e)" and "p_doc p = i"
  using posting_iff [OF assms(1), of f t i] assms(2,3) by metis

lemma term_matching:
  assumes "inv s"
  shows "matching s (PlannedTerm n f t boost) =
    (case v_lookup (view_of s) f t of None \<Rightarrow> {} | Some e \<Rightarrow> p_doc ` set (te_postings e))"
proof -
  have "i \<in> matching s (PlannedTerm n f t boost) \<longleftrightarrow>
      (\<exists>e p. v_lookup (view_of s) f t = Some e \<and> p \<in> set (te_postings e) \<and> p_doc p = i)" for i
    using posting_iff [OF assms, of f t i] by (auto simp: matching_def) metis+
  then show ?thesis by (auto split: option.splits)
qed

lemma evaluate_term:
  assumes "inv s" and "score_term (view_of s) sc f t boost = Inr cs"
  shows "answers cs (matching s (PlannedTerm n f t boost))"
  using assms postings_sorted [OF assms(1), of f t]
  by (auto simp: score_term_def term_matching answers_def ssorted_by_def split: option.splits
      dest!: score_postings_docs) (metis image_eqI image_set)+

lemma phrase_posting:
  assumes inv: "inv s" and es: "lookup_all (view_of s) f tokens = Some es" and ne: "tokens \<noteq> []"
    and p: "p \<in> set (te_postings (es ! anchor_of es))"
  shows "(case gather es 0 (anchor_of es) p of None \<Rightarrow> False | Some qs \<Rightarrow> positions_match qs tokens) \<longleftrightarrow>
    p_doc p \<in> matching s (PlannedPhrase n f tokens boost)"
proof -
  let ?v = "view_of s" and ?pos = "\<lambda>r. term_positions (v_schema (view_of s)) (dr_document r) f"
  have look: "list_all2 (\<lambda>tok e. v_lookup ?v f (tok_term tok) = Some e) tokens es"
    using es by (simp add: lookup_all_Some)
  then have ne': "es \<noteq> []" using ne by auto
  have look': "\<exists>tok \<in> set tokens. v_lookup ?v f (tok_term tok) = Some e" if "e \<in> set es" for e
    using look that by (auto simp: list_all2_conv_all_nth in_set_conv_nth) (metis nth_mem)
  then have srt: "\<forall>e \<in> set es. ssorted_by p_doc (te_postings e)"
    using postings_sorted [OF inv] by blast
  have gat: "gather es 0 (anchor_of es) p = Some qs \<longleftrightarrow>
      list_all2 (\<lambda>e q. q \<in> set (te_postings e) \<and> p_doc q = p_doc p) es qs" for qs
    using gather_iff [OF srt, of 0 "anchor_of es" p] p by simp
  obtain r where r: "live ?v (p_doc p) r"
    using look' [of "es ! anchor_of es"] anchor_of_less [OF ne'] p by (auto elim: posting_live [OF inv])
  have r': "p_doc p \<in> matching s (PlannedPhrase n f tokens boost) \<longleftrightarrow> phrase_occurs (?pos r) tokens"
    using r by (auto simp: matching_def live_def)
  have pos: "p_positions q = ?pos r t \<and> sorted_wrt (<) (p_positions q)"
    if "v_lookup ?v f t = Some e" "q \<in> set (te_postings e)" "p_doc q = p_doc p" for e q t
    using posting_live [OF inv that(1,2)] that(3) r positions_sorted [OF inv that(1,2)]
    by (metis live_def option.inject)
  show ?thesis
  proof (cases "gather es 0 (anchor_of es) p")
    case None
    have "\<exists>q. q \<in> set (te_postings e) \<and> p_doc q = p_doc p" if "phrase_occurs (?pos r) tokens" "e \<in> set es" for e
      using look' [OF that(2)] phrase_occurs_positions [OF that(1)] live_posting [OF inv r, of f]
      by (metis option.inject)
    then have "\<exists>qs. list_all2 (\<lambda>e q. q \<in> set (te_postings e) \<and> p_doc q = p_doc p) es qs"
      if "phrase_occurs (?pos r) tokens" using that by (intro list_all2_choice) blast
    with None gat show ?thesis unfolding r' by auto
  next
    case (Some qs)
    then have "list_all2 (\<lambda>tok q. p_positions q = ?pos r (tok_term tok) \<and> sorted_wrt (<) (p_positions q)) tokens qs"
      by (intro list_all2_trans [OF _ look gat [THEN iffD1]]) (use pos in blast)
    from positions_match_iff [OF this] Some r' show ?thesis by simp
  qed
qed

lemma evaluate_phrase_matching:
  assumes inv: "inv s" and ev: "evaluate_phrase (view_of s) sc f tokens boost = Inr cs"
  shows "answers cs (matching s (PlannedPhrase n f tokens boost))" (is "answers cs ?M")
proof (cases "tokens = [] \<or> lookup_all (view_of s) f tokens = None")
  case True
  have "?M = {}"
  proof (cases "tokens = []")
    case False
    with True obtain tok where tok: "tok \<in> set tokens" "v_lookup (view_of s) f (tok_term tok) = None"
      by (auto simp: lookup_all_None)
    then have "term_positions (v_schema (view_of s)) (dr_document r) f (tok_term tok) = []"
      if "live (view_of s) i r" for i r
      using live_posting [OF inv that] by (metis option.distinct(1))
    with phrase_occurs_positions [OF _ tok(1)] show ?thesis
      by (fastforce simp: matching_def)
  qed (simp add: matching_def phrase_occurs_def)
  with ev True show ?thesis by (auto simp: evaluate_phrase_def answers_def split: if_splits)
next
  case False
  then obtain es where es: "lookup_all (view_of s) f tokens = Some es" and ne: "tokens \<noteq> []" by auto
  let ?ps = "te_postings (es ! anchor_of es)"
  have look: "list_all2 (\<lambda>tok e. v_lookup (view_of s) f (tok_term tok) = Some e) tokens es"
    using es by (simp add: lookup_all_Some)
  then have an: "anchor_of es < length tokens" using ne anchor_of_less [of es] list_all2_lengthD by fastforce
  define tok where "tok = tokens ! anchor_of es"
  have tok: "tok \<in> set tokens" "v_lookup (view_of s) f (tok_term tok) = Some (es ! anchor_of es)"
    using an list_all2_nthD [OF look an] by (simp_all add: tok_def)
  obtain cs' where cs': "phrase_candidates (view_of s) sc f tokens boost es ?ps [] = Inr cs'" "cs = sort_key c_doc cs'"
    using ev es ne by (auto simp: evaluate_phrase_def split: sum.splits)
  have "map c_doc cs' = map p_doc (filter (\<lambda>p. p_doc p \<in> ?M) ?ps)"
    using phrase_candidates_docs [OF cs'(1)] phrase_posting [OF inv es ne, of _ n boost]
    by (simp cong: filter_cong)
  then have cs: "ssorted_by c_doc cs'" "c_doc ` set cs' = p_doc ` {p \<in> set ?ps. p_doc p \<in> ?M}"
    using ssorted_by_filter [OF postings_sorted [OF inv tok(2)]]
    by (simp_all add: ssorted_by_def flip: set_map set_filter)
  have "i \<in> p_doc ` set ?ps" if "i \<in> ?M" for i
  proof -
    from that obtain r where r: "live (view_of s) i r"
        "phrase_occurs (term_positions (v_schema (view_of s)) (dr_document r) f) tokens"
      by (auto simp: matching_def)
    from live_posting [OF inv r(1) phrase_occurs_positions [OF r(2) tok(1)]] tok(2) show ?thesis by (metis image_eqI option.inject)
  qed
  then have "p_doc ` {p \<in> set ?ps. p_doc p \<in> ?M} = ?M" by blast
  with cs(2) have "c_doc ` set cs' = ?M" by simp
  with cs(1) show ?thesis
    unfolding cs'(2) answers_def
    using ssorted_by_sort_key [OF ssorted_by_inj ssorted_by_distinct] by simp
qed

lemma universe_answers: "inv s \<Longrightarrow> answers (universe (view_of s)) {i. \<exists>r. live (view_of s) i r}"
  using live_ids_sorted [of s] live_ids_iff [of s] by (auto simp: answers_def universe_def ssorted_by_def comp_def image_image)

lemma evaluate_range_matching:
  assumes inv: "inv s" and ev: "evaluate_range (view_of s) f lower upper il iu = Inr cs"
  shows "answers cs (matching s (PlannedRange n f lower upper il iu))"
proof -
  let ?P = "\<lambda>i. i \<in> matching s (PlannedRange n f lower upper il iu)"
  have "\<exists>r. live (view_of s) (c_doc c) r" if "c \<in> set (universe (view_of s))" for c
    using that universe_answers [OF inv] by (auto simp: answers_def)
  then have sat: "(case v_document_internal (view_of s) (c_doc c) of None \<Rightarrow> False
      | Some r \<Rightarrow> (case field_value r f of None \<Rightarrow> False | Some x \<Rightarrow> range_matches fd x lower upper il iu)) \<longleftrightarrow>
      ?P (c_doc c)" if "schema_find (v_schema (view_of s)) f = Some fd" "c \<in> set (universe (view_of s))" for c fd
    using that by (fastforce simp: matching_def live_def field_value_def split: option.splits)
  obtain fd where fd: "schema_find (v_schema (view_of s)) f = Some fd"
    using ev by (auto simp: evaluate_range_def split: option.splits)
  have "cs = filter (\<lambda>c. ?P (c_doc c)) (universe (view_of s))"
    using ev sat [OF fd] by (simp add: evaluate_range_def fd cong: filter_cong)
  with answers_filter [OF universe_answers [OF inv], of ?P] show ?thesis
    by (simp add: Int_absorb1 matching_live)
qed

lemma matching_and:
  "matching s (PlannedAnd n (p # ps)) = matching s p \<inter> {i. \<forall>q \<in> set ps. i \<in> matching s q}"
  by (auto simp: matching_def live_def list_all_iff)

lemma matching_or: "matching s (PlannedOr n ps) = {i. \<exists>q \<in> set ps. i \<in> matching s q}"
  by (auto simp: matching_def list_ex_iff)

lemma matching_not: "matching s (PlannedNot n p) = {i. \<exists>r. live (view_of s) i r} - matching s p"
  by (auto simp: matching_def live_def)

lemma evaluate_matching:
  assumes inv: "inv s"
  shows "evaluate (view_of s) sc p = Inr cs \<Longrightarrow> answers cs (matching s p)"
    and "evaluate_and (view_of s) sc ps acc = Inr cs \<Longrightarrow> answers acc A \<Longrightarrow>
      answers cs (A \<inter> {i. \<forall>q \<in> set ps. i \<in> matching s q})"
    and "evaluate_or (view_of s) sc ps acc = Inr cs \<Longrightarrow> answers acc A \<Longrightarrow>
      answers cs (A \<union> {i. \<exists>q \<in> set ps. i \<in> matching s q})"
proof (induction "view_of s" sc p and "view_of s" sc ps acc and "view_of s" sc ps acc
    arbitrary: cs and cs A and cs A rule: evaluate_evaluate_and_evaluate_or.induct)
  case (3 sc n children)
  show ?case
  proof (cases children)
    case (Cons p ps)
    with 3(3) obtain cs' where "evaluate (view_of s) sc p = Inr cs'" "evaluate_and (view_of s) sc ps cs' = Inr cs"
      by (auto split: sum.splits)
    with 3(1,2) [OF Cons] show ?thesis by (simp add: Cons matching_and)
  qed (use 3(3) in \<open>simp add: answers_def matching_def\<close>)
next
  case (5 sc n p)
  then obtain xs where xs: "cs = exclude (universe (view_of s)) xs" "answers xs (matching s p)"
    by (auto split: sum.splits)
  with universe_answers [OF inv] answers_exclude [of "universe (view_of s)" xs] show ?case
    by (simp add: answers_def matching_not)
next
  case (9 sc p ps acc)
  then obtain xs where xs: "evaluate (view_of s) sc p = Inr xs" by (auto split: sum.splits)
  from 9(1) [OF xs] have "answers (intersect acc xs) (A \<inter> matching s p)"
    using answers_intersect [of acc xs] 9(4) by (simp add: answers_def)
  moreover have "A \<inter> {i. \<forall>q \<in> set (p # ps). i \<in> matching s q} =
      (A \<inter> matching s p) \<inter> {i. \<forall>q \<in> set ps. i \<in> matching s q}" by auto
  ultimately show ?case
    using 9(2) [OF xs refl] 9(3) xs by (cases "intersect acc xs = []") (auto simp: answers_def)
next
  case (11 sc p ps acc)
  then obtain xs where xs: "evaluate (view_of s) sc p = Inr xs" by (auto split: sum.splits)
  from 11(1) [OF xs] have "answers (unite acc xs) (A \<union> matching s p)"
    using answers_unite [of acc xs] 11(4) by (simp add: answers_def)
  moreover have "A \<union> {i. \<exists>q \<in> set (p # ps). i \<in> matching s q} =
      (A \<union> matching s p) \<union> {i. \<exists>q \<in> set ps. i \<in> matching s q}" by auto
  ultimately show ?case using 11(2) [OF xs] 11(3) xs by simp
qed (simp_all add: evaluate_term evaluate_phrase_matching evaluate_range_matching matching_or
    universe_answers inv matching_def [of s "PlannedMatchAll _"], (simp add: answers_def)?)

lemma candidates_external:
  assumes inv: "inv s" and cs: "evaluate (view_of s) sc p = Inr cs"
  shows "\<forall>c \<in> set cs. v_external_id (view_of s) (c_doc c) = Some (the (v_external_id (view_of s) (c_doc c)))"
proof
  fix c
  assume "c \<in> set cs"
  then obtain r where "live (view_of s) (c_doc c) r"
    using evaluate_matching(1) [OF inv cs] matching_live by (fastforce simp: answers_def)
  from external_live [OF inv this] show "v_external_id (view_of s) (c_doc c) =
    Some (the (v_external_id (view_of s) (c_doc c)))" by simp
qed

text \<open>Scoring never meets inconsistent statistics: it succeeds for every valid boost.\<close>

lemma score_posting_total:
  assumes inv: "inv s" and e: "v_lookup (view_of s) f t = Some e" and p: "p \<in> set (te_postings e)"
    and boost: "valid_boost_value boost"
  shows "\<exists>x. score_posting (view_of s) sc f e p boost = Inr x"
proof -
  obtain r where r: "v_document_internal (view_of s) (p_doc p) = Some r"
    using posting_live [OF inv e p] by (metis live_def)
  obtain len where len: "map_of (dr_field_lengths r) f = Some len" "0 < p_tf p" "p_tf p \<le> len"
    using posting_lengths [OF inv e p r] by blast
  have one: "isfinite fp_one" "\<not> fp_less fp_one fp_zero"
    by (simp_all add: fp_eval_defs)
  let ?st = "v_field_statistics (view_of s) f"
  have df: "te_df e \<noteq> 0" "unat (te_df e) \<le> unat (fs_count ?st)" "isfinite (fs_average ?st)"
      "fp_less fp_zero (fs_average ?st)"
    using frequencies [OF inv e] by (simp_all add: scorable_def)
  have pos: "unat (te_df e) \<noteq> 0" using df(1) by (simp add: unat_eq_0)
  have "\<not> bm25_inconsistent \<lparr>ts_document_count = fs_count ?st, ts_document_frequency = ucast (te_df e),
      ts_term_frequency = p_tf p, ts_document_length = len, ts_average_document_length = fs_average ?st\<rparr>"
    using df pos len(3) unat_ucast_u32 [of "te_df e"]
    by (auto simp: word_le_nat_alt bm25_inconsistent_def word_less_nat_alt not_less fp_less_key fp_le_def fp_less_def)
  then show ?thesis
    using boost one by (simp add: score_posting_def r len bm25_score_def valid_boost_value_def Let_def)
qed

lemma score_posting_error:
  assumes inv: "inv s" and e: "v_lookup (view_of s) f t = Some e" and p: "p \<in> set (te_postings e)"
    and err: "score_posting (view_of s) sc f e p boost = Inl x"
  shows "x = boost_error"
proof -
  have boost: "\<not> valid_boost_value boost"
    using score_posting_total [OF inv e p, of boost sc] err by auto
  obtain r where r: "v_document_internal (view_of s) (p_doc p) = Some r"
    using posting_live [OF inv e p] by (metis live_def)
  obtain len where "map_of (dr_field_lengths r) f = Some len"
    using posting_lengths [OF inv e p r] by blast
  with err boost r show ?thesis
    by (auto simp: score_posting_def bm25_score_def valid_boost_value_def boost_error_def Let_def split: if_splits sum.splits)
qed

lemma score_postings_error:
  assumes inv: "inv s" and e: "v_lookup (view_of s) f t = Some e"
  shows "set ps \<subseteq> set (te_postings e) \<Longrightarrow> score_postings (view_of s) sc f e boost ps acc = Inl x \<Longrightarrow> x = boost_error"
proof (induction ps arbitrary: acc)
  case (Cons p ps)
  then show ?case
    using score_posting_error [OF inv e, of p sc boost] by (auto split: sum.splits)
qed simp

lemma phrase_score_error:
  assumes inv: "inv s"
    and "\<forall>(e, p) \<in> set eps. (\<exists>t. v_lookup (view_of s) f t = Some e) \<and> p \<in> set (te_postings e)"
    and "phrase_score (view_of s) sc f boost eps score = Inl x"
  shows "x = boost_error"
  using assms(2,3)
proof (induction eps arbitrary: score)
  case (Cons ep eps)
  obtain e p where ep: "ep = (e, p)" by (cases ep)
  with Cons show ?case
    using score_posting_error [OF inv, of f _ e p sc boost] by (auto split: sum.splits)
qed simp

lemma score_postings_total:
  assumes inv: "inv s" and e: "v_lookup (view_of s) f t = Some e" and boost: "valid_boost_value boost"
  shows "set ps \<subseteq> set (te_postings e) \<Longrightarrow> \<exists>cs. score_postings (view_of s) sc f e boost ps acc = Inr cs"
proof (induction ps arbitrary: acc)
  case (Cons p ps)
  then obtain x where "score_posting (view_of s) sc f e p boost = Inr x"
    using score_posting_total [OF inv e _ boost] by fastforce
  with Cons show ?case by simp
qed simp

lemma phrase_score_total:
  assumes inv: "inv s" and boost: "valid_boost_value boost"
    and "\<forall>(e, p) \<in> set eps. (\<exists>t. v_lookup (view_of s) f t = Some e) \<and> p \<in> set (te_postings e)"
  shows "\<exists>x. phrase_score (view_of s) sc f boost eps score = Inr x"
  using assms(3)
proof (induction eps arbitrary: score)
  case (Cons ep eps)
  obtain e p where ep: "ep = (e, p)" by (cases ep)
  with Cons.prems obtain x where "score_posting (view_of s) sc f e p boost = Inr x"
    using score_posting_total [OF inv _ _ boost] by fastforce
  with Cons ep show ?case by simp
qed simp

lemma gather_entries:
  assumes inv: "inv s" and es: "lookup_all (view_of s) f tokens = Some es"
    and p: "p \<in> set (te_postings (es ! anchor_of es))" and qs: "gather es 0 (anchor_of es) p = Some qs"
  shows "\<forall>(e, q) \<in> set (zip es qs). (\<exists>t. v_lookup (view_of s) f t = Some e) \<and> q \<in> set (te_postings e)"
proof -
  have look: "list_all2 (\<lambda>tok e. v_lookup (view_of s) f (tok_term tok) = Some e) tokens es"
    using es by (simp add: lookup_all_Some)
  have t: "\<exists>t. v_lookup (view_of s) f t = Some e" if "e \<in> set es" for e
    using look that by (auto simp: list_all2_conv_all_nth in_set_conv_nth)
  then have "\<forall>e \<in> set es. ssorted_by p_doc (te_postings e)"
    using postings_sorted [OF inv] by blast
  then have "list_all2 (\<lambda>e q. q \<in> set (te_postings e) \<and> p_doc q = p_doc p) es qs"
    using qs gather_iff [of es 0 "anchor_of es" p qs] p by simp
  then show ?thesis using t by (fastforce simp: list_all2_iff dest: set_zip_leftD)
qed

lemma evaluate_phrase_error:
  assumes inv: "inv s" and err: "evaluate_phrase (view_of s) sc f tokens boost = Inl x"
  shows "x = boost_error"
proof -
  obtain es where es: "lookup_all (view_of s) f tokens = Some es"
      "phrase_candidates (view_of s) sc f tokens boost es (te_postings (es ! anchor_of es)) [] = Inl x"
    using err by (auto simp: evaluate_phrase_def split: if_splits option.splits sum.splits)
  have "phrase_candidates (view_of s) sc f tokens boost es ps acc = Inl x \<Longrightarrow>
      set ps \<subseteq> set (te_postings (es ! anchor_of es)) \<Longrightarrow> x = boost_error" for ps acc
  proof (induction ps arbitrary: acc)
    case (Cons p ps)
    then show ?case
      using phrase_score_error [OF inv gather_entries [OF inv es(1), of p]]
      by (auto split: option.splits if_splits sum.splits)
  qed simp
  from this [OF es(2)] show ?thesis by simp
qed

lemma evaluate_error:
  assumes inv: "inv s"
  shows "evaluate (view_of s) sc p = Inl x \<Longrightarrow> ranges_known (v_schema (view_of s)) p \<Longrightarrow> x = boost_error"
    and "evaluate_and (view_of s) sc ps acc = Inl x \<Longrightarrow> list_all (ranges_known (v_schema (view_of s))) ps \<Longrightarrow> x = boost_error"
    and "evaluate_or (view_of s) sc ps acc = Inl x \<Longrightarrow> list_all (ranges_known (v_schema (view_of s))) ps \<Longrightarrow> x = boost_error"
proof (induction "view_of s" sc p and "view_of s" sc ps acc and "view_of s" sc ps acc
    rule: evaluate_evaluate_and_evaluate_or.induct)
  case (1 sc n f t boost)
  then show ?case
    using score_postings_error [OF inv _ order_refl] by (auto simp: score_term_def split: option.splits)
next
  case (3 sc n children)
  then show ?case by (auto split: list.splits sum.splits)
next
  case (9 sc p ps acc)
  then show ?case by (auto simp: Let_def split: sum.splits if_splits)
next
  case (2 sc n f tokens boost)
  then show ?case using evaluate_phrase_error [OF inv] by simp
qed (auto simp: evaluate_range_def split: sum.splits option.splits)

lemma evaluate_phrase_total:
  assumes inv: "inv s" and boost: "valid_boost_value boost"
  shows "\<exists>cs. evaluate_phrase (view_of s) sc f tokens boost = Inr cs"
proof (cases "tokens = [] \<or> lookup_all (view_of s) f tokens = None")
  case False
  then obtain es where es: "lookup_all (view_of s) f tokens = Some es" and ne: "tokens \<noteq> []" by auto
  let ?ps = "te_postings (es ! anchor_of es)"
  have "\<exists>cs. phrase_candidates (view_of s) sc f tokens boost es ps acc = Inr cs" if "set ps \<subseteq> set ?ps" for ps acc
    using that
  proof (induction ps arbitrary: acc)
    case (Cons p ps)
    have "\<exists>x. phrase_score (view_of s) sc f boost (zip es qs) fp_zero = Inr x"
      if "gather es 0 (anchor_of es) p = Some qs" for qs
      using gather_entries [OF inv es _ that] Cons.prems by (intro phrase_score_total [OF inv boost]) simp
    with Cons show ?case by (fastforce split: option.splits)
  qed simp
  from this [of ?ps "[]"] show ?thesis
    using es ne by (auto simp: evaluate_phrase_def)
qed (auto simp: evaluate_phrase_def)

lemma evaluate_total:
  assumes inv: "inv s"
  shows "plan_scorable (v_schema (view_of s)) p \<Longrightarrow> \<exists>cs. evaluate (view_of s) sc p = Inr cs"
    and "list_all (plan_scorable (v_schema (view_of s))) ps \<Longrightarrow> \<exists>cs. evaluate_and (view_of s) sc ps acc = Inr cs"
    and "list_all (plan_scorable (v_schema (view_of s))) ps \<Longrightarrow> \<exists>cs. evaluate_or (view_of s) sc ps acc = Inr cs"
proof (induction "view_of s" sc p and "view_of s" sc ps acc and "view_of s" sc ps acc
    rule: evaluate_evaluate_and_evaluate_or.induct)
  case (1 sc n f t boost)
  then show ?case
    using score_postings_total [OF inv, of f t] by (simp add: score_term_def split: option.split)
next
  case (3 sc n children)
  then show ?case by (cases children) (fastforce split: sum.split)+
next
  case (9 sc p ps acc)
  then show ?case by (fastforce simp: Let_def split: sum.split)
qed (use evaluate_phrase_total [OF inv] in \<open>fastforce simp: evaluate_range_def split: sum.split option.split\<close>)+

lemma search_plan_matching:
  assumes inv: "inv s" and res: "search_plan (view_of s) log1p parameters p k = Inr res"
  obtains xs where "distinct (map sd_id xs)" and "\<forall>x \<in> set xs. isfinite (sd_score x)"
    and "sd_id ` set xs = {doc_id (dr_document r) | i r. live (view_of s) i r \<and>
      plan_matches (v_schema (view_of s)) (dr_document r) p}"
    and "sr_hits res = take k (sort_key rank xs)" and "sr_total_hits res = length xs"
proof -
  obtain sc cs c where cs: "evaluate (view_of s) sc p = Inr cs"
      "collect_candidates (view_of s) cs (top_k_new k) = Inr c"
      "res = \<lparr>sr_hits = top_k_results c, sr_total_hits = length cs\<rparr>"
    using res by (auto simp: search_plan_def split: sum.splits)
  let ?ext = "\<lambda>i. the (v_external_id (view_of s) i)"
  let ?xs = "map (\<lambda>c. \<lparr>sd_id = ?ext (c_doc c), sd_score = c_score c\<rparr>) cs"
  note ans = evaluate_matching(1) [OF inv cs(1), unfolded answers_def]
  have ext: "\<exists>r. live (view_of s) i r \<and> v_external_id (view_of s) i = Some (doc_id (dr_document r)) \<and>
      plan_matches (v_schema (view_of s)) (dr_document r) p" if "i \<in> matching s p" for i
    using that external_live [OF inv] by (auto simp: matching_def)
  then have "\<forall>c \<in> set cs. v_external_id (view_of s) (c_doc c) = Some (?ext (c_doc c))"
    using ans by fastforce
  from collect_candidates_all [OF this] cs(2) have c: "c = collect_all ?xs (top_k_new k)"
      and fin: "\<forall>x \<in> set ?xs. isfinite (sd_score x)"
    by (auto split: if_splits)
  have "inj_on ?ext (matching s p)"
    using ext external_inj [OF inv] unfolding inj_on_def by (metis option.sel)
  then have "inj_on (\<lambda>c. ?ext (c_doc c)) (set cs)"
    using ans ssorted_by_inj [of c_doc cs] comp_inj_on [of c_doc "set cs" ?ext] by (simp add: comp_def)
  then have dis: "distinct (map sd_id ?xs)"
    using ans ssorted_by_distinct [of c_doc cs] by (simp add: comp_def distinct_map)
  have "sd_id ` set ?xs = ?ext ` (c_doc ` set cs)" by (simp add: image_image)
  also have "\<dots> = ?ext ` matching s p" using ans by simp
  also have "\<dots> = {doc_id (dr_document r) | i r. live (view_of s) i r \<and>
      plan_matches (v_schema (view_of s)) (dr_document r) p}"
    using external_live [OF inv] by (force simp: matching_def)
  finally show thesis
    using that [of ?xs] dis fin c collector_take [OF fin dis] cs(3) by simp
qed

lemma search_plan_total:
  assumes inv: "inv s" and ok: "plan_scorable (v_schema (view_of s)) p" and bm: "bm25_create parameters = Inr params"
  shows "(\<exists>res. search_plan (view_of s) log1p parameters p k = Inr res) \<or>
    search_plan (view_of s) log1p parameters p k = Inl (ex_error Ex_ranking_error ''non-finite score'')"
proof -
  let ?sc = "\<lparr>sc_log1p = log1p, sc_parameters = params\<rparr>"
  obtain cs where cs: "evaluate (view_of s) ?sc p = Inr cs"
    using evaluate_total(1) [OF inv ok] by blast
  note candidates_external [OF inv cs]
  from collect_candidates_all [OF this] show ?thesis
    by (simp add: search_plan_def bm cs)
qed

lemma explain_matching:
  assumes inv: "inv s" and x: "explain (view_of s) log1p parameters p did = Inr x"
  shows "matched x \<longleftrightarrow> (\<exists>i r. live (view_of s) i r \<and> doc_id (dr_document r) = did \<and>
    plan_matches (v_schema (view_of s)) (dr_document r) p)"
proof -
  obtain sc i cs where i: "v_internal_id (view_of s) did = Some i" "evaluate (view_of s) sc p = Inr cs"
      "explain_node (view_of s) sc i p = Inr x"
    using x by (auto simp: explain_def explain_node.simps split: sum.splits option.splits)
  have ext: "v_external_id (view_of s) i = Some did"
    by (rule internal_external [OF inv i(1)])
  have live: "live (view_of s) j r \<Longrightarrow> doc_id (dr_document r) = did \<longleftrightarrow> j = i" for j r
    using ext i(1) external_live [OF inv, of j r] internal_live [OF inv, of j r] by auto
  have "matched x \<longleftrightarrow> i \<in> matching s p"
    using explain_node_found [OF i(3,2)] found_score_answers(1) [OF evaluate_matching(1) [OF inv i(2)]] by simp
  also have "\<dots> \<longleftrightarrow> (\<exists>i r. live (view_of s) i r \<and> doc_id (dr_document r) = did \<and>
      plan_matches (v_schema (view_of s)) (dr_document r) p)"
    using live by (auto simp: matching_def)
  finally show ?thesis .
qed

lemma explain_hit:
  assumes inv: "inv s" and x: "explain (view_of s) log1p parameters p (sd_id h) = Inr x"
    and res: "search_plan (view_of s) log1p parameters p k = Inr res" and h: "h \<in> set (sr_hits res)"
  shows "matched x \<and> se_score x = sd_score h"
proof -
  obtain params where params: "bm25_create parameters = Inr params"
    using x by (auto simp: explain_def split: sum.splits)
  define sc where "sc = \<lparr>sc_log1p = log1p, sc_parameters = params\<rparr>"
  obtain i where i: "v_internal_id (view_of s) (sd_id h) = Some i" "explain_node (view_of s) sc i p = Inr x"
    using x params by (auto simp: explain_def sc_def split: option.splits)
  obtain cs where cs: "evaluate (view_of s) sc p = Inr cs"
    using res params by (auto simp: search_plan_def sc_def split: sum.splits)
  note ans = evaluate_matching(1) [OF inv cs]
  from search_plan_hits [OF res _ h, of params cs] params cs obtain c where c: "c \<in> set cs" "sd_score h = c_score c"
      "v_external_id (view_of s) (c_doc c) = Some (sd_id h)"
    by (auto simp: sc_def)
  have "c_doc c \<in> matching s p" using ans c(1) by (auto simp: answers_def)
  then obtain r where "live (view_of s) (c_doc c) r" by (auto simp: matching_def)
  then have "c_doc c = i"
    using external_live [OF inv] internal_live [OF inv] c(3) i(1) by (metis option.inject)
  with found_score_answers(2) [OF ans c(1)] explain_node_found [OF i(2) cs] c(2) show ?thesis by simp
qed

end

section \<open>Search over the in-memory index\<close>

lemma reachable_engine: "index_reachable schema maximum ix \<Longrightarrow> engine_schema schema \<Longrightarrow> engine_inv ix"
  using reachable_inv index_reachable_schema by (auto simp: engine_inv_def)

lemma live_memory:
  assumes "index_inv ix"
  shows "{doc_id (dr_document r) | i r. live (memory_view ix) i r \<and> P (dr_document r)} =
    {did. \<exists>r. index_document ix did = Some r \<and> \<not> doc_deleted (dr_document r) \<and> P (dr_document r)}"
    (is "?L = ?R")
proof -
  have "\<exists>i. index_document_internal ix i = Some r \<and> doc_id (dr_document r) = did"
    if "index_document ix did = Some r" for did r
    using that document_internal_iff [OF assms, of "dr_internal_id r" r] ids_invD(1) [OF index_invD(2) [OF assms]]
      documents_invD(2) [OF assms, of did r]
    by (auto simp: index_document_def index_external_id_def)
  then have "?R \<subseteq> ?L" by (auto simp: live_def) blast
  moreover have "index_document ix (doc_id (dr_document r)) = Some r" if "index_document_internal ix i = Some r" for i r
    using that document_internal_iff [OF assms, of i r] documents_invD(2) [OF assms]
    by (auto simp: index_document_def)
  then have "?L \<subseteq> ?R" by (auto simp: live_def)
  ultimately show ?thesis by auto
qed

end
