(* ===== verification/Planner_Proofs.thy ===== *)
theory Planner_Proofs
  imports Executor_Proofs "HOL-Library.Multiset"
begin

text \<open>
  The planner keeps the meaning of a query. Children of a boolean node are dropped when their
  canonical form came before, so the canonical form has to determine what a plan matches: it
  is shown to determine the plan up to its estimates and its boosts. A semantics of queries on
  documents, independent of plans and postings, is then shown to agree with the plans.
\<close>

section \<open>The canonical form determines the plan\<close>

text \<open>What is left of a plan without its estimates, its boosts and the offsets of its tokens.\<close>

datatype shape =
    STerm string string | SPhrase string "(string \<times> u32) list" | SAnd "shape list" | SOr "shape list"
  | SNot shape | SRange string string string bool bool | SAll

fun shape_of :: "plan \<Rightarrow> shape" where
  "shape_of (PlannedTerm _ f t _) = STerm f t"
| "shape_of (PlannedPhrase _ f tokens _) = SPhrase f (map (\<lambda>tok. (tok_term tok, tok_position tok)) tokens)"
| "shape_of (PlannedAnd _ ps) = SAnd (map shape_of ps)"
| "shape_of (PlannedOr _ ps) = SOr (map shape_of ps)"
| "shape_of (PlannedNot _ p) = SNot (shape_of p)"
| "shape_of (PlannedRange _ f l u il iu) = SRange f l u il iu"
| "shape_of (PlannedMatchAll _) = SAll"

lemma append_separated:
  assumes "a @ c # x = b @ d # y" and "\<forall>e \<in> set a. P e" and "\<forall>e \<in> set b. P e" and "\<not> P c" and "\<not> P d"
  shows "a = b \<and> c = d \<and> x = y"
proof -
  have "takeWhile P (a @ c # x) = a" "takeWhile P (b @ d # y) = b"
    using assms(2-5) by (simp_all add: takeWhile_append2)
  with assms(1) show ?thesis by simp
qed

lemma atom_append: "atom a @ x = atom b @ y \<longleftrightarrow> a = b \<and> x = y"
proof
  assume "atom a @ x = atom b @ y"
  then have "to_string_nat (length a) @ CHR '':'' # (a @ x) = to_string_nat (length b) @ CHR '':'' # (b @ y)"
    by (simp add: atom_def)
  from append_separated [OF this, of isdigit] have "length a = length b" "a @ x = b @ y"
    using to_string_nat_digits by (simp_all add: to_string_nat_inj isdigit_def)
  then show "a = b \<and> x = y" by simp
qed simp

lemma plain_separators [simp]:
  "\<not> plain_char (CHR '','')" "\<not> plain_char (CHR '')'')" "\<not> isdigit (CHR '','')" "\<not> isdigit (CHR '')'')"
  by (simp_all add: plain_char_def ctype_defs)

lemma fp_text_append:
  assumes "fp_text a @ c # x = fp_text b @ d # y" and "c \<in> {CHR '','', CHR '')''}" and "d \<in> {CHR '','', CHR '')''}"
  shows "c = d \<and> x = y"
  using append_separated [OF assms(1), of plain_char] plain_fp_text assms(2,3) by auto

definition token_text :: "token \<Rightarrow> string" where
  "token_text tok = '','' @ atom (tok_term tok) @ ''@'' @ to_string_nat (unat (tok_position tok))"

lemma tokens_text:
  "concat (map token_text ts) @ CHR '')'' # x = concat (map token_text us) @ CHR '')'' # y \<Longrightarrow>
   map (\<lambda>tok. (tok_term tok, tok_position tok)) ts = map (\<lambda>tok. (tok_term tok, tok_position tok)) us \<and> x = y"
proof (induction ts arbitrary: us)
  case Nil
  then show ?case by (cases us) (auto simp: token_text_def)
next
  case (Cons t ts)
  show ?case
  proof (cases us)
    case Nil
    with Cons.prems show ?thesis by (simp add: token_text_def)
  next
    case us: (Cons u us')
    have start: "\<exists>c z. concat (map token_text ts) @ CHR '')'' # x = c # z \<and> \<not> isdigit c" for ts x
      by (cases ts) (auto simp: token_text_def)
    obtain c z d w where cz: "concat (map token_text ts) @ CHR '')'' # x = c # z" "\<not> isdigit c"
        "concat (map token_text us') @ CHR '')'' # y = d # w" "\<not> isdigit d"
      using start by metis
    have "atom (tok_term t) @ ''@'' @ to_string_nat (unat (tok_position t)) @ c # z =
        atom (tok_term u) @ ''@'' @ to_string_nat (unat (tok_position u)) @ d # w"
      using Cons.prems unfolding us by (simp add: token_text_def [of t] token_text_def [of u] cz)
    then have "tok_term t = tok_term u" "to_string_nat (unat (tok_position t)) @ c # z =
        to_string_nat (unat (tok_position u)) @ d # w"
      unfolding atom_append by simp_all
    with append_separated [OF this(2), of isdigit] cz(2,4) to_string_nat_digits
    have "tok_term t = tok_term u \<and> tok_position t = tok_position u \<and> c # z = d # w"
      by (auto simp: to_string_nat_inj unsigned_word_eqI)
    with Cons.IH [of us'] cz us show ?thesis by simp
  qed
qed

lemma canonical_phrase:
  "canonical (PlannedPhrase n f tokens b) = ''P('' @ atom f @ '','' @ fp_text b @ concat (map token_text tokens) @ '')''"
  by (simp add: token_text_def [abs_def])

lemma canonical_hd: "\<exists>c z. canonical p = c # z \<and> c \<in> set ''TPAONRM''"
  by (cases p) auto

lemma children_text:
  assumes "\<And>p q x y. p \<in> set ps \<Longrightarrow> canonical p @ x = canonical q @ y \<Longrightarrow> shape_of p = shape_of q \<and> x = y"
    and "concat (map (\<lambda>c. canonical c @ '','') ps) @ CHR '')'' # x =
      concat (map (\<lambda>c. canonical c @ '','') qs) @ CHR '')'' # y"
  shows "map shape_of ps = map shape_of qs \<and> x = y"
  using assms
proof (induction ps arbitrary: qs)
  case Nil
  then show ?case using canonical_hd [of "hd qs"] by (cases qs) auto
next
  case (Cons p ps)
  show ?case
  proof (cases qs)
    case Nil
    with Cons.prems(2) canonical_hd [of p] show ?thesis by auto
  next
    case qs: (Cons q qs')
    from Cons.prems(2) have "canonical p @ (CHR '','' # concat (map (\<lambda>c. canonical c @ '','') ps) @ CHR '')'' # x) =
        canonical q @ (CHR '','' # concat (map (\<lambda>c. canonical c @ '','') qs') @ CHR '')'' # y)"
      by (simp add: qs)
    from Cons.prems(1) [OF list.set_intros(1) this] have p: "shape_of p = shape_of q"
      and rest: "concat (map (\<lambda>c. canonical c @ '','') ps) @ CHR '')'' # x =
         concat (map (\<lambda>c. canonical c @ '','') qs') @ CHR '')'' # y" by simp_all
    have "map shape_of ps = map shape_of qs' \<and> x = y"
      using Cons.prems(1) [OF list.set_intros(2)] rest by (rule Cons.IH)
    with p qs show ?thesis by simp
  qed
qed

lemma canonical_append: "canonical p @ x = canonical q @ y \<Longrightarrow> shape_of p = shape_of q \<and> x = y"
proof (induction p arbitrary: q x y)
  case (PlannedTerm n f t b)
  then obtain n' f' t' b' where q: "q = PlannedTerm n' f' t' b'" by (cases q) auto
  from PlannedTerm have "atom f @ CHR '','' # atom t @ CHR '','' # fp_text b @ CHR '')'' # x =
      atom f' @ CHR '','' # atom t' @ CHR '','' # fp_text b' @ CHR '')'' # y" by (simp add: q)
  then show ?case unfolding atom_append by (auto simp: atom_append q dest: fp_text_append)
next
  case (PlannedPhrase n f tokens b)
  then obtain n' f' tokens' b' where q: "q = PlannedPhrase n' f' tokens' b'" by (cases q) auto
  let ?tail = "\<lambda>ts x. concat (map token_text ts) @ CHR '')'' # x"
  have start: "\<exists>c z. ?tail ts x = c # z \<and> c \<in> {CHR '','', CHR '')''}" for ts x
    by (cases ts) (auto simp: token_text_def)
  from PlannedPhrase have "atom f @ CHR '','' # fp_text b @ ?tail tokens x =
      atom f' @ CHR '','' # fp_text b' @ ?tail tokens' y"
    unfolding q canonical_phrase by simp
  then have "f = f'" "fp_text b @ ?tail tokens x = fp_text b' @ ?tail tokens' y"
    unfolding atom_append by simp_all
  moreover obtain c z where c: "?tail tokens x = c # z" "c \<in> {CHR '','', CHR '')''}"
    using start [of tokens x] by blast
  moreover obtain d w where d: "?tail tokens' y = d # w" "d \<in> {CHR '','', CHR '')''}"
    using start [of tokens' y] by blast
  ultimately have "c = d \<and> z = w" using fp_text_append [of b c z b' d w] by simp
  with c d have "?tail tokens x = ?tail tokens' y" by simp
  from tokens_text [OF this] \<open>f = f'\<close> show ?case by (simp add: q)
next
  case (PlannedAnd n ps)
  from PlannedAnd.prems obtain n' ps' where q: "q = PlannedAnd n' ps'" by (cases q) auto
  have "concat (map (\<lambda>c. canonical c @ '','') ps) @ CHR '')'' # x =
      concat (map (\<lambda>c. canonical c @ '','') ps') @ CHR '')'' # y"
    using PlannedAnd.prems by (simp add: q)
  from children_text [OF PlannedAnd.IH this] show ?case by (simp add: q)
next
  case (PlannedOr n ps)
  from PlannedOr.prems obtain n' ps' where q: "q = PlannedOr n' ps'" by (cases q) auto
  have "concat (map (\<lambda>c. canonical c @ '','') ps) @ CHR '')'' # x =
      concat (map (\<lambda>c. canonical c @ '','') ps') @ CHR '')'' # y"
    using PlannedOr.prems by (simp add: q)
  from children_text [OF PlannedOr.IH this] show ?case by (simp add: q)
next
  case (PlannedNot n p)
  from PlannedNot.prems obtain n' p' where q: "q = PlannedNot n' p'" by (cases q) auto
  from PlannedNot.IH [of "CHR '')'' # x" p' "CHR '')'' # y"] PlannedNot.prems show ?case by (simp add: q)
next
  case (PlannedRange n f l u il iu)
  then obtain n' f' l' u' il' iu' where q: "q = PlannedRange n' f' l' u' il' iu'" by (cases q) auto
  from PlannedRange have "atom f @ CHR '','' # atom l @ CHR '','' # atom u @ CHR '','' #
      (if il then ''1'' else ''0'') @ CHR '','' # (if iu then ''1'' else ''0'') @ CHR '')'' # x =
      atom f' @ CHR '','' # atom l' @ CHR '','' # atom u' @ CHR '','' #
      (if il' then ''1'' else ''0'') @ CHR '','' # (if iu' then ''1'' else ''0'') @ CHR '')'' # y" by (simp add: q)
  then show ?case unfolding atom_append by (auto simp: atom_append q split: if_splits)
next
  case (PlannedMatchAll n)
  then show ?case by (cases q) auto
qed

lemma canonical_shape: "canonical p = canonical q \<Longrightarrow> shape_of p = shape_of q"
  using canonical_append [of p "[]" q "[]"] by simp

lemma map_eq_all2:
  "map f xs = map f ys \<Longrightarrow> (\<And>x y. x \<in> set xs \<Longrightarrow> f x = f y \<Longrightarrow> R x y) \<Longrightarrow> list_all2 R xs ys"
proof (induction xs arbitrary: ys)
  case (Cons x xs)
  then obtain y ys' where y: "ys = y # ys'" "f x = f y" "map f xs = map f ys'" by (cases ys) auto
  have "list_all2 R xs ys'"
    using y(3) Cons.prems(2) [OF list.set_intros(2)] by (rule Cons.IH)
  with y Cons.prems(2) [of x y] show ?case by simp
qed simp

lemma shape_matches: "shape_of p = shape_of q \<Longrightarrow> plan_matches schema d p = plan_matches schema d q"
proof (induction p arbitrary: q)
  case (PlannedPhrase n f tokens b)
  then obtain n' tokens' b' where q: "q = PlannedPhrase n' f tokens' b'" by (cases q) auto
  define key where "key = (\<lambda>tok :: token. (tok_term tok, tok_position tok))"
  have occ: "phrase_occurs pos ts \<longleftrightarrow> (case map key ts of [] \<Rightarrow> False | first # rest \<Rightarrow>
      \<exists>base \<in> set (pos (fst first)). \<forall>k \<in> set rest. \<exists>x \<in> set (pos (fst k)).
        unat x = unat base + unat (snd k - snd first))" for pos ts
    by (cases ts) (auto simp: phrase_occurs_def key_def)
  have "map key tokens = map key tokens'" using PlannedPhrase by (simp add: q key_def)
  then show ?case by (simp add: q occ)
next
  case (PlannedAnd n ps)
  from PlannedAnd.prems obtain n' ps' where q: "q = PlannedAnd n' ps'" "map shape_of ps = map shape_of ps'" by (cases q) auto
  have "list_all2 (\<lambda>a b. plan_matches schema d a = plan_matches schema d b) ps ps'"
    by (rule map_eq_all2 [OF q(2)], rule PlannedAnd.IH)
  then show ?case by (auto simp: q list_all_length list_all2_conv_all_nth)
next
  case (PlannedOr n ps)
  from PlannedOr.prems obtain n' ps' where q: "q = PlannedOr n' ps'" "map shape_of ps = map shape_of ps'" by (cases q) auto
  have "list_all2 (\<lambda>a b. plan_matches schema d a = plan_matches schema d b) ps ps'"
    by (rule map_eq_all2 [OF q(2)], rule PlannedOr.IH)
  then show ?case by (auto simp: q list_ex_length list_all2_conv_all_nth)
next
  case (PlannedNot n p)
  from PlannedNot.prems obtain n' p' where q: "q = PlannedNot n' p'" "shape_of p = shape_of p'" by (cases q) auto
  from PlannedNot.IH [OF q(2)] show ?case by (simp add: q)
next
  case (PlannedTerm n f t b)
  then show ?case by (cases q) auto
next
  case (PlannedRange n f l u il iu)
  then show ?case by (cases q) auto
next
  case (PlannedMatchAll n)
  then show ?case by (cases q) auto
qed

section \<open>What a query means\<close>

definition field_tokens :: "schema \<Rightarrow> string \<Rightarrow> string \<Rightarrow> token list" where
  "field_tokens schema f s =
     (case schema_find schema f of
        None \<Rightarrow> []
      | Some fd \<Rightarrow> (case fd_analyzer fd of
          None \<Rightarrow> []
        | Some a \<Rightarrow> (case analyze a s of Inl _ \<Rightarrow> [] | Inr tokens \<Rightarrow> tokens)))"

text \<open>
  A term without a field is looked for in every default field, with the tokens that field's
  analyzer makes of it; one of the tokens has to occur. A phrase has to occur as a whole. The
  bounds of a range are taken as they were written.
\<close>

fun query_matches :: "schema \<Rightarrow> string list \<Rightarrow> document \<Rightarrow> string option \<Rightarrow> query \<Rightarrow> bool" where
  "query_matches schema defaults d field (TermQuery _ s) =
     (\<exists>f \<in> set (case field of None \<Rightarrow> defaults | Some f \<Rightarrow> [f]).
        \<exists>tok \<in> set (field_tokens schema f s). term_positions schema d f (tok_term tok) \<noteq> [])"
| "query_matches schema defaults d field (PhraseQuery _ s) =
     (\<exists>f \<in> set (case field of None \<Rightarrow> defaults | Some f \<Rightarrow> [f]).
        phrase_occurs (term_positions schema d f) (field_tokens schema f s))"
| "query_matches schema defaults d field (AndQuery _ l r) =
     (query_matches schema defaults d field l \<and> query_matches schema defaults d field r)"
| "query_matches schema defaults d field (OrQuery _ l r) =
     (query_matches schema defaults d field l \<or> query_matches schema defaults d field r)"
| "query_matches schema defaults d field (NotQuery _ q) = (\<not> query_matches schema defaults d field q)"
| "query_matches schema defaults d field (FieldQuery _ f q) = query_matches schema defaults d (Some f) q"
| "query_matches schema defaults d field (RangeFilter _ f lower upper il iu) =
     (case (schema_find schema f, doc_value d f) of
        (Some fd, Some value) \<Rightarrow> range_matches fd value lower upper il iu
      | _ \<Rightarrow> False)"
| "query_matches schema defaults d field (BoostQuery _ q _) = query_matches schema defaults d field q"
| "query_matches schema defaults d field (MatchAllQuery _) = True"

section \<open>The planner keeps the meaning\<close>

lemma make_Inr: "Planner.make opts p b = Inr (p', b') \<Longrightarrow> p' = p"
  by (simp add: Planner.make_def Let_def split: if_splits)

lemma keyed_sound:
  "x \<in> set (keyed cs acc) \<Longrightarrow> x \<in> set acc \<or> (fst x = canonical (snd x) \<and> snd x \<in> set cs)"
  by (induction cs arbitrary: acc) (force simp: Let_def split: if_splits)+

lemma keyed_acc: "set acc \<subseteq> set (keyed cs acc)"
proof (induction cs arbitrary: acc)
  case (Cons c cs)
  from Cons [of acc] Cons [of "acc @ [(canonical c, c)]"] show ?case by (auto simp: Let_def)
qed simp

lemma keyed_complete: "c \<in> set cs \<Longrightarrow> \<exists>x \<in> set (keyed cs acc). fst x = canonical c"
proof (induction cs arbitrary: acc)
  case (Cons c' cs)
  show ?case
  proof (cases "c = c'")
    case True
    let ?acc = "if canonical c \<in> fst ` set acc then acc else acc @ [(canonical c, c)]"
    have "\<exists>x \<in> set ?acc. fst x = canonical c" by force
    with keyed_acc [of ?acc cs] have "\<exists>x \<in> set (keyed cs ?acc). fst x = canonical c" by blast
    with True show ?thesis by (simp add: Let_def split: if_splits)
  qed (use Cons in \<open>auto simp: Let_def\<close>)
qed simp

lemma keyed_matches:
  "(\<exists>x \<in> set (keyed cs []). plan_matches schema d (snd x)) \<longleftrightarrow> (\<exists>c \<in> set cs. plan_matches schema d c)"
  "(\<forall>x \<in> set (keyed cs []). plan_matches schema d (snd x)) \<longleftrightarrow> (\<forall>c \<in> set cs. plan_matches schema d c)"
proof -
  have "\<exists>x \<in> set (keyed cs []). plan_matches schema d (snd x) = plan_matches schema d c" if c: "c \<in> set cs" for c
  proof -
    obtain x where x: "x \<in> set (keyed cs [])" "fst x = canonical c" using keyed_complete [OF c] by blast
    with keyed_sound [OF x(1)] have "canonical (snd x) = canonical c" by simp
    with x(1) shape_matches [OF canonical_shape] show ?thesis by blast
  qed
  moreover have "snd x \<in> set cs" if "x \<in> set (keyed cs [])" for x using keyed_sound [OF that] by simp
  ultimately show "(\<exists>x \<in> set (keyed cs []). plan_matches schema d (snd x)) \<longleftrightarrow> (\<exists>c \<in> set cs. plan_matches schema d c)"
    "(\<forall>x \<in> set (keyed cs []). plan_matches schema d (snd x)) \<longleftrightarrow> (\<forall>c \<in> set cs. plan_matches schema d c)"
    by blast+
qed

lemma keyed_Nil: "keyed cs [] = [] \<longleftrightarrow> cs = []"
  using keyed_complete [of "hd cs" cs "[]"] by (cases cs) auto

definition boolean_matches :: "schema \<Rightarrow> document \<Rightarrow> bool \<Rightarrow> plan list \<Rightarrow> bool" where
  "boolean_matches schema d cost_order cs \<longleftrightarrow>
     (if cost_order then cs \<noteq> [] \<and> (\<forall>c \<in> set cs. plan_matches schema d c)
      else (\<exists>c \<in> set cs. plan_matches schema d c))"

lemma boolean_node_matches:
  "plan_matches schema d (boolean_node cost_order n ps) \<longleftrightarrow> boolean_matches schema d cost_order ps"
  by (simp add: boolean_node_def boolean_matches_def list_all_iff list_ex_iff)

lemma normalize_boolean_cases:
  assumes "normalize_boolean v opts cost_order cs b = Inr (p, b')"
  obtains (single) x where "keyed cs [] = [x]" and "p = snd x" and "b' = b"
  | (node) ks n where "mset ks = mset (keyed cs [])"
      and "Planner.make opts (boolean_node cost_order n (map snd ks)) b = Inr (p, b')"
proof -
  let ?ks = "keyed cs []"
  let ?ordered = "if cost_order then sort_key (\<lambda>(key, p). (estimated_matches p, key)) ?ks else sort_key fst ?ks"
  have m: "mset ?ordered = mset ?ks" by simp
  consider "?ks = []" | x where "?ks = [x]" | "?ks \<noteq> []" "length ?ks \<noteq> 1"
    by (cases ?ks) auto
  then show thesis
  proof cases
    case 1
    with assms show thesis by (intro node [of "[]" 0]) (simp_all add: normalize_boolean_def Let_def)
  next
    case (2 x)
    with assms show thesis by (intro single [of x]) (simp_all add: normalize_boolean_def Let_def)
  next
    case 3
    with assms show thesis
      by (intro node [OF m, of "combined_estimate v cost_order (map snd ?ordered)"])
        (simp add: normalize_boolean_def Let_def split: if_splits)
  qed
qed

lemma normalize_boolean_matches:
  assumes "normalize_boolean v opts cost_order cs b = Inr (p, b')"
  shows "plan_matches schema d p \<longleftrightarrow> boolean_matches schema d cost_order cs"
proof -
  have any: "boolean_matches schema d cost_order (map snd ks) \<longleftrightarrow> boolean_matches schema d cost_order cs"
    if "mset ks = mset (keyed cs [])" for ks
  proof -
    from that have "set ks = set (keyed cs [])" by (rule mset_eq_setD)
    moreover from that have "ks = [] \<longleftrightarrow> cs = []" using keyed_Nil [of cs] by auto
    ultimately show ?thesis using keyed_matches by (simp add: boolean_matches_def)
  qed
  from assms show ?thesis
  proof (cases rule: normalize_boolean_cases)
    case (single x)
    with any [of "[x]"] show ?thesis by (auto simp: boolean_matches_def)
  next
    case (node ks n)
    from make_Inr [OF node(2)] any [OF node(1)] show ?thesis by (simp add: boolean_node_matches)
  qed
qed

text \<open>The children that the loops over tokens and over default fields collect.\<close>

lemma term_children_matches:
  "term_children v opts f boost tokens seen cs b = Inr (cs', b') \<Longrightarrow>
   (\<forall>t \<in> set seen. (\<exists>c \<in> set cs. plan_matches schema d c = (term_positions schema d f t \<noteq> []))) \<Longrightarrow>
   (\<exists>c \<in> set cs'. plan_matches schema d c) \<longleftrightarrow> (\<exists>c \<in> set cs. plan_matches schema d c) \<or>
     (\<exists>tok \<in> set tokens. term_positions schema d f (tok_term tok) \<noteq> [])"
proof (induction tokens arbitrary: seen cs b)
  case (Cons tok tokens)
  show ?case
  proof (cases "tok_term tok \<in> set seen")
    case True
    with Cons.IH [of seen cs b] Cons.prems show ?thesis by auto
  next
    case False
    then obtain n b1 where "term_children v opts f boost tokens (tok_term tok # seen)
        (cs @ [PlannedTerm n f (tok_term tok) boost]) b1 = Inr (cs', b')"
      using Cons.prems(1) by (auto simp: Let_def split: sum.splits dest!: make_Inr)
    from Cons.IH [OF this] Cons.prems(2) show ?thesis by auto
  qed
qed simp

lemma searchable_field_Inr:
  "searchable_field v f = Inr (fd, a) \<Longrightarrow> schema_find (v_schema v) f = Some fd \<and> fd_analyzer fd = Some a"
  by (auto simp: searchable_field_def split: option.splits if_splits)

lemma plan_analyze_Inr: "plan_analyze opts a s phrase b = Inr (tokens, b') \<Longrightarrow> analyze a s = Inr tokens"
  by (auto simp: plan_analyze_def Let_def split: sum.splits if_splits)

lemma term_for_field_matches:
  assumes "term_for_field v opts f s boost b = Inr (p, b')"
  shows "plan_matches schema d p \<longleftrightarrow>
    (\<exists>tok \<in> set (field_tokens (v_schema v) f s). term_positions schema d f (tok_term tok) \<noteq> [])"
proof -
  obtain fd a tokens b1 cs b2 where t: "searchable_field v f = Inr (fd, a)" "plan_analyze opts a s False b = Inr (tokens, b1)"
      "term_children v opts f (fmul boost (fd_boost fd)) tokens [] [] b1 = Inr (cs, b2)"
      "normalize_boolean v opts False cs b2 = Inr (p, b')"
    using assms by (auto simp: term_for_field_def normalize_or_def split: sum.splits prod.splits)
  have "field_tokens (v_schema v) f s = tokens"
    using searchable_field_Inr [OF t(1)] plan_analyze_Inr [OF t(2)] by (simp add: field_tokens_def)
  then show ?thesis
    using normalize_boolean_matches [OF t(4)] term_children_matches [OF t(3)] by (simp add: boolean_matches_def)
qed

lemma phrase_for_field_matches:
  assumes "phrase_for_field v opts f s boost b = Inr (p, b')"
  shows "plan_matches schema d p \<longleftrightarrow> phrase_occurs (term_positions schema d f) (field_tokens (v_schema v) f s)"
  using assms searchable_field_Inr plan_analyze_Inr
  by (fastforce simp: phrase_for_field_def field_tokens_def Let_def split: sum.splits prod.splits dest!: make_Inr)

lemma default_children_matches:
  assumes "\<And>f x b p b'. child_for f x b = Inr (p, b') \<Longrightarrow> plan_matches schema d p = P f"
  shows "default_children child_for boost sfs cs b = Inr (cs', b') \<Longrightarrow>
    (\<exists>c \<in> set cs'. plan_matches schema d c) \<longleftrightarrow> (\<exists>c \<in> set cs. plan_matches schema d c) \<or> (\<exists>sf \<in> set sfs. P (sf_name sf))"
proof (induction sfs arbitrary: cs b)
  case (Cons sf sfs)
  then obtain p b1 where p: "child_for (sf_name sf) (fmul boost (sf_boost sf)) b = Inr (p, b1)"
      "default_children child_for boost sfs (cs @ [p]) b1 = Inr (cs', b')"
    by (auto split: sum.splits)
  from Cons.IH [OF p(2)] assms [OF p(1)] show ?case by auto
qed simp

lemma build_leaf_matches:
  assumes "\<And>f x b p b'. child_for f x b = Inr (p, b') \<Longrightarrow> plan_matches schema d p = P f"
    and "build_leaf v opts child_for field boost b = Inr (p, b')"
  shows "plan_matches schema d p \<longleftrightarrow>
    (\<exists>f \<in> set (case field of None \<Rightarrow> map sf_name (po_default_fields opts) | Some f \<Rightarrow> [f]). P f)"
proof (cases field)
  case None
  with assms(2) obtain cs b1 where cs: "default_children child_for boost (po_default_fields opts) [] b = Inr (cs, b1)"
      "normalize_boolean v opts False cs b1 = Inr (p, b')"
    by (auto simp: build_leaf_def normalize_or_def split: sum.splits)
  show ?thesis
    using normalize_boolean_matches [OF cs(2)] default_children_matches [OF assms(1) cs(1)] None
    by (simp add: boolean_matches_def)
qed (use assms in \<open>auto simp: build_leaf_def\<close>)

lemma normalize_bound_Inr:
  assumes "normalize_bound v fd f bound = Inr bound'" and "schema_find (v_schema v) f = Some fd"
  shows "fd_type fd \<noteq> FT_int64 \<Longrightarrow> bound' = bound" "fd_type fd = FT_int64 \<Longrightarrow> int_bound_ok x bound' l i = int_bound_ok x bound l i"
proof -
  show "fd_type fd \<noteq> FT_int64 \<Longrightarrow> bound' = bound"
    using assms by (auto simp: normalize_bound_def split: if_splits sum.splits)
  assume int: "fd_type fd = FT_int64"
  show "int_bound_ok x bound' l i = int_bound_ok x bound l i"
  proof (cases "bound = ''*''")
    case False
    obtain n y where y: "from_chars_i64 bound = (Errc_ok, n, y)" "bound' = to_string_int y"
      using assms int False by (auto simp: normalize_bound_def validate_value_def split: if_splits sum.splits prod.splits)
    then have "- (2 ^ 63) \<le> y" "y \<le> 2 ^ 63 - 1"
      by (auto simp: from_chars_i64_def from_chars_signed_def Let_def split: if_splits)
    then have "from_chars_i64 bound' = (Errc_ok, length bound', y)"
      using y(2) from_chars_signed_to_string by (simp add: from_chars_i64_def)
    moreover have "bound' \<noteq> ''*''"
      using to_string_nat_digits [of "nat y"] y(2) by (auto simp: to_string_int_def isdigit_def split: if_splits)
    ultimately show ?thesis using False y(1) by (simp add: int_bound_ok_def)
  qed (use assms in \<open>simp add: normalize_bound_def\<close>)
qed

lemma build_range_matches:
  assumes "build_range v opts f lower upper il iu b = Inr (p, b')"
  shows "plan_matches (v_schema v) d p = query_matches (v_schema v) defaults d field (RangeFilter n f lower upper il iu)"
proof -
  obtain fd lower' upper' where fd: "schema_find (v_schema v) f = Some fd"
    and l: "normalize_bound v fd f lower = Inr lower'" and u: "normalize_bound v fd f upper = Inr upper'"
    and p: "p = PlannedRange (v_live_document_count v) f lower' upper' il iu"
    using assms by (auto simp: build_range_def split: option.splits if_splits sum.splits dest!: make_Inr)
  have "range_matches fd x lower' upper' il iu = range_matches fd x lower upper il iu" for x
    using normalize_bound_Inr [OF l fd] normalize_bound_Inr [OF u fd] by (simp add: range_matches_def split: prod.splits)
  then show ?thesis by (simp add: p fd split: option.splits)
qed

lemma build_matches:
  "build v opts q field boost depth b = Inr (p, b') \<Longrightarrow>
   plan_matches (v_schema v) d p =
     query_matches (v_schema v) (map sf_name (po_default_fields opts)) d field q"
proof (induction q arbitrary: field boost depth b p b')
  case (TermQuery n s)
  then show ?case
    by (subst (asm) build.simps) (auto simp: Let_def split: if_splits
        dest!: build_leaf_matches [rotated, where d = d and schema = "v_schema v", OF _ term_for_field_matches])
next
  case (PhraseQuery n s)
  then show ?case
    by (subst (asm) build.simps) (auto simp: Let_def split: if_splits
        dest!: build_leaf_matches [rotated, where d = d and schema = "v_schema v", OF _ phrase_for_field_matches])
next
  case (AndQuery n l r)
  from AndQuery.prems obtain x1 x2 x3 lp b1 rp b2 where
    "build v opts l field boost x1 x2 = Inr (lp, b1)" "build v opts r field boost x3 b1 = Inr (rp, b2)"
    "normalize_boolean v opts True [lp, rp] b2 = Inr (p, b')"
    by (subst (asm) build.simps) (auto simp: Let_def split: if_splits sum.splits)
  with AndQuery.IH normalize_boolean_matches show ?case by (simp add: boolean_matches_def)
next
  case (OrQuery n l r)
  from OrQuery.prems obtain x1 x2 x3 lp b1 rp b2 where
    "build v opts l field boost x1 x2 = Inr (lp, b1)" "build v opts r field boost x3 b1 = Inr (rp, b2)"
    "normalize_boolean v opts False [lp, rp] b2 = Inr (p, b')"
    by (subst (asm) build.simps) (auto simp: Let_def normalize_or_def split: if_splits sum.splits)
  with OrQuery.IH normalize_boolean_matches show ?case by (simp add: boolean_matches_def)
next
  case (RangeFilter n f lower upper il iu)
  then obtain b1 where "build_range v opts f lower upper il iu b1 = Inr (p, b')"
    by (subst (asm) build.simps) (auto simp: Let_def split: if_splits)
  then show ?case by (rule build_range_matches)
qed ((subst (asm) build.simps, auto simp: Let_def split: if_splits sum.splits dest!: make_Inr)+)

lemma plan_query_matches:
  "plan_query v q opts = Inr p \<Longrightarrow> plan_matches (v_schema v) d p =
     query_matches (v_schema v) (map sf_name (po_default_fields opts)) d None q"
  by (auto simp: plan_query_def build_matches split: if_splits sum.splits)

section \<open>The limits of the planner\<close>

fun plan_size :: "plan \<Rightarrow> nat" where
  "plan_size (PlannedAnd _ ps) = 1 + sum_list (map plan_size ps)"
| "plan_size (PlannedOr _ ps) = 1 + sum_list (map plan_size ps)"
| "plan_size (PlannedNot _ p) = 1 + plan_size p"
| "plan_size _ = 1"

fun query_size :: "query \<Rightarrow> nat" where
  "query_size (AndQuery _ l r) = 1 + query_size l + query_size r"
| "query_size (OrQuery _ l r) = 1 + query_size l + query_size r"
| "query_size (NotQuery _ q) = 1 + query_size q"
| "query_size (FieldQuery _ _ q) = 1 + query_size q"
| "query_size (BoostQuery _ q _) = 1 + query_size q"
| "query_size _ = 1"

fun query_height :: "query \<Rightarrow> nat" where
  "query_height (AndQuery _ l r) = 1 + max (query_height l) (query_height r)"
| "query_height (OrQuery _ l r) = 1 + max (query_height l) (query_height r)"
| "query_height (NotQuery _ q) = 1 + query_height q"
| "query_height (FieldQuery _ _ q) = 1 + query_height q"
| "query_height (BoostQuery _ q _) = 1 + query_height q"
| "query_height _ = 0"

text \<open>
  A step of the builder that turns the plans \<open>cs\<close> into the plans \<open>ps\<close>: every new node was counted,
  the count stays within the limit, and the nodes of the query are not counted again.
\<close>

definition counted :: "planner_options \<Rightarrow> builder \<Rightarrow> plan list \<Rightarrow> builder \<Rightarrow> plan list \<Rightarrow> bool" where
  "counted opts b cs b' ps \<longleftrightarrow>
     planned_nodes b + sum_list (map plan_size ps) \<le> planned_nodes b' + sum_list (map plan_size cs) \<and>
     (planned_nodes b \<le> maximum_nodes (po_limits opts) \<longrightarrow> planned_nodes b' \<le> maximum_nodes (po_limits opts)) \<and>
     source_nodes b' = source_nodes b"

lemma counted_make:
  "Planner.make opts p b = Inr (p', b') \<Longrightarrow> plan_size p \<le> 1 + sum_list (map plan_size cs) \<Longrightarrow> counted opts b cs b' [p']"
  by (auto simp: Planner.make_def counted_def Let_def split: if_splits)

lemma keyed_size:
  "sum_list (map (\<lambda>x. plan_size (snd x)) (keyed cs acc)) \<le>
   sum_list (map plan_size cs) + sum_list (map (\<lambda>x. plan_size (snd x)) acc)"
proof (induction cs arbitrary: acc)
  case (Cons c cs)
  from Cons [of acc] Cons [of "acc @ [(canonical c, c)]"] show ?case by (auto simp: Let_def)
qed simp

lemma counted_normalize:
  assumes "normalize_boolean v opts cost_order cs b = Inr (p, b')"
  shows "counted opts b cs b' [p]"
proof -
  have ks: "sum_list (map (\<lambda>x. plan_size (snd x)) (keyed cs [])) \<le> sum_list (map plan_size cs)"
    using keyed_size [of cs "[]"] by simp
  from assms show ?thesis
  proof (cases rule: normalize_boolean_cases)
    case (node ks n)
    have "sum_list (map (\<lambda>x. plan_size (snd x)) ks) = sum_list (map (\<lambda>x. plan_size (snd x)) (keyed cs []))"
      using arg_cong [OF node(1), of "\<lambda>m. sum_mset (image_mset (\<lambda>x. plan_size (snd x)) m)"]
      by (simp flip: mset_map add: sum_mset_sum_list)
    with ks counted_make [OF node(2), of cs] show ?thesis
      by (simp add: boolean_node_def comp_def)
  qed (use ks in \<open>simp add: counted_def\<close>)
qed

lemma counted_term_children:
  "term_children v opts f boost tokens seen cs b = Inr (cs', b') \<Longrightarrow> counted opts b cs b' cs'"
proof (induction tokens arbitrary: seen cs b)
  case (Cons tok tokens)
  show ?case
  proof (cases "tok_term tok \<in> set seen")
    case False
    then obtain n b1 where n: "Planner.make opts (PlannedTerm n f (tok_term tok) boost) b = Inr (PlannedTerm n f (tok_term tok) boost, b1)"
        "term_children v opts f boost tokens (tok_term tok # seen) (cs @ [PlannedTerm n f (tok_term tok) boost]) b1 = Inr (cs', b')"
      using Cons.prems by (auto simp: Let_def split: sum.splits dest: make_Inr)
    from Cons.IH [OF n(2)] counted_make [OF n(1), of "[]"] show ?thesis by (auto simp: counted_def)
  qed (use Cons in simp)
qed (simp add: counted_def)

lemma counted_analyze: "plan_analyze opts a s phrase b = Inr (tokens, b') \<Longrightarrow> counted opts b cs b' cs"
  by (auto simp: plan_analyze_def counted_def Let_def split: sum.splits if_splits)

lemma counted_trans: "counted opts b cs b1 ps \<Longrightarrow> counted opts b1 ps b2 qs \<Longrightarrow> counted opts b cs b2 qs"
  by (auto simp: counted_def)

lemma counted_term_for_field:
  "term_for_field v opts f s boost b = Inr (p, b') \<Longrightarrow> counted opts b [] b' [p]"
  by (auto simp: term_for_field_def normalize_or_def split: sum.splits prod.splits
      elim!: counted_trans [OF counted_analyze counted_trans [OF counted_term_children counted_normalize]])

lemma counted_phrase_for_field:
  "phrase_for_field v opts f s boost b = Inr (p, b') \<Longrightarrow> counted opts b [] b' [p]"
  by (auto simp: phrase_for_field_def Let_def split: sum.splits prod.splits
      elim!: counted_trans [OF counted_analyze counted_make])

lemma counted_default_children:
  assumes "\<And>f x b p b'. child_for f x b = Inr (p, b') \<Longrightarrow> counted opts b [] b' [p]"
  shows "default_children child_for boost sfs cs b = Inr (cs', b') \<Longrightarrow> counted opts b cs b' cs'"
proof (induction sfs arbitrary: cs b)
  case (Cons sf sfs)
  then obtain p b1 where p: "child_for (sf_name sf) (fmul boost (sf_boost sf)) b = Inr (p, b1)"
      "default_children child_for boost sfs (cs @ [p]) b1 = Inr (cs', b')"
    by (auto split: sum.splits)
  from Cons.IH [OF p(2)] assms [OF p(1)] show ?case by (auto simp: counted_def)
qed (simp add: counted_def)

lemma counted_leaf:
  assumes "\<And>f x b p b'. child_for f x b = Inr (p, b') \<Longrightarrow> counted opts b [] b' [p]"
    and "build_leaf v opts child_for field boost b = Inr (p, b')"
  shows "counted opts b [] b' [p]"
  using assms(2) counted_trans [OF counted_default_children [OF assms(1)] counted_normalize]
  by (auto simp: build_leaf_def normalize_or_def split: option.splits sum.splits intro: assms(1))

definition within :: "planner_options \<Rightarrow> query \<Rightarrow> nat \<Rightarrow> builder \<Rightarrow> plan \<Rightarrow> builder \<Rightarrow> bool" where
  "within opts q depth b p b' \<longleftrightarrow>
     planned_nodes b + plan_size p \<le> planned_nodes b' \<and>
     (planned_nodes b \<le> maximum_nodes (po_limits opts) \<longrightarrow> planned_nodes b' \<le> maximum_nodes (po_limits opts)) \<and>
     source_nodes b' = source_nodes b + query_size q \<and> source_nodes b' \<le> maximum_nodes (po_limits opts) \<and>
     depth + query_height q \<le> maximum_depth (po_limits opts)"

lemma build_within: "build v opts q field boost depth b = Inr (p, b') \<Longrightarrow> within opts q depth b p b'"
proof (induction q arbitrary: field boost depth b p b')
  case (TermQuery n s)
  then show ?case
    using counted_leaf [OF counted_term_for_field]
    by (subst (asm) build.simps) (fastforce simp: Let_def within_def counted_def split: if_splits)
next
  case (PhraseQuery n s)
  then show ?case
    using counted_leaf [OF counted_phrase_for_field]
    by (subst (asm) build.simps) (fastforce simp: Let_def within_def counted_def split: if_splits)
next
  case (AndQuery n l r)
  from AndQuery.prems obtain lp b1 rp b2 where
    "build v opts l field boost (depth + 1) (b\<lparr>source_nodes := source_nodes b + 1\<rparr>) = Inr (lp, b1)"
    "build v opts r field boost (depth + 1) b1 = Inr (rp, b2)"
    "normalize_boolean v opts True [lp, rp] b2 = Inr (p, b')"
    by (subst (asm) build.simps) (auto simp: Let_def split: if_splits sum.splits)
  with AndQuery.IH(1) [OF this(1)] AndQuery.IH(2) [OF this(2)] counted_normalize [OF this(3)] show ?case
    by (auto simp: within_def counted_def)
next
  case (OrQuery n l r)
  from OrQuery.prems obtain lp b1 rp b2 where
    "build v opts l field boost (depth + 1) (b\<lparr>source_nodes := source_nodes b + 1\<rparr>) = Inr (lp, b1)"
    "build v opts r field boost (depth + 1) b1 = Inr (rp, b2)"
    "normalize_boolean v opts False [lp, rp] b2 = Inr (p, b')"
    by (subst (asm) build.simps) (auto simp: Let_def normalize_or_def split: if_splits sum.splits)
  with OrQuery.IH(1) [OF this(1)] OrQuery.IH(2) [OF this(2)] counted_normalize [OF this(3)] show ?case
    by (auto simp: within_def counted_def)
next
  case (NotQuery n q)
  from NotQuery.prems obtain p' b1 where
    p': "build v opts q field boost (depth + 1) (b\<lparr>source_nodes := source_nodes b + 1\<rparr>) = Inr (p', b1)"
    "Planner.make opts (PlannedNot (v_live_document_count v) p') b1 = Inr (p, b')"
    by (subst (asm) build.simps) (auto simp: Let_def split: if_splits sum.splits)
  from NotQuery.IH [OF p'(1)] counted_make [OF p'(2), of "[p']"] show ?case
    by (auto simp: within_def counted_def)
next
  case (FieldQuery n f q)
  from FieldQuery.prems have
    "build v opts q (Some f) boost (depth + 1) (b\<lparr>source_nodes := source_nodes b + 1\<rparr>) = Inr (p, b')"
    by (subst (asm) build.simps) (auto simp: Let_def split: if_splits)
  from FieldQuery.IH [OF this] show ?case by (simp add: within_def)
next
  case (BoostQuery n q x)
  from BoostQuery.prems have
    "build v opts q field (fmul boost x) (depth + 1) (b\<lparr>source_nodes := source_nodes b + 1\<rparr>) = Inr (p, b')"
    by (subst (asm) build.simps) (auto simp: Let_def split: if_splits)
  from BoostQuery.IH [OF this] show ?case by (simp add: within_def)
next
  case (RangeFilter n f lower upper il iu)
  then show ?case
    by (subst (asm) build.simps) (auto simp: Let_def within_def build_range_def Planner.make_def
        split: if_splits option.splits sum.splits)
next
  case (MatchAllQuery n)
  then show ?case
    by (subst (asm) build.simps) (auto simp: Let_def within_def Planner.make_def split: if_splits)
qed

lemma plan_query_within:
  assumes "plan_query v q opts = Inr p"
  shows "plan_size p \<le> maximum_nodes (po_limits opts)" and "query_size q \<le> maximum_nodes (po_limits opts)"
    and "query_height q \<le> maximum_depth (po_limits opts)"
  using assms by (auto simp: plan_query_def within_def split: if_splits sum.splits dest!: build_within)

section \<open>The depth and the phrases of a plan\<close>

fun plan_height :: "plan \<Rightarrow> nat" where
  "plan_height (PlannedAnd _ children) = 1 + foldr (\<lambda>c h. max (plan_height c) h) children 0"
| "plan_height (PlannedOr _ children) = 1 + foldr (\<lambda>c h. max (plan_height c) h) children 0"
| "plan_height (PlannedNot _ operand) = 1 + plan_height operand"
| "plan_height _ = 0"

fun phrases_within :: "nat \<Rightarrow> plan \<Rightarrow> bool" where
  "phrases_within m (PlannedPhrase _ _ tokens _) \<longleftrightarrow> length tokens \<le> m"
| "phrases_within m (PlannedAnd _ children) \<longleftrightarrow> list_all (phrases_within m) children"
| "phrases_within m (PlannedOr _ children) \<longleftrightarrow> list_all (phrases_within m) children"
| "phrases_within m (PlannedNot _ operand) \<longleftrightarrow> phrases_within m operand"
| "phrases_within m _ \<longleftrightarrow> True"

definition shaped :: "planner_options \<Rightarrow> nat \<Rightarrow> plan \<Rightarrow> bool" where
  "shaped opts h p \<longleftrightarrow> plan_height p \<le> h \<and> phrases_within (maximum_phrase_tokens (po_limits opts)) p"

lemma heights_le: "\<forall>c \<in> set cs. plan_height c \<le> h \<Longrightarrow> foldr (\<lambda>c h. max (plan_height c) h) cs 0 \<le> h"
  by (induction cs) auto

lemma shaped_mono: "shaped opts h p \<Longrightarrow> h \<le> h' \<Longrightarrow> shaped opts h' p"
  by (simp add: shaped_def)

lemma shaped_normalize:
  assumes "normalize_boolean v opts cost_order cs b = Inr (p, b')" and "\<forall>c \<in> set cs. shaped opts h c"
  shows "shaped opts (Suc h) p"
  using assms(1)
proof (cases rule: normalize_boolean_cases)
  case (single x)
  with keyed_sound [of x cs "[]"] assms(2) show ?thesis by (auto intro: shaped_mono)
next
  case (node ks n)
  from node(1) have "set ks = set (keyed cs [])" by (rule mset_eq_setD)
  then have "\<forall>c \<in> set (map snd ks). shaped opts h c"
    using keyed_sound [of _ cs "[]"] assms(2) by auto
  then show ?thesis
    using make_Inr [OF node(2)] heights_le [of "map snd ks" h] by (simp add: boolean_node_def shaped_def list_all_iff)
qed

lemma shaped_term_children:
  "term_children v opts f boost tokens seen cs b = Inr (cs', b') \<Longrightarrow> \<forall>c \<in> set cs. shaped opts 0 c \<Longrightarrow>
   \<forall>c \<in> set cs'. shaped opts 0 c"
proof (induction tokens arbitrary: seen cs b)
  case (Cons tok tokens)
  show ?case
  proof (cases "tok_term tok \<in> set seen")
    case False
    with Cons.prems obtain n b1 where "term_children v opts f boost tokens (tok_term tok # seen)
        (cs @ [PlannedTerm n f (tok_term tok) boost]) b1 = Inr (cs', b')"
      by (auto simp: Let_def split: sum.splits dest!: make_Inr)
    from Cons.IH [OF this] Cons.prems(2) show ?thesis by (simp add: shaped_def)
  qed (use Cons in simp)
qed simp

lemma shaped_term_for_field: "term_for_field v opts f s boost b = Inr (p, b') \<Longrightarrow> shaped opts 1 p"
  using shaped_normalize [where h = 0]
  by (auto simp: term_for_field_def normalize_or_def split: sum.splits prod.splits dest: shaped_term_children)

lemma shaped_phrase_for_field: "phrase_for_field v opts f s boost b = Inr (p, b') \<Longrightarrow> shaped opts 1 p"
  by (auto simp: phrase_for_field_def plan_analyze_def shaped_def Let_def split: sum.splits prod.splits if_splits dest!: make_Inr)

lemma shaped_leaf:
  assumes "\<And>f x b p b'. child_for f x b = Inr (p, b') \<Longrightarrow> shaped opts 1 p"
    and "build_leaf v opts child_for field boost b = Inr (p, b')"
  shows "shaped opts (Suc (Suc 0)) p"
proof (cases field)
  case None
  have children: "default_children child_for boost sfs cs b = Inr (cs', b') \<Longrightarrow> \<forall>c \<in> set cs. shaped opts 1 c \<Longrightarrow>
      \<forall>c \<in> set cs'. shaped opts 1 c" for sfs cs b cs' b'
    by (induction sfs arbitrary: cs b) (fastforce split: sum.splits dest: assms(1))+
  from None assms(2) show ?thesis
    using shaped_normalize [where h = 1]
    by (auto simp: build_leaf_def normalize_or_def split: sum.splits dest: children)
qed (use assms in \<open>auto simp: build_leaf_def intro: shaped_mono [of opts 1]\<close>)

lemma shaped_pair:
  assumes "normalize_boolean v opts cost_order [l, r] b = Inr (p, b')"
    and "shaped opts (Suc (Suc h)) l" and "shaped opts (Suc (Suc h')) r"
  shows "shaped opts (Suc (Suc (Suc (max h h')))) p"
proof (rule shaped_normalize [OF assms(1)])
  show "\<forall>c \<in> set [l, r]. shaped opts (Suc (Suc (max h h'))) c"
    using shaped_mono [OF assms(2), of "Suc (Suc (max h h'))"] shaped_mono [OF assms(3), of "Suc (Suc (max h h'))"] by simp
qed

lemma build_shaped: "build v opts q field boost depth b = Inr (p, b') \<Longrightarrow> shaped opts (Suc (Suc (query_height q))) p"
proof (induction q arbitrary: field boost depth b p b')
  case (TermQuery n s)
  then show ?case
    by (subst (asm) build.simps) (auto simp: Let_def split: if_splits intro: shaped_leaf [OF shaped_term_for_field])
next
  case (PhraseQuery n s)
  then show ?case
    by (subst (asm) build.simps) (auto simp: Let_def split: if_splits intro: shaped_leaf [OF shaped_phrase_for_field])
next
  case (AndQuery n l r)
  from AndQuery.prems AndQuery.IH show ?case
    by (subst (asm) build.simps) (auto simp: Let_def split: if_splits sum.splits elim!: shaped_pair)
next
  case (OrQuery n l r)
  from OrQuery.prems OrQuery.IH show ?case
    by (subst (asm) build.simps)
      (auto simp: Let_def normalize_or_def split: if_splits sum.splits elim!: shaped_pair)
next
  case (NotQuery n q)
  from NotQuery.prems NotQuery.IH show ?case
    by (subst (asm) build.simps) (fastforce simp: Let_def shaped_def split: if_splits sum.splits dest!: make_Inr)
next
  case (FieldQuery n f q)
  from FieldQuery.prems FieldQuery.IH show ?case
    by (subst (asm) build.simps) (fastforce simp: Let_def split: if_splits intro: shaped_mono)
next
  case (BoostQuery n q x)
  from BoostQuery.prems BoostQuery.IH show ?case
    by (subst (asm) build.simps) (fastforce simp: Let_def split: if_splits intro: shaped_mono)
qed ((subst (asm) build.simps, auto simp: Let_def build_range_def shaped_def split: if_splits sum.splits option.splits dest!: make_Inr)+)

lemma plan_query_shaped: "plan_query v q opts = Inr p \<Longrightarrow> shaped opts (Suc (Suc (query_height q))) p"
  by (auto simp: plan_query_def build_shaped split: if_splits sum.splits)

section \<open>The ranges of a plan\<close>

lemma normalize_boolean_ranges:
  assumes "normalize_boolean v opts cost_order cs b = Inr (p, b')" and "\<forall>c \<in> set cs. ranges_known schema c"
  shows "ranges_known schema p"
  using assms(1)
proof (cases rule: normalize_boolean_cases)
  case (single x)
  with keyed_sound [of x cs "[]"] assms(2) show ?thesis by auto
next
  case (node ks n)
  from node(1) have "set ks = set (keyed cs [])" by (rule mset_eq_setD)
  then have "\<forall>x \<in> set ks. ranges_known schema (snd x)"
    using keyed_sound [of _ cs "[]"] assms(2) by auto
  then show ?thesis
    using make_Inr [OF node(2)] by (simp add: boolean_node_def list_all_iff)
qed

lemma term_children_ranges:
  "term_children v opts f boost tokens seen cs b = Inr (cs', b') \<Longrightarrow> \<forall>c \<in> set cs. ranges_known schema c \<Longrightarrow>
   \<forall>c \<in> set cs'. ranges_known schema c"
proof (induction tokens arbitrary: seen cs b)
  case (Cons tok tokens)
  show ?case
  proof (cases "tok_term tok \<in> set seen")
    case False
    with Cons.prems obtain n b1 where "term_children v opts f boost tokens (tok_term tok # seen)
        (cs @ [PlannedTerm n f (tok_term tok) boost]) b1 = Inr (cs', b')"
      by (auto simp: Let_def split: sum.splits dest!: make_Inr)
    from Cons.IH [OF this] Cons.prems(2) show ?thesis by simp
  qed (use Cons in simp)
qed simp

lemma term_for_field_ranges: "term_for_field v opts f s boost b = Inr (p, b') \<Longrightarrow> ranges_known schema p"
  by (auto simp: term_for_field_def normalize_or_def split: sum.splits prod.splits
      elim!: normalize_boolean_ranges dest: term_children_ranges)

lemma phrase_for_field_ranges: "phrase_for_field v opts f s boost b = Inr (p, b') \<Longrightarrow> ranges_known schema p"
  by (auto simp: phrase_for_field_def Let_def split: sum.splits prod.splits dest!: make_Inr)

lemma build_leaf_ranges:
  assumes "\<And>f x b p b'. child_for f x b = Inr (p, b') \<Longrightarrow> ranges_known schema p"
    and "build_leaf v opts child_for field boost b = Inr (p, b')"
  shows "ranges_known schema p"
proof (cases field)
  case None
  have children: "default_children child_for boost sfs cs b = Inr (cs', b') \<Longrightarrow> \<forall>c \<in> set cs. ranges_known schema c \<Longrightarrow>
      \<forall>c \<in> set cs'. ranges_known schema c" for sfs cs b cs' b'
    by (induction sfs arbitrary: cs b) (fastforce split: sum.splits dest: assms(1))+
  from None assms(2) show ?thesis
    by (auto simp: build_leaf_def normalize_or_def split: sum.splits elim!: normalize_boolean_ranges dest: children)
qed (use assms in \<open>auto simp: build_leaf_def\<close>)

lemma build_ranges: "build v opts q field boost depth b = Inr (p, b') \<Longrightarrow> ranges_known (v_schema v) p"
proof (induction q arbitrary: field boost depth b p b')
  case (TermQuery n s)
  then show ?case
    by (subst (asm) build.simps)
      (auto simp: Let_def split: if_splits intro: build_leaf_ranges [OF term_for_field_ranges])
next
  case (PhraseQuery n s)
  then show ?case
    by (subst (asm) build.simps)
      (auto simp: Let_def split: if_splits intro: build_leaf_ranges [OF phrase_for_field_ranges])
next
  case (AndQuery n l r)
  from AndQuery.prems AndQuery.IH show ?case
    by (subst (asm) build.simps) (auto simp: Let_def split: if_splits sum.splits elim!: normalize_boolean_ranges)
next
  case (OrQuery n l r)
  from OrQuery.prems OrQuery.IH show ?case
    by (subst (asm) build.simps)
      (auto simp: Let_def normalize_or_def split: if_splits sum.splits elim!: normalize_boolean_ranges)
qed ((subst (asm) build.simps, auto simp: Let_def build_range_def split: if_splits sum.splits option.splits dest!: make_Inr)+)

lemma plan_query_ranges: "plan_query v q opts = Inr p \<Longrightarrow> ranges_known (v_schema v) p"
  by (auto simp: plan_query_def build_ranges split: if_splits sum.splits)

end
