(* ===== verification/Scoring.thy ===== *)
theory Scoring
  imports Executor_Proofs
begin

text \<open>
  The score of a document under a plan, from the document and the statistics of the collection alone:
  \<open>plan_score\<close>. The candidates of a plan are shown to carry exactly these scores, for every provider of a
  view whose postings and lengths are those of its documents (\<open>scoring_view\<close>). Two views with the
  same statistics therefore give a document the same score, whatever else they hold.
\<close>

record scoring =
  sg_schema :: schema
  sg_frequency :: "string \<Rightarrow> string \<Rightarrow> u32"
  sg_statistics :: "string \<Rightarrow> field_statistics"

definition scoring_of :: "view \<Rightarrow> scoring" where
  "scoring_of v =
     \<lparr>sg_schema = v_schema v, sg_frequency = (\<lambda>f t. case v_lookup v f t of None \<Rightarrow> 0 | Some e \<Rightarrow> te_df e),
      sg_statistics = v_field_statistics v\<rparr>"

lemma scoring_schema [simp]: "sg_schema (scoring_of v) = v_schema v"
  by (simp add: scoring_of_def)

definition term_score :: "scoring \<Rightarrow> scorer \<Rightarrow> document \<Rightarrow> string \<Rightarrow> string \<Rightarrow> double \<Rightarrow> double" where
  "term_score g sc d f t boost =
     (let tokens = om_get [] (doc_analysed (sg_schema g) d) f; st = sg_statistics g f
      in case bm25_score (sc_log1p sc) (sc_parameters sc)
                \<lparr>ts_document_count = fs_count st, ts_document_frequency = ucast (sg_frequency g f t),
                 ts_term_frequency = of_nat (length (term_positions (sg_schema g) d f t)),
                 ts_document_length = of_nat (length tokens), ts_average_document_length = fs_average st\<rparr> boost fp_one of
           Inl _ \<Rightarrow> fp_zero
         | Inr x \<Rightarrow> x)"

fun sum_scores :: "double list \<Rightarrow> double" where
  "sum_scores [] = fp_zero"
| "sum_scores (x # xs) = foldl fadd x xs"

fun plan_score :: "scoring \<Rightarrow> scorer \<Rightarrow> document \<Rightarrow> plan \<Rightarrow> double" where
  "plan_score g sc d (PlannedTerm _ f t boost) = term_score g sc d f t boost"
| "plan_score g sc d (PlannedPhrase _ f tokens boost) =
     foldl fadd fp_zero (map (\<lambda>tok. term_score g sc d f (tok_term tok) boost) tokens)"
| "plan_score g sc d (PlannedAnd _ children) = sum_scores (map (plan_score g sc d) children)"
| "plan_score g sc d (PlannedOr _ children) =
     sum_scores (concat (map (\<lambda>p. if plan_matches (sg_schema g) d p then [plan_score g sc d p] else []) children))"
| "plan_score g sc d (PlannedNot _ _) = fp_zero"
| "plan_score g sc d (PlannedRange _ _ _ _ _ _) = fp_zero"
| "plan_score g sc d (PlannedMatchAll _) = fp_zero"

lemma sum_scores_snoc: "xs \<noteq> [] \<Longrightarrow> sum_scores (xs @ [x]) = fadd (sum_scores xs) x"
  by (cases xs) simp_all

section \<open>Scores of merged candidates\<close>

lemma intersect_scores:
  assumes "c \<in> set (intersect l r)"
  shows "\<exists>a \<in> set l. \<exists>b \<in> set r. c_doc a = c_doc c \<and> c_doc b = c_doc c \<and> c_score c = fadd (c_score a) (c_score b)"
  using assms
proof (induction l r rule: intersect.induct)
  case (1 l left r right)
  then show ?case by (cases "c_doc l" "c_doc r" rule: linorder_cases) (auto simp: less_not_sym)
qed simp_all

lemma unite_scores:
  assumes "ssorted_by c_doc l" and "ssorted_by c_doc r" and "c \<in> set (unite l r)"
  shows "(c \<in> set l \<and> c_doc c \<notin> c_doc ` set r) \<or> (c \<in> set r \<and> c_doc c \<notin> c_doc ` set l) \<or>
    (\<exists>a \<in> set l. \<exists>b \<in> set r. c_doc a = c_doc c \<and> c_doc b = c_doc c \<and> c_score c = fadd (c_score a) (c_score b))"
  using assms
proof (induction l r rule: unite.induct)
  case (1 l left r right)
  show ?case
  proof (cases "c_doc l" "c_doc r" rule: linorder_cases)
    case less
    then have apart: "c_doc l \<notin> c_doc ` set (r # right)" using 1(5) by fastforce
    show ?thesis
    proof (cases "c = l")
      case False
      then have "c \<in> set (unite left (r # right))" using 1(6) less by simp
      then have IH: "(c \<in> set left \<and> c_doc c \<notin> c_doc ` set (r # right)) \<or> (c \<in> set (r # right) \<and> c_doc c \<notin> c_doc ` set left) \<or>
          (\<exists>a \<in> set left. \<exists>b \<in> set (r # right). c_doc a = c_doc c \<and> c_doc b = c_doc c \<and> c_score c = fadd (c_score a) (c_score b))"
        using 1(4,5) by (intro 1(1) [OF less]) simp_all
      have "c_doc c \<noteq> c_doc l" if "c \<in> set (r # right)" using apart that by (metis imageI)
      with IH show ?thesis unfolding list.set by blast
    qed (use apart in simp)
  next
    case greater
    then have apart: "c_doc r \<notin> c_doc ` set (l # left)" using 1(4) by fastforce
    have nless: "\<not> c_doc l < c_doc r" using greater by auto
    show ?thesis
    proof (cases "c = r")
      case False
      then have "c \<in> set (unite (l # left) right)" using 1(6) greater nless by simp
      then have IH: "(c \<in> set (l # left) \<and> c_doc c \<notin> c_doc ` set right) \<or> (c \<in> set right \<and> c_doc c \<notin> c_doc ` set (l # left)) \<or>
          (\<exists>a \<in> set (l # left). \<exists>b \<in> set right. c_doc a = c_doc c \<and> c_doc b = c_doc c \<and> c_score c = fadd (c_score a) (c_score b))"
        using 1(4,5) by (intro 1(2) [OF nless greater]) simp_all
      have "c_doc c \<noteq> c_doc r" if "c \<in> set (l # left)" using apart that by (metis imageI)
      with IH show ?thesis unfolding list.set by blast
    qed (use apart in simp)
  next
    case equal
    have "c_doc c \<noteq> c_doc l" if "c \<in> set (unite left right)"
    proof -
      have "c_doc c \<in> c_doc ` set left \<union> c_doc ` set right" using that unite_docs [of left right] by blast
      then show ?thesis using 1(4,5) equal by fastforce
    qed
    with equal 1 show ?thesis by (auto simp: image_iff)
  qed
qed auto

section \<open>Views whose postings are those of the documents\<close>

locale scoring_view = view_provider +
  assumes term_frequency: "inv s \<Longrightarrow> v_lookup (view_of s) f t = Some e \<Longrightarrow> p \<in> set (te_postings e) \<Longrightarrow>
      p_tf p = of_nat (length (p_positions p))"
    and field_length: "inv s \<Longrightarrow> live (view_of s) i r \<Longrightarrow> map_of (dr_field_lengths r) f =
      map_option (\<lambda>tokens. of_nat (length tokens)) (map_of (doc_analysed (v_schema (view_of s)) (dr_document r)) f)"
begin

lemma posting_score:
  assumes inv: "inv s" and e: "v_lookup (view_of s) f t = Some e" "p \<in> set (te_postings e)" and r: "live (view_of s) (p_doc p) r"
    and x: "score_posting (view_of s) sc f e p boost = Inr x"
  shows "x = term_score (scoring_of (view_of s)) sc (dr_document r) f t boost"
proof -
  have doc: "v_document_internal (view_of s) (p_doc p) = Some r" using r by (simp add: live_def)
  obtain r' where "live (view_of s) (p_doc p) r'" "p_positions p = term_positions (v_schema (view_of s)) (dr_document r') f t"
    by (rule posting_live [OF inv e])
  with r have pos: "p_positions p = term_positions (v_schema (view_of s)) (dr_document r) f t" by (simp add: live_def)
  obtain len where len: "map_of (dr_field_lengths r) f = Some len" using x doc by (auto simp: score_posting_def split: option.splits)
  then have "len = of_nat (length (om_get [] (doc_analysed (v_schema (view_of s)) (dr_document r)) f))"
    using field_length [OF inv r, of f] by (auto simp: om_get_def split: option.splits)
  then show ?thesis
    using x doc len term_frequency [OF inv e]
    by (simp add: score_posting_def term_score_def scoring_of_def e(1) pos Let_def split: sum.splits)
qed

text \<open>Every candidate of \<open>cs\<close> has the score that \<open>S\<close> gives to its document.\<close>

definition scored :: "'a \<Rightarrow> candidate list \<Rightarrow> (document \<Rightarrow> double) \<Rightarrow> bool" where
  "scored s cs S \<longleftrightarrow> (\<forall>c r. c \<in> set cs \<longrightarrow> live (view_of s) (c_doc c) r \<longrightarrow> c_score c = S (dr_document r))"

lemma score_postings_scored:
  assumes inv: "inv s" and e: "v_lookup (view_of s) f t = Some e"
    and "score_postings (view_of s) sc f e boost ps acc = Inr cs" and "set ps \<subseteq> set (te_postings e)"
    and "scored s acc (\<lambda>d. term_score (scoring_of (view_of s)) sc d f t boost)"
  shows "scored s cs (\<lambda>d. term_score (scoring_of (view_of s)) sc d f t boost)"
  using assms(3-)
proof (induction ps arbitrary: acc)
  case (Cons p ps)
  then obtain x where x: "score_posting (view_of s) sc f e p boost = Inr x"
      "score_postings (view_of s) sc f e boost ps (acc @ [\<lparr>c_doc = p_doc p, c_score = x\<rparr>]) = Inr cs"
    by (auto split: sum.splits)
  have "scored s (acc @ [\<lparr>c_doc = p_doc p, c_score = x\<rparr>]) (\<lambda>d. term_score (scoring_of (view_of s)) sc d f t boost)"
    using Cons.prems(2,3) posting_score [OF inv e _ _ x(1)] by (auto simp: scored_def)
  with Cons x(2) show ?case by simp
qed simp

lemma phrase_score_sum:
  assumes inv: "inv s" and r: "live (view_of s) i r"
    and "list_all2 (\<lambda>tok (e, q). v_lookup (view_of s) f (tok_term tok) = Some e \<and> q \<in> set (te_postings e) \<and> p_doc q = i) tokens eqs"
    and "phrase_score (view_of s) sc f boost eqs acc = Inr x"
  shows "x = foldl fadd acc (map (\<lambda>tok. term_score (scoring_of (view_of s)) sc (dr_document r) f (tok_term tok) boost) tokens)"
  using assms(3,4)
proof (induction tokens eqs arbitrary: acc rule: list_all2_induct)
  case (Cons tok tokens eq eqs)
  obtain e q where eq: "eq = (e, q)" by fastforce
  obtain y where y: "score_posting (view_of s) sc f e q boost = Inr y" "phrase_score (view_of s) sc f boost eqs (fadd acc y) = Inr x"
    using Cons.prems by (auto simp: eq split: sum.splits)
  have "y = term_score (scoring_of (view_of s)) sc (dr_document r) f (tok_term tok) boost"
    using Cons.hyps(1) r y(1) by (intro posting_score [OF inv]) (auto simp: eq)
  with Cons.IH [OF y(2)] show ?case by simp
qed simp

lemma phrase_candidates_scored:
  assumes inv: "inv s" and es: "lookup_all (view_of s) f tokens = Some es"
    and "phrase_candidates (view_of s) sc f tokens boost es ps acc = Inr cs"
    and "set ps \<subseteq> set (te_postings (es ! anchor_of es))" and "scored s acc (\<lambda>d. plan_score (scoring_of (view_of s)) sc d (PlannedPhrase n f tokens boost))"
  shows "scored s cs (\<lambda>d. plan_score (scoring_of (view_of s)) sc d (PlannedPhrase n f tokens boost))"
  using assms(3-)
proof (induction ps arbitrary: acc)
  case (Cons p ps)
  have look: "list_all2 (\<lambda>tok e. v_lookup (view_of s) f (tok_term tok) = Some e) tokens es"
    using es by (simp add: lookup_all_Some)
  have "\<exists>t. v_lookup (view_of s) f t = Some e" if "e \<in> set es" for e
    using look that by (auto simp: list_all2_conv_all_nth in_set_conv_nth)
  then have "\<forall>e \<in> set es. ssorted_by p_doc (te_postings e)" using postings_sorted [OF inv] by blast
  then have gat: "list_all2 (\<lambda>e q. q \<in> set (te_postings e) \<and> p_doc q = p_doc p) es qs"
    if "gather es 0 (anchor_of es) p = Some qs" for qs
    using that gather_iff [of es 0 "anchor_of es" p qs] Cons.prems(2) by simp
  have next_ok: "scored s (acc @ [\<lparr>c_doc = p_doc p, c_score = x\<rparr>]) (\<lambda>d. plan_score (scoring_of (view_of s)) sc d (PlannedPhrase n f tokens boost))"
    if "gather es 0 (anchor_of es) p = Some qs" "phrase_score (view_of s) sc f boost (zip es qs) fp_zero = Inr x" for qs x
  proof -
    have "list_all2 (\<lambda>tok (e, q). v_lookup (view_of s) f (tok_term tok) = Some e \<and> q \<in> set (te_postings e) \<and> p_doc q = p_doc p)
        tokens (zip es qs)"
      using look gat [OF that(1)] by (auto simp: list_all2_conv_all_nth)
    with phrase_score_sum [OF inv _ this that(2)] Cons.prems(3) show ?thesis by (auto simp: scored_def)
  qed
  have rest: "set ps \<subseteq> set (te_postings (es ! anchor_of es))" using Cons.prems(2) by simp
  show ?case
  proof (cases "\<exists>qs. gather es 0 (anchor_of es) p = Some qs \<and> positions_match qs tokens")
    case True
    then obtain qs where qs: "gather es 0 (anchor_of es) p = Some qs" "positions_match qs tokens" by blast
    with Cons.prems(1) obtain x where x: "phrase_score (view_of s) sc f boost (zip es qs) fp_zero = Inr x"
        "phrase_candidates (view_of s) sc f tokens boost es ps (acc @ [\<lparr>c_doc = p_doc p, c_score = x\<rparr>]) = Inr cs"
      by (auto split: sum.splits)
    from Cons.IH [OF x(2) rest next_ok [OF qs(1) x(1)]] show ?thesis .
  next
    case False
    with Cons.prems(1) have "phrase_candidates (view_of s) sc f tokens boost es ps acc = Inr cs"
      by (simp split: option.splits if_splits)
    from Cons.IH [OF this rest Cons.prems(3)] show ?thesis .
  qed
qed simp

lemma scored_intersect:
  "scored s l S \<Longrightarrow> scored s r T \<Longrightarrow> scored s (intersect l r) (\<lambda>d. fadd (S d) (T d))"
  by (fastforce simp: scored_def dest!: intersect_scores)

text \<open>The accumulator of a disjunction: \<open>L d\<close> lists the scores of the children that have matched \<open>d\<close> so far.\<close>

definition accumulated :: "'a \<Rightarrow> candidate list \<Rightarrow> (document \<Rightarrow> double list) \<Rightarrow> bool" where
  "accumulated s cs L \<longleftrightarrow> ssorted_by c_doc cs \<and> scored s cs (\<lambda>d. sum_scores (L d)) \<and>
     (\<forall>i r. live (view_of s) i r \<longrightarrow> (i \<in> c_doc ` set cs \<longleftrightarrow> L (dr_document r) \<noteq> []))"

lemma accumulated_unite:
  assumes l: "accumulated s l L" and r: "answers r (matching s p)" and sc: "scored s r S"
  shows "accumulated s (unite l r) (\<lambda>d. L d @ (if plan_matches (v_schema (view_of s)) d p then [S d] else []))"
proof -
  have srt: "ssorted_by c_doc l" "ssorted_by c_doc r" using l r by (simp_all add: accumulated_def answers_def)
  have inl: "i \<in> c_doc ` set l \<longleftrightarrow> L (dr_document d) \<noteq> []" if "live (view_of s) i d" for i d
    using l that by (simp add: accumulated_def)
  have inr: "i \<in> c_doc ` set r \<longleftrightarrow> plan_matches (v_schema (view_of s)) (dr_document d) p" if "live (view_of s) i d" for i d
    using r that by (auto simp: answers_def matching_def live_def)
  have "c_score c = sum_scores (L (dr_document d) @ (if plan_matches (v_schema (view_of s)) (dr_document d) p then [S (dr_document d)] else []))"
    if c: "c \<in> set (unite l r)" and d: "live (view_of s) (c_doc c) d" for c d
  proof -
    have lsc: "c_score a = sum_scores (L (dr_document d))" if "a \<in> set l" "c_doc a = c_doc c" for a
      using l that d by (auto simp: accumulated_def scored_def)
    have rsc: "c_score b = S (dr_document d)" if "b \<in> set r" "c_doc b = c_doc c" for b
      using sc that d by (auto simp: scored_def)
    show ?thesis
      using unite_scores [OF srt c] inl [OF d] inr [OF d] lsc rsc
      by (elim disjE bexE conjE) (auto simp: sum_scores_snoc image_iff, metis+)
  qed
  then have "scored s (unite l r) (\<lambda>d. sum_scores (L d @ (if plan_matches (v_schema (view_of s)) d p then [S d] else [])))"
    by (auto simp: scored_def)
  moreover have "ssorted_by c_doc (unite l r)" using answers_unite [OF srt] by (simp add: answers_def)
  moreover have "i \<in> c_doc ` set (unite l r) \<longleftrightarrow>
      L (dr_document d) @ (if plan_matches (v_schema (view_of s)) (dr_document d) p then [S (dr_document d)] else []) \<noteq> []"
    if "live (view_of s) i d" for i d
    using inl [OF that] inr [OF that] by (auto simp: unite_docs)
  ultimately show ?thesis unfolding accumulated_def by blast
qed

lemma scored_zero: "\<forall>c \<in> set cs. c_score c = fp_zero \<Longrightarrow> scored s cs (\<lambda>_. fp_zero)"
  by (simp add: scored_def)

lemma universe_zero: "\<forall>c \<in> set (universe v). c_score c = fp_zero"
  by (auto simp: universe_def)

lemma evaluate_scored:
  assumes inv: "inv s"
  shows "evaluate (view_of s) sc p = Inr cs \<Longrightarrow> scored s cs (\<lambda>d. plan_score (scoring_of (view_of s)) sc d p)"
    and "evaluate_and (view_of s) sc ps acc = Inr cs \<Longrightarrow> scored s acc S \<Longrightarrow>
      scored s cs (\<lambda>d. foldl fadd (S d) (map (plan_score (scoring_of (view_of s)) sc d) ps))"
    and "evaluate_or (view_of s) sc ps acc = Inr cs \<Longrightarrow> accumulated s acc L \<Longrightarrow>
      scored s cs (\<lambda>d. sum_scores (L d @ concat (map (\<lambda>p. if plan_matches (v_schema (view_of s)) d p
        then [plan_score (scoring_of (view_of s)) sc d p] else []) ps)))"
proof (induction "view_of s" sc p and "view_of s" sc ps acc and "view_of s" sc ps acc
    arbitrary: cs and cs S and cs L rule: evaluate_evaluate_and_evaluate_or.induct)
  case (1 sc n f t boost)
  show ?case
  proof (cases "v_lookup (view_of s) f t")
    case None
    with 1 show ?thesis by (auto simp: score_term_def scored_def)
  next
    case (Some e)
    with 1 score_postings_scored [OF inv Some, of sc boost "te_postings e" "[]" cs] show ?thesis
      by (simp add: score_term_def) (simp add: scored_def)
  qed
next
  case (2 sc n f tokens boost)
  show ?case
  proof (cases "tokens = [] \<or> lookup_all (view_of s) f tokens = None")
    case True
    with 2 show ?thesis by (auto simp: evaluate_phrase_def scored_def split: if_splits)
  next
    case False
    then obtain es where es: "lookup_all (view_of s) f tokens = Some es" by auto
    with 2 False obtain cs' where "phrase_candidates (view_of s) sc f tokens boost es (te_postings (es ! anchor_of es)) [] = Inr cs'"
        "cs = sort_key c_doc cs'"
      by (auto simp: evaluate_phrase_def split: sum.splits)
    with phrase_candidates_scored [OF inv es this(1), of n] show ?thesis
      by (simp add: scored_def del: plan_score.simps)
  qed
next
  case (3 sc n children)
  show ?case
  proof (cases children)
    case (Cons p ps)
    with 3(3) obtain cs' where "evaluate (view_of s) sc p = Inr cs'" "evaluate_and (view_of s) sc ps cs' = Inr cs"
      by (auto split: sum.splits)
    with 3(1,2) [OF Cons] show ?thesis by (simp add: Cons)
  qed (use 3(3) in \<open>simp add: scored_def\<close>)
next
  case (4 sc n children)
  have "accumulated s [] (\<lambda>_. [])" by (simp add: accumulated_def scored_def)
  with 4(1) [of cs "\<lambda>_. []"] 4(2) show ?case
    by (simp add: scoring_schema)
next
  case (5 sc n p)
  then obtain xs where xs: "cs = exclude (universe (view_of s)) xs" "evaluate (view_of s) sc p = Inr xs"
    by (auto split: sum.splits)
  have "cs = filter (\<lambda>c. c_doc c \<notin> c_doc ` set xs) (universe (view_of s))"
    unfolding xs(1) using universe_answers [OF inv] evaluate_matching(1) [OF inv xs(2)]
    by (intro exclude_filter) (simp_all add: answers_def)
  then show ?case using universe_zero by (auto intro!: scored_zero)
next
  case (6 sc n f lower upper il iu)
  then show ?case using universe_zero by (auto simp: evaluate_range_def split: option.splits intro!: scored_zero)
next
  case (7 sc n)
  then show ?case using universe_zero by (auto intro!: scored_zero)
next
  case (9 sc p ps acc)
  then obtain xs where xs: "evaluate (view_of s) sc p = Inr xs" by (auto split: sum.splits)
  have sc: "scored s (intersect acc xs) (\<lambda>d. fadd (S d) (plan_score (scoring_of (view_of s)) sc d p))"
    by (rule scored_intersect [OF 9(4) 9(1) [OF xs]])
  show ?case
  proof (cases "intersect acc xs = []")
    case True
    with 9(3) xs show ?thesis by (simp add: scored_def)
  next
    case False
    with 9(2) [OF xs refl False _ sc] 9(3) xs show ?thesis by simp
  qed
next
  case (11 sc p ps acc)
  then obtain xs where xs: "evaluate (view_of s) sc p = Inr xs" by (auto split: sum.splits)
  have "accumulated s (unite acc xs) (\<lambda>d. L d @ (if plan_matches (v_schema (view_of s)) d p then [plan_score (scoring_of (view_of s)) sc d p] else []))"
    by (rule accumulated_unite [OF 11(4) evaluate_matching(1) [OF inv xs] 11(1) [OF xs]])
  from 11(2) [OF xs _ this] 11(3) xs show ?case by simp
qed (simp_all add: accumulated_def)

text \<open>The candidates of a plan are the documents it matches, with their scores.\<close>

lemma candidates_scored:
  assumes inv: "inv s" and cs: "evaluate (view_of s) sc p = Inr cs"
  defines "xs \<equiv> map (\<lambda>c. \<lparr>sd_id = the (v_external_id (view_of s) (c_doc c)), sd_score = c_score c\<rparr>) cs"
  shows "distinct (map sd_id xs)"
    and "set xs = {\<lparr>sd_id = doc_id (dr_document r), sd_score = plan_score (scoring_of (view_of s)) sc (dr_document r) p\<rparr> | i r.
      live (view_of s) i r \<and> plan_matches (v_schema (view_of s)) (dr_document r) p}" (is "_ = ?R")
proof -
  let ?ext = "\<lambda>i. the (v_external_id (view_of s) i)"
  note ans = evaluate_matching(1) [OF inv cs, unfolded answers_def] and sco = evaluate_scored(1) [OF inv cs, unfolded scored_def]
  have ext: "?ext i = doc_id (dr_document r)" if "live (view_of s) i r" for i r
    using external_live [OF inv that] by simp
  have "inj_on ?ext (matching s p)"
  proof (rule inj_onI)
    fix i j
    assume "i \<in> matching s p" "j \<in> matching s p" and eq: "?ext i = ?ext j"
    then obtain r r' where "live (view_of s) i r" "live (view_of s) j r'" by (auto simp: matching_def)
    with external_inj [OF inv this] eq ext show "i = j" by simp
  qed
  then have "inj_on (\<lambda>c. ?ext (c_doc c)) (set cs)"
    using ans ssorted_by_inj [of c_doc cs] comp_inj_on [of c_doc "set cs" ?ext] by (simp add: comp_def)
  then show "distinct (map sd_id xs)"
    using ans ssorted_by_distinct [of c_doc cs] by (simp add: xs_def comp_def distinct_map)
  show "set xs = ?R"
  proof (intro equalityI subsetI)
    fix x
    assume "x \<in> set xs"
    then obtain c where x: "c \<in> set cs" "x = \<lparr>sd_id = ?ext (c_doc c), sd_score = c_score c\<rparr>" by (auto simp: xs_def)
    then have "c_doc c \<in> matching s p" using ans by blast
    then obtain r where "live (view_of s) (c_doc c) r" "plan_matches (v_schema (view_of s)) (dr_document r) p"
      by (auto simp: matching_def)
    with x sco ext show "x \<in> ?R" by blast
  next
    fix x
    assume "x \<in> ?R"
    then obtain i r where r: "live (view_of s) i r" "plan_matches (v_schema (view_of s)) (dr_document r) p"
        "x = \<lparr>sd_id = doc_id (dr_document r), sd_score = plan_score (scoring_of (view_of s)) sc (dr_document r) p\<rparr>" by blast
    then have "i \<in> c_doc ` set cs" using ans by (auto simp: matching_def)
    then obtain c where "c \<in> set cs" "c_doc c = i" by blast
    with r sco ext show "x \<in> set xs" by (force simp: xs_def)
  qed
qed

text \<open>What a search of a plan returns, as a function of the documents, their scores and the limit alone.\<close>

lemma search_plan_outcome:
  assumes inv: "inv s" and params: "bm25_create parameters = Inr params" and ok: "plan_scorable (v_schema (view_of s)) p"
  shows "\<exists>xs. distinct (map sd_id xs) \<and>
    set xs = {\<lparr>sd_id = doc_id (dr_document r),
        sd_score = plan_score (scoring_of (view_of s)) \<lparr>sc_log1p = log1p, sc_parameters = params\<rparr> (dr_document r) p\<rparr> | i r.
      live (view_of s) i r \<and> plan_matches (v_schema (view_of s)) (dr_document r) p} \<and>
    search_plan (view_of s) log1p parameters p k =
      (if \<forall>x \<in> set xs. isfinite (sd_score x)
       then Inr \<lparr>sr_hits = take k (sort_key rank xs), sr_total_hits = length xs\<rparr>
       else Inl (ex_error Ex_ranking_error ''non-finite score''))"
proof -
  let ?sc = "\<lparr>sc_log1p = log1p, sc_parameters = params\<rparr>"
  obtain cs where cs: "evaluate (view_of s) ?sc p = Inr cs" using evaluate_total(1) [OF inv ok] by blast
  let ?xs = "map (\<lambda>c. \<lparr>sd_id = the (v_external_id (view_of s) (c_doc c)), sd_score = c_score c\<rparr>) cs"
  note xs = candidates_scored [OF inv cs]
  have "search_plan (view_of s) log1p parameters p k =
      (if \<forall>x \<in> set ?xs. isfinite (sd_score x)
       then Inr \<lparr>sr_hits = take k (sort_key rank ?xs), sr_total_hits = length ?xs\<rparr>
       else Inl (ex_error Ex_ranking_error ''non-finite score''))"
  proof (cases "\<forall>x \<in> set ?xs. isfinite (sd_score x)")
    case True
    then show ?thesis
      using collect_candidates_all [OF candidates_external [OF inv cs]] collector_take [OF True xs(1)]
      by (simp add: search_plan_def params cs)
  qed (use collect_candidates_all [OF candidates_external [OF inv cs]] in \<open>auto simp: search_plan_def params cs\<close>)
  with xs show ?thesis by blast
qed

text \<open>
  Why a search of a plan fails: its parameters are refused, a boost of the plan is refused, or a document that
  matches has a score that is not finite.
\<close>

lemma search_plan_failure:
  assumes inv: "inv s" and ok: "ranges_known (v_schema (view_of s)) p"
    and err: "search_plan (view_of s) log1p parameters p k = Inl e"
  shows "(bm25_create parameters = Inl Invalid_parameters \<and> e = ex_error Ex_invalid_options (bm25_describe Invalid_parameters)) \<or>
    (e = boost_error \<and> \<not> plan_scorable (v_schema (view_of s)) p) \<or>
    (e = ex_error Ex_ranking_error ''non-finite score'' \<and>
     (\<exists>params i r. bm25_create parameters = Inr params \<and> live (view_of s) i r \<and> plan_matches (v_schema (view_of s)) (dr_document r) p \<and>
       \<not> isfinite (plan_score (scoring_of (view_of s)) \<lparr>sc_log1p = log1p, sc_parameters = params\<rparr> (dr_document r) p)))"
proof (cases "bm25_create parameters")
  case (Inl b)
  with err show ?thesis by (auto simp: search_plan_def bm25_create_def split: if_splits)
next
  case params: (Inr params)
  let ?sc = "\<lparr>sc_log1p = log1p, sc_parameters = params\<rparr>"
  show ?thesis
  proof (cases "evaluate (view_of s) ?sc p")
    case (Inl b)
    then have "\<not> plan_scorable (v_schema (view_of s)) p" using evaluate_total(1) [OF inv, of p ?sc] by auto
    with err params Inl evaluate_error(1) [OF inv Inl ok] show ?thesis by (simp add: search_plan_def)
  next
    case cs: (Inr cs)
    let ?xs = "map (\<lambda>c. \<lparr>sd_id = the (v_external_id (view_of s) (c_doc c)), sd_score = c_score c\<rparr>) cs"
    note xs = candidates_scored(2) [OF inv cs]
    from err have bad: "\<not> (\<forall>x \<in> set ?xs. isfinite (sd_score x))" and e: "e = ex_error Ex_ranking_error ''non-finite score''"
      using collect_candidates_all [OF candidates_external [OF inv cs]] by (auto simp: search_plan_def params cs split: if_splits)
    from bad obtain x where "x \<in> set ?xs" "\<not> isfinite (sd_score x)" by blast
    with params e show ?thesis unfolding xs by auto
  qed
qed

end

section \<open>The in-memory index\<close>

interpretation memory: scoring_view memory_view engine_inv
proof
  fix ix f t e p i r
  assume inv: "engine_inv ix"
  then have ix: "index_inv ix" by (simp add: engine_inv_def)
  show "v_lookup (memory_view ix) f t = Some e \<Longrightarrow> p \<in> set (te_postings e) \<Longrightarrow> p_tf p = of_nat (length (p_positions p))"
  proof -
    assume "v_lookup (memory_view ix) f t = Some e" "p \<in> set (te_postings e)"
    then have "p \<in> set (plist (ix_fields ix) f t)" using lookup_postings [OF ix, of f t] by simp
    then have "unat (p_tf p) = length (p_positions p)" by (rule plist_posting [OF ix])
    then show ?thesis by (metis of_nat_unat ucast_id)
  qed
  show "live (memory_view ix) i r \<Longrightarrow> map_of (dr_field_lengths r) f =
      map_option (\<lambda>tokens. of_nat (length tokens)) (map_of (doc_analysed (v_schema (memory_view ix)) (dr_document r)) f)"
  proof -
    assume "live (memory_view ix) i r"
    then have "\<exists>did. index_document ix did = Some r" using document_internal_iff [OF ix, of i r] by (auto simp: live_def)
    then have "record_ok (ix_schema ix) r" using documents_invD(3) [OF ix] by blast
    then show ?thesis by (simp add: record_ok_def lengths_of_def map_of_map)
  qed
qed

end
