(* ===== verification/Search_Properties.thy ===== *)
theory Search_Properties
  imports Planner_Proofs Scoring
begin

text \<open>
  What the query engine promises over the in-memory index, from the query to the ranked hits:
  the results are the documents that satisfy the query, ranked and cut at \<open>k\<close>; no internal
  error can occur; the plan means what the query means and stays within the limits; an
  explanation agrees with the search. Each statement is evaluated on the concrete index of
  \<open>Index_Properties\<close>.
\<close>

section \<open>The concrete query\<close>

definition ex_planner_options :: planner_options where
  "ex_planner_options = \<lparr>po_default_fields = [\<lparr>sf_name = ''body'', sf_boost = fp_one\<rparr>],
     po_limits = \<lparr>maximum_nodes = 10, maximum_analyzed_tokens = 10, maximum_phrase_tokens = 10, maximum_depth = 10\<rparr>\<rparr>"

definition ex_options :: search_options where
  "ex_options = \<lparr>so_top_k = 10, so_default_fields = po_default_fields ex_planner_options,
     so_planner_limits = po_limits ex_planner_options\<rparr>"

definition ex_parameters :: bm25_parameters where
  "ex_parameters = \<lparr>bm_k1 = fp_one, bm_b = fp_half\<rparr>"

definition ex_query :: query where
  "ex_query = TermQuery 0 ''a''"

definition ex_plan :: plan where
  "ex_plan = PlannedTerm 1 ''body'' ''a'' fp_one"

definition ex_result :: search_result where
  "ex_result = \<lparr>sr_hits = [\<lparr>sd_id = ''d'', sd_score = 4601678019255453468\<rparr>], sr_total_hits = 1\<rparr>"

lemma ex_lookup:
  "index_lookup ex_index ''body'' ''a'' =
    Some \<lparr>te_df = 1, te_postings = [\<lparr>p_doc = 1, p_tf = 2, p_positions = [0, 2]\<rparr>]\<rparr>"
  by (simp add: index_lookup_def ex_index_def)

lemma ex_find:
  "schema_find (ix_schema ex_index) ''body'' = Some \<lparr>fd_name = ''body'', fd_type = FT_text, fd_indexed = True,
    fd_stored = True, fd_boost = fp_one, fd_analyzer = Some (StandardAnalyzer [])\<rparr>"
  by (simp add: schema_find_def ex_index_def ex_schema_def)

lemma ex_analyze_a:
  "analyze (StandardAnalyzer []) ''a'' = Inr
    [\<lparr>tok_term = ''a'', tok_position = 0, tok_start_offset = 0, tok_end_offset = 1\<rparr>]"
  by (simp add: standard_analyze_def standard_loop.simps is_token_byte_def
      ctype_defs ascii_lower_def checked_offset_def Let_def)

lemma fp_one_facts: "fmul fp_one fp_one = fp_one" "isfinite fp_one" "\<not> fp_less fp_one fp_zero"
  by code_simp+

lemma ex_term_for_field:
  "term_for_field (memory_view ex_index) ex_planner_options ''body'' ''a'' fp_one
     \<lparr>source_nodes = n, planned_nodes = 0, analyzed_tokens = 0\<rparr> =
   Inr (ex_plan, \<lparr>source_nodes = n, planned_nodes = 1, analyzed_tokens = 1\<rparr>)"
  by (simp add: term_for_field_def searchable_field_def ex_find plan_analyze_def ex_analyze_a
      ex_planner_options_def ex_lookup Planner.make_def Let_def normalize_or_def normalize_boolean_def
      fp_one_facts ex_plan_def del: analyze.simps)

lemma ex_planned: "plan_query (memory_view ex_index) ex_query ex_planner_options = Inr ex_plan"
  using ex_term_for_field
  by (simp add: plan_query_def ex_query_def ex_planner_options_def build.simps build_leaf_def
      normalize_or_def normalize_boolean_def Let_def fp_one_facts)

lemma ex_statistics:
  "index_field_statistics ex_index ''body'' = \<lparr>fs_count = 1, fs_total = 3, fs_average = 4613937818241073152\<rparr>"
  by (simp add: index_field_statistics_def statistics_of_def ex_index_def) code_simp

lemma ex_score:
  "bm25_score (\<lambda>x. x) ex_parameters
     \<lparr>ts_document_count = 1, ts_document_frequency = 1, ts_term_frequency = 2, ts_document_length = 3,
      ts_average_document_length = 4613937818241073152\<rparr> fp_one fp_one = Inr 4601678019255453468"
  by code_simp

lemma ex_record:
  "index_document_internal ex_index 1 = Some \<lparr>dr_internal_id = 1, dr_document = ex_document,
     dr_field_lengths = [(''body'', 3)], dr_indexed_terms = [(''body'', [''a'', ''b''])]\<rparr>"
  by (simp add: index_document_internal_def index_external_id_def index_document_def ex_index_def)

lemma ex_evaluate:
  "evaluate (memory_view ex_index) \<lparr>sc_log1p = (\<lambda>x. x), sc_parameters = ex_parameters\<rparr> ex_plan =
   Inr [\<lparr>c_doc = 1, c_score = 4601678019255453468\<rparr>]"
proof -
  have "score_posting (memory_view ex_index) \<lparr>sc_log1p = (\<lambda>x. x), sc_parameters = ex_parameters\<rparr> ''body''
      \<lparr>te_df = 1, te_postings = [\<lparr>p_doc = 1, p_tf = 2, p_positions = [0, 2]\<rparr>]\<rparr>
      \<lparr>p_doc = 1, p_tf = 2, p_positions = [0, 2]\<rparr> fp_one = Inr 4601678019255453468"
    using ex_score by (simp add: score_posting_def ex_record ex_statistics Let_def)
  then show ?thesis by (simp add: ex_plan_def score_term_def ex_lookup)
qed

lemma ex_create: "bm25_create ex_parameters = Inr ex_parameters"
  by (simp add: bm25_create_def ex_parameters_def fp_eval_defs)

lemma ex_search_plan: "search_plan (memory_view ex_index) (\<lambda>x. x) ex_parameters ex_plan 10 = Inr ex_result"
proof -
  have "isfinite 4601678019255453468" by (simp add: fp_eval_defs)
  moreover have "index_external_id ex_index 1 = Some ''d''" by (simp add: index_external_id_def ex_index_def)
  ultimately show ?thesis
    by (simp add: search_plan_def ex_create ex_evaluate collect_def top_k_new_def top_k_results_def ex_result_def)
qed

lemma ex_search: "search (memory_view ex_index) (\<lambda>x. x) ex_parameters ex_query ex_options = Inr ex_result"
proof -
  have "\<lparr>po_default_fields = so_default_fields ex_options, po_limits = so_planner_limits ex_options\<rparr> = ex_planner_options"
    by (simp add: ex_options_def ex_planner_options_def)
  moreover have "so_top_k ex_options = 10" by (simp add: ex_options_def)
  ultimately show ?thesis by (simp add: search_def ex_planned ex_search_plan)
qed

lemma ex_engine_schema: "engine_schema ex_schema"
  by (simp add: engine_schema_def ex_schema_def engine_analyzer_def)

section \<open>Properties\<close>

text \<open>
  C1: search is exact. In every state of the in-memory index, whatever BM25 parameters, planner limits
  and logarithm are used, a search that returns found exactly the visible documents that satisfy
  the query (a reading of the query on the documents, without index, plan or postings); the total
  is their number, and the hits are the first \<open>k\<close> of them by decreasing score and, for equal
  scores, increasing identifier.
\<close>

theorem search_exact:
  assumes "index_reachable schema maximum ix" and "engine_schema schema"
    and "search (memory_view ix) log1p parameters q opts = Inr res"
  shows "\<exists>xs. distinct (map sd_id xs) \<and>
    sd_id ` set xs = {did. \<exists>r. index_document ix did = Some r \<and> \<not> doc_deleted (dr_document r) \<and>
      query_matches schema (map sf_name (so_default_fields opts)) (dr_document r) None q} \<and>
    sr_hits res = take (so_top_k opts) (sort_key rank xs) \<and> sr_total_hits res = length xs"
proof -
  have inv: "engine_inv ix" and sch: "ix_schema ix = schema"
    using assms reachable_engine index_reachable_schema by blast+
  obtain p where p: "plan_query (memory_view ix) q
      \<lparr>po_default_fields = so_default_fields opts, po_limits = so_planner_limits opts\<rparr> = Inr p"
      "search_plan (memory_view ix) log1p parameters p (so_top_k opts) = Inr res"
    using assms(3) by (auto simp: search_def split: sum.splits)
  have meaning: "plan_matches schema d p = query_matches schema (map sf_name (so_default_fields opts)) d None q" for d
    using plan_query_matches [OF p(1), of d] sch by simp
  obtain xs where xs: "distinct (map sd_id xs)" "sr_hits res = take (so_top_k opts) (sort_key rank xs)"
      "sr_total_hits res = length xs"
    and docs: "sd_id ` set xs = {doc_id (dr_document r) | i r. live (memory_view ix) i r \<and> plan_matches schema (dr_document r) p}"
    by (rule memory.search_plan_matching [OF inv p(2)], rule that) (simp_all add: sch)
  have "sd_id ` set xs = {did. \<exists>r. index_document ix did = Some r \<and> \<not> doc_deleted (dr_document r) \<and>
      query_matches schema (map sf_name (so_default_fields opts)) (dr_document r) None q}"
    unfolding docs using live_memory [of ix "\<lambda>d. plan_matches schema d p"] inv by (simp add: meaning engine_inv_def)
  with xs show ?thesis by blast
qed

theorem search_exact_witness:
  "\<exists>xs. index_reachable ex_schema 10 ex_index \<and> engine_schema ex_schema \<and>
    search (memory_view ex_index) (\<lambda>x. x) ex_parameters ex_query ex_options = Inr ex_result \<and>
    sd_id ` set xs = {did. \<exists>r. index_document ex_index did = Some r \<and> \<not> doc_deleted (dr_document r) \<and>
      query_matches ex_schema [''body''] (dr_document r) None ex_query} \<and>
    sr_hits ex_result = take 10 (sort_key rank xs) \<and> length xs = 1"
proof -
  have opts: "map sf_name (so_default_fields ex_options) = [''body'']" "so_top_k ex_options = 10" "sr_total_hits ex_result = 1"
    by (simp_all add: ex_options_def ex_planner_options_def ex_result_def)
  obtain xs where "sd_id ` set xs = {did. \<exists>r. index_document ex_index did = Some r \<and> \<not> doc_deleted (dr_document r) \<and>
      query_matches ex_schema [''body''] (dr_document r) None ex_query}"
      "sr_hits ex_result = take 10 (sort_key rank xs)" "length xs = 1"
    using search_exact [OF ex_reachable ex_engine_schema ex_search] unfolding opts by metis
  with ex_reachable ex_engine_schema ex_search show ?thesis by blast
qed

text \<open>
  C6: search has no internal errors. Over any state of the in-memory index a search fails for one of four reasons only, with exactly
  this error: the planner refuses the query; the BM25 parameters are refused; a boost of the plan is negative or not finite; or some
  live document that satisfies the plan has a score that is not finite. The other branches of the
  executor (a posting of an unknown document, a missing field length, a missing external identifier, a range over an
  unknown field, inconsistent corpus statistics) are never taken.
\<close>

theorem search_errors:
  assumes "index_reachable schema maximum ix" and "engine_schema schema"
    and "search (memory_view ix) log1p parameters q opts = Inl e"
    and "planned = plan_query (memory_view ix) q \<lparr>po_default_fields = so_default_fields opts, po_limits = so_planner_limits opts\<rparr>"
  shows "(\<exists>pe. planned = Inl pe \<and> e = planning_error_of pe) \<or>
    (bm25_create parameters = Inl Invalid_parameters \<and> e = ex_error Ex_invalid_options (bm25_describe Invalid_parameters)) \<or>
    (\<exists>p boost. planned = Inr p \<and> boost \<in> set (plan_boosts p) \<and> (\<not> isfinite boost \<or> fp_less boost fp_zero) \<and>
      e = ex_error Ex_ranking_error (bm25_describe Bm25_invalid_boost)) \<or>
    (\<exists>p params i r. planned = Inr p \<and> bm25_create parameters = Inr params \<and> live (memory_view ix) i r \<and>
      plan_matches (ix_schema ix) (dr_document r) p \<and>
      \<not> isfinite (plan_score (scoring_of (memory_view ix)) \<lparr>sc_log1p = log1p, sc_parameters = params\<rparr> (dr_document r) p) \<and>
      e = ex_error Ex_ranking_error ''non-finite score'')"
proof (cases planned)
  case (Inr p)
  note plan = Inr [unfolded assms(4)]
  note ranges = plan_query_ranges [OF plan]
  have "search_plan (memory_view ix) log1p parameters p (so_top_k opts) = Inl e" using assms(3) plan by (simp add: search_def)
  from memory.search_plan_failure [OF reachable_engine [OF assms(1,2)] ranges this] show ?thesis
    unfolding plan_scorable_boosts [OF ranges] boost_error_def list_all_iff valid_boost_value_def
    using Inr by (elim disjE conjE exE) auto
qed (use assms(3,4) in \<open>simp add: search_def\<close>)

theorem search_errors_witness:
  "index_reachable ex_schema 10 ex_index \<and> engine_schema ex_schema \<and>
   search (memory_view ex_index) (\<lambda>x. x) \<lparr>bm_k1 = fp_zero, bm_b = fp_half\<rparr> ex_query ex_options =
     Inl (ex_error Ex_invalid_options (bm25_describe Invalid_parameters)) \<and>
   bm25_create \<lparr>bm_k1 = fp_zero, bm_b = fp_half\<rparr> = Inl Invalid_parameters"
proof -
  have "\<lparr>po_default_fields = so_default_fields ex_options, po_limits = so_planner_limits ex_options\<rparr> = ex_planner_options"
    by (simp add: ex_options_def ex_planner_options_def)
  moreover have bm: "bm25_create \<lparr>bm_k1 = fp_zero, bm_b = fp_half\<rparr> = Inl Invalid_parameters"
    by (simp add: bm25_create_def fp_eval_defs)
  ultimately have s: "search (memory_view ex_index) (\<lambda>x. x) \<lparr>bm_k1 = fp_zero, bm_b = fp_half\<rparr> ex_query ex_options =
      Inl (ex_error Ex_invalid_options (bm25_describe Invalid_parameters))"
    by (simp add: search_def search_plan_def ex_planned)
  from search_errors [OF ex_reachable ex_engine_schema s refl] s bm ex_reachable ex_engine_schema show ?thesis
    by (auto simp: ex_error_def)
qed

text \<open>
  C5: the planner keeps the meaning of a query. For any index view, the plan of a query is satisfied
  by exactly the documents that satisfy the query: dropping children with the same canonical
  text, sorting them by cost, collapsing single children and rewriting the bounds of integer
  ranges change nothing. In particular the canonical text of a plan determines what it matches.
\<close>

theorem plan_keeps_meaning:
  assumes "plan_query v q opts = Inr p"
  shows "plan_matches (v_schema v) d p =
    query_matches (v_schema v) (map sf_name (po_default_fields opts)) d None q"
  using assms by (rule plan_query_matches)

theorem plan_keeps_meaning_witness:
  "plan_query (memory_view ex_index) ex_query ex_planner_options = Inr ex_plan \<and>
   plan_matches ex_schema ex_document ex_plan = query_matches ex_schema [''body''] ex_document None ex_query"
  using plan_keeps_meaning [OF ex_planned, of ex_document] ex_planned
  by (simp add: ex_planner_options_def ex_index_def)

text \<open>
  C17: the limits of the planner hold. A query that is planned has no more nodes and is no deeper than the limits say. Its plan, which may
  have a node per analyzed token and default field, has no more nodes than the limit either; no phrase of it has more
  tokens than the limit; and it is at most two levels deeper than the query, for a term becomes a disjunction over the default fields
  of disjunctions over its tokens. So the depth of a plan is bounded by the limit on the depth plus two.
\<close>

theorem plan_within_limits:
  assumes "plan_query v q opts = Inr p"
  shows "plan_size p \<le> maximum_nodes (po_limits opts) \<and> query_size q \<le> maximum_nodes (po_limits opts) \<and>
    query_height q \<le> maximum_depth (po_limits opts) \<and>
    plan_height p \<le> query_height q + 2 \<and> plan_height p \<le> maximum_depth (po_limits opts) + 2 \<and>
    phrases_within (maximum_phrase_tokens (po_limits opts)) p"
  using plan_query_within [OF assms] plan_query_shaped [OF assms] by (simp add: shaped_def)

theorem plan_within_limits_witness:
  "plan_query (memory_view ex_index) ex_query ex_planner_options = Inr ex_plan \<and> plan_size ex_plan \<le> 10"
  using plan_within_limits [OF ex_planned] ex_planned by (simp add: ex_planner_options_def)

text \<open>
  C16: an explanation agrees with the search. The explanation of a plan for a document says that it
  matches exactly when the document is visible and satisfies the plan, and for every hit of a
  search with the same plan it reports a match with the score of the hit.
\<close>

theorem explain_agrees:
  assumes "index_reachable schema maximum ix" and "engine_schema schema"
    and "explain (memory_view ix) log1p parameters p did = Inr x"
    and "search_plan (memory_view ix) log1p parameters p k = Inr res"
  shows "(matched x \<longleftrightarrow> (\<exists>r. index_document ix did = Some r \<and> \<not> doc_deleted (dr_document r) \<and>
      plan_matches schema (dr_document r) p)) \<and>
    (\<forall>h \<in> set (sr_hits res). sd_id h = did \<longrightarrow> matched x \<and> se_score x = sd_score h)"
proof -
  have inv: "engine_inv ix" "index_inv ix" and sch: "ix_schema ix = schema"
    using assms(1,2) reachable_engine index_reachable_schema reachable_inv by blast+
  have "matched x \<longleftrightarrow> did \<in> {doc_id (dr_document r) | i r. live (memory_view ix) i r \<and> plan_matches schema (dr_document r) p}"
    using memory.explain_matching [OF inv(1) assms(3)] sch by auto
  then show ?thesis
    using live_memory [OF inv(2), of "\<lambda>d. plan_matches schema d p"] memory.explain_hit [OF inv(1) _ assms(4)] assms(3)
    by auto
qed

theorem explain_agrees_witness:
  "\<exists>x. index_reachable ex_schema 10 ex_index \<and> engine_schema ex_schema \<and>
    explain (memory_view ex_index) (\<lambda>x. x) ex_parameters ex_plan ''d'' = Inr x \<and>
    search_plan (memory_view ex_index) (\<lambda>x. x) ex_parameters ex_plan 10 = Inr ex_result \<and>
    matched x \<and> se_score x = 4601678019255453468"
proof -
  have "index_internal_id ex_index ''d'' = Some 1" by (simp add: index_internal_id_def ex_index_def)
  then obtain x where x: "explain (memory_view ex_index) (\<lambda>x. x) ex_parameters ex_plan ''d'' = Inr x"
    using ex_evaluate by (auto simp: explain_def ex_create explain_node.simps explain_term_def ex_plan_def Let_def)
  from explain_agrees [OF ex_reachable ex_engine_schema x ex_search_plan] x ex_reachable ex_engine_schema ex_search_plan
  show ?thesis by (auto simp: ex_result_def)
qed

end
