(* ===== verification/Document_File.thy ===== *)
theory Document_File
  imports CLib Document
begin

text \<open>
  The loader of escaped TSV files: \<^verbatim>\<open>src/index/document_file.cpp\<close>. The input stream is the text
  that is left to read; \<^verbatim>\<open>std::getline\<close> fails at its end and accepts a last line without a line
  break. The overload for a path reads a file, given here as its content if it can be opened.
\<close>

section \<open>Lines and columns\<close>

abbreviation "tab \<equiv> CHR 0x09"
abbreviation "line_feed \<equiv> CHR 0x0A"
abbreviation "carriage_return \<equiv> CHR 0x0D"
abbreviation "backslash \<equiv> CHR 0x5C"

definition kHeader :: string where
  "kHeader = ''document_id'' @ tab # ''version'' @ tab # ''deleted'' @ tab # ''title'' @ tab # ''body'' @
     tab # ''tags'' @ tab # ''timestamp''"

datatype document_file_error_code =
    Open_failed | Invalid_header | Invalid_column_count | Invalid_escape | Invalid_version
  | Invalid_deleted | Empty_document_id

record document_file_error =
  dfe_code :: document_file_error_code
  dfe_line :: nat
  dfe_column :: nat
  dfe_message :: string

definition df_fail :: "document_file_error_code \<Rightarrow> nat \<Rightarrow> nat \<Rightarrow> string \<Rightarrow> document_file_error" where
  "df_fail code line column message =
     \<lparr>dfe_code = code, dfe_line = line, dfe_column = column, dfe_message = message\<rparr>"

definition getline :: "string \<Rightarrow> (string \<times> string) option" where
  "getline input =
     (if input = [] then None
      else Some (takeWhile (\<lambda>c. c \<noteq> line_feed) input, drop 1 (dropWhile (\<lambda>c. c \<noteq> line_feed) input)))"

definition push_back :: "string list \<Rightarrow> char \<Rightarrow> string list" where
  "push_back columns c = butlast columns @ [last columns @ [c]]"

definition unescape :: "char \<Rightarrow> char option" where
  "unescape c =
     (if c = CHR ''t'' then Some tab
      else if c = CHR ''n'' then Some line_feed
      else if c = CHR ''r'' then Some carriage_return
      else if c = backslash then Some backslash
      else None)"

text \<open>The loop of \<^verbatim>\<open>split_line\<close>, with the cursor and the rest of the line from it on.\<close>

fun split_loop :: "nat \<Rightarrow> nat \<Rightarrow> string list \<Rightarrow> string \<Rightarrow> (document_file_error, string list) result" where
  "split_loop line_number cursor columns [] = Inr columns"
| "split_loop line_number cursor columns (c # rest) =
     (if c = tab then split_loop line_number (cursor + 1) (columns @ [[]]) rest
      else if c \<noteq> backslash then split_loop line_number (cursor + 1) (push_back columns c) rest
      else case rest of
             [] \<Rightarrow> Inl (df_fail Invalid_escape line_number (cursor + 1) ''trailing backslash in escaped TSV value'')
           | e # rest' \<Rightarrow>
               (case unescape e of
                  None \<Rightarrow> Inl (df_fail Invalid_escape line_number (cursor + 1) ''unsupported TSV escape sequence'')
                | Some u \<Rightarrow> split_loop line_number (cursor + 2) (push_back columns u) rest'))"

definition split_line :: "string \<Rightarrow> nat \<Rightarrow> (document_file_error, string list) result" where
  "split_line line line_number = split_loop line_number 0 [[]] line"

section \<open>Documents\<close>

text \<open>The body of the loop for a line that is not empty.\<close>

definition read_row :: "string \<Rightarrow> nat \<Rightarrow> (document_file_error, document) result" where
  "read_row line line_number =
     (case split_line line line_number of
        Inl e \<Rightarrow> Inl e
      | Inr columns \<Rightarrow>
          if length columns \<noteq> 7 then
            Inl (df_fail Invalid_column_count line_number (length line)
                   ''document row must contain exactly seven columns'')
          else if columns ! 0 = [] then
            Inl (df_fail Empty_document_id line_number 0 ''document ID must not be empty'')
          else (case from_chars_u64 (columns ! 1) of (ec, consumed, version) \<Rightarrow>
            if ec \<noteq> Errc_ok \<or> consumed \<noteq> length (columns ! 1) \<or> version = 0 then
              Inl (df_fail Invalid_version line_number 1 ''version must be a positive uint64 value'')
            else if columns ! 2 \<noteq> ''0'' \<and> columns ! 2 \<noteq> ''1'' then
              Inl (df_fail Invalid_deleted line_number 2 ''deleted must be 0 or 1'')
            else Inr
              \<lparr>doc_id = columns ! 0,
               doc_fields = [(''body'', columns ! 4), (''tags'', columns ! 5), (''title'', columns ! 3)],
               doc_metadata = [(''timestamp'', columns ! 6)],
               doc_version = of_nat version, doc_deleted = (columns ! 2 = ''1'')\<rparr>))"

lemma getline_shorter: "getline input = Some (line, rest) \<Longrightarrow> length rest < length input"
  using length_dropWhile_le [of "\<lambda>c. c \<noteq> line_feed" "tl input"]
  by (cases input) (auto simp: getline_def split: if_splits)

function read_rows ::
  "string \<Rightarrow> nat \<Rightarrow> document list \<Rightarrow> (document_file_error, document list) result" where
  "read_rows input line_number documents =
     (case getline input of
        None \<Rightarrow> Inr documents
      | Some (line, rest) \<Rightarrow>
          if line = [] then read_rows rest (line_number + 1) documents
          else (case read_row line (line_number + 1) of
                  Inl e \<Rightarrow> Inl e
                | Inr d \<Rightarrow> read_rows rest (line_number + 1) (documents @ [d])))"
  by pat_completeness auto
termination
  by (relation "measure (\<lambda>(input, _, _). length input)") (auto dest: getline_shorter)

declare read_rows.simps [simp del]

definition read_documents :: "string \<Rightarrow> (document_file_error, document list) result" where
  "read_documents input =
     (case getline input of
        None \<Rightarrow> Inl (df_fail Invalid_header 1 0 (''expected escaped TSV header: '' @ kHeader))
      | Some (line, rest) \<Rightarrow>
          if line \<noteq> kHeader then
            Inl (df_fail Invalid_header 1 0 (''expected escaped TSV header: '' @ kHeader))
          else read_rows rest 1 [])"

definition read_documents_path ::
  "string \<Rightarrow> string option \<Rightarrow> (document_file_error, document list) result" where
  "read_documents_path path content =
     (case content of
        None \<Rightarrow> Inl (df_fail Open_failed 0 0 (''unable to open document file: '' @ path))
      | Some input \<Rightarrow> read_documents input)"

section \<open>Reading back what was written\<close>

text \<open>The reference writer: escape each column, separate by tabs, one line per document.\<close>

definition escape_char :: "char \<Rightarrow> string" where
  "escape_char c =
     (if c = tab then [backslash, CHR ''t''] else if c = line_feed then [backslash, CHR ''n'']
      else if c = carriage_return then [backslash, CHR ''r''] else if c = backslash then [backslash, backslash]
      else [c])"

definition escape :: "string \<Rightarrow> string" where
  "escape s = concat (map escape_char s)"

fun join_columns :: "string list \<Rightarrow> string" where
  "join_columns [] = []"
| "join_columns [c] = escape c"
| "join_columns (c # cs) = escape c @ tab # join_columns cs"

definition column_of :: "(string, string) omap \<Rightarrow> string \<Rightarrow> string" where
  "column_of m k = om_get [] m k"

definition row_columns :: "document \<Rightarrow> string list" where
  "row_columns d =
     [doc_id d, to_string_nat (unat (doc_version d)), (if doc_deleted d then ''1'' else ''0''),
      column_of (doc_fields d) ''title'', column_of (doc_fields d) ''body'', column_of (doc_fields d) ''tags'',
      column_of (doc_metadata d) ''timestamp'']"

definition write_documents :: "document list \<Rightarrow> string" where
  "write_documents ds = kHeader @ line_feed # concat (map (\<lambda>d. join_columns (row_columns d) @ [line_feed]) ds)"

text \<open>The documents that the format can express.\<close>

definition file_document :: "document \<Rightarrow> bool" where
  "file_document d \<longleftrightarrow> doc_id d \<noteq> [] \<and> doc_version d \<noteq> 0 \<and>
     map fst (doc_fields d) = [''body'', ''tags'', ''title''] \<and> map fst (doc_metadata d) = [''timestamp'']"

lemma split_escaped:
  assumes "columns \<noteq> []"
  shows "\<exists>n. split_loop line cursor columns (escape s @ rest) =
    split_loop line n (butlast columns @ [last columns @ s]) rest"
  using assms
proof (induction s arbitrary: cursor columns)
  case Nil
  then show ?case by (auto simp: escape_def)
next
  case (Cons c s)
  have "\<exists>n. split_loop line cursor columns (escape_char c @ escape s @ rest) =
      split_loop line n (push_back columns c) (escape s @ rest)"
    by (auto simp: escape_char_def unescape_def)
  moreover have "push_back columns c \<noteq> []" by (simp add: push_back_def)
  ultimately show ?case
    using Cons.IH [of "push_back columns c"] by (fastforce simp: escape_def push_back_def)
qed

lemma split_joined:
  "cs \<noteq> [] \<Longrightarrow> columns \<noteq> [] \<Longrightarrow> split_loop line cursor columns (join_columns cs) =
    Inr (butlast columns @ [last columns @ hd cs] @ tl cs)"
proof (induction cs arbitrary: cursor columns rule: join_columns.induct)
  case (2 c)
  then show ?case using split_escaped [of columns line cursor c "[]"] by auto
next
  case (3 c c' cs)
  obtain n where "split_loop line cursor columns (escape c @ tab # join_columns (c' # cs)) =
      split_loop line n (butlast columns @ [last columns @ c]) (tab # join_columns (c' # cs))"
    using split_escaped [OF 3(3)] by blast
  with 3(1) [of "butlast columns @ [last columns @ c] @ [[]]" "n + 1"] show ?case by (simp add: butlast_append)
qed simp

lemma split_line_joined: "cs \<noteq> [] \<Longrightarrow> split_line (join_columns cs) line_number = Inr cs"
  using split_joined [of cs "[[]]" line_number 0] by (simp add: split_line_def)

lemma escape_no_break: "line_feed \<notin> set (escape s)"
  by (auto simp: escape_def escape_char_def split: if_splits)

lemma join_no_break: "line_feed \<notin> set (join_columns cs)"
  by (induction cs rule: join_columns.induct) (auto simp: escape_no_break)

lemma getline_line: "line_feed \<notin> set line \<Longrightarrow> getline (line @ line_feed # rest) = Some (line, rest)"
  by (induction line) (auto simp: getline_def)

lemma read_row_written:
  assumes "file_document d"
  shows "read_row (join_columns (row_columns d)) line_number = Inr d"
proof -
  obtain body tags title time where f: "doc_fields d = [(''body'', body), (''tags'', tags), (''title'', title)]"
      "doc_metadata d = [(''timestamp'', time)]"
    using assms by (auto simp: file_document_def map_eq_Cons_conv)
  have "unat (doc_version d) \<le> 2 ^ 64 - 1"
    using unat_u64_less [of "doc_version d"] by simp
  then have "from_chars_u64 (to_string_nat (unat (doc_version d))) =
      (Errc_ok, length (to_string_nat (unat (doc_version d))), unat (doc_version d))"
    unfolding from_chars_u64_def by (rule from_chars_unsigned_to_string)
  moreover have "split_line (join_columns (row_columns d)) line_number = Inr (row_columns d)"
    by (rule split_line_joined) (simp add: row_columns_def)
  ultimately show ?thesis
    using assms f by (simp add: read_row_def row_columns_def file_document_def column_of_def om_get_def unat_eq_0)
qed

lemma join_not_Nil: "file_document d \<Longrightarrow> join_columns (row_columns d) \<noteq> []"
  by (auto simp: row_columns_def)

lemma read_rows_written:
  "\<forall>d \<in> set ds. file_document d \<Longrightarrow>
   read_rows (concat (map (\<lambda>d. join_columns (row_columns d) @ [line_feed]) ds)) n acc = Inr (acc @ ds)"
proof (induction ds arbitrary: n acc)
  case Nil
  then show ?case by (simp add: read_rows.simps getline_def)
next
  case (Cons d ds)
  then show ?case
    by (subst read_rows.simps) (simp add: getline_line [OF join_no_break] join_not_Nil read_row_written)
qed

lemma header_no_break: "line_feed \<notin> set kHeader"
  by (simp add: kHeader_def)

text \<open>
  C39: reading back what was written. For every list of documents that the format can express (a
  non-empty identifier, a positive version, the three text fields and the timestamp), with any bytes
  in their values, loading the escaped TSV text of the documents gives the same documents in order.
\<close>

theorem read_written_documents:
  assumes "\<forall>d \<in> set ds. file_document d"
  shows "read_documents (write_documents ds) = Inr ds"
  using read_rows_written [OF assms, of 1 "[]"]
  by (simp add: read_documents_def write_documents_def getline_line [OF header_no_break])

definition ex_file_document :: document where
  "ex_file_document = \<lparr>doc_id = ''d'', doc_fields = [(''body'', [tab, backslash, line_feed]), (''tags'', []), (''title'', ''t'')],
     doc_metadata = [(''timestamp'', ''2024-01-01'')], doc_version = 7, doc_deleted = False\<rparr>"

theorem read_written_documents_witness:
  "read_documents (write_documents [ex_file_document, ex_file_document]) = Inr [ex_file_document, ex_file_document]"
  by (rule read_written_documents) (simp add: ex_file_document_def file_document_def)

section \<open>What a successful load guarantees\<close>

lemma read_row_ok: "read_row line n = Inr d \<Longrightarrow> file_document d \<and> document_ok d"
proof -
  assume r: "read_row line n = Inr d"
  then obtain columns ec consumed version where c: "split_line line n = Inr columns"
      "from_chars_u64 (columns ! 1) = (ec, consumed, version)"
    by (auto simp: read_row_def split: sum.splits) (metis prod.exhaust)+
  with r have "version < 2 ^ 64" "version \<noteq> 0"
    by (auto simp: read_row_def from_chars_u64_def from_chars_unsigned_def Let_def split: if_splits)
  then have "(of_nat version :: u64) \<noteq> 0"
    by (simp add: word_of_nat_eq_0_iff nat_dvd_not_less)
  with r c show ?thesis
    by (auto simp: read_row_def file_document_def document_ok_def split: if_splits)
qed

lemma read_rows_ok:
  "read_rows input n acc = Inr ds \<Longrightarrow> \<forall>d \<in> set acc. file_document d \<and> document_ok d \<Longrightarrow>
   \<forall>d \<in> set ds. file_document d \<and> document_ok d"
proof (induction input n acc rule: read_rows.induct)
  case (1 input n acc)
  show ?case
  proof (cases "getline input")
    case None
    with 1(3,4) show ?thesis by (simp add: read_rows.simps)
  next
    case (Some lr)
    obtain line rest where lr: "lr = (line, rest)" by (cases lr)
    show ?thesis
    proof (cases "line = []")
      case True
      with 1(1) [OF Some lr [symmetric] True] 1(3,4) Some lr show ?thesis by (simp add: read_rows.simps [of input])
    next
      case False
      with 1(3) Some lr obtain d where d: "read_row line (n + 1) = Inr d" "read_rows rest (n + 1) (acc @ [d]) = Inr ds"
        by (auto simp: read_rows.simps [of input] split: sum.splits)
      have "\<forall>x \<in> set (acc @ [d]). file_document x \<and> document_ok x"
        using 1(4) read_row_ok [OF d(1)] by auto
      with 1(2) [OF Some lr [symmetric] False d(1,2)] show ?thesis .
    qed
  qed
qed

text \<open>The lines of a text: each ends with a line feed, the last one perhaps with the text.\<close>

fun lines_from :: "string \<Rightarrow> string \<Rightarrow> string list" where
  "lines_from line [] = (if line = [] then [] else [line])"
| "lines_from line (c # s) = (if c = line_feed then line # lines_from [] s else lines_from (line @ [c]) s)"

text \<open>A line is the row of a document: its seven columns, unescaped, are the parts of the document in the order of the header.\<close>

definition row_of :: "string \<Rightarrow> document \<Rightarrow> bool" where
  "row_of line d \<longleftrightarrow> (\<exists>n version.
     split_line line n = Inr [doc_id d, version, if doc_deleted d then ''1'' else ''0'',
       column_of (doc_fields d) ''title'', column_of (doc_fields d) ''body'', column_of (doc_fields d) ''tags'',
       column_of (doc_metadata d) ''timestamp''] \<and>
     from_chars_u64 version = (Errc_ok, length version, unat (doc_version d)))"

lemma lines_from_takeWhile:
  "lines_from line s =
     (if line @ s = [] then []
      else (line @ takeWhile (\<lambda>c. c \<noteq> line_feed) s) # lines_from [] (tl (dropWhile (\<lambda>c. c \<noteq> line_feed) s)))"
  by (induction s arbitrary: line) auto

lemma lines_from_getline:
  "lines_from [] s = (case getline s of None \<Rightarrow> [] | Some (line, rest) \<Rightarrow> line # lines_from [] rest)"
  by (subst lines_from_takeWhile) (simp add: getline_def drop_Suc)

lemma read_row_columns:
  assumes "read_row line n = Inr d"
  shows "row_of line d"
proof -
  from assms obtain columns where c: "split_line line n = Inr columns" "length columns = 7"
    by (auto simp: read_row_def split: sum.splits if_splits)
  obtain ec consumed version where v: "from_chars_u64 (columns ! 1) = (ec, consumed, version)" by (metis prod.exhaust)
  have "version < 2 ^ 64" if "ec = Errc_ok"
    using v that by (auto simp: from_chars_u64_def from_chars_unsigned_def Let_def split: if_splits)
  then have "unat (of_nat version :: u64) = version" if "ec = Errc_ok" using that by (simp add: unat_of_nat_small)
  moreover have "columns = [columns ! 0, columns ! 1, columns ! 2, columns ! 3, columns ! 4, columns ! 5, columns ! 6]"
    using c(2) by (intro nth_equalityI) (auto simp: less_Suc_eq numeral_eq_Suc)
  ultimately show ?thesis
    using assms c v unfolding row_of_def
    by (intro exI [of _ n] exI [of _ "columns ! 1"]) (auto simp: read_row_def column_of_def om_get_def split: if_splits)
qed

lemma read_rows_columns:
  "read_rows input n acc = Inr ds \<Longrightarrow>
   \<exists>ds'. ds = acc @ ds' \<and> list_all2 row_of (filter (\<lambda>line. line \<noteq> []) (lines_from [] input)) ds'"
proof (induction input n acc rule: read_rows.induct)
  case (1 input n acc)
  show ?case
  proof (cases "getline input")
    case None
    with 1(3) show ?thesis by (simp add: read_rows.simps lines_from_getline [of input])
  next
    case (Some lr)
    obtain line rest where lr: "lr = (line, rest)" by (cases lr)
    have lines: "lines_from [] input = line # lines_from [] rest" using Some by (simp add: lr lines_from_getline [of input])
    show ?thesis
    proof (cases "line = []")
      case True
      with 1(1) [OF Some lr [symmetric] True] 1(3) Some lr lines show ?thesis by (simp add: read_rows.simps [of input])
    next
      case False
      with 1(3) Some lr obtain d where d: "read_row line (n + 1) = Inr d" "read_rows rest (n + 1) (acc @ [d]) = Inr ds"
        by (auto simp: read_rows.simps [of input] split: sum.splits)
      from 1(2) [OF Some lr [symmetric] False d(1,2)] False lines read_row_columns [OF d(1)] show ?thesis by auto
    qed
  qed
qed

text \<open>
  C40: what a successful load guarantees, for any text. The first line is the header; the documents are those of the other lines that
  are not empty, one for each and in their order; each document has exactly the columns of its line, with the version read as a number that
  fits 64 bits; and each has a non-empty identifier, a positive version, the three text fields and a timestamp and no others, in
  maps whose keys are in order, so that it satisfies what the index requires of its documents.
\<close>

theorem loaded_documents_ok:
  assumes "read_documents input = Inr ds"
  shows "(\<forall>d \<in> set ds. file_document d \<and> document_ok d) \<and>
    (\<exists>lines. lines_from [] input = kHeader # lines \<and> list_all2 row_of (filter (\<lambda>line. line \<noteq> []) lines) ds)"
proof -
  obtain rest where r: "getline input = Some (kHeader, rest)" "read_rows rest 1 [] = Inr ds"
    using assms by (auto simp: read_documents_def split: option.splits if_splits)
  from read_rows_ok [OF r(2)] read_rows_columns [OF r(2)] show ?thesis
    by (simp add: lines_from_getline [of input] r(1))
qed

theorem loaded_documents_ok_witness:
  "\<exists>line. read_documents (write_documents [ex_file_document]) = Inr [ex_file_document] \<and>
     lines_from [] (write_documents [ex_file_document]) = [kHeader, line] \<and> row_of line ex_file_document \<and> document_ok ex_file_document"
proof -
  have f: "file_document ex_file_document" by (simp add: ex_file_document_def file_document_def)
  then have r: "read_documents (write_documents [ex_file_document]) = Inr [ex_file_document]"
    using read_rows_written [of "[ex_file_document]" 1 "[]"]
    by (simp add: read_documents_def write_documents_def getline_line [OF header_no_break])
  let ?line = "join_columns (row_columns ex_file_document)"
  have "lines_from [] (write_documents [ex_file_document]) = [kHeader, ?line]"
    by (simp add: lines_from_getline write_documents_def getline_line [OF header_no_break] getline_line [OF join_no_break] getline_def [of "[]"])
  with r loaded_documents_ok [OF r] join_not_Nil [OF f] show ?thesis by (auto split: if_splits)
qed

end
