(* ===== verification/Bytes.thy ===== *)
theory Bytes
  imports Document
begin

text \<open>
  Byte encodings that the storage and network formats share: little-endian integers, texts and
  the CRC-32C checksum (\<^verbatim>\<open>crc32c\<close>, \<^verbatim>\<open>u32\<close>, \<^verbatim>\<open>u64\<close> and the \<^verbatim>\<open>Cursor\<close> classes of
  \<^verbatim>\<open>src/storage/write_ahead_log.cpp\<close>, \<^verbatim>\<open>segment.cpp\<close>, \<^verbatim>\<open>manifest.cpp\<close> and
  \<^verbatim>\<open>src/distributed/shard_rpc.cpp\<close>). A cursor is the bytes that are left to read; a read that fails
  is \<open>None\<close>. The locale \<open>codec\<close> is the contract between an encoder and its decoder.
\<close>

unbundle bit_operations_syntax

type_synonym bytes = "u8 list"
type_synonym 'a reader = "bytes \<Rightarrow> ('a \<times> bytes) option"

section \<open>Integers\<close>

definition put_integer :: "nat \<Rightarrow> u64 \<Rightarrow> bytes" where
  "put_integer width value = map (\<lambda>i. ucast (drop_bit (8 * i) value AND 0xff)) [0..<width]"

fun or_bytes :: "nat \<Rightarrow> bytes \<Rightarrow> u64 \<Rightarrow> u64" where
  "or_bytes i [] value = value"
| "or_bytes i (b # bs) value = or_bytes (i + 1) bs (value OR push_bit (8 * i) (ucast b))"

definition get_integer :: "nat \<Rightarrow> u64 reader" where
  "get_integer width bs =
     (if length bs < width then None else Some (or_bytes 0 (take width bs) 0, drop width bs))"

definition put_u32 :: "u32 \<Rightarrow> bytes" where
  "put_u32 value = put_integer 4 (ucast value)"

definition put_u64 :: "u64 \<Rightarrow> bytes" where
  "put_u64 value = put_integer 8 value"

definition get_u32 :: "u32 reader" where
  "get_u32 bs = map_option (\<lambda>(v, rest). (ucast v, rest)) (get_integer 4 bs)"

definition get_u64 :: "u64 reader" where
  "get_u64 bs = get_integer 8 bs"

definition get_byte :: "u8 reader" where
  "get_byte bs = (case bs of [] \<Rightarrow> None | b # rest \<Rightarrow> Some (b, rest))"

section \<open>Texts\<close>

definition byte_of_char :: "char \<Rightarrow> u8" where
  "byte_of_char c = of_nat (of_char c)"

definition char_of_byte :: "u8 \<Rightarrow> char" where
  "char_of_byte b = char_of (unat b)"

definition text_bytes :: "string \<Rightarrow> bytes" where
  "text_bytes s = map byte_of_char s"

definition bytes_text :: "bytes \<Rightarrow> string" where
  "bytes_text bs = map char_of_byte bs"

section \<open>CRC-32C\<close>

fun crc_bits :: "nat \<Rightarrow> u32 \<Rightarrow> u32" where
  "crc_bits 0 crc = crc"
| "crc_bits (Suc n) crc = crc_bits n (drop_bit 1 crc XOR (0x82f63b78 AND - (crc AND 1)))"

definition crc_byte :: "u8 \<Rightarrow> u32 \<Rightarrow> u32" where
  "crc_byte b crc = crc_bits 8 (crc XOR ucast b)"

definition crc32c :: "bytes \<Rightarrow> u32" where
  "crc32c bs = NOT (fold crc_byte bs (NOT 0))"

section \<open>Reading back\<close>

lemma bit_or_bytes:
  "bit (or_bytes i bs v) n \<longleftrightarrow>
    bit v n \<or> (n < 64 \<and> 8 * i \<le> n \<and> n < 8 * (i + length bs) \<and> bit (bs ! (n div 8 - i)) (n mod 8))"
proof (induction bs arbitrary: i v)
  case (Cons b bs)
  have head: "bit (push_bit (8 * i) (ucast b) :: u64) n \<longleftrightarrow> n < 64 \<and> 8 * i \<le> n \<and> n < 8 * i + 8 \<and> bit b (n mod 8)"
    for i
  proof (cases "8 * i \<le> n \<and> n < 8 * i + 8")
    case True
    then obtain k where "n = 8 * i + k" "k < 8" by (metis le_Suc_ex nat_add_left_cancel_less)
    then show ?thesis by (auto simp: bit_push_bit_iff bit_unsigned_iff)
  next
    case False
    then have "8 * i \<le> n \<Longrightarrow> \<not> bit b (n - 8 * i)"
      using bit_imp_le_length [of b "n - 8 * i"] by fastforce
    with False show ?thesis by (auto simp: bit_push_bit_iff bit_unsigned_iff)
  qed
  have idx: "(b # bs) ! (n div 8 - i) = (if n < 8 * i + 8 then b else bs ! (n div 8 - (i + 1)))" if "8 * i \<le> n"
  proof -
    have "n div 8 - i = 0 \<longleftrightarrow> n < 8 * i + 8"
      using div_less_iff_less_mult [of 8 n "Suc i"] by (simp add: less_Suc_eq_le ac_simps)
    then show ?thesis by (auto simp: nth_Cons')
  qed
  show ?case
    unfolding or_bytes.simps Cons.IH bit_or_iff head using idx by (cases "n < 8 * i + 8") auto
qed auto

lemma length_put_integer [simp]: "length (put_integer w v) = w"
  by (simp add: put_integer_def)

lemma or_put_integer: "w \<le> 8 \<Longrightarrow> or_bytes 0 (put_integer w v) 0 = take_bit (8 * w) v"
proof (rule bit_eqI)
  fix n :: nat
  assume w: "w \<le> 8"
  have "bit (0xff :: u64) k \<longleftrightarrow> k < 8" for k
  proof -
    have "(0xff :: u64) = mask 8" by (simp add: mask_eq_exp_minus_1)
    then show ?thesis by (simp only: bit_mask_iff) (auto simp: possible_bit_word)
  qed
  moreover have "8 * (n div 8) + n mod 8 = n" by simp
  ultimately have "bit (put_integer w v ! (n div 8)) (n mod 8) \<longleftrightarrow> bit v n" if "n < 8 * w" "n < 64"
    using that by (simp add: put_integer_def bit_unsigned_iff bit_and_iff bit_drop_bit_eq less_mult_imp_div_less)
  with w show "bit (or_bytes 0 (put_integer w v) 0) n \<longleftrightarrow> bit (take_bit (8 * w) v) n"
    using bit_imp_le_length [of v n] by (auto simp: bit_or_bytes bit_take_bit_iff)
qed

lemma get_put_integer: "w \<le> 8 \<Longrightarrow> get_integer w (put_integer w v @ rest) = Some (take_bit (8 * w) v, rest)"
  by (simp add: get_integer_def or_put_integer)

lemma get_put_u64 [simp]: "get_u64 (put_u64 v @ rest) = Some (v, rest)"
  by (simp add: get_u64_def put_u64_def get_put_integer take_bit_word_eq_self)

lemma get_put_u32 [simp]: "get_u32 (put_u32 v @ rest) = Some (v, rest)"
proof -
  have "ucast (take_bit 32 (ucast v :: u64)) = v"
    by (rule bit_eqI) (auto simp: bit_unsigned_iff bit_take_bit_iff)
  then show ?thesis by (simp add: get_u32_def put_u32_def get_put_integer)
qed

lemma length_put_u32 [simp]: "length (put_u32 v) = 4" and length_put_u64 [simp]: "length (put_u64 w) = 8"
  by (simp_all add: put_u32_def put_u64_def)

lemma char_of_byte_of_char [simp]: "char_of_byte (byte_of_char c) = c"
  by (simp add: char_of_byte_def byte_of_char_def unat_of_nat_small)

lemma bytes_text_bytes [simp]: "bytes_text (text_bytes s) = s"
  by (simp add: bytes_text_def text_bytes_def comp_def)

lemma length_text_bytes [simp]: "length (text_bytes s) = length s"
  by (simp add: text_bytes_def)

section \<open>Encoders and decoders\<close>

text \<open>A decoder that reads back what its encoder wrote, whatever follows.\<close>

fun get_list :: "'a reader \<Rightarrow> nat \<Rightarrow> 'a list reader" where
  "get_list get 0 bs = Some ([], bs)"
| "get_list get (Suc n) bs =
     (case get bs of
        None \<Rightarrow> None
      | Some (x, rest) \<Rightarrow> map_option (\<lambda>(xs, rest'). (x # xs, rest')) (get_list get n rest))"

locale codec =
  fixes put :: "'a \<Rightarrow> bytes" and get :: "'a reader" and ok :: "'a \<Rightarrow> bool"
  assumes get_put: "ok x \<Longrightarrow> get (put x @ rest) = Some (x, rest)"
begin

lemma get_put_list:
  "\<forall>x \<in> set xs. ok x \<Longrightarrow> get_list get (length xs) (concat (map put xs) @ rest) = Some (xs, rest)"
  by (induction xs) (simp_all add: get_put)

lemma put_prefix_free: "ok x \<Longrightarrow> ok y \<Longrightarrow> put x @ r = put y @ r' \<Longrightarrow> x = y \<and> r = r'"
  by (metis get_put option.inject prod.inject)

end

interpretation u32: codec put_u32 get_u32 "\<lambda>_. True"
  by unfold_locales simp

interpretation u64: codec put_u64 get_u64 "\<lambda>_. True"
  by unfold_locales simp

end
