(* ===== verification/Posting_Codec.thy ===== *)
theory Posting_Codec
  imports Bytes
begin

text \<open>
  Variable-byte integers and delta sequences: \<^verbatim>\<open>src/storage/posting_codec.cpp\<close>. A value is written
  in groups of seven bits, least significant first; the last byte carries the stop bit. The
  input of \<^verbatim>\<open>decode\<close> with its offset is the bytes that are left to read.
\<close>

section \<open>The codec\<close>

datatype codec_error_code = Truncated | Overflow | Non_canonical | Invalid_order | Codec_resource_limit

record codec_error =
  ce_code :: codec_error_code
  ce_message :: string

definition codec_fail :: "codec_error_code \<Rightarrow> string \<Rightarrow> codec_error" where
  "codec_fail code message = \<lparr>ce_code = code, ce_message = message\<rparr>"

lemma unat_drop_group: "unat (drop_bit 7 v) = unat (v :: u32) div 128"
  unfolding unat_drop_bit_eq by (simp add: drop_bit_eq_div)

lemma drop_bit_decreases: "drop_bit 7 v \<noteq> 0 \<Longrightarrow> unat (drop_bit 7 v) < unat (v :: u32)"
proof -
  assume "drop_bit 7 v \<noteq> 0"
  then have "v \<noteq> 0" by auto
  then have "0 < unat v" by (simp add: unat_gt_0)
  then show ?thesis by (simp only: unat_drop_group)
qed

function varbyte_encode :: "u32 \<Rightarrow> bytes" where
  "varbyte_encode value =
     (let byte = ucast (value AND 0x7f); rest = drop_bit 7 value
      in if rest = 0 then [byte OR 0x80] else byte # varbyte_encode rest)"
  by pat_completeness auto
termination
  by (relation "measure unat") (auto simp: drop_bit_decreases)

declare varbyte_encode.simps [simp del]

text \<open>The loop over the shifts 0, 7, 14, 21 and 28; \<open>n\<close> counts the ones that are left.\<close>

fun varbyte_loop :: "nat \<Rightarrow> nat \<Rightarrow> u32 \<Rightarrow> bytes \<Rightarrow> (codec_error, u32 \<times> bytes) result" where
  "varbyte_loop 0 shift value bs = Inl (codec_fail Overflow ''variable-byte integer is too long'')"
| "varbyte_loop (Suc n) shift value bs =
     (case bs of
        [] \<Rightarrow> Inl (codec_fail Truncated ''truncated variable-byte integer'')
      | byte # rest \<Rightarrow>
          (let payload = ucast (byte AND 0x7f) :: u32
           in if shift = 28 \<and> payload > 15 then Inl (codec_fail Overflow ''variable-byte integer overflow'')
              else let value' = value OR push_bit shift payload
                   in if byte AND 0x80 \<noteq> 0
                      then (if shift \<noteq> 0 \<and> payload = 0
                            then Inl (codec_fail Non_canonical ''non-canonical variable-byte integer'')
                            else Inr (value', rest))
                      else varbyte_loop n (shift + 7) value' rest))"

definition varbyte_decode :: "bytes \<Rightarrow> (codec_error, u32 \<times> bytes) result" where
  "varbyte_decode bs = varbyte_loop 5 0 0 bs"

fun encode_deltas_from :: "u32 \<Rightarrow> u32 list \<Rightarrow> bytes \<Rightarrow> (codec_error, bytes) result" where
  "encode_deltas_from previous [] output = Inr output"
| "encode_deltas_from previous (value # rest) output =
     (if value \<le> previous then Inl (codec_fail Invalid_order ''values are not strictly increasing'')
      else encode_deltas_from value rest (output @ varbyte_encode (value - previous)))"

definition encode_deltas :: "u32 list \<Rightarrow> (codec_error, bytes) result" where
  "encode_deltas sorted_values = encode_deltas_from 0 sorted_values []"

fun decode_deltas_from :: "nat \<Rightarrow> u32 \<Rightarrow> bytes \<Rightarrow> u32 list \<Rightarrow> (codec_error, u32 list \<times> bytes) result" where
  "decode_deltas_from 0 previous bs values = Inr (values, bs)"
| "decode_deltas_from (Suc n) previous bs values =
     (case varbyte_decode bs of
        Inl e \<Rightarrow> Inl e
      | Inr (delta, rest) \<Rightarrow>
          if delta = 0 \<or> delta > - 1 - previous
          then Inl (codec_fail Invalid_order ''delta sequence is not strictly increasing'')
          else decode_deltas_from n (previous + delta) rest (values @ [previous + delta]))"

definition decode_deltas :: "bytes \<Rightarrow> nat \<Rightarrow> nat \<Rightarrow> (codec_error, u32 list) result" where
  "decode_deltas bs expected_count maximum_count =
     (if expected_count > maximum_count then
        Inl (codec_fail Codec_resource_limit ''decoded integer count exceeds limit'')
      else case decode_deltas_from expected_count 0 bs [] of
             Inl e \<Rightarrow> Inl e
           | Inr (values, rest) \<Rightarrow>
               if rest \<noteq> [] then Inl (codec_fail Non_canonical ''trailing variable-byte data'')
               else Inr values)"

section \<open>Reading back\<close>

lemma bit_group [simp]: "bit (127 :: int) n \<longleftrightarrow> n < 7" "bit (128 :: int) n \<longleftrightarrow> n = 7"
proof -
  have m: "(127 :: int) = mask 7" "(128 :: int) = push_bit 7 1"
    by (simp_all add: mask_eq_exp_minus_1 push_bit_eq_mult)
  show "bit (127 :: int) n \<longleftrightarrow> n < 7"
    unfolding m bit_mask_iff by simp
  show "bit (128 :: int) n \<longleftrightarrow> n = 7"
    unfolding m bit_push_bit_iff bit_1_iff by auto
qed

lemmas group_bits = bit_unsigned_iff bit_and_iff bit_or_iff bit_push_bit_iff bit_drop_bit_eq

lemma byte_group:
  "ucast (ucast (v AND 0x7f :: u32) AND 0x7f :: u8) = v AND 0x7f"
  "ucast ((ucast (v AND 0x7f :: u32) OR 0x80 :: u8) AND 0x7f) = v AND 0x7f"
  by (rule bit_eqI; auto simp: group_bits)+

lemma stop_bit:
  "(ucast (v AND 0x7f :: u32) :: u8) AND 0x80 = 0"
  "(ucast (v AND 0x7f :: u32) OR 0x80 :: u8) AND 0x80 \<noteq> 0"
proof -
  show "(ucast (v AND 0x7f :: u32) :: u8) AND 0x80 = 0"
    by (rule bit_eqI) (auto simp: group_bits)
  have "bit ((ucast (v AND 0x7f :: u32) OR 0x80 :: u8) AND 0x80) 7"
    by (simp add: group_bits)
  then show "(ucast (v AND 0x7f :: u32) OR 0x80 :: u8) AND 0x80 \<noteq> 0"
    by (metis bit_0_eq bot_apply bot_bool_def)
qed

lemma push_groups: "push_bit s (v AND 0x7f) OR push_bit (s + 7) (drop_bit 7 v) = push_bit s (v :: u32)"
proof (rule bit_eqI)
  fix n
  show "bit (push_bit s (v AND 0x7f) OR push_bit (s + 7) (drop_bit 7 v)) n \<longleftrightarrow> bit (push_bit s v) n"
    by (cases "s + 7 \<le> n") (auto simp: group_bits)
qed

lemma group_all: "drop_bit 7 v = 0 \<Longrightarrow> v AND 0x7f = (v :: u32)"
  using push_groups [of 0 v] by simp

lemma split_power: "shift \<le> 21 \<Longrightarrow> 2 ^ (32 - shift) = 2 ^ (32 - (shift + 7)) * (128 :: nat)"
proof -
  assume "shift \<le> 21"
  then have e: "32 - shift = (32 - (shift + 7)) + 7" by simp
  show ?thesis unfolding e power_add by simp
qed

lemma varbyte_loop_encode:
  assumes "shift + 7 * n = 35" and "n \<noteq> 0" and "unat v < 2 ^ (32 - shift)" and "shift = 0 \<or> v \<noteq> 0"
  shows "varbyte_loop n shift acc (varbyte_encode v @ rest) = Inr (acc OR push_bit shift v, rest)"
  using assms
proof (induction n arbitrary: shift acc v)
  case (Suc n)
  have pay: "\<not> (shift = 28 \<and> v AND 0x7f > 15)"
  proof (rule notI)
    assume s: "shift = 28 \<and> v AND 0x7f > 15"
    have "v AND 0x7f \<le> v" by (rule word_and_le2)
    with s Suc.prems(3) show False by (simp add: word_le_nat_alt word_less_nat_alt)
  qed
  show ?case
  proof (cases "drop_bit 7 v = 0")
    case True
    note v = group_all [OF True]
    then show ?thesis
      using Suc.prems(4) pay True byte_group(2) [of v] stop_bit(2) [of v]
      by (subst varbyte_encode.simps) (auto simp: Let_def)
  next
    case False
    have sh: "shift \<le> 21"
    proof (rule ccontr)
      assume "\<not> shift \<le> 21"
      with Suc.prems(1,2) have "shift = 28" by presburger
      with Suc.prems(3) have "unat (drop_bit 7 v) = 0" by (simp only: unat_drop_group) simp
      with False show False by (simp add: unat_eq_0)
    qed
    have small: "unat (drop_bit 7 v) < 2 ^ (32 - (shift + 7))"
      unfolding unat_drop_group by (rule less_mult_imp_div_less) (use Suc.prems(3) in \<open>simp only: split_power [OF sh]\<close>)
    have n: "shift + 7 + 7 * n = 35" "n \<noteq> 0"
      using Suc.prems(1) sh by auto
    have "varbyte_loop n (shift + 7) (acc OR push_bit shift (v AND 0x7f)) (varbyte_encode (drop_bit 7 v) @ rest) =
        Inr (acc OR push_bit shift v, rest)"
      unfolding Suc.IH [OF n small disjI2 [OF False]] by (simp only: or.assoc push_groups)
    with False pay byte_group(1) [of v] stop_bit(1) [of v] show ?thesis
      by (subst varbyte_encode.simps) (auto simp: Let_def)
  qed
qed simp

lemma varbyte_decode_encode: "varbyte_decode (varbyte_encode v @ rest) = Inr (v, rest)"
  using varbyte_loop_encode [of 0 5 v 0 rest] unat_u32_less [of v] by (simp add: varbyte_decode_def)

text \<open>The decoder accepts nothing but what the encoder writes.\<close>

lemma join_group:
  assumes "unat v' < 2 ^ 25"
  shows "(ucast (b AND 0x7f :: u8) OR push_bit 7 v') AND 0x7f = (ucast (b AND 0x7f) :: u32)"
    and "drop_bit 7 (ucast (b AND 0x7f :: u8) OR push_bit 7 v') = (v' :: u32)"
proof -
  show "(ucast (b AND 0x7f :: u8) OR push_bit 7 v') AND 0x7f = (ucast (b AND 0x7f) :: u32)"
    by (rule bit_eqI) (auto simp: group_bits)
  have small: "n < 25" if "bit v' n" for n
  proof -
    have "bit (take_bit 25 (unat v')) n"
      using that assms by (simp add: take_bit_nat_eq_self bit_unsigned_iff)
    then show ?thesis by (simp add: bit_take_bit_iff)
  qed
  show "drop_bit 7 (ucast (b AND 0x7f :: u8) OR push_bit 7 v') = (v' :: u32)"
    by (rule bit_eqI) (auto simp: group_bits dest: small)
qed

lemma group_value_less: "unat (ucast (b AND 0x7f :: u8) :: u32) < 128"
proof -
  have "(ucast (b AND 0x7f :: u8) :: u32) = take_bit 7 (ucast b)"
    by (rule bit_eqI) (auto simp: group_bits bit_take_bit_iff)
  then have "unat (ucast (b AND 0x7f :: u8) :: u32) = take_bit 7 (unat (ucast b :: u32))"
    by (simp add: unsigned_take_bit_eq)
  then show ?thesis using take_bit_nat_less_exp [of 7 "unat (ucast b :: u32)"] by simp
qed

lemma byte_of_group:
  "b AND 0x80 \<noteq> 0 \<Longrightarrow> ucast (ucast (b AND 0x7f :: u8) :: u32) OR 0x80 = b"
  "b AND 0x80 = 0 \<Longrightarrow> ucast (ucast (b AND 0x7f :: u8) :: u32) = b"
proof -
  have top: "b AND 0x80 = 0 \<longleftrightarrow> \<not> bit b 7"
  proof
    assume "b AND 0x80 = 0"
    then have "\<not> bit (b AND 0x80) 7" by simp
    then show "\<not> bit b 7" by (simp add: bit_and_iff)
  next
    assume "\<not> bit b 7"
    then show "b AND 0x80 = 0" by (intro bit_eqI) (auto simp: bit_and_iff)
  qed
  have seven: "n < 8 \<Longrightarrow> n \<noteq> 7 \<Longrightarrow> n < 7" for n :: nat by simp
  show "b AND 0x80 \<noteq> 0 \<Longrightarrow> ucast (ucast (b AND 0x7f :: u8) :: u32) OR 0x80 = b"
    unfolding top by (rule bit_eqI) (auto simp: group_bits intro: seven)
  show "b AND 0x80 = 0 \<Longrightarrow> ucast (ucast (b AND 0x7f :: u8) :: u32) = b"
    unfolding top by (rule bit_eqI) (auto simp: group_bits intro!: seven)
qed

lemma encode_last: "unat v < 128 \<Longrightarrow> varbyte_encode v = [ucast v OR 0x80]"
proof -
  assume "unat v < 128"
  then have "unat (drop_bit 7 v) = 0" unfolding unat_drop_group by simp
  then have d: "drop_bit 7 v = 0" by (simp add: unat_eq_0)
  show ?thesis by (subst varbyte_encode.simps) (simp add: d group_all [OF d])
qed

lemma varbyte_loop_canonical:
  assumes "varbyte_loop n shift acc bs = Inr (w, rest)" and "shift + 7 * n = 35"
  shows "\<exists>v. bs = varbyte_encode v @ rest \<and> w = acc OR push_bit shift v \<and> unat v < 2 ^ (32 - shift) \<and>
    (shift = 0 \<or> v \<noteq> 0)"
  using assms
proof (induction n arbitrary: shift acc bs)
  case (Suc n)
  obtain b bs' where bs: "bs = b # bs'" using Suc.prems(1) by (cases bs) auto
  define pay where "pay = (ucast (b AND 0x7f) :: u32)"
  have pay: "unat pay < 128" by (simp add: pay_def group_value_less)
  have over: "\<not> (shift = 28 \<and> pay > 15)"
    using Suc.prems(1) by (auto simp: bs Let_def pay_def split: if_splits)
  have shift: "shift \<le> 21 \<or> shift = 28" using Suc.prems(2) by presburger
  show ?case
  proof (cases "b AND 0x80 = 0")
    case False
    have "unat pay < 2 ^ (32 - shift)"
    proof (cases "shift = 28")
      case True
      with over show ?thesis by (simp add: word_less_nat_alt)
    next
      case False
      with shift have "(2 :: nat) ^ 7 \<le> 2 ^ (32 - shift)" by (intro power_increasing) auto
      with pay show ?thesis by simp
    qed
    with False Suc.prems(1) over show ?thesis
      by (intro exI [of _ pay])
        (auto simp: bs Let_def pay_def [symmetric] encode_last [OF pay] byte_of_group(1) [OF False, folded pay_def] split: if_splits)
  next
    case True
    have loop: "varbyte_loop n (shift + 7) (acc OR push_bit shift pay) bs' = Inr (w, rest)"
      using Suc.prems(1) True over by (auto simp: bs Let_def pay_def split: if_splits)
    have sh: "shift \<le> 21" using shift loop Suc.prems(2) by (cases n) auto
    have n: "shift + 7 + 7 * n = 35" using Suc.prems(2) by simp
    from Suc.IH [OF loop n] obtain v' where v': "bs' = varbyte_encode v' @ rest"
        "w = (acc OR push_bit shift pay) OR push_bit (shift + 7) v'"
        "unat v' < 2 ^ (32 - (shift + 7))" "shift + 7 = 0 \<or> v' \<noteq> 0"
      by blast
    have nz: "v' \<noteq> 0" using v'(4) by simp
    have small: "unat v' < 2 ^ 25"
      using v'(3) by (rule order_less_le_trans) (intro power_increasing, auto)
    define v where "v = pay OR push_bit 7 v'"
    note split = join_group [OF small, of b, folded pay_def, folded v_def]
    have "varbyte_encode v = b # varbyte_encode v'"
      by (subst varbyte_encode.simps) (simp add: split nz byte_of_group(2) [OF True, folded pay_def])
    moreover have "push_bit shift v = push_bit shift pay OR push_bit (shift + 7) v'"
      using push_groups [of shift v] by (simp add: split)
    moreover have "unat v < 2 ^ (32 - shift)"
    proof -
      have "unat v div 128 < 2 ^ (32 - (shift + 7))"
        using v'(3) by (simp only: unat_drop_group [symmetric] split)
      then show ?thesis
        unfolding split_power [OF sh] by (rule div_less_iff_less_mult [THEN iffD1, rotated]) simp
    qed
    moreover have "v \<noteq> 0" using split(2) nz by auto
    ultimately show ?thesis using v'(1,2) by (intro exI [of _ v]) (simp add: bs or.assoc)
  qed
qed simp

lemma varbyte_decode_canonical: "varbyte_decode bs = Inr (v, rest) \<Longrightarrow> bs = varbyte_encode v @ rest"
  using varbyte_loop_canonical [of 5 0 0 bs v rest] by (auto simp: varbyte_decode_def)

lemma encode_deltas_from_ok:
  "sorted_wrt (<) (previous # vs) \<Longrightarrow>
    \<exists>out. encode_deltas_from previous vs acc = Inr (acc @ out) \<and>
      (\<forall>rest values. decode_deltas_from (length vs) previous (out @ rest) values = Inr (values @ vs, rest))"
proof (induction vs arbitrary: previous acc)
  case (Cons v vs)
  then have "sorted_wrt (<) (v # vs)" by simp
  from Cons.IH [OF this, of "acc @ varbyte_encode (v - previous)"] obtain out where
    out: "encode_deltas_from v vs (acc @ varbyte_encode (v - previous)) = Inr (acc @ varbyte_encode (v - previous) @ out)"
      "\<And>rest values. decode_deltas_from (length vs) v (out @ rest) values = Inr (values @ vs, rest)"
    by auto
  have "\<not> v \<le> previous" "v - previous \<noteq> 0" using Cons.prems by auto
  moreover have "\<not> v - previous > - 1 - previous"
  proof -
    have "previous \<le> v" using Cons.prems by auto
    moreover have "v \<le> - 1" "previous \<le> - 1" by simp_all
    ultimately show ?thesis by (simp add: not_less word_le_nat_alt unat_sub)
  qed
  ultimately show ?case
    using out by (intro exI [of _ "varbyte_encode (v - previous) @ out"]) (simp add: varbyte_decode_encode)
qed simp

text \<open>
  Variable-byte integers. Every 32-bit value is read back from its encoding, whatever bytes follow;
  and the decoder is canonical: the only bytes from which it reads a value are those that the
  encoder writes for it, so that no value has a second, longer encoding.
\<close>

theorem varbyte_codec:
  "varbyte_decode (varbyte_encode v @ rest) = Inr (v, rest) \<and>
   (varbyte_decode bs = Inr (w, after) \<longleftrightarrow> bs = varbyte_encode w @ after)"
  using varbyte_decode_encode varbyte_decode_canonical by auto

text \<open>
  Sequences of increasing integers are read back from their deltas. A list of values above zero
  that increase strictly, no longer than the limit, is encoded, and decoding the bytes with its
  length gives the list.
\<close>

theorem deltas_roundtrip:
  assumes "sorted_wrt (<) (0 # vs)" and "length vs \<le> maximum_count"
  shows "\<exists>bs. encode_deltas vs = Inr bs \<and> decode_deltas bs (length vs) maximum_count = Inr vs"
proof -
  obtain out where "encode_deltas_from 0 vs [] = Inr ([] @ out)"
      "\<forall>rest values. decode_deltas_from (length vs) 0 (out @ rest) values = Inr (values @ vs, rest)"
    using encode_deltas_from_ok [OF assms(1), of "[]"] by blast
  then have "encode_deltas vs = Inr out" "decode_deltas_from (length vs) 0 out [] = Inr (vs, [])"
    unfolding encode_deltas_def by (simp, metis append.right_neutral append_Nil)
  with assms(2) show ?thesis by (simp add: decode_deltas_def)
qed

theorem deltas_roundtrip_witness:
  "\<exists>bs. encode_deltas [3, 200, 100000] = Inr bs \<and> decode_deltas bs 3 10 = Inr [3, 200, 100000]"
proof -
  have len: "length [3, 200, 100000 :: u32] = 3" by simp
  have inc: "sorted_wrt (<) [0, 3, 200, 100000 :: u32]" by (simp add: word_less_nat_alt)
  show ?thesis using deltas_roundtrip [of "[3, 200, 100000]" 10, OF inc] unfolding len by simp
qed

end
