(* ===== verification/Query_Cache.thy ===== *)
theory Query_Cache
  imports Executor "HOL-Library.Multiset"
begin

text \<open>
  The query result cache: \<^verbatim>\<open>src/query/cache.cpp\<close>. The class keeps its entries in a \<^verbatim>\<open>std::list\<close>,
  most recently used first, and finds them through a hash map from keys to list iterators. An
  iterator is modelled by the address of its node (\<open>node\<close>), a number that the list gives each node
  once; following an iterator whose node is gone is undefined in C++ and is the result \<open>None\<close> here.
  Every operation holds the mutex from beginning to end, so a run is a sequence of operations.
  \<^verbatim>\<open>sizeof\<close> of the two structs is a parameter (\<open>layout\<close>); how keys are hashed has no effect on what
  the hash map returns.
\<close>

section \<open>The cache\<close>

record layout =
  sizeof_entry :: u64
  sizeof_hit :: u64

record cache_key =
  ck_generation :: generation_id
  ck_schema_fingerprint :: string
  ck_plan :: string
  ck_top_k :: u64
  ck_scoring_fingerprint :: string

record cache_entry =
  en_key :: cache_key
  en_result :: search_result
  en_bytes :: u64

record cache_statistics =
  cs_entries :: nat
  cs_bytes :: u64
  cs_hits :: u64
  cs_misses :: u64
  cs_evictions :: u64

type_synonym node = nat

record cache =
  qc_maximum_bytes :: u64
  qc_bytes :: u64
  qc_entries :: "(node \<times> cache_entry) list"
  qc_lookup :: "(cache_key \<times> node) list"
  qc_hits :: u64
  qc_misses :: u64
  qc_evictions :: u64
  qc_next_node :: node

definition cache_new :: "u64 \<Rightarrow> cache" where
  "cache_new maximum_bytes =
     \<lparr>qc_maximum_bytes = maximum_bytes, qc_bytes = 0, qc_entries = [], qc_lookup = [], qc_hits = 0,
      qc_misses = 0, qc_evictions = 0, qc_next_node = 0\<rparr>"

definition cache_measure :: "layout \<Rightarrow> cache_key \<Rightarrow> search_result \<Rightarrow> u64" where
  "cache_measure ly key result =
     fold (\<lambda>hit bytes. bytes + (sizeof_hit ly + of_nat (length (sd_id hit)))) (sr_hits result)
       (sizeof_entry ly + of_nat (length (ck_schema_fingerprint key)) + of_nat (length (ck_plan key)) +
        of_nat (length (ck_scoring_fingerprint key)))"

definition without_key :: "'k \<Rightarrow> ('k \<times> 'v) list \<Rightarrow> ('k \<times> 'v) list" where
  "without_key k xs = filter (\<lambda>x. fst x \<noteq> k) xs"

definition cache_get :: "cache_key \<Rightarrow> cache \<Rightarrow> (search_result option \<times> cache) option" where
  "cache_get key c =
     (case map_of (qc_lookup c) key of
        None \<Rightarrow> Some (None, c\<lparr>qc_misses := qc_misses c + 1\<rparr>)
      | Some it \<Rightarrow>
          (case map_of (qc_entries c) it of
             None \<Rightarrow> None
           | Some e \<Rightarrow>
               Some (Some (en_result e),
                 c\<lparr>qc_hits := qc_hits c + 1, qc_entries := (it, e) # without_key it (qc_entries c)\<rparr>)))"

definition drop_node :: "node \<Rightarrow> cache_entry \<Rightarrow> cache \<Rightarrow> cache" where
  "drop_node it e c =
     c\<lparr>qc_bytes := qc_bytes c - en_bytes e, qc_lookup := without_key (en_key e) (qc_lookup c),
       qc_entries := without_key it (qc_entries c)\<rparr>"

function evict :: "cache \<Rightarrow> cache" where
  "evict c =
     (if qc_bytes c > qc_maximum_bytes c \<and> qc_entries c \<noteq> []
      then let (it, e) = last (qc_entries c)
           in evict (c\<lparr>qc_bytes := qc_bytes c - en_bytes e, qc_lookup := without_key (en_key e) (qc_lookup c),
                       qc_entries := butlast (qc_entries c), qc_evictions := qc_evictions c + 1\<rparr>)
      else c)"
  by pat_completeness auto
termination
  by (relation "measure (\<lambda>c. length (qc_entries c))") auto

declare evict.simps [simp del]

definition remove_found :: "cache_key \<Rightarrow> cache \<Rightarrow> cache option" where
  "remove_found key c =
     (case map_of (qc_lookup c) key of
        None \<Rightarrow> Some c
      | Some it \<Rightarrow>
          (case map_of (qc_entries c) it of
             None \<Rightarrow> None
           | Some e \<Rightarrow>
               Some (c\<lparr>qc_bytes := qc_bytes c - en_bytes e, qc_entries := without_key it (qc_entries c),
                       qc_lookup := without_key key (qc_lookup c)\<rparr>)))"

definition cache_put :: "layout \<Rightarrow> cache_key \<Rightarrow> search_result \<Rightarrow> cache \<Rightarrow> cache option" where
  "cache_put ly key result c =
     (case remove_found key c of
        None \<Rightarrow> None
      | Some c1 \<Rightarrow>
          (let bytes = cache_measure ly key result
           in if bytes > qc_maximum_bytes c1 then Some c1
              else let it = qc_next_node c1;
                       e = \<lparr>en_key = key, en_result = result, en_bytes = bytes\<rparr>
                   in Some (evict (c1\<lparr>qc_entries := (it, e) # qc_entries c1,
                                      qc_lookup := (key, it) # without_key key (qc_lookup c1),
                                      qc_bytes := qc_bytes c1 + bytes, qc_next_node := it + 1\<rparr>))))"

fun invalidate_loop :: "generation_id \<Rightarrow> (node \<times> cache_entry) list \<Rightarrow> cache \<Rightarrow> cache" where
  "invalidate_loop generation [] c = c"
| "invalidate_loop generation ((it, e) # rest) c =
     (if ck_generation (en_key e) < generation then invalidate_loop generation rest (drop_node it e c)
      else invalidate_loop generation rest c)"

definition invalidate_before :: "generation_id \<Rightarrow> cache \<Rightarrow> cache" where
  "invalidate_before generation c = invalidate_loop generation (qc_entries c) c"

definition cache_statistics_of :: "cache \<Rightarrow> cache_statistics" where
  "cache_statistics_of c =
     \<lparr>cs_entries = length (qc_entries c), cs_bytes = qc_bytes c, cs_hits = qc_hits c, cs_misses = qc_misses c,
      cs_evictions = qc_evictions c\<rparr>"

section \<open>Runs\<close>

datatype cache_op = Cache_get cache_key | Cache_put cache_key search_result | Cache_invalidate generation_id

fun cache_step :: "layout \<Rightarrow> cache_op \<Rightarrow> cache \<Rightarrow> cache option" where
  "cache_step ly (Cache_get key) c = map_option snd (cache_get key c)"
| "cache_step ly (Cache_put key result) c = cache_put ly key result c"
| "cache_step ly (Cache_invalidate generation) c = Some (invalidate_before generation c)"

fun cache_run :: "layout \<Rightarrow> cache_op list \<Rightarrow> cache \<Rightarrow> cache option" where
  "cache_run ly [] c = Some c"
| "cache_run ly (op # ops) c = (case cache_step ly op c of None \<Rightarrow> None | Some c' \<Rightarrow> cache_run ly ops c')"

text \<open>What a map without a size limit would hold after the same operations.\<close>

fun remember :: "cache_op \<Rightarrow> (cache_key \<Rightarrow> search_result option) \<Rightarrow> cache_key \<Rightarrow> search_result option" where
  "remember (Cache_get key) m = m"
| "remember (Cache_put key result) m = m(key \<mapsto> result)"
| "remember (Cache_invalidate generation) m = (\<lambda>k. if ck_generation k < generation then None else m k)"

definition cached :: "cache \<Rightarrow> cache_key \<Rightarrow> search_result option" where
  "cached c k = map_of (map (\<lambda>(it, e). (en_key e, en_result e)) (qc_entries c)) k"

section \<open>The invariant\<close>

text \<open>The hash map holds exactly the keys of the list with the addresses of their nodes.\<close>

definition linked :: "cache \<Rightarrow> bool" where
  "linked c \<longleftrightarrow> distinct (map fst (qc_entries c)) \<and> distinct (map (en_key \<circ> snd) (qc_entries c)) \<and>
     (\<forall>k it. map_of (qc_lookup c) k = Some it \<longleftrightarrow> (\<exists>e. (it, e) \<in> set (qc_entries c) \<and> en_key e = k)) \<and>
     (\<forall>it \<in> fst ` set (qc_entries c). it < qc_next_node c)"

definition total_bytes :: "cache \<Rightarrow> nat" where
  "total_bytes c = (\<Sum>e \<leftarrow> qc_entries c. unat (en_bytes (snd e)))"

text \<open>
  With a budget below \<open>2 ^ 63\<close> bytes the counter, which exceeds the budget by one entry at most,
  cannot wrap around.
\<close>

definition cache_exact :: "cache \<Rightarrow> bool" where
  "cache_exact c \<longleftrightarrow> linked c \<and> (qc_maximum_bytes c < 2 ^ 63 \<longrightarrow> unat (qc_bytes c) = total_bytes c)"

definition cache_ok :: "cache \<Rightarrow> bool" where
  "cache_ok c \<longleftrightarrow> cache_exact c \<and> (qc_maximum_bytes c < 2 ^ 63 \<longrightarrow> qc_bytes c \<le> qc_maximum_bytes c)"

lemma linked_lookup:
  assumes "linked c" and "map_of (qc_lookup c) k = Some it"
  obtains e where "map_of (qc_entries c) it = Some e" and "en_key e = k" and "(it, e) \<in> set (qc_entries c)"
  using assms by (auto simp: linked_def)

lemma linked_absent:
  assumes "linked c"
  shows "map_of (qc_lookup c) k = None \<longleftrightarrow> (\<forall>(it, e) \<in> set (qc_entries c). en_key e \<noteq> k)"
proof -
  have "map_of (qc_lookup c) k = None \<longleftrightarrow> (\<nexists>it. map_of (qc_lookup c) k = Some it)" by simp
  also have "\<dots> \<longleftrightarrow> (\<nexists>it e. (it, e) \<in> set (qc_entries c) \<and> en_key e = k)"
    using assms unfolding linked_def by metis
  finally show ?thesis by auto
qed

lemma map_of_without_key: "map_of (without_key k xs) = (map_of xs)(k := None)"
  by (induction xs) (auto simp: without_key_def fun_eq_iff)

lemma set_without_key: "set (without_key k xs) = {x \<in> set xs. fst x \<noteq> k}"
  by (auto simp: without_key_def)

lemma distinct_without_key: "distinct (map f xs) \<Longrightarrow> distinct (map f (without_key k xs))"
  by (simp add: without_key_def distinct_map_filter)

lemma sum_without_key:
  fixes f :: "'k \<times> 'v \<Rightarrow> 'n::cancel_comm_monoid_add"
  assumes "distinct (map fst xs)" and "(k, v) \<in> set xs"
  shows "(\<Sum>x \<leftarrow> xs. f x) = f (k, v) + (\<Sum>x \<leftarrow> without_key k xs. f x)"
  using assms
proof (induction xs)
  case (Cons x xs)
  show ?case
  proof (cases "x = (k, v)")
    case True
    then have "without_key k (x # xs) = xs"
      using Cons.prems(1) by (force simp: without_key_def filter_id_conv)
    then show ?thesis using True by simp
  next
    case False
    then have "(k, v) \<in> set xs" using Cons.prems(2) by auto
    then have "k \<in> fst ` set xs" by (rule image_eqI [rotated]) simp
    then have "fst x \<noteq> k" using Cons.prems(1) by auto
    with Cons \<open>(k, v) \<in> set xs\<close> show ?thesis by (simp add: without_key_def ac_simps)
  qed
qed simp

lemma linked_cong:
  "qc_entries c = qc_entries c' \<Longrightarrow> qc_lookup c = qc_lookup c' \<Longrightarrow> qc_next_node c = qc_next_node c' \<Longrightarrow>
    linked c \<longleftrightarrow> linked c'"
  by (simp add: linked_def)

lemma linked_drop:
  assumes "linked c" and "(it, e) \<in> set (qc_entries c)"
    and "qc_entries c' = without_key it (qc_entries c)" and "qc_lookup c' = without_key (en_key e) (qc_lookup c)"
    and "qc_next_node c' = qc_next_node c"
  shows "linked c'"
proof -
  have key: "en_key e' = en_key e \<longleftrightarrow> it' = it" if "(it', e') \<in> set (qc_entries c)" for it' e'
  proof
    assume "en_key e' = en_key e"
    then have "(en_key \<circ> snd) (it', e') = (en_key \<circ> snd) (it, e)" by simp
    with that assms(1,2) show "it' = it"
      unfolding linked_def distinct_map inj_on_def by blast
  next
    assume "it' = it"
    with that assms(1,2) show "en_key e' = en_key e"
      by (metis linked_def map_of_is_SomeI option.inject)
  qed
  show ?thesis
    using assms(1) key unfolding linked_def assms(3-5)
    by (auto simp: map_of_without_key set_without_key distinct_without_key)
qed

lemma linked_add:
  assumes "linked c" and "\<forall>(it, e) \<in> set (qc_entries c). en_key e \<noteq> en_key e0"
  shows "linked (c\<lparr>qc_entries := (qc_next_node c, e0) # qc_entries c,
    qc_lookup := (en_key e0, qc_next_node c) # without_key (en_key e0) (qc_lookup c),
    qc_bytes := b, qc_next_node := qc_next_node c + 1\<rparr>)"
proof -
  have fresh: "qc_next_node c \<notin> fst ` set (qc_entries c)" using assms(1) by (auto simp: linked_def)
  have keys: "en_key e0 \<notin> (en_key \<circ> snd) ` set (qc_entries c)" using assms(2) by auto
  have look: "map_of (qc_lookup c) k = Some it \<longleftrightarrow> (\<exists>e. (it, e) \<in> set (qc_entries c) \<and> en_key e = k)" for k it
    using assms(1) by (simp add: linked_def)
  have next_node: "it < qc_next_node c + 1" if "it \<in> fst ` set (qc_entries c)" for it
    using assms(1) that by (auto simp: linked_def)
  show ?thesis
    unfolding linked_def using assms fresh keys next_node
    by (auto simp: map_of_without_key look linked_def split: if_splits)
qed

lemma total_drop:
  assumes "linked c" and "(it, e) \<in> set (qc_entries c)" and "qc_entries c' = without_key it (qc_entries c)"
  shows "total_bytes c = unat (en_bytes e) + total_bytes c'"
proof -
  have "distinct (map fst (qc_entries c))" using assms(1) by (simp add: linked_def)
  from sum_without_key [OF this assms(2), of "\<lambda>x. unat (en_bytes (snd x))"] assms(3) show ?thesis
    by (simp add: total_bytes_def)
qed

lemma exact_drop:
  assumes "cache_exact c" and "(it, e) \<in> set (qc_entries c)"
    and "qc_entries c' = without_key it (qc_entries c)" and "qc_lookup c' = without_key (en_key e) (qc_lookup c)"
    and "qc_next_node c' = qc_next_node c" and "qc_bytes c' = qc_bytes c - en_bytes e"
    and "qc_maximum_bytes c' = qc_maximum_bytes c"
  shows "cache_exact c'" and "qc_maximum_bytes c < 2 ^ 63 \<Longrightarrow> qc_bytes c' \<le> qc_bytes c"
proof -
  have c: "linked c" using assms(1) by (simp add: cache_exact_def)
  have sum: "unat (qc_bytes c) = unat (en_bytes e) + total_bytes c'" if "qc_maximum_bytes c < 2 ^ 63"
    using that assms(1) total_drop [OF c assms(2,3)] by (simp add: cache_exact_def)
  then have "unat (qc_bytes c') = total_bytes c'" if "qc_maximum_bytes c < 2 ^ 63"
    using that by (simp add: assms(6) unat_sub word_le_nat_alt)
  with linked_drop [OF c assms(2-5)] assms(7) show "cache_exact c'" by (simp add: cache_exact_def)
  show "qc_maximum_bytes c < 2 ^ 63 \<Longrightarrow> qc_bytes c' \<le> qc_bytes c"
    using sum by (simp add: assms(6) unat_sub word_le_nat_alt)
qed

lemma without_last:
  assumes "distinct (map fst (xs @ [(k, v)]))"
  shows "without_key k (xs @ [(k, v)]) = xs"
  using assms by (force simp: without_key_def filter_id_conv)

lemma evict_exact: "cache_exact c \<Longrightarrow> cache_ok (evict c) \<and> qc_maximum_bytes (evict c) = qc_maximum_bytes c"
proof (induction c rule: evict.induct)
  case (1 c)
  show ?case
  proof (cases "qc_bytes c > qc_maximum_bytes c \<and> qc_entries c \<noteq> []")
    case True
    obtain it e where last: "last (qc_entries c) = (it, e)" by fastforce
    define c' where "c' = c\<lparr>qc_bytes := qc_bytes c - en_bytes e, qc_lookup := without_key (en_key e) (qc_lookup c),
      qc_entries := butlast (qc_entries c), qc_evictions := qc_evictions c + 1\<rparr>"
    have split: "qc_entries c = butlast (qc_entries c) @ [(it, e)]" using True last by (metis append_butlast_last_id)
    have "distinct (map fst (qc_entries c))" using "1.prems" by (simp add: cache_exact_def linked_def)
    then have "qc_entries c' = without_key it (qc_entries c)"
      using without_last [of "butlast (qc_entries c)" it e] split by (simp add: c'_def)
    moreover have "(it, e) \<in> set (qc_entries c)" using True last last_in_set by fastforce
    ultimately have "cache_exact c'" using exact_drop(1) [OF "1.prems"] by (simp add: c'_def)
    with "1.IH" [OF True last [symmetric]] show ?thesis
      by (subst (1 2) evict.simps) (simp add: True last c'_def)
  next
    case False
    have "qc_bytes c \<le> qc_maximum_bytes c" if "qc_maximum_bytes c < 2 ^ 63"
    proof (cases "qc_entries c = []")
      case True
      with that "1.prems" have "qc_bytes c = 0" by (simp add: cache_exact_def total_bytes_def unat_eq_0)
      then show ?thesis by simp
    qed (use False in auto)
    with "1.prems" show ?thesis by (subst (1 2) evict.simps) (simp add: False cache_ok_def)
  qed
qed

lemma remove_found_exact:
  assumes "cache_ok c"
  shows "\<exists>c'. remove_found key c = Some c' \<and> cache_ok c' \<and> qc_maximum_bytes c' = qc_maximum_bytes c \<and>
    qc_entries c' = filter (\<lambda>(it, e). en_key e \<noteq> key) (qc_entries c) \<and> (\<forall>(it, e) \<in> set (qc_entries c'). en_key e \<noteq> key)"
proof (cases "map_of (qc_lookup c) key")
  case None
  have "linked c" using assms by (simp add: cache_ok_def cache_exact_def)
  from linked_absent [OF this, of key] None have "\<forall>(it, e) \<in> set (qc_entries c). en_key e \<noteq> key" by simp
  moreover from this have "filter (\<lambda>(it, e). en_key e \<noteq> key) (qc_entries c) = qc_entries c"
    by (force simp: filter_id_conv)
  ultimately show ?thesis using assms None by (simp add: remove_found_def)
next
  case (Some it)
  have l: "linked c" and x: "cache_exact c" using assms by (simp_all add: cache_ok_def cache_exact_def)
  obtain e where e: "map_of (qc_entries c) it = Some e" "en_key e = key" "(it, e) \<in> set (qc_entries c)"
    using linked_lookup [OF l Some] .
  define c' where "c' = c\<lparr>qc_bytes := qc_bytes c - en_bytes e, qc_entries := without_key it (qc_entries c),
    qc_lookup := without_key key (qc_lookup c)\<rparr>"
  have c': "remove_found key c = Some c'" by (simp add: remove_found_def Some e(1) c'_def)
  note drop = exact_drop [OF x e(3), of c']
  have ok: "cache_ok c'"
    using drop assms by (auto simp: c'_def e(2) cache_ok_def)
  have "en_key e' = key \<longleftrightarrow> it' = it" if "(it', e') \<in> set (qc_entries c)" for it' e'
    using l Some that e(1) by (metis linked_def map_of_is_SomeI option.inject e(2))
  then have "without_key it (qc_entries c) = filter (\<lambda>(it, e). en_key e \<noteq> key) (qc_entries c)"
    unfolding without_key_def by (intro filter_cong refl) (simp add: split_beta, metis prod.collapse)
  then show ?thesis using c' ok by (auto simp: c'_def)
qed

lemma cache_put_evict:
  assumes "cache_ok c" and "\<not> cache_measure ly key result > qc_maximum_bytes c"
  obtains c1 it where "cache_put ly key result c = Some (evict c1)" and "cache_exact c1"
    and "qc_maximum_bytes c1 = qc_maximum_bytes c"
    and "qc_entries c1 = (it, \<lparr>en_key = key, en_result = result, en_bytes = cache_measure ly key result\<rparr>) #
      filter (\<lambda>(it, e). en_key e \<noteq> key) (qc_entries c)"
proof -
  define e where "e = \<lparr>en_key = key, en_result = result, en_bytes = cache_measure ly key result\<rparr>"
  from remove_found_exact [OF assms(1), of key] obtain c0 where c0: "remove_found key c = Some c0" "cache_ok c0"
      "qc_maximum_bytes c0 = qc_maximum_bytes c"
      "qc_entries c0 = filter (\<lambda>(it, e). en_key e \<noteq> key) (qc_entries c)"
      "\<forall>(it, e) \<in> set (qc_entries c0). en_key e \<noteq> key" by blast
  define c1 where "c1 = c0\<lparr>qc_entries := (qc_next_node c0, e) # qc_entries c0,
    qc_lookup := (key, qc_next_node c0) # without_key key (qc_lookup c0),
    qc_bytes := qc_bytes c0 + cache_measure ly key result, qc_next_node := qc_next_node c0 + 1\<rparr>"
  have l: "linked c1"
    using linked_add [of c0 e "qc_bytes c0 + cache_measure ly key result"] c0(2,5)
    by (simp add: c1_def e_def cache_ok_def cache_exact_def)
  have "unat (qc_bytes c1) = total_bytes c1" if max: "qc_maximum_bytes c < 2 ^ 63"
  proof -
    have "unat (qc_bytes c0) \<le> unat (qc_maximum_bytes c)" "unat (cache_measure ly key result) \<le> unat (qc_maximum_bytes c)"
      using c0(2,3) assms(2) max by (simp_all add: cache_ok_def word_le_nat_alt word_less_nat_alt)
    moreover have "unat (qc_maximum_bytes c) < 2 ^ 63" using max by (simp add: word_less_nat_alt)
    ultimately show ?thesis
      using c0(2,3) max by (simp add: c1_def total_bytes_def cache_ok_def cache_exact_def e_def unat_word_ariths)
  qed
  then show thesis
    using that [of c1 "qc_next_node c0"] c0(1,3,4) l assms(2)
    by (simp add: cache_put_def c1_def e_def Let_def cache_exact_def)
qed

lemma linked_mset:
  assumes "linked c" and "mset (qc_entries c') = mset (qc_entries c)" and "qc_lookup c' = qc_lookup c"
    and "qc_next_node c' = qc_next_node c"
  shows "linked c'" and "total_bytes c' = total_bytes c"
proof -
  have "mset (map f (qc_entries c')) = mset (map f (qc_entries c))" for f :: "node \<times> cache_entry \<Rightarrow> 'b"
    using assms(2) by (simp add: mset_map)
  then have d: "distinct (map f (qc_entries c')) \<longleftrightarrow> distinct (map f (qc_entries c))" for f :: "node \<times> cache_entry \<Rightarrow> 'b"
    by (rule mset_eq_imp_distinct_iff)
  have "set (qc_entries c') = set (qc_entries c)" using assms(2) by (rule mset_eq_setD)
  then show "linked c'" using assms(1) unfolding linked_def d assms(3,4) by simp
  show "total_bytes c' = total_bytes c"
    using assms(2) by (simp add: total_bytes_def flip: sum_mset_sum_list)
qed

lemma cached_iff:
  assumes "linked c"
  shows "cached c k = Some r \<longleftrightarrow> (\<exists>it e. (it, e) \<in> set (qc_entries c) \<and> en_key e = k \<and> en_result e = r)"
proof -
  have "distinct (map fst (map (\<lambda>(it, e). (en_key e, en_result e)) (qc_entries c)))"
    using assms by (simp add: linked_def comp_def split_beta)
  from map_of_eq_Some_iff [OF this, of k r] show ?thesis by (force simp: cached_def)
qed

lemma move_to_front:
  assumes "distinct (map fst xs)" and "(k, v) \<in> set xs"
  shows "mset ((k, v) # without_key k xs) = mset xs"
  using assms
proof (induction xs)
  case (Cons x xs)
  show ?case
  proof (cases "x = (k, v)")
    case True
    then have "without_key k (x # xs) = xs"
      using Cons.prems(1) by (force simp: without_key_def filter_id_conv)
    then show ?thesis using True by simp
  next
    case False
    then have kv: "(k, v) \<in> set xs" using Cons.prems(2) by auto
    then have "k \<in> fst ` set xs" by (rule image_eqI [rotated]) simp
    then have "fst x \<noteq> k" using Cons.prems(1) by auto
    with Cons kv show ?thesis by (simp add: without_key_def)
  qed
qed simp

lemma cache_get_ok:
  assumes "cache_ok c"
  shows "\<exists>c'. cache_get key c = Some (cached c key, c') \<and> cache_ok c' \<and> cached c' = cached c \<and>
    qc_maximum_bytes c' = qc_maximum_bytes c"
proof -
  have l: "linked c" using assms by (simp add: cache_ok_def cache_exact_def)
  show ?thesis
  proof (cases "map_of (qc_lookup c) key")
    case None
    have "cached c key = None"
    proof (rule ccontr)
      assume "cached c key \<noteq> None"
      then obtain it e where "(it, e) \<in> set (qc_entries c)" "en_key e = key" using cached_iff [OF l] by blast
      with linked_absent [OF l, of key] None show False by auto
    qed
    with None assms show ?thesis
      by (simp add: cache_get_def cache_ok_def cache_exact_def linked_def total_bytes_def cached_def fun_eq_iff)
  next
    case (Some it)
    obtain e where e: "map_of (qc_entries c) it = Some e" "en_key e = key" "(it, e) \<in> set (qc_entries c)"
      using linked_lookup [OF l Some] .
    define c' where "c' = c\<lparr>qc_hits := qc_hits c + 1, qc_entries := (it, e) # without_key it (qc_entries c)\<rparr>"
    have m: "mset (qc_entries c') = mset (qc_entries c)"
      using move_to_front [OF _ e(3)] l by (simp add: c'_def linked_def)
    have same: "linked c'" "total_bytes c' = total_bytes c"
      using linked_mset [OF l m] by (simp_all add: c'_def)
    have hit: "cached c key = Some (en_result e)" using cached_iff [OF l] e by blast
    have "cached c' k = cached c k" for k
    proof -
      have "cached c' k = Some r \<longleftrightarrow> cached c k = Some r" for r
        unfolding cached_iff [OF l] cached_iff [OF same(1)] mset_eq_setD [OF m] by simp
      then show ?thesis by (metis option.exhaust)
    qed
    then show ?thesis
      using assms same hit Some e(1) by (simp add: cache_get_def c'_def cache_ok_def cache_exact_def fun_eq_iff)
  qed
qed

lemma invalidate_loop_ok:
  assumes "cache_ok c" and "set xs \<subseteq> set (qc_entries c)" and "distinct (map fst xs)"
  shows "cache_ok (invalidate_loop g xs c) \<and> qc_maximum_bytes (invalidate_loop g xs c) = qc_maximum_bytes c \<and>
    qc_entries (invalidate_loop g xs c) =
      filter (\<lambda>x. \<not> (x \<in> set xs \<and> ck_generation (en_key (snd x)) < g)) (qc_entries c)"
  using assms
proof (induction xs arbitrary: c)
  case (Cons x xs)
  obtain it e where x: "x = (it, e)" by (cases x)
  have in_c: "(it, e) \<in> set (qc_entries c)" using Cons.prems(2) by (simp add: x)
  have l: "linked c" and ex: "cache_exact c" using Cons.prems(1) by (simp_all add: cache_ok_def cache_exact_def)
  have only: "fst y = it \<longleftrightarrow> y = (it, e)" if "y \<in> set (qc_entries c)" for y
    using inj_onD [of fst "set (qc_entries c)" y "(it, e)"] l that in_c by (auto simp: linked_def distinct_map)
  show ?case
  proof (cases "ck_generation (en_key e) < g")
    case True
    note drop = exact_drop [OF ex in_c, of "drop_node it e c"]
    have "cache_ok (drop_node it e c)" using drop Cons.prems(1) by (auto simp: drop_node_def cache_ok_def)
    moreover have "set xs \<subseteq> set (qc_entries (drop_node it e c))"
      using Cons.prems(2,3) by (force simp: drop_node_def set_without_key x)
    ultimately have ih: "cache_ok (invalidate_loop g xs (drop_node it e c))"
        "qc_maximum_bytes (invalidate_loop g xs (drop_node it e c)) = qc_maximum_bytes c"
        "qc_entries (invalidate_loop g xs (drop_node it e c)) =
          filter (\<lambda>x. \<not> (x \<in> set xs \<and> ck_generation (en_key (snd x)) < g)) (without_key it (qc_entries c))"
      using Cons.IH [of "drop_node it e c"] Cons.prems(3) by (auto simp: drop_node_def)
    have "filter (\<lambda>x. \<not> (x \<in> set xs \<and> ck_generation (en_key (snd x)) < g)) (without_key it (qc_entries c)) =
        filter (\<lambda>x. \<not> (x \<in> set ((it, e) # xs) \<and> ck_generation (en_key (snd x)) < g)) (qc_entries c)"
      unfolding without_key_def filter_filter using only True by (intro filter_cong refl) auto
    with ih True show ?thesis by (simp add: x)
  next
    case False
    with Cons have ih: "cache_ok (invalidate_loop g xs c)"
        "qc_maximum_bytes (invalidate_loop g xs c) = qc_maximum_bytes c"
        "qc_entries (invalidate_loop g xs c) =
          filter (\<lambda>x. \<not> (x \<in> set xs \<and> ck_generation (en_key (snd x)) < g)) (qc_entries c)"
      by auto
    have "filter (\<lambda>x. \<not> (x \<in> set xs \<and> ck_generation (en_key (snd x)) < g)) (qc_entries c) =
        filter (\<lambda>x. \<not> (x \<in> set ((it, e) # xs) \<and> ck_generation (en_key (snd x)) < g)) (qc_entries c)"
      using False by (intro filter_cong refl) auto
    with ih False show ?thesis by (simp add: x)
  qed
qed simp

lemma invalidate_ok:
  assumes "cache_ok c"
  shows "cache_ok (invalidate_before g c)" and "qc_maximum_bytes (invalidate_before g c) = qc_maximum_bytes c"
    and "qc_entries (invalidate_before g c) = filter (\<lambda>x. \<not> ck_generation (en_key (snd x)) < g) (qc_entries c)"
proof -
  have "distinct (map fst (qc_entries c))" using assms by (simp add: cache_ok_def cache_exact_def linked_def)
  note loop = invalidate_loop_ok [OF assms subset_refl this, of g]
  then show "cache_ok (invalidate_before g c)" "qc_maximum_bytes (invalidate_before g c) = qc_maximum_bytes c"
    by (simp_all add: invalidate_before_def)
  show "qc_entries (invalidate_before g c) = filter (\<lambda>x. \<not> ck_generation (en_key (snd x)) < g) (qc_entries c)"
    unfolding invalidate_before_def using loop by (auto intro: filter_cong)
qed

section \<open>What the cache promises\<close>

lemma evict_prefix:
  assumes "cache_exact c" and "qc_maximum_bytes c < 2 ^ 63"
  shows "\<exists>n. n \<le> length (qc_entries c) \<and> qc_entries (evict c) = take n (qc_entries c) \<and>
    (\<forall>m. n < m \<and> m \<le> length (qc_entries c) \<longrightarrow>
      unat (qc_maximum_bytes c) < (\<Sum>x \<leftarrow> take m (qc_entries c). unat (en_bytes (snd x))))"
  using assms
proof (induction c rule: evict.induct)
  case (1 c)
  show ?case
  proof (cases "qc_bytes c > qc_maximum_bytes c \<and> qc_entries c \<noteq> []")
    case True
    obtain it e where last: "last (qc_entries c) = (it, e)" by fastforce
    define c' where "c' = c\<lparr>qc_bytes := qc_bytes c - en_bytes e, qc_lookup := without_key (en_key e) (qc_lookup c),
      qc_entries := butlast (qc_entries c), qc_evictions := qc_evictions c + 1\<rparr>"
    have split: "qc_entries c = butlast (qc_entries c) @ [(it, e)]" using True last by (metis append_butlast_last_id)
    have "distinct (map fst (qc_entries c))" using "1.prems" by (simp add: cache_exact_def linked_def)
    then have "qc_entries c' = without_key it (qc_entries c)"
      using without_last [of "butlast (qc_entries c)" it e] split by (simp add: c'_def)
    moreover have "(it, e) \<in> set (qc_entries c)" using True last last_in_set by fastforce
    ultimately have "cache_exact c'" using exact_drop(1) [OF "1.prems"(1)] by (simp add: c'_def)
    with "1.IH" [OF True last [symmetric]] "1.prems"(2) obtain n where
      n: "n \<le> length (qc_entries c) - 1" "qc_entries (evict c') = take n (butlast (qc_entries c))"
        "\<And>m. n < m \<Longrightarrow> m \<le> length (qc_entries c) - 1 \<Longrightarrow>
          unat (qc_maximum_bytes c) < (\<Sum>x \<leftarrow> take m (butlast (qc_entries c)). unat (en_bytes (snd x)))"
      by (auto simp: c'_def)
    have whole: "unat (qc_maximum_bytes c) < (\<Sum>x \<leftarrow> qc_entries c. unat (en_bytes (snd x)))"
      using True "1.prems" by (simp add: cache_exact_def total_bytes_def word_less_nat_alt)
    have "unat (qc_maximum_bytes c) < (\<Sum>x \<leftarrow> take m (qc_entries c). unat (en_bytes (snd x)))"
      if "n < m" "m \<le> length (qc_entries c)" for m
    proof (cases "m = length (qc_entries c)")
      case False
      then have "take m (qc_entries c) = take m (butlast (qc_entries c))" using that(2) by (simp add: take_butlast)
      with n(3) [of m] that False show ?thesis by simp
    qed (use whole in simp)
    moreover have "evict c = evict c'" by (subst evict.simps) (simp add: True last c'_def)
    moreover have "take n (butlast (qc_entries c)) = take n (qc_entries c)"
    proof -
      have "0 < length (qc_entries c)" using True by simp
      with n(1) have "n < length (qc_entries c)" by linarith
      then show ?thesis by (rule take_butlast)
    qed
    ultimately show ?thesis using n by (intro exI [of _ n]) auto
  next
    case False
    then have "evict c = c" by (subst evict.simps) (simp only: if_False)
    then show ?thesis by (intro exI [of _ "length (qc_entries c)"]) simp
  qed
qed

lemma map_leI: "(\<And>k v. m k = Some v \<Longrightarrow> m' k = Some v) \<Longrightarrow> m \<subseteq>\<^sub>m m'"
  by (auto simp: map_le_def dom_def)

lemma cached_subset:
  assumes "linked c" and "linked c'" and "set (qc_entries c') \<subseteq> set (qc_entries c)" and "cached c' k = Some r"
  shows "cached c k = Some r"
  using assms(3,4) cached_iff [OF assms(1)] cached_iff [OF assms(2)] by blast

lemma cache_ok_linked: "cache_ok c \<Longrightarrow> linked c"
  by (simp add: cache_ok_def cache_exact_def)

lemma cache_step_ok:
  assumes "cache_ok c" and "cached c \<subseteq>\<^sub>m m" and "qc_maximum_bytes c < 2 ^ 63"
  shows "\<exists>c'. cache_step ly op c = Some c' \<and> cache_ok c' \<and> cached c' \<subseteq>\<^sub>m remember op m \<and>
    qc_maximum_bytes c' = qc_maximum_bytes c"
proof (cases op)
  case (Cache_get key)
  with cache_get_ok [OF assms(1), of key] assms(2) show ?thesis by auto
next
  case (Cache_invalidate g)
  note inv = invalidate_ok [OF assms(1), of g]
  have "cached (invalidate_before g c) \<subseteq>\<^sub>m remember op m"
  proof (rule map_leI)
    fix k r
    assume r: "cached (invalidate_before g c) k = Some r"
    then have "\<not> ck_generation k < g" using cached_iff [OF cache_ok_linked [OF inv(1)]] inv(3) by auto
    moreover have "cached c k = Some r"
      by (rule cached_subset [OF _ _ _ r]) (use assms(1) inv in \<open>auto simp: cache_ok_linked\<close>)
    ultimately show "remember op m k = Some r" using assms(2) by (simp add: Cache_invalidate map_le_def) (metis domI)
  qed
  with inv Cache_invalidate show ?thesis by simp
next
  case (Cache_put key result)
  have older: "remember op m k = Some r"
    if new: "linked c'" "cached c' k = Some r" "set (qc_entries c') \<subseteq> insert (it, e) {x \<in> set (qc_entries c). en_key (snd x) \<noteq> key}"
      "e = \<lparr>en_key = key, en_result = result, en_bytes = b\<rparr>" for c' k r it e b
  proof -
    from new(2) obtain it' e' where e': "(it', e') \<in> set (qc_entries c')" "en_key e' = k" "en_result e' = r"
      using cached_iff [OF new(1)] by blast
    with new(3,4) consider "k = key" "r = result" | "k \<noteq> key" "(it', e') \<in> set (qc_entries c)" by auto
    then show ?thesis
    proof cases
      case 2
      with e' have "cached c k = Some r" using cached_iff [OF cache_ok_linked [OF assms(1)]] by blast
      with 2 assms(2) show ?thesis by (simp add: Cache_put map_le_def) (metis domI)
    qed (simp add: Cache_put)
  qed
  show ?thesis
  proof (cases "cache_measure ly key result > qc_maximum_bytes c")
    case True
    from remove_found_exact [OF assms(1), of key] obtain c0 where c0: "remove_found key c = Some c0" "cache_ok c0"
        "qc_maximum_bytes c0 = qc_maximum_bytes c"
        "qc_entries c0 = filter (\<lambda>(it, e). en_key e \<noteq> key) (qc_entries c)" by blast
    have "cached c0 \<subseteq>\<^sub>m remember op m"
      by (rule map_leI, rule older [OF cache_ok_linked [OF c0(2)], of _ _ 0 _ 0]) (auto simp: c0(4))
    with c0 True show ?thesis by (simp add: Cache_put cache_put_def)
  next
    case False
    obtain c1 it where c1: "cache_put ly key result c = Some (evict c1)" "cache_exact c1"
        "qc_maximum_bytes c1 = qc_maximum_bytes c"
        "qc_entries c1 = (it, \<lparr>en_key = key, en_result = result, en_bytes = cache_measure ly key result\<rparr>) #
          filter (\<lambda>(it, e). en_key e \<noteq> key) (qc_entries c)"
      using cache_put_evict [OF assms(1) False] .
    have ok: "cache_ok (evict c1)" "qc_maximum_bytes (evict c1) = qc_maximum_bytes c"
      using evict_exact [OF c1(2)] c1(3) by simp_all
    have "set (qc_entries (evict c1)) \<subseteq> set (qc_entries c1)"
      using evict_prefix [OF c1(2)] assms(3) c1(3) set_take_subset by fastforce
    then have "cached (evict c1) \<subseteq>\<^sub>m remember op m"
      by (intro map_leI, elim older [OF cache_ok_linked [OF ok(1)]]) (auto simp: c1(4))
    with c1(1) ok show ?thesis by (simp add: Cache_put)
  qed
qed

lemma cache_run_ok:
  assumes "cache_ok c" and "cached c \<subseteq>\<^sub>m m" and "qc_maximum_bytes c < 2 ^ 63"
  shows "\<exists>c'. cache_run ly ops c = Some c' \<and> cache_ok c' \<and> cached c' \<subseteq>\<^sub>m fold remember ops m \<and>
    qc_maximum_bytes c' = qc_maximum_bytes c"
  using assms
proof (induction ops arbitrary: c m)
  case (Cons op ops)
  from cache_step_ok [OF Cons.prems, of ly op] obtain c' where
    c': "cache_step ly op c = Some c'" "cache_ok c'" "cached c' \<subseteq>\<^sub>m remember op m"
      "qc_maximum_bytes c' = qc_maximum_bytes c" by blast
  from Cons.IH [OF c'(2,3)] Cons.prems(3) c' show ?case by simp
qed simp

lemma cache_new_ok: "cache_ok (cache_new maximum)" "cached (cache_new maximum) = Map.empty"
    "qc_maximum_bytes (cache_new maximum) = maximum"
  by (simp_all add: cache_new_def cache_ok_def cache_exact_def linked_def total_bytes_def cached_def fun_eq_iff)

text \<open>
  C30: the cache is a lossy map within its budget. After any sequence of operations on a new cache no
  invalid iterator has been followed; the entries together measure exactly what the counter says and
  no more than the budget; a further \<^verbatim>\<open>get\<close> returns what is stored for its key; and what is stored
  for a key is the result of the latest \<^verbatim>\<open>put\<close> for that very key, of a generation that has not
  been invalidated since.
\<close>

theorem cache_lossy_map:
  assumes "maximum < 2 ^ 63"
  shows "\<exists>c. cache_run ly ops (cache_new maximum) = Some c \<and>
    unat (qc_bytes c) = total_bytes c \<and> total_bytes c \<le> unat maximum \<and>
    (\<exists>c'. cache_get key c = Some (cached c key, c')) \<and>
    cached c \<subseteq>\<^sub>m fold remember ops Map.empty"
proof -
  from cache_run_ok [OF cache_new_ok(1), of maximum Map.empty ly ops] assms obtain c where
    c: "cache_run ly ops (cache_new maximum) = Some c" "cache_ok c" "cached c \<subseteq>\<^sub>m fold remember ops Map.empty"
      "qc_maximum_bytes c = maximum"
    by (auto simp: cache_new_ok)
  moreover have "unat (qc_bytes c) = total_bytes c \<and> total_bytes c \<le> unat maximum"
    using c(2,4) assms by (auto simp: cache_ok_def cache_exact_def word_le_nat_alt)
  ultimately show ?thesis using cache_get_ok [OF c(2), of key] by blast
qed

definition contents :: "cache \<Rightarrow> (cache_key \<times> search_result \<times> u64) list" where
  "contents c = map (\<lambda>(it, e). (en_key e, en_result e, en_bytes e)) (qc_entries c)"

definition content_bytes :: "(cache_key \<times> search_result \<times> u64) list \<Rightarrow> nat" where
  "content_bytes xs = (\<Sum>(k, r, b) \<leftarrow> xs. unat b)"

lemma content_bytes_contents:
  "content_bytes (take m (map (\<lambda>(it, e). (en_key e, en_result e, en_bytes e)) xs)) =
    (\<Sum>x \<leftarrow> take m xs. unat (en_bytes (snd x)))"
  by (simp add: content_bytes_def take_map comp_def split_beta)

lemma cache_put_prefix:
  assumes "cache_ok c" and "qc_maximum_bytes c < 2 ^ 63" and "cache_measure ly key result \<le> qc_maximum_bytes c"
  shows "\<exists>c' n. cache_put ly key result c = Some c' \<and> cached c' key = Some result \<and> 0 < n \<and>
    n \<le> length ((key, result, cache_measure ly key result) # filter (\<lambda>(k, r, b). k \<noteq> key) (contents c)) \<and>
    contents c' = take n ((key, result, cache_measure ly key result) # filter (\<lambda>(k, r, b). k \<noteq> key) (contents c)) \<and>
    content_bytes (contents c') \<le> unat (qc_maximum_bytes c) \<and>
    (\<forall>m. n < m \<and> m \<le> length ((key, result, cache_measure ly key result) # filter (\<lambda>(k, r, b). k \<noteq> key) (contents c)) \<longrightarrow>
      unat (qc_maximum_bytes c) <
        content_bytes (take m ((key, result, cache_measure ly key result) # filter (\<lambda>(k, r, b). k \<noteq> key) (contents c))))"
proof -
  have "\<not> cache_measure ly key result > qc_maximum_bytes c" using assms(3) by simp
  from cache_put_evict [OF assms(1) this] obtain c1 it where
    c1: "cache_put ly key result c = Some (evict c1)" "cache_exact c1" "qc_maximum_bytes c1 = qc_maximum_bytes c"
      "qc_entries c1 = (it, \<lparr>en_key = key, en_result = result, en_bytes = cache_measure ly key result\<rparr>) #
        filter (\<lambda>(it, e). en_key e \<noteq> key) (qc_entries c)" .
  define xs where "xs = (key, result, cache_measure ly key result) # filter (\<lambda>(k, r, b). k \<noteq> key) (contents c)"
  have xs: "xs = map (\<lambda>(it, e). (en_key e, en_result e, en_bytes e)) (qc_entries c1)"
    by (simp add: xs_def c1(4) contents_def filter_map comp_def case_prod_unfold)
  from evict_prefix [OF c1(2)] assms(2) c1(3) obtain n where
    n: "n \<le> length xs" "qc_entries (evict c1) = take n (qc_entries c1)"
      "\<And>m. n < m \<Longrightarrow> m \<le> length xs \<Longrightarrow> unat (qc_maximum_bytes c) < content_bytes (take m xs)"
    by (auto simp: xs content_bytes_contents)
  have ok: "cache_ok (evict c1)" "qc_maximum_bytes (evict c1) = qc_maximum_bytes c"
    using evict_exact [OF c1(2)] c1(3) by simp_all
  have con: "contents (evict c1) = take n xs" by (simp add: contents_def n(2) xs take_map)
  have "content_bytes (contents (evict c1)) = total_bytes (evict c1)"
    by (simp add: content_bytes_def contents_def total_bytes_def comp_def split_beta)
  moreover have "total_bytes (evict c1) \<le> unat (qc_maximum_bytes c)"
    using ok assms(2) by (auto simp: cache_ok_def cache_exact_def word_le_nat_alt)
  ultimately have fits: "content_bytes (contents (evict c1)) \<le> unat (qc_maximum_bytes c)" by simp
  have pos: "0 < n"
  proof (rule ccontr)
    assume "\<not> 0 < n"
    with n(3) [of 1] assms(3) show False by (simp add: xs_def content_bytes_def word_le_nat_alt)
  qed
  then have "(it, \<lparr>en_key = key, en_result = result, en_bytes = cache_measure ly key result\<rparr>) \<in> set (qc_entries (evict c1))"
    unfolding n(2) c1(4) by (cases n) simp_all
  then have "cached (evict c1) key = Some result" using cached_iff [OF cache_ok_linked [OF ok(1)]] by force
  with c1(1) pos n con fits show ?thesis unfolding xs_def [symmetric] by blast
qed

text \<open>
  Eviction is least recently used and minimal. Storing a result that fits the budget succeeds; the
  cache then holds the first \<open>n\<close> elements of the new entry followed by the older entries for other
  keys in order of use, where the new entry is among them, they fit the budget, and no longer
  prefix does; so the result can be read back at once.
\<close>

theorem cache_put_lru:
  assumes "maximum < 2 ^ 63" and "cache_run ly ops (cache_new maximum) = Some c"
    and "cache_measure ly key result \<le> maximum"
    and "xs = (key, result, cache_measure ly key result) # filter (\<lambda>(k, r, b). k \<noteq> key) (contents c)"
  shows "\<exists>c' n. cache_put ly key result c = Some c' \<and> cached c' key = Some result \<and> 0 < n \<and> n \<le> length xs \<and>
    contents c' = take n xs \<and> content_bytes (take n xs) \<le> unat maximum \<and>
    (\<forall>m. n < m \<and> m \<le> length xs \<longrightarrow> unat maximum < content_bytes (take m xs))"
proof -
  from cache_run_ok [OF cache_new_ok(1), of maximum Map.empty ly ops] assms(1,2)
  have c: "cache_ok c" "qc_maximum_bytes c = maximum" by (auto simp: cache_new_ok)
  show ?thesis using cache_put_prefix [OF c(1), of ly key result] assms(1,3) c(2) unfolding assms(4) by metis
qed

definition ex_key :: "string \<Rightarrow> cache_key" where
  "ex_key p = \<lparr>ck_generation = 1, ck_schema_fingerprint = ''s'', ck_plan = p, ck_top_k = 10, ck_scoring_fingerprint = ''b''\<rparr>"

definition ex_result :: search_result where
  "ex_result = \<lparr>sr_hits = [], sr_total_hits = 0\<rparr>"

definition ex_layout :: layout where
  "ex_layout = \<lparr>sizeof_entry = 100, sizeof_hit = 40\<rparr>"

theorem cache_lossy_map_witness:
  "\<exists>c. cache_run ex_layout [Cache_put (ex_key ''t'') ex_result] (cache_new 150) = Some c \<and>
    unat (qc_bytes c) = total_bytes c \<and> total_bytes c \<le> unat (150 :: u64) \<and>
    (\<exists>c'. cache_get (ex_key ''t'') c = Some (cached c (ex_key ''t''), c')) \<and>
    cached c \<subseteq>\<^sub>m fold remember [Cache_put (ex_key ''t'') ex_result] Map.empty"
  by (rule cache_lossy_map) simp

theorem cache_put_lru_witness:
  "\<exists>c' n. cache_put ex_layout (ex_key ''t'') ex_result (cache_new 150) = Some c' \<and>
    cached c' (ex_key ''t'') = Some ex_result \<and> 0 < n \<and> n \<le> length [(ex_key ''t'', ex_result, 103 :: u64)] \<and>
    contents c' = take n [(ex_key ''t'', ex_result, 103)]"
proof -
  have m: "cache_measure ex_layout (ex_key ''t'') ex_result = 103"
    by (simp add: cache_measure_def ex_layout_def ex_key_def ex_result_def)
  have "contents (cache_new 150) = []" by (simp add: contents_def cache_new_def)
  then show ?thesis
    using cache_put_lru [of 150 ex_layout "[]" "cache_new 150" "ex_key ''t''" ex_result, OF _ _ _ refl]
    unfolding m by (auto simp: word_less_nat_alt word_le_nat_alt)
qed

end
