(* ===== verification/Write_Ahead_Log.thy ===== *)
theory Write_Ahead_Log
  imports Bytes
begin

text \<open>
  The write-ahead log: \<^verbatim>\<open>src/storage/write_ahead_log.cpp\<close>. The state is the log file, \<open>None\<close> while it
  does not exist. What the operating system answers is an argument of each operation
  (\<open>append_io\<close>, \<open>replay_io\<close>, \<open>sync_io\<close>): every call of the sources that can fail can fail here,
  and a failing write leaves any number of the bytes it was given.
\<close>

section \<open>Records\<close>

datatype wal_error_code = Wal_io_error | Wal_corruption | Wal_resource_limit

record wal_error =
  we_code :: wal_error_code
  we_message :: string

record wal_limits =
  wl_maximum_file_bytes :: u64
  wl_maximum_record_bytes :: u64
  wl_maximum_records :: u64
  wl_maximum_string_bytes :: u64

definition default_wal_limits :: wal_limits where
  "default_wal_limits =
     \<lparr>wl_maximum_file_bytes = 1073741824, wl_maximum_record_bytes = 67108864,
      wl_maximum_records = 10000000, wl_maximum_string_bytes = 16777216\<rparr>"

definition wal_fail :: "wal_error_code \<Rightarrow> string \<Rightarrow> wal_error" where
  "wal_fail code message = \<lparr>we_code = code, we_message = message\<rparr>"

definition wal_magic :: bytes where
  "wal_magic = text_bytes ''DWAL''"

definition add_string :: "bytes \<Rightarrow> string \<Rightarrow> bytes option" where
  "add_string out s =
     (if length s > 4294967295 then None
      else Some (out @ put_u32 (of_nat (length s)) @ text_bytes s))"

fun add_entries :: "bytes \<Rightarrow> (string, string) omap \<Rightarrow> bytes option" where
  "add_entries out [] = Some out"
| "add_entries out ((k, v) # rest) =
     (case add_string out k of
        None \<Rightarrow> None
      | Some out' \<Rightarrow>
          (case add_string out' v of None \<Rightarrow> None | Some out'' \<Rightarrow> add_entries out'' rest))"

definition add_map :: "bytes \<Rightarrow> (string, string) omap \<Rightarrow> bytes option" where
  "add_map out values =
     (if length values > 4294967295 then None
      else add_entries (out @ put_u32 (of_nat (length values))) values)"

definition wal_encode :: "document \<Rightarrow> (wal_error, bytes) result" where
  "wal_encode d =
     (case add_string [] (doc_id d) of
        None \<Rightarrow> Inl (wal_fail Wal_resource_limit ''document ID is too large'')
      | Some p \<Rightarrow>
          (let p1 = p @ put_u64 (doc_version d) @ [if doc_deleted d then 1 else 0]
           in case add_map p1 (doc_fields d) of
                None \<Rightarrow> Inl (wal_fail Wal_resource_limit ''document value is too large'')
              | Some p2 \<Rightarrow>
                  (case add_map p2 (doc_metadata d) of
                     None \<Rightarrow> Inl (wal_fail Wal_resource_limit ''document value is too large'')
                   | Some p3 \<Rightarrow> Inr p3)))"

definition cursor_text :: "wal_limits \<Rightarrow> string reader" where
  "cursor_text limits bs =
     (case get_u32 bs of
        None \<Rightarrow> None
      | Some (n, rest) \<Rightarrow>
          if unat n > unat (wl_maximum_string_bytes limits) \<or> unat n > length rest then None
          else Some (bytes_text (take (unat n) rest), drop (unat n) rest))"

fun read_entries ::
  "wal_limits \<Rightarrow> nat \<Rightarrow> bytes \<Rightarrow> (string, string) omap \<Rightarrow> ((string, string) omap \<times> bytes) option" where
  "read_entries limits 0 bs target = Some (target, bs)"
| "read_entries limits (Suc n) bs target =
     (case cursor_text limits bs of
        None \<Rightarrow> None
      | Some (k, bs1) \<Rightarrow>
          (case cursor_text limits bs1 of
             None \<Rightarrow> None
           | Some (v, bs2) \<Rightarrow>
               if k = [] then None
               else let (target', inserted) = om_emplace k v target
                    in if inserted then read_entries limits n bs2 target' else None))"

definition read_map :: "wal_limits \<Rightarrow> bytes \<Rightarrow> ((string, string) omap \<times> bytes) option" where
  "read_map limits bs =
     (case get_u32 bs of
        None \<Rightarrow> None
      | Some (count, rest) \<Rightarrow> if count > 1000000 then None else read_entries limits (unat count) rest [])"

definition wal_decode :: "bytes \<Rightarrow> wal_limits \<Rightarrow> (wal_error, document) result" where
  "wal_decode payload limits =
     (let header_error = Inl (wal_fail Wal_corruption ''invalid WAL document header'');
          body_error = Inl (wal_fail Wal_corruption ''invalid WAL document body'')
      in case cursor_text limits payload of
           None \<Rightarrow> header_error
         | Some (did, bs1) \<Rightarrow>
             (case get_u64 bs1 of
                None \<Rightarrow> header_error
              | Some (version, bs2) \<Rightarrow>
                  (case get_byte bs2 of
                     None \<Rightarrow> header_error
                   | Some (deleted, bs3) \<Rightarrow>
                       if did = [] \<or> deleted > 1 then header_error
                       else case read_map limits bs3 of
                              None \<Rightarrow> body_error
                            | Some (flds, bs4) \<Rightarrow>
                                (case read_map limits bs4 of
                                   None \<Rightarrow> body_error
                                 | Some (metadata, bs5) \<Rightarrow>
                                     if bs5 \<noteq> [] then body_error
                                     else Inr \<lparr>doc_id = did, doc_fields = flds, doc_metadata = metadata,
                                               doc_version = version, doc_deleted = (deleted = 1)\<rparr>))))"

text \<open>
  In the sources the three reads of the header are made before any of them is tested; the document
  is rejected with one and the same error if any of them failed, whatever the others gave.
\<close>

section \<open>The file\<close>

datatype sync_io = Sync_ok | Sync_open_failed string | Sync_fsync_failed string | Sync_close_failed string

fun sync_file :: "sync_io \<Rightarrow> (wal_error, unit) result" where
  "sync_file Sync_ok = Inr ()"
| "sync_file (Sync_open_failed message) = Inl (wal_fail Wal_io_error message)"
| "sync_file (Sync_fsync_failed message) = Inl (wal_fail Wal_io_error message)"
| "sync_file (Sync_close_failed message) = Inl (wal_fail Wal_io_error message)"

type_synonym wal_file = "bytes option"

definition file_bytes :: "wal_file \<Rightarrow> bytes" where
  "file_bytes f = (case f of None \<Rightarrow> [] | Some bs \<Rightarrow> bs)"

definition wal_record :: "bytes \<Rightarrow> bytes" where
  "wal_record payload =
     wal_magic @ put_u32 (of_nat (length payload)) @ put_u32 (crc32c payload) @ payload"

text \<open>
  \<open>Append_write_failed n\<close>: the stream reports an error when \<open>n\<close> bytes of the record have reached the
  file. The limit on \<^verbatim>\<open>std::streamsize\<close>, \<open>2 ^ 63 - 1\<close>, is above the 32-bit one.
\<close>

datatype append_io = Append_open_failed | Append_write_failed nat | Append_written sync_io

definition wal_append :: "append_io \<Rightarrow> document \<Rightarrow> wal_file \<Rightarrow> (wal_error, unit) result \<times> wal_file" where
  "wal_append io d f =
     (case wal_encode d of
        Inl e \<Rightarrow> (Inl e, f)
      | Inr payload \<Rightarrow>
          if length payload > 4294967295 \<or> length payload > 9223372036854775807 - 12
          then (Inl (wal_fail Wal_resource_limit ''WAL record is too large''), f)
          else case io of
                 Append_open_failed \<Rightarrow> (Inl (wal_fail Wal_io_error ''cannot open WAL''), f)
               | Append_write_failed n \<Rightarrow>
                   (Inl (wal_fail Wal_io_error ''cannot write WAL''),
                    Some (file_bytes f @ take n (wal_record payload)))
               | Append_written sync \<Rightarrow> (sync_file sync, Some (file_bytes f @ wal_record payload)))"

text \<open>
  The loop of \<^verbatim>\<open>replay\<close>: \<open>bs\<close> is the part of the file from \<^verbatim>\<open>position\<close>, which at the head of the
  loop is \<open>valid_end\<close>.
\<close>

function (sequential) wal_loop ::
  "wal_limits \<Rightarrow> document list \<Rightarrow> nat \<Rightarrow> bytes \<Rightarrow> (wal_error, document list \<times> nat) result" where
  "wal_loop limits documents valid_end bs =
     (if length bs < 12 then Inr (documents, valid_end)
      else if take 4 bs \<noteq> wal_magic then Inl (wal_fail Wal_corruption ''invalid WAL magic'')
      else case get_u32 (drop 4 bs) of
             None \<Rightarrow> Inr (documents, valid_end)
           | Some (len, bs1) \<Rightarrow>
               (case get_u32 bs1 of
                  None \<Rightarrow> Inr (documents, valid_end)
                | Some (checksum, bs2) \<Rightarrow>
                    if unat len > unat (wl_maximum_record_bytes limits)
                    then Inl (wal_fail Wal_resource_limit ''WAL record exceeds limit'')
                    else if unat len > length bs2 then Inr (documents, valid_end)
                    else if length documents \<ge> unat (wl_maximum_records limits)
                    then Inl (wal_fail Wal_resource_limit ''WAL record count exceeds limit'')
                    else let payload = take (unat len) bs2
                         in if crc32c payload \<noteq> checksum
                            then Inl (wal_fail Wal_corruption ''WAL checksum mismatch'')
                            else case wal_decode payload limits of
                                   Inl e \<Rightarrow> Inl e
                                 | Inr d \<Rightarrow>
                                     wal_loop limits (documents @ [d]) (valid_end + 12 + unat len)
                                       (drop (unat len) bs2)))"
  by pat_completeness auto
termination
  by (relation "measure (\<lambda>(limits, documents, valid_end, bs). length bs)")
    (auto simp: get_u32_def get_integer_def split: if_splits)

declare wal_loop.simps [simp del]

record replay_io =
  rio_exists_error :: bool
  rio_size_error :: "string option"
  rio_open_ok :: bool
  rio_read_ok :: bool
  rio_resize_error :: "string option"
  rio_sync :: sync_io

definition wal_replay ::
  "replay_io \<Rightarrow> wal_limits \<Rightarrow> wal_file \<Rightarrow> (wal_error, document list) result \<times> wal_file" where
  "wal_replay io limits f =
     (case (if rio_exists_error io then None else f) of
        None \<Rightarrow> (Inr [], f)
      | Some bs \<Rightarrow>
          (case rio_size_error io of
             Some message \<Rightarrow> (Inl (wal_fail Wal_io_error message), f)
           | None \<Rightarrow>
               if length bs > unat (wl_maximum_file_bytes limits)
               then (Inl (wal_fail Wal_resource_limit ''WAL exceeds file limit''), f)
               else if \<not> rio_open_ok io then (Inl (wal_fail Wal_io_error ''cannot open WAL''), f)
               else if \<not> rio_read_ok io \<and> bs \<noteq> [] then (Inl (wal_fail Wal_io_error ''cannot read WAL''), f)
               else case wal_loop limits [] 0 bs of
                      Inl e \<Rightarrow> (Inl e, f)
                    | Inr (documents, valid_end) \<Rightarrow>
                        if valid_end < length bs
                        then (case rio_resize_error io of
                                Some message \<Rightarrow>
                                  (Inl (wal_fail Wal_io_error (''cannot truncate torn WAL tail: '' @ message)), f)
                              | None \<Rightarrow>
                                  (case sync_file (rio_sync io) of
                                     Inl e \<Rightarrow> (Inl e, Some (take valid_end bs))
                                   | Inr _ \<Rightarrow> (Inr documents, Some (take valid_end bs))))
                        else (Inr documents, f)))"

datatype reset_io = Reset_open_failed | Reset_truncated sync_io

definition wal_reset :: "reset_io \<Rightarrow> wal_file \<Rightarrow> (wal_error, unit) result \<times> wal_file" where
  "wal_reset io f =
     (case io of
        Reset_open_failed \<Rightarrow> (Inl (wal_fail Wal_io_error ''cannot reset WAL''), f)
      | Reset_truncated sync \<Rightarrow> (sync_file sync, Some []))"

section \<open>Documents read back\<close>

definition wal_string :: "string \<Rightarrow> bytes" where
  "wal_string s = put_u32 (of_nat (length s)) @ text_bytes s"

definition wal_string_ok :: "wal_limits \<Rightarrow> string \<Rightarrow> bool" where
  "wal_string_ok limits s \<longleftrightarrow> length s \<le> 4294967295 \<and> length s \<le> unat (wl_maximum_string_bytes limits)"

definition wal_entry :: "string \<times> string \<Rightarrow> bytes" where
  "wal_entry e = wal_string (fst e) @ wal_string (snd e)"

definition wal_map :: "(string, string) omap \<Rightarrow> bytes" where
  "wal_map m = put_u32 (of_nat (length m)) @ concat (map wal_entry m)"

definition wal_payload :: "document \<Rightarrow> bytes" where
  "wal_payload d =
     wal_string (doc_id d) @ put_u64 (doc_version d) @ [if doc_deleted d then 1 else 0] @
     wal_map (doc_fields d) @ wal_map (doc_metadata d)"

definition wal_map_ok :: "wal_limits \<Rightarrow> (string, string) omap \<Rightarrow> bool" where
  "wal_map_ok limits m \<longleftrightarrow> om_ok m \<and> length m \<le> 1000000 \<and>
     (\<forall>(k, v) \<in> set m. k \<noteq> [] \<and> wal_string_ok limits k \<and> wal_string_ok limits v)"

text \<open>The documents that \<^verbatim>\<open>replay\<close> accepts under the limits.\<close>

definition replayable :: "wal_limits \<Rightarrow> document \<Rightarrow> bool" where
  "replayable limits d \<longleftrightarrow> doc_id d \<noteq> [] \<and> wal_string_ok limits (doc_id d) \<and>
     wal_map_ok limits (doc_fields d) \<and> wal_map_ok limits (doc_metadata d) \<and>
     length (wal_payload d) \<le> 4294967295 \<and>
     length (wal_payload d) \<le> unat (wl_maximum_record_bytes limits)"

lemma unat_size32: "n \<le> 4294967295 \<Longrightarrow> unat (of_nat n :: u32) = n"
  by (simp add: unat_of_nat take_bit_nat_eq_self)

lemma length_wal_string [simp]: "length (wal_string s) = 4 + length s"
  by (simp add: wal_string_def)

lemma add_string_ok: "length s \<le> 4294967295 \<Longrightarrow> add_string out s = Some (out @ wal_string s)"
  by (simp add: add_string_def wal_string_def)

lemma add_entries_ok:
  "\<forall>(k, v) \<in> set m. length k \<le> 4294967295 \<and> length v \<le> 4294967295 \<Longrightarrow>
    add_entries out m = Some (out @ concat (map wal_entry m))"
  by (induction m arbitrary: out) (auto simp: add_string_ok wal_entry_def)

lemma add_map_ok:
  "wal_map_ok limits m \<Longrightarrow> add_map out m = Some (out @ wal_map m)"
  by (subst add_map_def, subst add_entries_ok) (auto simp: wal_map_def wal_map_ok_def wal_string_ok_def)

lemma wal_encode_ok: "replayable limits d \<Longrightarrow> wal_encode d = Inr (wal_payload d)"
  by (simp add: wal_encode_def add_string_ok add_map_ok [of limits] replayable_def wal_payload_def Let_def wal_string_ok_def)

interpretation wal_text: codec wal_string "cursor_text limits" "wal_string_ok limits" for limits
  by unfold_locales (simp add: cursor_text_def wal_string_def wal_string_ok_def unat_size32)

lemma read_entries_ok:
  assumes "om_ok (target @ m)"
    and "\<forall>(k, v) \<in> set m. k \<noteq> [] \<and> wal_string_ok limits k \<and> wal_string_ok limits v"
  shows "read_entries limits (length m) (concat (map wal_entry m) @ rest) target = Some (target @ m, rest)"
  using assms
proof (induction m arbitrary: target)
  case (Cons e m)
  obtain k v where e: "e = (k, v)" by (cases e)
  have "\<forall>x \<in> set target. fst x < k" using Cons.prems(1) by (auto simp: om_ok_def sorted_wrt_append e)
  note om_emplace_append [OF this, of v]
  with Cons show ?case by (simp add: e wal_entry_def wal_text.get_put)
qed simp

lemma read_map_ok: "wal_map_ok limits m \<Longrightarrow> read_map limits (wal_map m @ rest) = Some (m, rest)"
proof -
  assume m: "wal_map_ok limits m"
  then have "\<not> (of_nat (length m) :: u32) > 1000000" "unat (of_nat (length m) :: u32) = length m"
    by (simp_all add: wal_map_ok_def word_less_nat_alt unat_size32)
  with read_entries_ok [of "[]" m limits rest] m show ?thesis
    by (auto simp: read_map_def wal_map_def wal_map_ok_def)
qed

lemma wal_decode_payload: "replayable limits d \<Longrightarrow> wal_decode (wal_payload d) limits = Inr d"
  using read_map_ok [of limits "doc_metadata d" "[]"]
  by (simp add: wal_decode_def wal_payload_def replayable_def wal_text.get_put read_map_ok get_byte_def)

section \<open>Files read back\<close>

abbreviation record_of :: "document \<Rightarrow> bytes" where
  "record_of d \<equiv> wal_record (wal_payload d)"

lemma length_wal_magic [simp]: "length wal_magic = 4"
  by (simp add: wal_magic_def)

lemma length_wal_record [simp]: "length (wal_record p) = 12 + length p"
  by (simp add: wal_record_def)

lemma wal_loop_record:
  assumes "wal_decode p limits = Inr d" and "length p \<le> 4294967295"
    and "length p \<le> unat (wl_maximum_record_bytes limits)" and "length documents < unat (wl_maximum_records limits)"
  shows "wal_loop limits documents valid_end (wal_record p @ rest) =
    wal_loop limits (documents @ [d]) (valid_end + length (wal_record p)) rest"
  using assms by (subst wal_loop.simps) (simp add: wal_record_def unat_size32 ac_simps)

lemma wal_loop_torn:
  assumes "n < length (wal_record p)" and "length p \<le> 4294967295" and "length p \<le> unat (wl_maximum_record_bytes limits)"
  shows "wal_loop limits documents valid_end (take n (wal_record p)) = Inr (documents, valid_end)"
proof (cases "n < 12")
  case True
  then show ?thesis by (subst wal_loop.simps) simp
next
  case False
  then have "take n (wal_record p) = wal_magic @ put_u32 (of_nat (length p)) @ put_u32 (crc32c p) @ take (n - 12) p"
    by (simp add: wal_record_def)
  moreover have "n - 12 < length p" using False assms(1) by simp
  ultimately show ?thesis using False assms(2,3) by (subst wal_loop.simps) (simp add: unat_size32)
qed

lemma wal_loop_records:
  assumes "\<forall>d \<in> set ds. replayable limits d" and "length documents + length ds \<le> unat (wl_maximum_records limits)"
  shows "wal_loop limits documents valid_end (concat (map record_of ds) @ rest) =
    wal_loop limits (documents @ ds) (valid_end + length (concat (map record_of ds))) rest"
  using assms
proof (induction ds arbitrary: documents valid_end)
  case (Cons d ds)
  then have "replayable limits d" by simp
  then have "wal_loop limits documents valid_end (record_of d @ concat (map record_of ds) @ rest) =
      wal_loop limits (documents @ [d]) (valid_end + length (record_of d)) (concat (map record_of ds) @ rest)"
    using Cons.prems(2) by (intro wal_loop_record) (auto simp: wal_decode_payload replayable_def)
  with Cons show ?case by (simp add: ac_simps)
qed simp

lemma get_u32_take: "get_u32 bs = Some (v, rest) \<Longrightarrow> 4 \<le> k \<Longrightarrow> get_u32 (take k bs) = Some (v, take (k - 4) rest)"
  by (auto simp: get_u32_def get_integer_def drop_take min_def split: if_splits)

lemma wal_loop_take:
  "wal_loop limits documents valid_end bs = Inr (documents', valid_end') \<Longrightarrow>
    valid_end \<le> valid_end' \<and> valid_end' \<le> valid_end + length bs \<and>
    wal_loop limits documents valid_end (take (valid_end' - valid_end) bs) = Inr (documents', valid_end')"
proof (induction limits documents valid_end bs rule: wal_loop.induct)
  case (1 limits documents valid_end bs)
  have stop: "wal_loop limits documents valid_end [] = Inr (documents, valid_end)"
    by (subst wal_loop.simps) simp
  show ?case
  proof (cases "documents' = documents \<and> valid_end' = valid_end")
    case True
    then show ?thesis using stop by simp
  next
    case False
    note run = "1.prems" [unfolded wal_loop.simps [of limits documents valid_end bs]]
    from False run have big: "\<not> length bs < 12" and magic: "take 4 bs = wal_magic"
      by (auto split: if_splits)
    obtain len bs1 where len: "get_u32 (drop 4 bs) = Some (len, bs1)"
      using run False big magic by (auto split: option.splits)
    obtain checksum bs2 where sum: "get_u32 bs1 = Some (checksum, bs2)"
      using run False big magic len by (auto split: option.splits)
    have fits: "\<not> unat len > unat (wl_maximum_record_bytes limits)" "\<not> unat len > length bs2"
        "\<not> length documents \<ge> unat (wl_maximum_records limits)"
        "\<not> crc32c (take (unat len) bs2) \<noteq> checksum"
      using run False big magic len sum by (auto simp: Let_def split: if_splits)
    obtain d where d: "wal_decode (take (unat len) bs2) limits = Inr d"
      using run big magic len sum fits by (cases "wal_decode (take (unat len) bs2) limits") (auto simp: Let_def)
    have rest: "bs1 = drop 8 bs" "bs2 = drop 12 bs" "length bs2 = length bs - 12"
      using len sum big by (auto simp: get_u32_def get_integer_def split: if_splits)
    have after: "wal_loop limits (documents @ [d]) (valid_end + 12 + unat len) (drop (unat len) bs2) =
        Inr (documents', valid_end')"
      using run big magic len sum fits d by (simp add: Let_def)
    note ih = "1.IH" [OF big _ len refl sum refl fits(1-3) refl fits(4) d after]
    have *: "valid_end + 12 + unat len \<le> valid_end'" "valid_end' \<le> valid_end + 12 + unat len + (length bs2 - unat len)"
      and again: "wal_loop limits (documents @ [d]) (valid_end + 12 + unat len)
        (take (valid_end' - (valid_end + 12 + unat len)) (drop (unat len) bs2)) = Inr (documents', valid_end')"
      using ih magic by auto
    define k where "k = valid_end' - valid_end"
    have k: "12 + unat len \<le> k" "k \<le> length bs" using * fits(2) rest(3) big by (auto simp: k_def)
    have pieces: "take 4 (take k bs) = wal_magic" "\<not> length (take k bs) < 12"
        "get_u32 (drop 4 (take k bs)) = Some (len, take (k - 8) bs1)"
        "get_u32 (take (k - 8) bs1) = Some (checksum, take (k - 12) bs2)"
      using k magic big get_u32_take [OF len, of "k - 4"] get_u32_take [OF sum, of "k - 8"]
      by (simp_all add: min_def drop_take)
    have "take (unat len) (take (k - 12) bs2) = take (unat len) bs2"
        "drop (unat len) (take (k - 12) bs2) = take (valid_end' - (valid_end + 12 + unat len)) (drop (unat len) bs2)"
        "\<not> unat len > length (take (k - 12) bs2)"
      using k fits(2) by (auto simp: k_def drop_take min_def)
    with pieces fits d again have "wal_loop limits documents valid_end (take k bs) = Inr (documents', valid_end')"
      by (subst wal_loop.simps) (simp add: Let_def)
    with * fits(2) rest(3) big show ?thesis by (auto simp: k_def)
  qed
qed

section \<open>What the log promises\<close>

definition wal_run :: "(append_io \<times> document) list \<Rightarrow> wal_file \<Rightarrow> wal_file" where
  "wal_run ops f = fold (\<lambda>(io, d) f. snd (wal_append io d f)) ops f"

fun intact :: "append_io \<Rightarrow> bool" where
  "intact (Append_write_failed n) = False"
| "intact io = True"

fun reaches_file :: "append_io \<Rightarrow> bool" where
  "reaches_file (Append_written sync) = True"
| "reaches_file io = False"

definition written :: "(append_io \<times> document) list \<Rightarrow> document list" where
  "written ops = map snd (filter (\<lambda>(io, d). reaches_file io) ops)"

definition benign :: "replay_io \<Rightarrow> bool" where
  "benign io \<longleftrightarrow> \<not> rio_exists_error io \<and> rio_size_error io = None \<and> rio_open_ok io \<and> rio_read_ok io \<and>
     rio_resize_error io = None \<and> rio_sync io = Sync_ok"

lemma file_bytes_simps [simp]: "file_bytes None = []" "file_bytes (Some bs) = bs"
  by (simp_all add: file_bytes_def)

lemma wal_append_replayable:
  assumes "replayable limits d"
  shows "wal_append io d f =
    (case io of
       Append_open_failed \<Rightarrow> (Inl (wal_fail Wal_io_error ''cannot open WAL''), f)
     | Append_write_failed n \<Rightarrow> (Inl (wal_fail Wal_io_error ''cannot write WAL''), Some (file_bytes f @ take n (record_of d)))
     | Append_written sync \<Rightarrow> (sync_file sync, Some (file_bytes f @ record_of d)))"
  using assms by (simp add: wal_append_def wal_encode_ok [OF assms] replayable_def split: append_io.split)

lemma wal_run_bytes:
  assumes "\<forall>(io, d) \<in> set ops. intact io \<and> replayable limits d"
  shows "file_bytes (wal_run ops f) = file_bytes f @ concat (map record_of (written ops))"
  using assms
proof (induction ops arbitrary: f)
  case (Cons op ops)
  obtain io d where op: "op = (io, d)" by (cases op)
  from Cons.prems have r: "replayable limits d" and i: "intact io" by (auto simp: op)
  have "file_bytes (snd (wal_append io d f)) = file_bytes f @ (if reaches_file io then record_of d else [])"
    using i by (cases io) (simp_all add: wal_append_replayable [OF r])
  with Cons show ?case by (simp add: wal_run_def written_def op)
qed (simp add: wal_run_def written_def)

lemma wal_replay_loop:
  assumes "benign io" and "length bs \<le> unat (wl_maximum_file_bytes limits)"
  shows "wal_replay io limits (Some bs) =
    (case wal_loop limits [] 0 bs of
       Inl e \<Rightarrow> (Inl e, Some bs)
     | Inr (documents, valid_end) \<Rightarrow> (Inr documents, Some (take valid_end bs)))"
  using assms wal_loop_take [of limits "[]" 0 bs]
  by (auto simp: wal_replay_def benign_def split: sum.split)

lemma wal_loop_file:
  assumes "\<forall>d \<in> set ds. replayable limits d" and "replayable limits d"
    and "length ds < unat (wl_maximum_records limits)"
  shows "wal_loop limits [] 0 (concat (map record_of ds) @ take n (record_of d)) =
    (let kept = ds @ (if n < length (record_of d) then [] else [d])
     in Inr (kept, length (concat (map record_of kept))))"
proof (cases "n < length (record_of d)")
  case True
  then have "wal_loop limits ds (length (concat (map record_of ds))) (take n (record_of d)) =
      Inr (ds, length (concat (map record_of ds)))"
    using assms(2) by (intro wal_loop_torn) (simp_all add: replayable_def)
  with True wal_loop_records [OF assms(1), of "[]" 0 "take n (record_of d)"] assms(3) show ?thesis by simp
next
  case False
  then have "concat (map record_of ds) @ take n (record_of d) = concat (map record_of (ds @ [d])) @ []" by simp
  moreover have "\<forall>d \<in> set (ds @ [d]). replayable limits d" using assms by auto
  moreover have "wal_loop limits documents valid_end [] = Inr (documents, valid_end)" for documents valid_end
    by (subst wal_loop.simps) simp
  ultimately show ?thesis
    using False assms(3) wal_loop_records [of "ds @ [d]" limits "[]" 0 "[]"] by simp
qed

lemma wal_replay_file:
  assumes "\<forall>d \<in> set ds. replayable limits d" and "replayable limits d"
    and "length ds < unat (wl_maximum_records limits)"
    and "length (concat (map record_of ds) @ take n (record_of d)) \<le> unat (wl_maximum_file_bytes limits)" and "benign rio"
  shows "wal_replay rio limits (Some (concat (map record_of ds) @ take n (record_of d))) =
    (let kept = ds @ (if n < length (record_of d) then [] else [d])
     in (Inr kept, Some (concat (map record_of kept))))"
  using assms(4) by (simp add: wal_replay_loop [OF assms(5)] wal_loop_file [OF assms(1-3)] Let_def)

text \<open>
  C18: crash recovery of the write-ahead log. Documents within the replay limits are appended to an
  empty log, with any of the appends failing to open the file or to sync it, and then the process
  stops while one more record is written, with any number \<open>n\<close> of its bytes in the file. Replaying
  the log then returns exactly the documents whose records reached the file, in order, the last one
  only if its record is complete; and it leaves in the file exactly their records, so that the torn
  tail is gone.
\<close>

theorem wal_recovers_after_crash:
  assumes "\<forall>(io, d) \<in> set ops. intact io \<and> replayable limits d" and "replayable limits d"
    and "length (written ops) < unat (wl_maximum_records limits)"
    and "f = snd (wal_append (Append_write_failed n) d (wal_run ops None))"
    and "length (file_bytes f) \<le> unat (wl_maximum_file_bytes limits)" and "benign rio"
  shows "wal_replay rio limits f =
    (let kept = written ops @ (if n < length (record_of d) then [] else [d])
     in (Inr kept, Some (concat (map record_of kept))))"
proof -
  have f: "f = Some (concat (map record_of (written ops)) @ take n (record_of d))"
    using assms(4) wal_run_bytes [OF assms(1), of None] by (simp add: wal_append_replayable [OF assms(2)])
  have "\<forall>d \<in> set (written ops). replayable limits d" using assms(1) by (auto simp: written_def)
  from wal_replay_file [OF this assms(2,3) _ assms(6), of n] assms(5) show ?thesis by (simp only: f file_bytes_simps)
qed

definition ex_wal_limits :: wal_limits where
  "ex_wal_limits = \<lparr>wl_maximum_file_bytes = 1000, wl_maximum_record_bytes = 100, wl_maximum_records = 4,
     wl_maximum_string_bytes = 2\<rparr>"

definition ex_wal_document :: "document_id \<Rightarrow> document" where
  "ex_wal_document did = \<lparr>doc_id = did, doc_fields = [(''f'', ''x'')], doc_metadata = [], doc_version = 1,
     doc_deleted = False\<rparr>"

definition ex_replay_io :: replay_io where
  "ex_replay_io = \<lparr>rio_exists_error = False, rio_size_error = None, rio_open_ok = True, rio_read_ok = True,
     rio_resize_error = None, rio_sync = Sync_ok\<rparr>"

lemma ex_benign: "benign ex_replay_io"
  by (simp add: benign_def ex_replay_io_def)

lemma ex_replayable: "replayable ex_wal_limits (ex_wal_document [c])"
  by (simp add: replayable_def ex_wal_document_def ex_wal_limits_def wal_string_ok_def wal_map_ok_def wal_payload_def
      wal_map_def wal_entry_def)

theorem wal_recovers_after_crash_witness:
  "wal_replay ex_replay_io ex_wal_limits
     (snd (wal_append (Append_write_failed 20) (ex_wal_document ''b'')
        (wal_run [(Append_written Sync_ok, ex_wal_document ''a'')] None))) =
   (Inr [ex_wal_document ''a''], Some (record_of (ex_wal_document ''a'')))"
proof -
  have len: "length (record_of (ex_wal_document [c])) = 44" for c
    by (simp add: ex_wal_document_def wal_payload_def wal_map_def wal_entry_def)
  have ops: "\<forall>(io, d) \<in> set [(Append_written Sync_ok, ex_wal_document ''a'')]. intact io \<and> replayable ex_wal_limits d"
    by (simp add: ex_replayable)
  have w: "written [(Append_written Sync_ok, ex_wal_document ''a'')] = [ex_wal_document ''a'']"
    by (simp add: written_def)
  have "length (file_bytes (snd (wal_append (Append_write_failed 20) (ex_wal_document ''b'')
      (wal_run [(Append_written Sync_ok, ex_wal_document ''a'')] None)))) \<le> unat (wl_maximum_file_bytes ex_wal_limits)"
    using wal_run_bytes [OF ops, of None]
    by (simp only: wal_append_replayable [OF ex_replayable] w) (simp add: len [simplified] ex_wal_limits_def)
  then show ?thesis
    using wal_recovers_after_crash [OF ops ex_replayable _ refl _ ex_benign] len by (simp add: w ex_wal_limits_def)
qed

text \<open>
  Replay is idempotent on every file, corrupt ones included. When a replay succeeds, the file it
  leaves is a prefix of the one it read, and a further replay of that file returns the same documents
  and leaves it as it is.
\<close>

theorem wal_replay_idempotent:
  assumes "benign io" and "benign io'" and "wal_replay io limits f = (Inr documents, f')"
  shows "wal_replay io' limits f' = (Inr documents, f') \<and> (\<exists>rest. file_bytes f = file_bytes f' @ rest)"
proof (cases f)
  case None
  with assms show ?thesis by (auto simp: wal_replay_def)
next
  case (Some bs)
  have size: "length bs \<le> unat (wl_maximum_file_bytes limits)"
    using assms(1,3) by (auto simp: Some wal_replay_def benign_def split: if_splits)
  from assms(3) obtain valid_end where loop: "wal_loop limits [] 0 bs = Inr (documents, valid_end)"
      and f': "f' = Some (take valid_end bs)"
    unfolding Some wal_replay_loop [OF assms(1) size] by (auto split: sum.splits)
  have "length (take valid_end bs) \<le> unat (wl_maximum_file_bytes limits)" using size by simp
  note again = wal_replay_loop [OF assms(2) this]
  have "wal_loop limits [] 0 (take valid_end bs) = Inr (documents, valid_end)"
    using wal_loop_take [OF loop] by simp
  then show ?thesis by (simp add: f' again Some) (metis append_take_drop_id)
qed

theorem wal_replay_idempotent_witness:
  "wal_replay ex_replay_io ex_wal_limits (Some []) = (Inr [], Some []) \<and> (\<exists>rest. file_bytes (Some [1, 2]) = [] @ rest)"
proof -
  have "wal_replay ex_replay_io ex_wal_limits (Some [1, 2]) = (Inr [], Some [])"
    unfolding wal_replay_def by (subst wal_loop.simps) (simp add: ex_replay_io_def ex_wal_limits_def)
  from wal_replay_idempotent [OF ex_benign ex_benign this] show ?thesis by simp
qed

lemma read_entries_type:
  "read_entries limits n bs target = Some (m, rest) \<Longrightarrow> om_ok target \<Longrightarrow> om_ok m"
  by (induction n arbitrary: bs target) (auto simp: om_emplace_def omap_intros split: option.splits if_splits)

lemma read_map_type: "read_map limits bs = Some (m, rest) \<Longrightarrow> om_ok m"
  by (auto simp: read_map_def intro: read_entries_type [OF _ om_ok_Nil] split: option.splits if_splits)

lemma wal_decode_type: "wal_decode p limits = Inr d \<Longrightarrow> doc_id d \<noteq> [] \<and> document_ok d"
  by (auto simp: wal_decode_def Let_def document_ok_def split: option.splits if_splits; erule read_map_type)

lemma wal_loop_type:
  "wal_loop limits documents valid_end bs = Inr (documents', valid_end') \<Longrightarrow>
    \<forall>d \<in> set documents. doc_id d \<noteq> [] \<and> document_ok d \<Longrightarrow>
    length documents \<le> unat (wl_maximum_records limits) \<Longrightarrow>
    (\<forall>d \<in> set documents'. doc_id d \<noteq> [] \<and> document_ok d) \<and> length documents' \<le> unat (wl_maximum_records limits)"
proof (induction limits documents valid_end bs rule: wal_loop.induct)
  case (1 limits documents valid_end bs)
  note run = "1.prems"(1) [unfolded wal_loop.simps [of limits documents valid_end bs]]
  show ?case
  proof (cases "documents' = documents")
    case True
    with "1.prems" show ?thesis by simp
  next
    case False
    with run obtain len bs1 checksum bs2 d where
      step: "\<not> length bs < 12" "\<not> take 4 bs \<noteq> wal_magic" "get_u32 (drop 4 bs) = Some (len, bs1)"
        "get_u32 bs1 = Some (checksum, bs2)" "\<not> unat len > unat (wl_maximum_record_bytes limits)"
        "\<not> unat len > length bs2" "\<not> length documents \<ge> unat (wl_maximum_records limits)"
        "\<not> crc32c (take (unat len) bs2) \<noteq> checksum" "wal_decode (take (unat len) bs2) limits = Inr d"
      and after: "wal_loop limits (documents @ [d]) (valid_end + 12 + unat len) (drop (unat len) bs2) =
        Inr (documents', valid_end')"
      by (auto simp: Let_def split: if_splits option.splits sum.splits)
    have "\<forall>d \<in> set (documents @ [d]). doc_id d \<noteq> [] \<and> document_ok d"
      using "1.prems"(2) wal_decode_type [OF step(9)] by auto
    with "1.IH" [OF step(1,2,3) refl step(4) refl step(5-7) refl step(8,9) after] step(7) show ?thesis by simp
  qed
qed

text \<open>
  What replay returns, from a file of any bytes: documents with an identifier and with well-formed
  fields and metadata, no more of them than the limit.
\<close>

theorem wal_replayed_documents:
  assumes "wal_replay io limits f = (Inr documents, f')"
  shows "(\<forall>d \<in> set documents. doc_id d \<noteq> [] \<and> document_ok d) \<and> length documents \<le> unat (wl_maximum_records limits)"
proof -
  have "documents = [] \<or> (\<exists>bs valid_end. wal_loop limits [] 0 bs = Inr (documents, valid_end))"
    using assms by (auto simp: wal_replay_def split: option.splits if_splits sum.splits)
  then show ?thesis using wal_loop_type [of limits "[]" 0] by auto
qed

theorem wal_replayed_documents_witness:
  "doc_id (ex_wal_document ''a'') \<noteq> [] \<and> document_ok (ex_wal_document ''a'') \<and> length [ex_wal_document ''a''] \<le> 4"
proof -
  have "wal_loop ex_wal_limits [] 0 (record_of (ex_wal_document ''a'')) = Inr ([ex_wal_document ''a''], 44)"
    using wal_loop_file [of "[]" ex_wal_limits "ex_wal_document ''a''" 44] ex_replayable [of "CHR ''a''"]
    by (simp add: ex_wal_limits_def) (simp add: ex_wal_document_def wal_payload_def wal_map_def wal_entry_def)
  moreover have "length (record_of (ex_wal_document ''a'')) = 44"
    by (simp add: ex_wal_document_def wal_payload_def wal_map_def wal_entry_def)
  ultimately have "wal_replay ex_replay_io ex_wal_limits (Some (record_of (ex_wal_document ''a''))) =
      (Inr [ex_wal_document ''a''], Some (record_of (ex_wal_document ''a'')))"
    using wal_replay_loop [OF ex_benign, of "record_of (ex_wal_document ''a'')" ex_wal_limits]
    by (simp add: ex_wal_limits_def)
  from wal_replayed_documents [OF this] show ?thesis by (simp add: ex_wal_limits_def)
qed

text \<open>What replay makes of a record cut after its header, with other bytes behind the cut.\<close>

lemma wal_loop_header:
  assumes "12 \<le> n" and "replayable limits d" and "length documents < unat (wl_maximum_records limits)"
    and "bs = drop 12 (take n (record_of d)) @ rest"
  shows "wal_loop limits documents valid_end (take n (record_of d) @ rest) =
    (if length bs < length (wal_payload d) then Inr (documents, valid_end)
     else if crc32c (take (length (wal_payload d)) bs) \<noteq> crc32c (wal_payload d)
     then Inl (wal_fail Wal_corruption ''WAL checksum mismatch'')
     else case wal_decode (take (length (wal_payload d)) bs) limits of
       Inl e \<Rightarrow> Inl e
     | Inr x \<Rightarrow> wal_loop limits (documents @ [x]) (valid_end + 12 + length (wal_payload d)) (drop (length (wal_payload d)) bs))"
proof -
  have "take n (record_of d) = wal_magic @ put_u32 (of_nat (length (wal_payload d))) @ put_u32 (crc32c (wal_payload d)) @ drop 12 (take n (record_of d))"
    using assms(1) by (simp add: wal_record_def)
  then have "take n (record_of d) @ rest = wal_magic @ put_u32 (of_nat (length (wal_payload d))) @ put_u32 (crc32c (wal_payload d)) @ bs"
    by (simp add: assms(4))
  with assms(2,3) show ?thesis
    by (subst wal_loop.simps) (simp add: unat_size32 replayable_def split: sum.split)
qed

text \<open>
  C35: an append behind a torn one is acknowledged and lost. Let a log hold the complete records of \<open>ds\<close>, let an append of \<open>d\<close> fail after \<open>n\<close>
  bytes of its record, and let an append of \<open>d'\<close> follow, which succeeds. If \<open>n\<close> is one to three, every replay of the log fails with the
  corruption error. If \<open>n\<close> covers the header of twelve bytes, the bytes behind it are read as the rest of \<open>d\<close>: when they
  are too few, replay succeeds with \<open>ds\<close> alone and cuts the file there, so that \<open>d'\<close> is lost without any error;
  otherwise replay fails, unless the mixed payload happens to have the checksum of \<open>d\<close>. (For four to eleven bytes the
  outcome depends on the bytes of the length.)
\<close>

theorem torn_append_hides_later_append:
  assumes "\<forall>x \<in> set ds. replayable limits x" and "replayable limits d" and "replayable limits d'"
    and "length ds < unat (wl_maximum_records limits)"
    and "wal_append (Append_write_failed n) d (Some (concat (map record_of ds))) = (r, f)"
    and "wal_append (Append_written Sync_ok) d' f = (r', f')"
    and "length (file_bytes f') \<le> unat (wl_maximum_file_bytes limits)" and "benign io"
  shows "r' = Inr () \<and>
    (0 < n \<and> n < 4 \<longrightarrow> wal_replay io limits f' = (Inl (wal_fail Wal_corruption ''invalid WAL magic''), f')) \<and>
    (12 \<le> n \<and> n + length (record_of d') < length (record_of d) \<longrightarrow>
       wal_replay io limits f' = (Inr ds, Some (concat (map record_of ds)))) \<and>
    (12 \<le> n \<and> length (record_of d) \<le> n + length (record_of d') \<and> n < length (record_of d) \<and>
     crc32c (take (length (wal_payload d)) (drop 12 (take n (record_of d)) @ record_of d')) \<noteq> crc32c (wal_payload d) \<longrightarrow>
       wal_replay io limits f' = (Inl (wal_fail Wal_corruption ''WAL checksum mismatch''), f'))"
proof -
  let ?ds = "concat (map record_of ds)" and ?tail = "take n (record_of d) @ record_of d'"
  have f: "f' = Some (?ds @ ?tail)" and r: "r' = Inr ()"
    using assms(5,6) by (auto simp: wal_append_replayable [OF assms(2)] wal_append_replayable [OF assms(3)])
  have replay: "wal_replay io limits f' =
      (case wal_loop limits ds (length ?ds) ?tail of
         Inl e \<Rightarrow> (Inl e, f') | Inr (documents, valid_end) \<Rightarrow> (Inr documents, Some (take valid_end (?ds @ ?tail))))"
    using wal_replay_loop [OF assms(8), of "?ds @ ?tail" limits] assms(7) wal_loop_records [OF assms(1), of "[]" 0 ?tail] assms(4)
    unfolding f by simp
  have letters: "byte_of_char CHR ''D'' = 68" "byte_of_char CHR ''W'' = 87" "byte_of_char CHR ''A'' = 65"
      "byte_of_char CHR ''L'' = 76"
    by (simp_all add: byte_of_char_def)
  have "wal_replay io limits f' = (Inl (wal_fail Wal_corruption ''invalid WAL magic''), f')" if "0 < n" "n < 4"
  proof -
    from that have "n = 1 \<or> n = 2 \<or> n = 3" by auto
    then have "take 4 ?tail \<noteq> wal_magic" by (auto simp: wal_record_def wal_magic_def text_bytes_def letters)
    then have "wal_loop limits ds (length ?ds) ?tail = Inl (wal_fail Wal_corruption ''invalid WAL magic'')"
      by (subst wal_loop.simps) simp
    then show ?thesis by (simp add: replay)
  qed
  moreover have "wal_replay io limits f' = (Inr ds, Some ?ds)" if "12 \<le> n" "n + length (record_of d') < length (record_of d)"
    using that by (simp add: replay wal_loop_header [OF that(1) assms(2,4) refl])
  moreover have "wal_replay io limits f' = (Inl (wal_fail Wal_corruption ''WAL checksum mismatch''), f')"
    if "12 \<le> n" "length (record_of d) \<le> n + length (record_of d')" "n < length (record_of d)"
      "crc32c (take (length (wal_payload d)) (drop 12 (take n (record_of d)) @ record_of d')) \<noteq> crc32c (wal_payload d)"
    using that by (simp add: replay wal_loop_header [OF that(1) assms(2,4) refl])
  ultimately show ?thesis using r by blast
qed

definition ex_long_document :: document where
  "ex_long_document = \<lparr>doc_id = ''l'', doc_fields = [(''f'', ''x''), (''g'', ''y''), (''h'', ''z'')], doc_metadata = [], doc_version = 1,
     doc_deleted = False\<rparr>"

lemma ex_long_replayable: "replayable ex_wal_limits ex_long_document"
  by (simp add: replayable_def ex_long_document_def ex_wal_limits_def wal_string_ok_def wal_map_ok_def wal_payload_def
      wal_map_def wal_entry_def)

lemma ex_record_lengths: "length (wal_payload ex_long_document) = 52" "length (wal_payload (ex_wal_document [c])) = 32"
  by (simp_all add: ex_long_document_def ex_wal_document_def wal_payload_def wal_map_def wal_entry_def)

definition ex_torn_log :: "nat \<Rightarrow> wal_file" where
  "ex_torn_log n = snd (wal_append (Append_written Sync_ok) (ex_wal_document ''b'')
     (snd (wal_append (Append_write_failed n) ex_long_document (Some (record_of (ex_wal_document ''a''))))))"

theorem torn_append_hides_later_append_witness:
  "fst (wal_append (Append_written Sync_ok) (ex_wal_document ''b'')
      (snd (wal_append (Append_write_failed 12) ex_long_document (Some (record_of (ex_wal_document ''a'')))))) = Inr () \<and>
   fst (wal_replay ex_replay_io ex_wal_limits (ex_torn_log 2)) = Inl (wal_fail Wal_corruption ''invalid WAL magic'') \<and>
   fst (wal_replay ex_replay_io ex_wal_limits (ex_torn_log 12)) = Inr [ex_wal_document ''a'']"
proof -
  have size: "length (file_bytes (ex_torn_log n)) \<le> 1000" for n
    unfolding ex_torn_log_def
    by (simp add: wal_append_replayable [OF ex_replayable] wal_append_replayable [OF ex_long_replayable] ex_record_lengths)
  note t = torn_append_hides_later_append [of "[ex_wal_document ''a'']", OF _ ex_long_replayable ex_replayable _
      prod.collapse [symmetric] prod.collapse [symmetric] _ ex_benign]
  have a: "\<forall>x \<in> set [ex_wal_document ''a'']. replayable ex_wal_limits x" using ex_replayable by simp
  show ?thesis
    using t [of "CHR ''b''" 12, OF a] t [of "CHR ''b''" 2, OF a] size [of 12] size [of 2]
    by (simp add: ex_wal_limits_def ex_record_lengths ex_torn_log_def)
qed

text \<open>
  C36: \<^verbatim>\<open>append\<close> acknowledges documents that \<^verbatim>\<open>replay\<close> refuses: its own limits are those of 32-bit
  lengths, while replay rejects texts longer than the string limit. A document with a longer
  identifier that is acknowledged by a successful append makes every later replay of the log fail.
\<close>

theorem acknowledged_but_unreadable:
  assumes "length (doc_id d) > unat (wl_maximum_string_bytes limits)"
    and "wal_encode d = Inr payload" and "length payload \<le> 4294967295"
    and "length payload \<le> unat (wl_maximum_record_bytes limits)"
    and "length payload + 12 \<le> unat (wl_maximum_file_bytes limits)" and "wl_maximum_records limits \<noteq> 0"
    and "benign io"
  shows "\<exists>f. wal_append (Append_written Sync_ok) d None = (Inr (), f) \<and>
    wal_replay io limits f = (Inl (wal_fail Wal_corruption ''invalid WAL document header''), f)"
proof -
  obtain out rest where out: "add_string [] (doc_id d) = Some out" and p: "payload = out @ rest"
  proof -
    have more: "add_entries q m = Some q' \<Longrightarrow> \<exists>r. q' = q @ r" for q m q'
      by (induction q m rule: add_entries.induct) (fastforce simp: add_string_def split: option.splits if_splits)+
    from assms(2) show thesis
      by (auto simp: wal_encode_def add_map_def Let_def dest!: more split: option.splits if_splits intro!: that)
  qed
  then have small: "length (doc_id d) \<le> 4294967295" and out_def: "out = wal_string (doc_id d)"
    by (auto simp: add_string_def wal_string_def split: if_splits)
  have "cursor_text limits payload = None"
    using assms(1) small by (simp add: p out_def cursor_text_def wal_string_def unat_size32)
  then have decode: "wal_decode payload limits = Inl (wal_fail Wal_corruption ''invalid WAL document header'')"
    by (simp add: wal_decode_def)
  have "wal_loop limits [] 0 (wal_record payload @ []) = Inl (wal_fail Wal_corruption ''invalid WAL document header'')"
    using assms(3,4,6) decode
    by (subst wal_loop.simps) (simp add: wal_record_def unat_size32 unat_eq_0)
  with assms(2,3,5,7) show ?thesis
    by (simp add: wal_append_def wal_replay_loop)
qed

theorem acknowledged_but_unreadable_witness:
  "\<exists>f. wal_append (Append_written Sync_ok) (ex_wal_document ''abc'') None = (Inr (), f) \<and>
    wal_replay ex_replay_io ex_wal_limits f = (Inl (wal_fail Wal_corruption ''invalid WAL document header''), f)"
proof -
  have enc: "wal_encode (ex_wal_document ''abc'') = Inr (wal_payload (ex_wal_document ''abc''))"
    by (simp add: wal_encode_def add_string_def add_map_def ex_wal_document_def wal_payload_def wal_map_def
        wal_entry_def wal_string_def)
  have len: "length (wal_payload (ex_wal_document ''abc'')) = 34" and long: "length (doc_id (ex_wal_document ''abc'')) = 3"
    by (simp_all add: ex_wal_document_def wal_payload_def wal_map_def wal_entry_def)
  show ?thesis
    by (rule acknowledged_but_unreadable [OF _ enc _ _ _ _ ex_benign]) (simp_all add: len long ex_wal_limits_def)
qed

end
