(* ===== verification/Replication.thy ===== *)
theory Replication
  imports Index_Properties Write_Ahead_Log
begin

text \<open>
  Replication: \<^verbatim>\<open>src/distributed/replication.cpp\<close>. An \<open>ordered_replica\<close> applies numbered mutations to its
  own index; a \<open>group\<close> numbers the mutations of one shard, keeps them in a log and delivers them to its
  replicas, the first of which is the primary; a persistent log wraps mutations into documents of the
  write-ahead log. Every method of the group holds its mutex, so a run is a sequence of calls.

  An index mutation can dereference a null analyzer (theory \<open>Index\<close>); that is the value \<open>Crashed\<close> of the
  results here, never a value of the C++ error type.
\<close>

section \<open>Mutations and replicas\<close>

type_synonym node_id = string
type_synonym shard_id = u32

datatype node_health = Healthy | Suspect | Unhealthy | Draining

primrec health_rank :: "node_health \<Rightarrow> nat" where
  "health_rank Healthy = 0"
| "health_rank Suspect = 1"
| "health_rank Unhealthy = 2"
| "health_rank Draining = 3"

record replica_status =
  st_node_id :: node_id
  st_health :: node_health
  st_applied_sequence :: u64
  st_lag :: u64
  st_inflight :: u64

datatype replication_error_code =
    Invalid_topology | Wrong_shard | Wrong_epoch | Sequence_gap | Stale_sequence | Conflicting_operation
  | Mutation_error | Log_full | Insufficient_acknowledgements | No_eligible_replica

record replication_error =
  re_code :: replication_error_code
  re_message :: string

datatype replication_fault = Failed replication_error | Crashed

record mutation_record =
  mr_shard :: shard_id
  mr_epoch :: u64
  mr_operation_id :: string
  mr_sequence :: u64
  mr_document :: document

datatype apply_outcome = Applied | Duplicate

record ordered_replica =
  or_node :: node_id
  or_shard :: shard_id
  or_epoch :: u64
  or_index :: index
  or_applied_sequence :: u64
  or_health :: node_health
  or_inflight :: u64
  or_operations :: "(string, mutation_record) omap"

definition repl_fail :: "replication_error_code \<Rightarrow> string \<Rightarrow> replication_fault" where
  "repl_fail code message = Failed \<lparr>re_code = code, re_message = message\<rparr>"

definition same_document :: "document \<Rightarrow> document \<Rightarrow> bool" where
  "same_document a b \<longleftrightarrow> doc_id a = doc_id b \<and> doc_fields a = doc_fields b \<and> doc_metadata a = doc_metadata b \<and>
     doc_version a = doc_version b \<and> doc_deleted a = doc_deleted b"

definition same_record :: "mutation_record \<Rightarrow> mutation_record \<Rightarrow> bool" where
  "same_record a b \<longleftrightarrow> mr_shard a = mr_shard b \<and> mr_epoch a = mr_epoch b \<and> mr_operation_id a = mr_operation_id b \<and>
     mr_sequence a = mr_sequence b \<and> doc_id (mr_document a) = doc_id (mr_document b) \<and>
     doc_fields (mr_document a) = doc_fields (mr_document b) \<and>
     doc_metadata (mr_document a) = doc_metadata (mr_document b) \<and>
     doc_version (mr_document a) = doc_version (mr_document b) \<and>
     doc_deleted (mr_document a) = doc_deleted (mr_document b)"

definition replica_new :: "node_id \<Rightarrow> shard_id \<Rightarrow> u64 \<Rightarrow> schema \<Rightarrow> ordered_replica" where
  "replica_new node shard epoch schema =
     \<lparr>or_node = node, or_shard = shard, or_epoch = epoch, or_index = index_new schema (- 1),
      or_applied_sequence = 0, or_health = Healthy, or_inflight = 0, or_operations = []\<rparr>"

definition put_fault :: "index_fault \<Rightarrow> replication_fault" where
  "put_fault f = (case f of Rejected e \<Rightarrow> repl_fail Mutation_error (ie_message e) | Null_dereference \<Rightarrow> Crashed)"

definition replica_apply ::
  "mutation_record \<Rightarrow> ordered_replica \<Rightarrow> (replication_fault, apply_outcome) result \<times> ordered_replica" where
  "replica_apply r s =
     (if mr_shard r \<noteq> or_shard s then (Inl (repl_fail Wrong_shard ''mutation targets another shard''), s)
      else if mr_epoch r \<noteq> or_epoch s
      then (Inl (repl_fail Wrong_epoch ''mutation epoch does not match replica''), s)
      else if mr_operation_id r = [] then (Inl (repl_fail Conflicting_operation ''operation ID is empty''), s)
      else case map_of (or_operations s) (mr_operation_id r) of
             Some found \<Rightarrow>
               if \<not> same_record found r
               then (Inl (repl_fail Conflicting_operation ''operation ID was reused with different content''), s)
               else (Inr Duplicate, s)
           | None \<Rightarrow>
               if mr_sequence r \<le> or_applied_sequence s
               then (Inl (repl_fail Stale_sequence ''unknown operation has stale sequence''), s)
               else if mr_sequence r \<noteq> or_applied_sequence s + 1
               then (Inl (repl_fail Sequence_gap ''mutation sequence is not contiguous''), s)
               else case index_put (or_index s) (mr_document r) of
                      Inl f \<Rightarrow> (Inl (put_fault f), s)
                    | Inr ix \<Rightarrow>
                        (Inr Applied,
                         s\<lparr>or_index := ix, or_applied_sequence := mr_sequence r,
                           or_operations := fst (om_emplace (mr_operation_id r) r (or_operations s))\<rparr>))"

definition replica_status_of :: "ordered_replica \<Rightarrow> u64 \<Rightarrow> replica_status" where
  "replica_status_of s primary_sequence =
     \<lparr>st_node_id = or_node s, st_health = or_health s, st_applied_sequence = or_applied_sequence s,
      st_lag = (if primary_sequence > or_applied_sequence s then primary_sequence - or_applied_sequence s else 0),
      st_inflight = or_inflight s\<rparr>"

definition replica_set_health :: "node_health \<Rightarrow> ordered_replica \<Rightarrow> ordered_replica" where
  "replica_set_health health s = s\<lparr>or_health := health\<rparr>"

definition replica_set_inflight :: "u64 \<Rightarrow> ordered_replica \<Rightarrow> ordered_replica" where
  "replica_set_inflight inflight s = s\<lparr>or_inflight := inflight\<rparr>"

section \<open>Routing\<close>

definition eligible :: "u64 \<Rightarrow> replica_status \<Rightarrow> bool" where
  "eligible maximum_lag candidate \<longleftrightarrow>
     \<not> (st_health candidate = Unhealthy \<or> st_health candidate = Draining \<or> st_lag candidate > maximum_lag)"

definition preferred :: "replica_status \<Rightarrow> replica_status \<Rightarrow> bool" where
  "preferred candidate best \<longleftrightarrow>
     health_rank (st_health candidate) < health_rank (st_health best) \<or>
     (st_health candidate = st_health best \<and>
       (st_lag candidate < st_lag best \<or>
        (st_lag candidate = st_lag best \<and>
          (st_inflight candidate < st_inflight best \<or>
           (st_inflight candidate = st_inflight best \<and> st_node_id candidate < st_node_id best)))))"

fun select_from :: "u64 \<Rightarrow> replica_status list \<Rightarrow> replica_status option \<Rightarrow> replica_status option" where
  "select_from maximum_lag [] best = best"
| "select_from maximum_lag (candidate # rest) best =
     (if \<not> eligible maximum_lag candidate then select_from maximum_lag rest best
      else case best of
             None \<Rightarrow> select_from maximum_lag rest (Some candidate)
           | Some b \<Rightarrow>
               select_from maximum_lag rest (if preferred candidate b then Some candidate else Some b))"

definition router_select :: "replica_status list \<Rightarrow> u64 \<Rightarrow> (replication_fault, node_id) result" where
  "router_select replicas maximum_lag =
     (case select_from maximum_lag replicas None of
        None \<Rightarrow> Inl (repl_fail No_eligible_replica ''no replica satisfies health and lag policy'')
      | Some best \<Rightarrow> Inr (st_node_id best))"

section \<open>Groups\<close>

datatype acknowledgement_mode = Primary_only | All_replicas

record mutation_receipt =
  rc_sequence :: u64
  rc_acknowledgements :: nat

record group =
  rg_shard :: shard_id
  rg_epoch :: u64
  rg_limit :: u64
  rg_next_sequence :: u64
  rg_replicas :: "ordered_replica list"
  rg_log :: "mutation_record list"
  rg_operation_indices :: "(string, nat) omap"

definition group_new :: "shard_id \<Rightarrow> u64 \<Rightarrow> node_id list \<Rightarrow> u64 \<Rightarrow> schema \<Rightarrow> group" where
  "group_new shard epoch nodes limit schema =
     \<lparr>rg_shard = shard, rg_epoch = epoch, rg_limit = limit, rg_next_sequence = 1,
      rg_replicas = map (\<lambda>node. replica_new node shard epoch schema) nodes, rg_log = [],
      rg_operation_indices = []\<rparr>"

definition group_create ::
  "shard_id \<Rightarrow> u64 \<Rightarrow> node_id list \<Rightarrow> u64 \<Rightarrow> schema \<Rightarrow> (replication_fault, group) result" where
  "group_create shard epoch nodes maximum_retained_records schema =
     (if shard = 0 \<or> epoch = 0 \<or> nodes = [] \<or> length nodes > 64 \<or> card (set nodes) \<noteq> length nodes \<or>
         maximum_retained_records = 0
      then Inl (repl_fail Invalid_topology ''invalid replication group'')
      else Inr (group_new shard epoch nodes maximum_retained_records schema))"

text \<open>Delivery of one record to the replicas, the first of which is the primary.\<close>

fun deliver :: "mutation_record \<Rightarrow> bool \<Rightarrow> ordered_replica list \<Rightarrow> (ordered_replica list \<times> nat) option" where
  "deliver r front [] = Some ([], 0)"
| "deliver r front (s # rest) =
     (if \<not> front \<and> (or_health s = Unhealthy \<or> or_health s = Draining)
      then map_option (\<lambda>(rest', acks). (s # rest', acks)) (deliver r False rest)
      else case replica_apply r s of
             (Inl Crashed, s') \<Rightarrow> None
           | (Inl (Failed e), s') \<Rightarrow> map_option (\<lambda>(rest', acks). (s' # rest', acks)) (deliver r False rest)
           | (Inr applied, s') \<Rightarrow> map_option (\<lambda>(rest', acks). (s' # rest', acks + 1)) (deliver r False rest))"

definition acknowledge ::
  "acknowledgement_mode \<Rightarrow> mutation_record \<Rightarrow> group \<Rightarrow> (replication_fault, mutation_receipt) result \<times> group" where
  "acknowledge mode r g =
     (case deliver r True (rg_replicas g) of
        None \<Rightarrow> (Inl Crashed, g)
      | Some (replicas, acks) \<Rightarrow>
          (let g' = g\<lparr>rg_replicas := replicas\<rparr>
           in if mode = All_replicas \<and> acks \<noteq> length replicas
              then (Inl (repl_fail Insufficient_acknowledgements
                     ''mutation committed on primary without every replica acknowledgement''), g')
              else (Inr \<lparr>rc_sequence = mr_sequence r, rc_acknowledgements = acks\<rparr>, g')))"

definition group_submit ::
  "string \<Rightarrow> document \<Rightarrow> acknowledgement_mode \<Rightarrow> group \<Rightarrow>
     (replication_fault, mutation_receipt) result \<times> group" where
  "group_submit operation_id document mode g =
     (case map_of (rg_operation_indices g) operation_id of
        Some i \<Rightarrow>
          (let r = rg_log g ! i
           in if \<not> same_document (mr_document r) document
              then (Inl (repl_fail Conflicting_operation ''operation ID was reused with different content''), g)
              else acknowledge mode r g)
      | None \<Rightarrow>
          if length (rg_log g) \<ge> unat (rg_limit g)
          then (Inl (repl_fail Log_full ''retained mutation log is full''), g)
          else let r = \<lparr>mr_shard = rg_shard g, mr_epoch = rg_epoch g, mr_operation_id = operation_id,
                        mr_sequence = rg_next_sequence g, mr_document = document\<rparr>
               in case replica_apply r (hd (rg_replicas g)) of
                    (Inl f, s) \<Rightarrow> (Inl f, g\<lparr>rg_replicas := s # tl (rg_replicas g)\<rparr>)
                  | (Inr applied, s) \<Rightarrow>
                      acknowledge mode r
                        (g\<lparr>rg_replicas := s # tl (rg_replicas g),
                           rg_operation_indices := om_assign operation_id (length (rg_log g)) (rg_operation_indices g),
                           rg_log := rg_log g @ [r], rg_next_sequence := rg_next_sequence g + 1\<rparr>))"

definition group_statuses :: "group \<Rightarrow> replica_status list" where
  "group_statuses g =
     (let primary = st_applied_sequence (replica_status_of (hd (rg_replicas g)) 0)
      in map (\<lambda>s. replica_status_of s primary) (rg_replicas g))"

definition select_read_replica :: "u64 \<Rightarrow> group \<Rightarrow> (replication_fault, node_id) result" where
  "select_read_replica maximum_lag g = router_select (group_statuses g) maximum_lag"

fun replay_log :: "mutation_record list \<Rightarrow> ordered_replica \<Rightarrow> (replication_fault, unit) result \<times> ordered_replica" where
  "replay_log [] s = (Inr (), s)"
| "replay_log (r # rest) s =
     (case replica_apply r s of
        (Inl f, s') \<Rightarrow> (Inl f, s')
      | (Inr applied, s') \<Rightarrow> replay_log rest s')"

definition recover_health ::
  "mutation_record list \<Rightarrow> node_health \<Rightarrow> ordered_replica \<Rightarrow> (replication_fault, unit) result \<times> ordered_replica" where
  "recover_health log health s =
     (if health = Healthy \<or> health = Suspect
      then case replay_log log s of
             (Inl f, s') \<Rightarrow> (Inl f, s')
           | (Inr _, s') \<Rightarrow> (Inr (), replica_set_health health s')
      else (Inr (), replica_set_health health s))"

fun set_health_of ::
  "mutation_record list \<Rightarrow> node_id \<Rightarrow> node_health \<Rightarrow> ordered_replica list \<Rightarrow>
     (replication_fault, unit) result \<times> ordered_replica list" where
  "set_health_of log node health [] =
     (Inl (repl_fail Invalid_topology ''node is not in replication group''), [])"
| "set_health_of log node health (s # rest) =
     (if or_node s = node
      then let (res, s') = recover_health log health s in (res, s' # rest)
      else let (res, rest') = set_health_of log node health rest in (res, s # rest'))"

definition group_set_health ::
  "node_id \<Rightarrow> node_health \<Rightarrow> group \<Rightarrow> (replication_fault, unit) result \<times> group" where
  "group_set_health node health g =
     (let (res, replicas) = set_health_of (rg_log g) node health (rg_replicas g)
      in (res, g\<lparr>rg_replicas := replicas\<rparr>))"

definition retained_log :: "group \<Rightarrow> mutation_record list" where
  "retained_log g = rg_log g"

section \<open>The persistent log\<close>

definition emplace_all :: "string \<Rightarrow> (string, string) omap \<Rightarrow> (string, string) omap \<Rightarrow> (string, string) omap" where
  "emplace_all prefix values target = fold (\<lambda>(k, v) m. fst (om_emplace (prefix @ k) v m)) values target"

definition persisted :: "mutation_record \<Rightarrow> document" where
  "persisted r =
     (let d = mr_document r;
          metadata = emplace_all []
            [(''@shard'', to_string_nat (unat (mr_shard r))), (''@epoch'', to_string_nat (unat (mr_epoch r))),
             (''@document'', doc_id d), (''@deleted'', if doc_deleted d then ''1'' else ''0'')] [];
          flds = emplace_all ''m:'' (doc_metadata d) (emplace_all ''f:'' (doc_fields d) [])
      in \<lparr>doc_id = mr_operation_id r, doc_fields = flds,
          doc_metadata = fst (om_emplace ''@version'' (to_string_nat (unat (doc_version d))) metadata),
          doc_version = mr_sequence r, doc_deleted = False\<rparr>)"

definition mutation_log_append ::
  "append_io \<Rightarrow> mutation_record \<Rightarrow> wal_file \<Rightarrow> (replication_fault, unit) result \<times> wal_file" where
  "mutation_log_append io r f =
     (if mr_shard r = 0 \<or> mr_epoch r = 0 \<or> mr_sequence r = 0 \<or> mr_operation_id r = [] \<or> doc_id (mr_document r) = []
      then (Inl (repl_fail Conflicting_operation ''persistent mutation identity is incomplete''), f)
      else case wal_append io (persisted r) f of
             (Inl e, f') \<Rightarrow> (Inl (repl_fail Mutation_error (''replica log append failed: '' @ we_message e)), f')
           | (Inr _, f') \<Rightarrow> (Inr (), f'))"

definition parse_number :: "string \<Rightarrow> u64 option" where
  "parse_number s =
     (case from_chars_u64 s of
        (ec, used, v) \<Rightarrow> if ec \<noteq> Errc_ok \<or> used \<noteq> length s then None else Some (of_nat v))"

fun unwrap_fields ::
  "(string, string) omap \<Rightarrow> (string, string) omap \<Rightarrow> (string, string) omap \<Rightarrow>
     ((string, string) omap \<times> (string, string) omap) option" where
  "unwrap_fields [] flds metadata = Some (flds, metadata)"
| "unwrap_fields ((k, v) # rest) flds metadata =
     (if take 2 k = ''f:'' then unwrap_fields rest (fst (om_emplace (drop 2 k) v flds)) metadata
      else if take 2 k = ''m:'' then unwrap_fields rest flds (fst (om_emplace (drop 2 k) v metadata))
      else None)"

definition unwrap :: "shard_id \<Rightarrow> u64 \<Rightarrow> u64 \<Rightarrow> document \<Rightarrow> (replication_fault, mutation_record) result" where
  "unwrap shard epoch expected_sequence w =
     (let md = map_of (doc_metadata w);
          bad_sequence = Inl (repl_fail Sequence_gap ''invalid persistent replica sequence'');
          bad_identity = Inl (repl_fail Wrong_epoch ''persistent replica identity mismatch'')
      in if doc_id w = [] \<or> doc_version w \<noteq> expected_sequence then bad_sequence
         else case (md ''@shard'', md ''@epoch'', md ''@document'', md ''@version'', md ''@deleted'') of
                (Some shard_value, Some epoch_value, Some document_id, Some document_version, Some deleted) \<Rightarrow>
                  (case (parse_number shard_value, parse_number epoch_value, parse_number document_version) of
                     (Some parsed_shard, Some parsed_epoch, Some parsed_version) \<Rightarrow>
                       if parsed_shard \<noteq> ucast shard \<or> parsed_epoch \<noteq> epoch \<or> (deleted \<noteq> ''0'' \<and> deleted \<noteq> ''1'')
                       then bad_identity
                       else (case unwrap_fields (doc_fields w) [] [] of
                               None \<Rightarrow> Inl (repl_fail Conflicting_operation ''invalid persistent replica document field'')
                             | Some (flds, metadata) \<Rightarrow>
                                 Inr \<lparr>mr_shard = shard, mr_epoch = epoch, mr_operation_id = doc_id w,
                                      mr_sequence = doc_version w,
                                      mr_document = \<lparr>doc_id = document_id, doc_fields = flds, doc_metadata = metadata,
                                        doc_version = parsed_version, doc_deleted = (deleted = ''1'')\<rparr>\<rparr>)
                   | _ \<Rightarrow> bad_identity)
              | _ \<Rightarrow> bad_sequence)"

fun unwrap_all ::
  "shard_id \<Rightarrow> u64 \<Rightarrow> u64 \<Rightarrow> document list \<Rightarrow> mutation_record list \<Rightarrow>
     (replication_fault, mutation_record list) result" where
  "unwrap_all shard epoch expected_sequence [] records = Inr records"
| "unwrap_all shard epoch expected_sequence (w # rest) records =
     (case unwrap shard epoch expected_sequence w of
        Inl f \<Rightarrow> Inl f
      | Inr r \<Rightarrow> unwrap_all shard epoch (expected_sequence + 1) rest (records @ [r]))"

definition mutation_log_replay ::
  "replay_io \<Rightarrow> shard_id \<Rightarrow> u64 \<Rightarrow> wal_limits \<Rightarrow> wal_file \<Rightarrow>
     (replication_fault, mutation_record list) result \<times> wal_file" where
  "mutation_log_replay io shard epoch limits f =
     (case wal_replay io limits f of
        (Inl e, f') \<Rightarrow> (Inl (repl_fail Mutation_error (''replica log recovery failed: '' @ we_message e)), f')
      | (Inr documents, f') \<Rightarrow> (unwrap_all shard epoch 1 documents [], f'))"

definition mutation_log_reset :: "reset_io \<Rightarrow> wal_file \<Rightarrow> (replication_fault, unit) result \<times> wal_file" where
  "mutation_log_reset io f =
     (case wal_reset io f of
        (Inl e, f') \<Rightarrow> (Inl (repl_fail Mutation_error (''replica log reset failed: '' @ we_message e)), f')
      | (Inr _, f') \<Rightarrow> (Inr (), f'))"

definition recover_replica ::
  "replay_io \<Rightarrow> node_id \<Rightarrow> shard_id \<Rightarrow> u64 \<Rightarrow> schema \<Rightarrow> wal_file \<Rightarrow>
     (replication_fault, ordered_replica) result \<times> wal_file" where
  "recover_replica io node shard epoch schema f =
     (case mutation_log_replay io shard epoch default_wal_limits f of
        (Inl e, f') \<Rightarrow> (Inl e, f')
      | (Inr records, f') \<Rightarrow>
          (case replay_log records (replica_new node shard epoch schema) of
             (Inl e, s) \<Rightarrow> (Inl e, f')
           | (Inr _, s) \<Rightarrow> (Inr s, f')))"

end
