(* ===== verification/Replication_Proofs.thy ===== *)
theory Replication_Proofs
  imports Replication
begin

text \<open>
  Replicas follow the log of their group: the invariant of replication groups and its preservation by
  every method. A replica that has applied \<open>k\<close> mutations is in the state that the first \<open>k\<close> records of
  the log lead to (\<open>follows\<close>); the primary and every replica in service have applied the whole log.
\<close>

section \<open>Logs and the states they lead to\<close>

definition log_index :: "schema \<Rightarrow> mutation_record list \<Rightarrow> (index_fault, index) result" where
  "log_index schema log = fold_result (\<lambda>r ix. index_put ix (mr_document r)) log (index_new schema (- 1))"

definition log_ok :: "shard_id \<Rightarrow> u64 \<Rightarrow> mutation_record list \<Rightarrow> bool" where
  "log_ok shard epoch log \<longleftrightarrow> length log < 2 ^ 64 \<and> distinct (map mr_operation_id log) \<and>
     (\<forall>i < length log. mr_shard (log ! i) = shard \<and> mr_epoch (log ! i) = epoch \<and>
        mr_operation_id (log ! i) \<noteq> [] \<and> mr_sequence (log ! i) = of_nat (i + 1))"

definition follows :: "shard_id \<Rightarrow> u64 \<Rightarrow> schema \<Rightarrow> mutation_record list \<Rightarrow> nat \<Rightarrow> ordered_replica \<Rightarrow> bool" where
  "follows shard epoch schema log k s \<longleftrightarrow> k \<le> length log \<and> or_shard s = shard \<and> or_epoch s = epoch \<and>
     or_applied_sequence s = of_nat k \<and> log_index schema (take k log) = Inr (or_index s) \<and>
     (\<forall>op r. map_of (or_operations s) op = Some r \<longleftrightarrow> r \<in> set (take k log) \<and> mr_operation_id r = op)"

lemma fold_result_append:
  "fold_result f (xs @ ys) s = (case fold_result f xs s of Inl e \<Rightarrow> Inl e | Inr s' \<Rightarrow> fold_result f ys s')"
  by (induction xs arbitrary: s) (auto split: sum.split)

lemma log_index_prefix: "log_index schema log = Inr ix \<Longrightarrow> \<exists>ix'. log_index schema (take k log) = Inr ix'"
  using fold_result_append [of "\<lambda>r ix. index_put ix (mr_document r)" "take k log" "drop k log" "index_new schema (- 1)"]
  by (auto simp: log_index_def split: sum.splits)

lemma log_index_next:
  assumes "log_index schema log = Inr ix" and "k < length log" and "log_index schema (take k log) = Inr ixk"
  shows "\<exists>ix'. index_put ixk (mr_document (log ! k)) = Inr ix' \<and> log_index schema (take (Suc k) log) = Inr ix'"
proof -
  obtain ix' where ix': "log_index schema (take (Suc k) log) = Inr ix'" using log_index_prefix [OF assms(1)] by blast
  have "log_index schema (take k log @ [log ! k]) = (case index_put ixk (mr_document (log ! k)) of Inl e \<Rightarrow> Inl e | Inr s \<Rightarrow> Inr s)"
    using assms(3) by (simp add: log_index_def fold_result_append split: sum.split)
  with ix' assms(2) show ?thesis by (auto simp: take_Suc_conv_app_nth split: sum.splits)
qed

lemma same_record_eq: "same_record a b \<longleftrightarrow> a = b"
  by (cases a; cases b) (auto simp: same_record_def intro: document.equality)

lemma same_document_eq: "same_document a b \<longleftrightarrow> a = b"
  by (cases a; cases b) (auto simp: same_document_def)

lemma unat_size64: "n < 2 ^ 64 \<Longrightarrow> unat (of_nat n :: u64) = n"
  by (simp add: unat_of_nat take_bit_nat_eq_self)

lemma log_sequence:
  assumes "log_ok shard epoch log" and "i < length log"
  shows "unat (mr_sequence (log ! i)) = i + 1"
proof -
  have "i + 1 < 2 ^ 64" using assms by (simp add: log_ok_def)
  moreover have "mr_sequence (log ! i) = of_nat (i + 1)" using assms unfolding log_ok_def by blast
  ultimately show ?thesis by (simp only: unat_size64)
qed

section \<open>One replica\<close>

lemma apply_known:
  assumes "log_ok shard epoch log" and "follows shard epoch schema log k s" and "r \<in> set (take k log)"
  shows "replica_apply r s = (Inr Duplicate, s)"
proof -
  obtain i where i: "i < length log" "r = log ! i"
    using assms(3) by (auto simp: in_set_conv_nth)
  with assms(1) have "mr_shard r = shard" "mr_epoch r = epoch" "mr_operation_id r \<noteq> []"
    by (simp_all add: log_ok_def)
  moreover have "map_of (or_operations s) (mr_operation_id r) = Some r" using assms(2,3) unfolding follows_def by blast
  moreover have "or_shard s = shard" "or_epoch s = epoch" using assms(2) by (simp_all add: follows_def)
  ultimately show ?thesis by (simp add: replica_apply_def same_record_eq)
qed

lemma apply_next:
  assumes "log_ok shard epoch log" and "follows shard epoch schema log k s" and "k < length log"
    and "log_index schema log = Inr ix"
  obtains s' where "replica_apply (log ! k) s = (Inr Applied, s')" and "follows shard epoch schema log (Suc k) s'"
    and "or_node s' = or_node s" and "or_health s' = or_health s"
proof -
  define r where "r = log ! k"
  have r: "mr_shard r = shard" "mr_epoch r = epoch" "mr_operation_id r \<noteq> []" "mr_sequence r = of_nat (k + 1)"
    using assms(1,3) by (simp_all add: log_ok_def r_def)
  have fresh: "r' \<notin> set (take k log)" if "mr_operation_id r' = mr_operation_id r" for r'
  proof
    assume "r' \<in> set (take k log)"
    then obtain i where "i < k" "i < length log" "r' = log ! i" by (auto simp: in_set_conv_nth)
    with that assms(1,3) show False
      by (auto simp: log_ok_def r_def distinct_conv_nth)
  qed
  have none: "map_of (or_operations s) (mr_operation_id r) = None"
  proof (rule ccontr)
    assume "map_of (or_operations s) (mr_operation_id r) \<noteq> None"
    then obtain r' where "map_of (or_operations s) (mr_operation_id r) = Some r'" by blast
    with assms(2) fresh [of r'] show False by (simp add: follows_def)
  qed
  have seq: "\<not> mr_sequence r \<le> or_applied_sequence s" "mr_sequence r = or_applied_sequence s + 1"
  proof -
    have "unat (mr_sequence r) = k + 1" using log_sequence [OF assms(1,3)] by (simp add: r_def)
    moreover have "unat (or_applied_sequence s) = k"
      using assms(1-3) unat_size64 [of k] by (simp add: follows_def log_ok_def)
    ultimately show "\<not> mr_sequence r \<le> or_applied_sequence s" by (simp add: word_le_nat_alt)
    show "mr_sequence r = or_applied_sequence s + 1" using assms(2) r(4) by (simp add: follows_def)
  qed
  have "log_index schema (take k log) = Inr (or_index s)" using assms(2) by (simp add: follows_def)
  from log_index_next [OF assms(4,3) this] obtain ix' where
    ix': "index_put (or_index s) (mr_document r) = Inr ix'" "log_index schema (take (Suc k) log) = Inr ix'"
    by (auto simp: r_def)
  define s' where "s' = s\<lparr>or_index := ix', or_applied_sequence := mr_sequence r,
    or_operations := fst (om_emplace (mr_operation_id r) r (or_operations s))\<rparr>"
  have "replica_apply r s = (Inr Applied, s')"
    using r seq none ix' assms(2) by (simp add: replica_apply_def s'_def follows_def)
  moreover have "follows shard epoch schema log (Suc k) s'"
  proof -
    have "map_of (or_operations s') op = Some r' \<longleftrightarrow> r' \<in> set (take (Suc k) log) \<and> mr_operation_id r' = op" for op r'
      using assms(2,3) none fresh
      by (auto simp: s'_def om_emplace_def follows_def take_Suc_conv_app_nth r_def [symmetric])
    then show ?thesis using assms(2,3) ix'(2) r(4) by (simp add: follows_def s'_def)
  qed
  ultimately show thesis using that [of s'] by (simp add: r_def s'_def)
qed

lemma replay_log_append:
  "replay_log (xs @ ys) s = (case replay_log xs s of (Inl f, s') \<Rightarrow> (Inl f, s') | (Inr _, s') \<Rightarrow> replay_log ys s')"
  by (induction xs arbitrary: s) (auto split: prod.split sum.split)

lemma replay_known:
  assumes "log_ok shard epoch log" and "follows shard epoch schema log k s" and "set xs \<subseteq> set (take k log)"
  shows "replay_log xs s = (Inr (), s)"
  using assms(3) apply_known [OF assms(1,2)] by (induction xs) auto

lemma replay_rest:
  assumes "log_ok shard epoch log" and "log_index schema log = Inr ix" and "follows shard epoch schema log k s"
  shows "\<exists>s'. replay_log (drop k log) s = (Inr (), s') \<and> follows shard epoch schema log (length log) s' \<and>
    or_node s' = or_node s \<and> or_health s' = or_health s"
  using assms(3)
proof (induction "length log - k" arbitrary: k s)
  case 0
  then have "k = length log" by (simp add: follows_def)
  with 0 show ?case by auto
next
  case (Suc n)
  then have k: "k < length log" by simp
  obtain s1 where s1: "replica_apply (log ! k) s = (Inr Applied, s1)" "follows shard epoch schema log (Suc k) s1"
      "or_node s1 = or_node s" "or_health s1 = or_health s"
    using apply_next [OF assms(1) Suc.prems k assms(2)] .
  have "n = length log - Suc k" using Suc.hyps(2) by simp
  from Suc.hyps(1) [OF this s1(2)] s1 show ?case by (auto simp: Cons_nth_drop_Suc [OF k, symmetric])
qed

lemma replay_whole:
  assumes "log_ok shard epoch log" and "log_index schema log = Inr ix" and "follows shard epoch schema log k s"
  obtains s' where "replay_log log s = (Inr (), s')" and "follows shard epoch schema log (length log) s'"
    and "or_node s' = or_node s" and "or_health s' = or_health s"
proof -
  have "replay_log (take k log @ drop k log) s = replay_log (drop k log) s"
    using replay_known [OF assms(1,3) subset_refl] by (subst replay_log_append) simp
  with replay_rest [OF assms] show thesis using that by auto
qed

lemma follows_position:
  assumes "log_ok shard epoch log" and "follows shard epoch schema log k s"
  shows "unat (or_applied_sequence s) = k"
proof -
  have "or_applied_sequence s = of_nat k" "k < 2 ^ 64"
    using assms unfolding follows_def log_ok_def by (blast, linarith)
  then show ?thesis by (simp only: unat_size64)
qed

lemma follows_new: "follows shard epoch schema log 0 (replica_new node shard epoch schema)"
  by (simp add: follows_def replica_new_def log_index_def)

lemma follows_extend: "follows shard epoch schema log k s \<Longrightarrow> follows shard epoch schema (log @ xs) k s"
  by (simp add: follows_def)

lemma follows_health: "follows shard epoch schema log k (replica_set_health h s) = follows shard epoch schema log k s"
  by (simp add: follows_def replica_set_health_def)

section \<open>Delivery\<close>

definition serving :: "ordered_replica \<Rightarrow> bool" where
  "serving s \<longleftrightarrow> or_health s = Healthy \<or> or_health s = Suspect"

lemma not_serving: "(or_health s = Unhealthy \<or> or_health s = Draining) \<longleftrightarrow> \<not> serving s"
  by (cases "or_health s") (auto simp: serving_def)

lemma apply_follows:
  assumes "log_ok shard epoch log" and "log_index schema log = Inr ix" and "j < length log"
    and "follows shard epoch schema log k s" and "j \<le> k"
  obtains out s' where "replica_apply (log ! j) s = (Inr out, s')"
    and "follows shard epoch schema log (max k (Suc j)) s'" and "or_node s' = or_node s" and "or_health s' = or_health s"
proof (cases "j = k")
  case True
  with apply_next [OF assms(1,4) _ assms(2)] assms(3) obtain s' where
    "replica_apply (log ! j) s = (Inr Applied, s')" "follows shard epoch schema log (Suc k) s'"
    "or_node s' = or_node s" "or_health s' = or_health s" by auto
  then show thesis using that True by simp
next
  case False
  then have "take k log ! j \<in> set (take k log)" using assms(4,5) by (intro nth_mem) (simp add: follows_def)
  then have "log ! j \<in> set (take k log)" using False assms(5) by simp
  moreover have "max k (Suc j) = k" using False assms(5) by simp
  ultimately show thesis using apply_known [OF assms(1,4)] assms(4) that by auto
qed

text \<open>What delivery of the record at position \<open>j\<close> does to one replica.\<close>

definition received ::
  "shard_id \<Rightarrow> u64 \<Rightarrow> schema \<Rightarrow> mutation_record list \<Rightarrow> nat \<Rightarrow> bool \<Rightarrow> ordered_replica \<Rightarrow> ordered_replica \<Rightarrow> bool" where
  "received shard epoch schema log j front s s' \<longleftrightarrow> or_node s' = or_node s \<and> or_health s' = or_health s \<and>
     (\<exists>k. follows shard epoch schema log k s \<and>
       follows shard epoch schema log (if front \<or> serving s then max k (Suc j) else k) s')"

lemma deliver_one:
  assumes "log_ok shard epoch log" and "log_index schema log = Inr ix" and "j < length log"
    and "follows shard epoch schema log k s" and "front \<or> serving s \<longrightarrow> j \<le> k"
    and "deliver (log ! j) False rest = Some (rest', acks)"
  shows "\<exists>s'. deliver (log ! j) front (s # rest) = Some (s' # rest', acks + (if front \<or> serving s then 1 else 0)) \<and>
    received shard epoch schema log j front s s'"
proof (cases "front \<or> serving s")
  case True
  with assms(5) have "j \<le> k" by simp
  then obtain out s' where "replica_apply (log ! j) s = (Inr out, s')"
      "follows shard epoch schema log (max k (Suc j)) s'" "or_node s' = or_node s" "or_health s' = or_health s"
    using apply_follows [OF assms(1-4)] by blast
  with True assms(4,6) show ?thesis by (auto simp: not_serving received_def)
next
  case False
  with assms(4,6) show ?thesis by (auto simp: not_serving received_def)
qed

lemma deliver_followers:
  assumes "log_ok shard epoch log" and "log_index schema log = Inr ix" and "j < length log"
    and "\<forall>s \<in> set ss. \<exists>k. follows shard epoch schema log k s \<and> (serving s \<longrightarrow> j \<le> k)"
  shows "\<exists>ss'. deliver (log ! j) False ss = Some (ss', length (filter serving ss)) \<and>
    list_all2 (received shard epoch schema log j False) ss ss'"
  using assms(4)
proof (induction ss)
  case (Cons s ss)
  then obtain ss' where ss': "deliver (log ! j) False ss = Some (ss', length (filter serving ss))"
      "list_all2 (received shard epoch schema log j False) ss ss'" by auto
  from Cons.prems obtain k where k: "follows shard epoch schema log k s" "False \<or> serving s \<longrightarrow> j \<le> k" by auto
  from deliver_one [OF assms(1-3) k ss'(1)] ss'(2) show ?case by auto
qed simp

lemma deliver_known:
  assumes "log_ok shard epoch log" and "r \<in> set log"
    and "\<forall>s \<in> set ss. serving s \<longrightarrow> follows shard epoch schema log (length log) s"
    and "front \<longrightarrow> ss \<noteq> [] \<longrightarrow> follows shard epoch schema log (length log) (hd ss)"
  shows "\<exists>acks. deliver r front ss = Some (ss, acks)"
  using assms(3,4)
proof (induction ss arbitrary: front)
  case (Cons s ss)
  then obtain acks where acks: "deliver r False ss = Some (ss, acks)" by force
  have "replica_apply r s = (Inr Duplicate, s)" if "front \<or> serving s"
    by (rule apply_known [OF assms(1)]) (use Cons.prems that assms(2) in auto)
  with acks show ?case by (auto simp: not_serving)
qed simp

section \<open>Groups\<close>

definition indices_ok :: "(string, nat) omap \<Rightarrow> mutation_record list \<Rightarrow> bool" where
  "indices_ok m log \<longleftrightarrow> (\<forall>op i. map_of m op = Some i \<longleftrightarrow> i < length log \<and> mr_operation_id (log ! i) = op)"

definition group_inv :: "schema \<Rightarrow> group \<Rightarrow> bool" where
  "group_inv schema g \<longleftrightarrow> rg_replicas g \<noteq> [] \<and> distinct (map or_node (rg_replicas g)) \<and>
     log_ok (rg_shard g) (rg_epoch g) (rg_log g) \<and> rg_next_sequence g = of_nat (length (rg_log g) + 1) \<and>
     length (rg_log g) \<le> unat (rg_limit g) \<and> (\<exists>ix. log_index schema (rg_log g) = Inr ix) \<and>
     indices_ok (rg_operation_indices g) (rg_log g) \<and>
     follows (rg_shard g) (rg_epoch g) schema (rg_log g) (length (rg_log g)) (hd (rg_replicas g)) \<and>
     (\<forall>s \<in> set (rg_replicas g). \<exists>k. follows (rg_shard g) (rg_epoch g) schema (rg_log g) k s \<and>
        (serving s \<longrightarrow> k = length (rg_log g)))"

lemma group_new_inv:
  assumes "nodes \<noteq> []" and "distinct nodes"
  shows "group_inv schema (group_new shard epoch nodes limit schema)"
proof -
  have "map (or_node \<circ> (\<lambda>node. replica_new node shard epoch schema)) nodes = nodes"
    by (simp add: comp_def replica_new_def)
  with assms show ?thesis
    by (auto simp: group_inv_def group_new_def log_ok_def log_index_def indices_ok_def hd_map intro: follows_new)
qed

text \<open>Acknowledging the record at position \<open>j\<close> of the log.\<close>

lemma acknowledge_inv:
  assumes "log_ok (rg_shard g) (rg_epoch g) (rg_log g)" and "log_index schema (rg_log g) = Inr ix"
    and "j < length (rg_log g)" and "rg_replicas g \<noteq> []"
    and "follows (rg_shard g) (rg_epoch g) schema (rg_log g) (length (rg_log g)) (hd (rg_replicas g))"
    and "\<forall>s \<in> set (rg_replicas g). \<exists>k. follows (rg_shard g) (rg_epoch g) schema (rg_log g) k s \<and>
      (serving s \<longrightarrow> j \<le> k \<and> length (rg_log g) \<le> max k (Suc j))"
  shows "\<exists>ss' acks. deliver (rg_log g ! j) True (rg_replicas g) = Some (ss', acks) \<and>
    acks = Suc (length (filter serving (tl (rg_replicas g)))) \<and> length ss' = length (rg_replicas g) \<and>
    map or_node ss' = map or_node (rg_replicas g) \<and> ss' \<noteq> [] \<and>
    map or_health ss' = map or_health (rg_replicas g) \<and>
    follows (rg_shard g) (rg_epoch g) schema (rg_log g) (length (rg_log g)) (hd ss') \<and>
    (\<forall>s \<in> set ss'. \<exists>k. follows (rg_shard g) (rg_epoch g) schema (rg_log g) k s \<and>
      (serving s \<longrightarrow> k = length (rg_log g)))"
proof -
  define log where "log = rg_log g"
  define F where "F = follows (rg_shard g) (rg_epoch g) schema log"
  define R where "R = received (rg_shard g) (rg_epoch g) schema log j"
  obtain p rest where ss: "rg_replicas g = p # rest" using assms(4) by (cases "rg_replicas g") auto
  have "\<forall>s \<in> set rest. \<exists>k. follows (rg_shard g) (rg_epoch g) schema (rg_log g) k s \<and> (serving s \<longrightarrow> j \<le> k)"
    using assms(6) by (auto simp: ss)
  from deliver_followers [OF assms(1-3) this] obtain rest' where
    rest': "deliver (log ! j) False rest = Some (rest', length (filter serving rest))" "list_all2 (R False) rest rest'"
    by (auto simp: R_def log_def)
  have p: "follows (rg_shard g) (rg_epoch g) schema (rg_log g) (length (rg_log g)) p"
      "True \<or> serving p \<longrightarrow> j \<le> length (rg_log g)" using assms(3,5) by (simp_all add: ss)
  from deliver_one [OF assms(1-3) p, of rest rest'] rest'(1) obtain p' where
    p': "deliver (log ! j) True (p # rest) = Some (p' # rest', Suc (length (filter serving rest)))" "R True p p'"
    by (auto simp: R_def log_def)
  have unique: "k = k'" if "F k s" "F k' s" for k k' s
    using that follows_position [OF assms(1)] unfolding F_def log_def by blast
  have front: "F (length log) p'"
  proof -
    from p'(2) obtain k where "F k p" "F (max k (Suc j)) p'" by (auto simp: R_def received_def F_def)
    moreover have "k = length log" using unique [OF \<open>F k p\<close>] p(1) by (simp add: F_def log_def)
    moreover have "max (length log) (Suc j) = length log" using assms(3) by (simp add: log_def)
    ultimately show ?thesis by simp
  qed
  have follower: "\<exists>k. F k s' \<and> (serving s' \<longrightarrow> k = length log)" if R: "R False s s'" and "s \<in> set rest" for s s'
  proof -
    from R obtain k where k: "F k s" "F (if serving s then max k (Suc j) else k) s'" "serving s' = serving s"
      by (auto simp: R_def received_def F_def serving_def)
    from assms(6) that(2) obtain k' where k': "F k' s" "serving s \<longrightarrow> length log \<le> max k' (Suc j)"
      by (auto simp: ss F_def log_def)
    have "k = k'" using unique k(1) k'(1) by blast
    moreover have "max k (Suc j) \<le> length log" using k(1) assms(3) by (simp add: F_def log_def follows_def)
    ultimately show ?thesis using k k' by (intro exI [of _ "if serving s then max k (Suc j) else k"]) auto
  qed
  have "\<forall>s' \<in> set rest'. \<exists>k. F k s' \<and> (serving s' \<longrightarrow> k = length log)"
    using rest'(2) follower by (auto simp: list_all2_conv_all_nth in_set_conv_nth) (metis nth_mem)
  moreover have "map or_node rest' = map or_node rest" "map or_health rest' = map or_health rest"
    using rest'(2) by (auto simp: list_all2_conv_all_nth R_def received_def intro!: nth_equalityI)
  moreover have "length rest' = length rest" using rest'(2) by (auto dest: list_all2_lengthD)
  moreover have "or_node p' = or_node p" "or_health p' = or_health p" using p'(2) by (simp_all add: R_def received_def)
  ultimately show ?thesis using p'(1) front by (simp add: ss F_def log_def) blast
qed

definition acks_of :: "group \<Rightarrow> nat" where
  "acks_of g = Suc (length (filter serving (tl (rg_replicas g))))"

definition receipt_of ::
  "acknowledgement_mode \<Rightarrow> group \<Rightarrow> u64 \<Rightarrow> (replication_fault, mutation_receipt) result" where
  "receipt_of mode g sequence =
     (if mode = All_replicas \<and> acks_of g \<noteq> length (rg_replicas g)
      then Inl (repl_fail Insufficient_acknowledgements
             ''mutation committed on primary without every replica acknowledgement'')
      else Inr \<lparr>rc_sequence = sequence, rc_acknowledgements = acks_of g\<rparr>)"

lemma group_invD:
  assumes "group_inv schema g"
  shows "rg_replicas g \<noteq> []" and "log_ok (rg_shard g) (rg_epoch g) (rg_log g)"
    and "\<exists>ix. log_index schema (rg_log g) = Inr ix" and "indices_ok (rg_operation_indices g) (rg_log g)"
    and "follows (rg_shard g) (rg_epoch g) schema (rg_log g) (length (rg_log g)) (hd (rg_replicas g))"
    and "\<forall>s \<in> set (rg_replicas g). \<exists>k. follows (rg_shard g) (rg_epoch g) schema (rg_log g) k s \<and>
        (serving s \<longrightarrow> k = length (rg_log g))"
  using assms by (simp_all add: group_inv_def)

lemma submit_again:
  assumes "group_inv schema g" and "map_of (rg_operation_indices g) op = Some i"
    and "mr_document (rg_log g ! i) = d"
  shows "group_submit op d mode g = (receipt_of mode g (mr_sequence (rg_log g ! i)), g)"
proof -
  note inv = group_invD [OF assms(1)]
  have i: "i < length (rg_log g)" using inv(4) assms(2) by (simp add: indices_ok_def)
  obtain ix where ix: "log_index schema (rg_log g) = Inr ix" using inv(3) by blast
  have "\<forall>s \<in> set (rg_replicas g). \<exists>k. follows (rg_shard g) (rg_epoch g) schema (rg_log g) k s \<and>
      (serving s \<longrightarrow> i \<le> k \<and> length (rg_log g) \<le> max k (Suc i))"
  proof
    fix s
    assume "s \<in> set (rg_replicas g)"
    with inv(6) obtain k where "follows (rg_shard g) (rg_epoch g) schema (rg_log g) k s" "serving s \<longrightarrow> k = length (rg_log g)"
      by blast
    with i show "\<exists>k. follows (rg_shard g) (rg_epoch g) schema (rg_log g) k s \<and>
        (serving s \<longrightarrow> i \<le> k \<and> length (rg_log g) \<le> max k (Suc i))" by (intro exI [of _ k]) auto
  qed
  from acknowledge_inv [OF inv(2) ix i inv(1,5) this] obtain ss' acks where
    d1: "deliver (rg_log g ! i) True (rg_replicas g) = Some (ss', acks)" "acks = acks_of g"
    by (auto simp: acks_of_def)
  have "\<exists>acks. deliver (rg_log g ! i) True (rg_replicas g) = Some (rg_replicas g, acks)"
    by (rule deliver_known [OF inv(2)]) (use i inv in auto)
  with d1 have "deliver (rg_log g ! i) True (rg_replicas g) = Some (rg_replicas g, acks_of g)" by auto
  with assms(2,3) show ?thesis
    by (simp add: group_submit_def same_document_eq acknowledge_def Let_def receipt_of_def)
qed

lemma submit_new:
  assumes "group_inv schema g" and "map_of (rg_operation_indices g) op = None" and "op \<noteq> []"
    and "length (rg_log g) < unat (rg_limit g)" and "index_put (or_index (hd (rg_replicas g))) d = Inr ix"
  obtains g' where "group_submit op d mode g = (receipt_of mode g (of_nat (length (rg_log g) + 1)), g')"
    and "group_inv schema g'" and "log_index schema (rg_log g') = Inr ix"
    and "rg_log g' = rg_log g @ [\<lparr>mr_shard = rg_shard g, mr_epoch = rg_epoch g, mr_operation_id = op,
      mr_sequence = of_nat (length (rg_log g) + 1), mr_document = d\<rparr>]"
    and "map or_node (rg_replicas g') = map or_node (rg_replicas g)"
    and "map or_health (rg_replicas g') = map or_health (rg_replicas g)"
proof -
  note inv = group_invD [OF assms(1)]
  define log n p where "log = rg_log g" and "n = length (rg_log g)" and "p = hd (rg_replicas g)"
  define r where "r = \<lparr>mr_shard = rg_shard g, mr_epoch = rg_epoch g, mr_operation_id = op,
    mr_sequence = of_nat (n + 1), mr_document = d\<rparr>"
  have fresh: "op \<notin> mr_operation_id ` set log"
  proof
    assume "op \<in> mr_operation_id ` set log"
    then obtain i where "i < length log" "mr_operation_id (log ! i) = op" by (auto simp: in_set_conv_nth)
    then have "map_of (rg_operation_indices g) op = Some i" using inv(4) unfolding indices_ok_def log_def by blast
    with assms(2) show False by simp
  qed
  have n: "n + 1 < 2 ^ 64" using assms(4) unat_u64_less [of "rg_limit g"] by (simp add: n_def)
  have ok: "log_ok (rg_shard g) (rg_epoch g) (log @ [r])"
    using inv(2) n fresh assms(3) by (auto simp: log_ok_def log_def n_def r_def nth_append less_Suc_eq)
  have ix: "log_index schema (log @ [r]) = Inr ix"
    using inv(5) assms(5)
    by (simp add: log_index_def fold_result_append follows_def log_def r_def split: sum.split)
  have last: "(log @ [r]) ! n = r" by (simp add: log_def n_def)
  obtain p' where p': "replica_apply r p = (Inr Applied, p')"
      "follows (rg_shard g) (rg_epoch g) schema (log @ [r]) (Suc n) p'" "or_node p' = or_node p" "or_health p' = or_health p"
    using apply_next [OF ok follows_extend _ ix, of n p] inv(5) last by (auto simp: log_def n_def p_def)
  define g1 where "g1 = g\<lparr>rg_replicas := p' # tl (rg_replicas g),
    rg_operation_indices := om_assign op n (rg_operation_indices g), rg_log := log @ [r], rg_next_sequence := rg_next_sequence g + 1\<rparr>"
  have ss: "rg_replicas g = p # tl (rg_replicas g)" using inv(1) by (simp add: p_def)
  have rest: "\<exists>k. follows (rg_shard g) (rg_epoch g) schema (log @ [r]) k s \<and> (serving s \<longrightarrow> n \<le> k \<and> Suc n \<le> max k (Suc n))"
    if "s \<in> set (rg_replicas g)" for s
    using inv(6) that follows_extend [of "rg_shard g" "rg_epoch g" schema "rg_log g" _ s "[r]"] by (auto simp: log_def n_def)
  have g1: "log_ok (rg_shard g1) (rg_epoch g1) (rg_log g1)" "log_index schema (rg_log g1) = Inr ix" "n < length (rg_log g1)"
      "rg_replicas g1 \<noteq> []"
      "follows (rg_shard g1) (rg_epoch g1) schema (rg_log g1) (length (rg_log g1)) (hd (rg_replicas g1))"
      "\<forall>s \<in> set (rg_replicas g1). \<exists>k. follows (rg_shard g1) (rg_epoch g1) schema (rg_log g1) k s \<and>
        (serving s \<longrightarrow> n \<le> k \<and> length (rg_log g1) \<le> max k (Suc n))"
  proof -
    have len: "length (log @ [r]) = Suc n" by (simp add: log_def n_def)
    show "\<forall>s \<in> set (rg_replicas g1). \<exists>k. follows (rg_shard g1) (rg_epoch g1) schema (rg_log g1) k s \<and>
        (serving s \<longrightarrow> n \<le> k \<and> length (rg_log g1) \<le> max k (Suc n))"
      using rest list.set_sel(2) [OF inv(1)] p'(2) len by (auto simp: g1_def intro: exI [of _ "Suc n"])
  qed (use ok ix p'(2) in \<open>auto simp: g1_def log_def n_def\<close>)
  have same: "rg_log g1 ! n = r" "tl (rg_replicas g1) = tl (rg_replicas g)" "length (rg_replicas g1) = length (rg_replicas g)"
    using last inv(1) by (simp_all add: g1_def)
  from acknowledge_inv [OF g1] obtain ss' acks where
    d: "deliver r True (rg_replicas g1) = Some (ss', acks)" "acks = acks_of g" "length ss' = length (rg_replicas g)"
      "map or_node ss' = map or_node (rg_replicas g1)" "ss' \<noteq> []" "map or_health ss' = map or_health (rg_replicas g1)"
      "follows (rg_shard g1) (rg_epoch g1) schema (rg_log g1) (length (rg_log g1)) (hd ss')"
      "\<forall>s \<in> set ss'. \<exists>k. follows (rg_shard g1) (rg_epoch g1) schema (rg_log g1) k s \<and>
        (serving s \<longrightarrow> k = length (rg_log g1))"
    unfolding same acks_of_def by blast
  define g' where "g' = g1\<lparr>rg_replicas := ss'\<rparr>"
  have seq: "rg_next_sequence g = of_nat (n + 1)" using assms(1) by (simp add: group_inv_def n_def)
  have apply_p: "replica_apply \<lparr>mr_shard = rg_shard g, mr_epoch = rg_epoch g, mr_operation_id = op,
      mr_sequence = rg_next_sequence g, mr_document = d\<rparr> (hd (rg_replicas g)) = (Inr Applied, p')"
    using p'(1) unfolding r_def p_def seq .
  have "group_submit op d mode g = acknowledge mode r g1"
    using assms(2,4) unfolding group_submit_def Let_def apply_p by (simp add: g1_def r_def log_def n_def seq)
  also have "\<dots> = (receipt_of mode g (mr_sequence r), g')"
    using d(1-3) by (simp add: acknowledge_def Let_def receipt_of_def g'_def)
  finally have run: "group_submit op d mode g = (receipt_of mode g (of_nat (n + 1)), g')" by (simp add: r_def)
  have nodes: "map or_node ss' = map or_node (rg_replicas g)" "map or_health ss' = map or_health (rg_replicas g)"
    using d(4,6) p'(3,4) ss by (simp_all add: g1_def) (metis list.simps(9))+
  have idx: "indices_ok (om_assign op n (rg_operation_indices g)) (log @ [r])"
    using inv(4) fresh by (auto simp: indices_ok_def nth_append log_def n_def r_def less_Suc_eq)
  have "group_inv schema g'"
    using assms(1,4) ok ix idx d(5,7,8) nodes(1) seq
    by (auto simp: group_inv_def g'_def g1_def log_def n_def)
  with run ix nodes show thesis
    using that [of g'] by (simp add: g'_def g1_def r_def log_def n_def)
qed

lemma apply_rejected: "replica_apply r s = (Inl f, s') \<Longrightarrow> s' = s"
  by (auto simp: replica_apply_def split: if_splits option.splits sum.splits)

lemma submit_rejected:
  assumes "group_inv schema g" and "map_of (rg_operation_indices g) op = None"
    and "length (rg_log g) < unat (rg_limit g)"
    and "op = [] \<or> index_put (or_index (hd (rg_replicas g))) d = Inl f"
  shows "group_submit op d mode g =
    (Inl (if op = [] then repl_fail Conflicting_operation ''operation ID is empty'' else put_fault f), g)"
proof -
  note inv = group_invD [OF assms(1)]
  define p where "p = hd (rg_replicas g)"
  define r where "r = \<lparr>mr_shard = rg_shard g, mr_epoch = rg_epoch g, mr_operation_id = op,
    mr_sequence = rg_next_sequence g, mr_document = d\<rparr>"
  have p: "or_shard p = rg_shard g" "or_epoch p = rg_epoch g" using inv(5) by (simp_all add: follows_def p_def)
  have none: "map_of (or_operations p) op = None"
  proof (rule ccontr)
    assume "map_of (or_operations p) op \<noteq> None"
    then obtain r' where "r' \<in> set (rg_log g)" "mr_operation_id r' = op" using inv(5) by (auto simp: follows_def p_def)
    then obtain i where "i < length (rg_log g)" "mr_operation_id (rg_log g ! i) = op" by (auto simp: in_set_conv_nth)
    then have "map_of (rg_operation_indices g) op = Some i" using inv(4) unfolding indices_ok_def by blast
    with assms(2) show False by simp
  qed
  have seq: "\<not> mr_sequence r \<le> or_applied_sequence p" "mr_sequence r = or_applied_sequence p + 1"
  proof -
    have n: "length (rg_log g) + 1 < 2 ^ 64" using assms(3) unat_u64_less [of "rg_limit g"] by simp
    have r: "mr_sequence r = of_nat (length (rg_log g) + 1)" using assms(1) by (simp add: r_def group_inv_def)
    have "unat (or_applied_sequence p) = length (rg_log g)" using follows_position [OF inv(2,5)] by (simp add: p_def)
    moreover have "unat (mr_sequence r) = length (rg_log g) + 1" unfolding r by (rule unat_size64 [OF n])
    ultimately show "\<not> mr_sequence r \<le> or_applied_sequence p" by (simp add: word_le_nat_alt)
    have "or_applied_sequence p = of_nat (length (rg_log g))" using inv(5) by (simp add: follows_def p_def)
    then show "mr_sequence r = or_applied_sequence p + 1" unfolding r by simp
  qed
  have "replica_apply r p = (Inl (if op = [] then repl_fail Conflicting_operation ''operation ID is empty'' else put_fault f), p)"
    using assms(4) none seq p by (auto simp: replica_apply_def r_def p_def)
  moreover have "p # tl (rg_replicas g) = rg_replicas g" using inv(1) by (simp add: p_def)
  ultimately show ?thesis
    using assms(2,3) by (simp add: group_submit_def Let_def r_def p_def)
qed

lemma submit_inv:
  assumes "group_inv schema g"
  shows "group_inv schema (snd (group_submit op d mode g))"
proof (cases "map_of (rg_operation_indices g) op")
  case (Some i)
  show ?thesis
  proof (cases "mr_document (rg_log g ! i) = d")
    case True
    with submit_again [OF assms Some] assms show ?thesis by simp
  next
    case False
    then show ?thesis using Some assms by (simp add: group_submit_def same_document_eq Let_def)
  qed
next
  case None
  show ?thesis
  proof (cases "length (rg_log g) < unat (rg_limit g)")
    case full: False
    then show ?thesis using None assms by (simp add: group_submit_def)
  next
    case True
    show ?thesis
    proof (cases "index_put (or_index (hd (rg_replicas g))) d")
      case (Inl f)
      show ?thesis using submit_rejected [OF assms None True disjI2 [OF Inl], of mode] assms by simp
    next
      case (Inr ix)
      show ?thesis
      proof (cases "op = []")
        case empty: True
        show ?thesis using submit_rejected [OF assms None True disjI1 [OF empty], where d = d and mode = mode and f = Null_dereference] assms by simp
      next
        case False
        obtain g' where "group_submit op d mode g = (receipt_of mode g (of_nat (length (rg_log g) + 1)), g')"
            "group_inv schema g'"
          by (rule submit_new [OF assms None False True Inr, of mode])
        then show ?thesis by simp
      qed
    qed
  qed
qed

lemma set_health_of_split:
  assumes "or_node s = node" and "node \<notin> or_node ` set xs"
  shows "set_health_of log node health (xs @ s # ys) =
    (fst (recover_health log health s), xs @ snd (recover_health log health s) # ys)"
  using assms by (induction xs) (auto split: prod.split)

lemma set_health_of_absent: "node \<notin> or_node ` set ss \<Longrightarrow>
    set_health_of log node health ss = (Inl (repl_fail Invalid_topology ''node is not in replication group''), ss)"
  by (induction ss) auto

lemma recover_health_ok:
  assumes "log_ok shard epoch log" and "log_index schema log = Inr ix" and "follows shard epoch schema log k s"
  obtains s' k' where "recover_health log health s = (Inr (), s')" and "or_node s' = or_node s"
    and "or_health s' = health" and "follows shard epoch schema log k' s'" and "k \<le> k'"
    and "serving s' \<longrightarrow> k' = length log"
proof (cases "health = Healthy \<or> health = Suspect")
  case True
  obtain s1 where s1: "replay_log log s = (Inr (), s1)" "follows shard epoch schema log (length log) s1" "or_node s1 = or_node s"
    using replay_whole [OF assms] .
  have "k \<le> length log" using assms(3) by (simp add: follows_def)
  with s1 True show thesis
    using that [of "replica_set_health health s1" "length log"]
    by (simp add: recover_health_def follows_health) (simp add: replica_set_health_def)
next
  case False
  then show thesis
    using that [of "replica_set_health health s" k] assms(3)
    by (simp add: recover_health_def follows_health) (simp add: replica_set_health_def serving_def)
qed

lemma set_health_ok:
  assumes "group_inv schema g" and "node \<in> or_node ` set (rg_replicas g)"
  obtains g' s' where "group_set_health node health g = (Inr (), g')" and "group_inv schema g'"
    and "s' \<in> set (rg_replicas g')" and "or_node s' = node" and "or_health s' = health" and "rg_log g' = rg_log g"
proof -
  note inv = group_invD [OF assms(1)]
  from assms(2) obtain s where s: "s \<in> set (rg_replicas g)" "or_node s = node" by auto
  then obtain xs ys where ss: "rg_replicas g = xs @ s # ys" by (meson split_list)
  have d: "distinct (map or_node (xs @ s # ys))" using assms(1) by (simp add: group_inv_def ss)
  then have out: "node \<notin> or_node ` set xs" using s(2) by auto
  obtain ix where ix: "log_index schema (rg_log g) = Inr ix" using inv(3) by blast
  define k where "k = (if xs = [] then length (rg_log g) else (SOME k. follows (rg_shard g) (rg_epoch g) schema (rg_log g) k s))"
  have k: "follows (rg_shard g) (rg_epoch g) schema (rg_log g) k s"
    using inv(5,6) s(1) by (cases "xs = []") (auto simp: k_def ss intro: someI_ex)
  from recover_health_ok [OF inv(2) ix k, of health] obtain s' k' where
    s': "recover_health (rg_log g) health s = (Inr (), s')" "or_node s' = or_node s" "or_health s' = health"
      "follows (rg_shard g) (rg_epoch g) schema (rg_log g) k' s'" "k \<le> k'" "serving s' \<longrightarrow> k' = length (rg_log g)"
    by blast
  define g' where "g' = g\<lparr>rg_replicas := xs @ s' # ys\<rparr>"
  have run: "group_set_health node health g = (Inr (), g')"
    by (simp add: group_set_health_def ss set_health_of_split [OF s(2) out] s'(1) g'_def)
  have "follows (rg_shard g) (rg_epoch g) schema (rg_log g) (length (rg_log g)) (hd (xs @ s' # ys))"
  proof (cases "xs = []")
    case True
    then have "k' = length (rg_log g)" using s'(4,5) by (simp add: k_def follows_def)
    with True s'(4) show ?thesis by simp
  next
    case False
    then show ?thesis using inv(5) by (simp add: ss)
  qed
  moreover have "\<forall>x \<in> set (xs @ s' # ys). \<exists>k. follows (rg_shard g) (rg_epoch g) schema (rg_log g) k x \<and>
      (serving x \<longrightarrow> k = length (rg_log g))"
    using inv(6) s'(4,6) by (auto simp: ss)
  ultimately have "group_inv schema g'"
    using assms(1) s'(2) d by (auto simp: group_inv_def g'_def ss)
  with run s'(2,3) s(2) show thesis using that [of g' s'] by (simp add: g'_def)
qed

lemma set_health_inv:
  assumes "group_inv schema g"
  shows "group_inv schema (snd (group_set_health node health g))"
proof (cases "node \<in> or_node ` set (rg_replicas g)")
  case True
  obtain g' where "group_set_health node health g = (Inr (), g')" "group_inv schema g'"
    by (rule set_health_ok [OF assms True, of health])
  then show ?thesis by simp
next
  case False
  then show ?thesis using assms by (simp add: group_set_health_def set_health_of_absent)
qed

section \<open>Reachable groups\<close>

inductive group_reachable :: "schema \<Rightarrow> group \<Rightarrow> bool" for schema where
  create: "group_create shard epoch nodes limit schema = Inr g \<Longrightarrow> group_reachable schema g"
| submit: "group_reachable schema g \<Longrightarrow> group_reachable schema (snd (group_submit op d mode g))"
| set_health: "group_reachable schema g \<Longrightarrow> group_reachable schema (snd (group_set_health node health g))"

lemma group_reachable_inv: "group_reachable schema g \<Longrightarrow> group_inv schema g"
proof (induction rule: group_reachable.induct)
  case (create shard epoch nodes limit g)
  then show ?case by (auto simp: group_create_def card_distinct intro: group_new_inv split: if_splits)
qed (auto intro: submit_inv set_health_inv)

end
