(* ===== verification/Replication_Properties.thy ===== *)
theory Replication_Properties
  imports Replication_Proofs "HOL-Library.Product_Lexorder"
begin

text \<open>
  What replication promises: replicas agree with the log, a recovered node catches up, submissions
  take effect once, reads go to replicas that have every committed mutation, and the persistent log
  brings a replica back after a crash.
\<close>

section \<open>Groups\<close>

text \<open>
  C26: the invariant of replication groups. In every group reached through its methods, each replica is
  in exactly the state to which the first \<open>k\<close> mutations of the log lead, where \<open>k\<close> is its applied
  sequence; the primary and every replica that is healthy or suspect have applied the whole log; and
  mutations are numbered 1, 2, \<open>\<dots>\<close> without gaps.
\<close>

theorem replicas_follow_log:
  assumes "group_reachable schema g" and "s \<in> set (rg_replicas g)"
  shows "unat (or_applied_sequence s) \<le> length (retained_log g) \<and>
    log_index schema (take (unat (or_applied_sequence s)) (retained_log g)) = Inr (or_index s) \<and>
    (s = hd (rg_replicas g) \<or> or_health s = Healthy \<or> or_health s = Suspect \<longrightarrow>
      unat (or_applied_sequence s) = length (retained_log g)) \<and>
    (\<forall>i < length (retained_log g). unat (mr_sequence (retained_log g ! i)) = i + 1)"
proof -
  note inv = group_invD [OF group_reachable_inv [OF assms(1)]]
  from inv(6) assms(2) obtain k where k: "follows (rg_shard g) (rg_epoch g) schema (rg_log g) k s"
      "serving s \<longrightarrow> k = length (rg_log g)" by blast
  have pos: "unat (or_applied_sequence s) = k" by (rule follows_position [OF inv(2) k(1)])
  have "unat (or_applied_sequence (hd (rg_replicas g))) = length (rg_log g)" by (rule follows_position [OF inv(2,5)])
  then show ?thesis
    using k pos log_sequence [OF inv(2)] by (auto simp: retained_log_def follows_def serving_def)
qed

text \<open>
  C28: a node that returns to service has caught up. Setting any member of a reachable group healthy or
  suspect succeeds, whatever the node has missed, and afterwards the index of that node is the index
  of the primary and its lag is zero.
\<close>

theorem recovered_node_catches_up:
  assumes "group_reachable schema g" and "node \<in> or_node ` set (rg_replicas g)"
    and "health = Healthy \<or> health = Suspect"
  shows "\<exists>g' s. group_set_health node health g = (Inr (), g') \<and> s \<in> set (rg_replicas g') \<and> or_node s = node \<and>
    or_health s = health \<and> or_index s = or_index (hd (rg_replicas g')) \<and>
    st_lag (replica_status_of s (or_applied_sequence (hd (rg_replicas g')))) = 0"
proof -
  obtain g' s where run: "group_set_health node health g = (Inr (), g')" "group_inv schema g'"
      "s \<in> set (rg_replicas g')" "or_node s = node" "or_health s = health" "rg_log g' = rg_log g"
    by (rule set_health_ok [OF group_reachable_inv [OF assms(1)] assms(2), of health])
  note inv = group_invD [OF run(2)]
  have "serving s" using run(5) assms(3) by (simp add: serving_def)
  moreover obtain k where "follows (rg_shard g') (rg_epoch g') schema (rg_log g') k s" "serving s \<longrightarrow> k = length (rg_log g')"
    using inv(6) run(3) by blast
  ultimately have "follows (rg_shard g') (rg_epoch g') schema (rg_log g') (length (rg_log g')) s" by simp
  with inv(5) have "or_index s = or_index (hd (rg_replicas g'))"
      "or_applied_sequence s = or_applied_sequence (hd (rg_replicas g'))"
    by (simp_all add: follows_def)
  with run(1,3-5) show ?thesis
    by (intro exI [of _ g'] exI [of _ s] conjI) (simp_all add: replica_status_of_def)
qed

text \<open>
  C27: a mutation takes effect once. Submitting an operation to a reachable group with room in its log,
  whose identifier is new and whose document the index of the primary accepts, appends it to the log
  with the next number, and the primary and every replica in service have applied it; it is
  acknowledged by the primary and those replicas. Submitting the same operation again,
  in either mode, changes nothing in the group and reports the same number; the same identifier
  with another document is refused.
\<close>

theorem submit_exactly_once:
  assumes "group_reachable schema g" and "operation_id \<noteq> []"
    and "\<forall>r \<in> set (retained_log g). mr_operation_id r \<noteq> operation_id"
    and "length (retained_log g) < unat (rg_limit g)"
    and "index_put (or_index (hd (rg_replicas g))) d = Inr ix"
  shows "\<exists>g' n. n = of_nat (length (retained_log g) + 1) \<and>
    group_submit operation_id d Primary_only g = (Inr \<lparr>rc_sequence = n, rc_acknowledgements = acks_of g\<rparr>, g') \<and>
    map mr_operation_id (retained_log g') = map mr_operation_id (retained_log g) @ [operation_id] \<and>
    (\<forall>s \<in> set (rg_replicas g'). serving s \<or> s = hd (rg_replicas g') \<longrightarrow> or_index s = ix) \<and>
    group_submit operation_id d mode g' = (receipt_of mode g' n, g') \<and>
    (d' \<noteq> d \<longrightarrow> group_submit operation_id d' mode g' =
      (Inl (repl_fail Conflicting_operation ''operation ID was reused with different content''), g'))"
proof -
  note inv0 = group_reachable_inv [OF assms(1)]
  have none: "map_of (rg_operation_indices g) operation_id = None"
  proof (rule ccontr)
    assume "map_of (rg_operation_indices g) operation_id \<noteq> None"
    then obtain i where "i < length (rg_log g)" "mr_operation_id (rg_log g ! i) = operation_id"
      using group_invD(4) [OF inv0] by (auto simp: indices_ok_def)
    with assms(3) show False by (auto simp: retained_log_def)
  qed
  have room: "length (rg_log g) < unat (rg_limit g)" using assms(4) by (simp add: retained_log_def)
  obtain g' where run: "group_submit operation_id d Primary_only g =
        (receipt_of Primary_only g (of_nat (length (rg_log g) + 1)), g')"
      and inv': "group_inv schema g'" and ix: "log_index schema (rg_log g') = Inr ix"
      and log: "rg_log g' = rg_log g @ [\<lparr>mr_shard = rg_shard g, mr_epoch = rg_epoch g, mr_operation_id = operation_id,
        mr_sequence = of_nat (length (rg_log g) + 1), mr_document = d\<rparr>]"
    by (rule submit_new [OF inv0 none assms(2) room assms(5), of Primary_only])
  note inv = group_invD [OF inv']
  have idx: "map_of (rg_operation_indices g') operation_id = Some (length (rg_log g))"
    using inv(4) unfolding indices_ok_def by (simp add: log)
  have "or_index s = ix" if "s \<in> set (rg_replicas g')" "serving s \<or> s = hd (rg_replicas g')" for s
    using inv(5,6) ix that by (auto simp: follows_def)
  moreover have "group_submit operation_id d mode g' = (receipt_of mode g' (of_nat (length (rg_log g) + 1)), g')"
    using submit_again [OF inv' idx, of d mode] by (simp add: log)
  moreover have "d' \<noteq> d \<longrightarrow> group_submit operation_id d' mode g' =
      (Inl (repl_fail Conflicting_operation ''operation ID was reused with different content''), g')"
    using idx by (auto simp: group_submit_def same_document_eq log)
  ultimately show ?thesis
    using run log by (intro exI [of _ g'] exI [of _ "of_nat (length (retained_log g) + 1)"])
      (auto simp: receipt_of_def retained_log_def)
qed

section \<open>Reads\<close>

definition preference :: "replica_status \<Rightarrow> nat \<times> u64 \<times> u64 \<times> string" where
  "preference st = (health_rank (st_health st), st_lag st, st_inflight st, st_node_id st)"

lemma preferred_iff: "preferred a b \<longleftrightarrow> preference a < preference b"
proof -
  have "st_health a = st_health b \<longleftrightarrow> health_rank (st_health a) = health_rank (st_health b)"
    by (cases "st_health a"; cases "st_health b") simp_all
  then show ?thesis by (auto simp: preferred_def preference_def less_prod_def order_less_le)
qed

lemma select_from_None: "select_from lag ss None = None \<longleftrightarrow> (\<forall>s \<in> set ss. \<not> eligible lag s)"
proof -
  have some: "select_from lag ss (Some b) \<noteq> None" for ss b
    by (induction ss arbitrary: b) auto
  show ?thesis by (induction ss) (auto simp: some)
qed

lemma select_from_best:
  assumes "select_from lag ss best = Some s"
  shows "(s \<in> set ss \<and> eligible lag s \<or> best = Some s) \<and>
    (\<forall>c \<in> {c \<in> set ss. eligible lag c} \<union> set_option best. \<not> preferred c s)"
  using assms
proof (induction ss arbitrary: best)
  case Nil
  then show ?case by (auto simp: preferred_iff)
next
  case (Cons c ss)
  show ?case
  proof (cases "eligible lag c")
    case False
    then show ?thesis using Cons by auto
  next
    case True
    define b where "b = (case best of None \<Rightarrow> c | Some b \<Rightarrow> if preferred c b then c else b)"
    have "select_from lag ss (Some b) = Some s"
      using Cons.prems True by (cases best) (auto simp: b_def split: if_splits)
    from Cons.IH [OF this] have ih: "s \<in> set ss \<and> eligible lag s \<or> b = s"
        "\<forall>c \<in> {c \<in> set ss. eligible lag c} \<union> {b}. \<not> preferred c s" by auto
    have "preference s \<le> preference b" using ih(2) by (simp add: preferred_iff not_less)
    moreover have "preference b \<le> preference c" "\<forall>b' \<in> set_option best. preference b \<le> preference b'"
      by (auto simp: b_def preferred_iff not_less split: option.splits)
    ultimately have better: "\<not> preferred c s" "\<forall>b' \<in> set_option best. \<not> preferred b' s"
      by (auto simp: preferred_iff not_less)
    have "s \<in> set (c # ss) \<and> eligible lag s \<or> best = Some s"
      using ih(1) True by (auto simp: b_def split: option.splits if_splits)
    with ih(2) better show ?thesis by auto
  qed
qed

text \<open>
  C31: reads are current. Whatever lag the caller tolerates, the node that the group selects for reading
  is healthy or suspect and its index is the one of the primary: it has every committed mutation.
  Selection fails only when no replica is in service.
\<close>

theorem read_replica_current:
  assumes "group_reachable schema g"
  shows "(case select_read_replica maximum_lag g of
      Inr node \<Rightarrow> (\<exists>s \<in> set (rg_replicas g). or_node s = node \<and> (or_health s = Healthy \<or> or_health s = Suspect) \<and>
        or_index s = or_index (hd (rg_replicas g)))
    | Inl f \<Rightarrow> f = repl_fail No_eligible_replica ''no replica satisfies health and lag policy'' \<and>
        (\<forall>s \<in> set (rg_replicas g). or_health s = Unhealthy \<or> or_health s = Draining))"
proof -
  note inv = group_invD [OF group_reachable_inv [OF assms]]
  define p where "p = or_applied_sequence (hd (rg_replicas g))"
  have statuses: "group_statuses g = map (\<lambda>s. replica_status_of s p) (rg_replicas g)"
    by (simp add: group_statuses_def replica_status_of_def p_def Let_def)
  have current: "or_index s = or_index (hd (rg_replicas g))" "or_applied_sequence s = p"
    if "s \<in> set (rg_replicas g)" "serving s" for s
    using inv(5,6) that by (fastforce simp: follows_def p_def)+
  have elig: "eligible maximum_lag (replica_status_of s p) \<longleftrightarrow> serving s" if "s \<in> set (rg_replicas g)" for s
  proof -
    have "eligible maximum_lag (replica_status_of s p) \<longleftrightarrow> serving s \<and> \<not> st_lag (replica_status_of s p) > maximum_lag"
      using not_serving [of s] by (auto simp: eligible_def replica_status_of_def)
    moreover have "serving s \<Longrightarrow> st_lag (replica_status_of s p) = 0"
      using current(2) [OF that] by (simp add: replica_status_of_def)
    ultimately show ?thesis by auto
  qed
  show ?thesis
  proof (cases "select_from maximum_lag (group_statuses g) None")
    case None
    then show ?thesis
      using select_from_None [of maximum_lag "group_statuses g"] elig
      by (auto simp: select_read_replica_def router_select_def statuses not_serving)
  next
    case (Some st)
    from select_from_best [OF this] obtain s where "s \<in> set (rg_replicas g)" "st = replica_status_of s p"
        "eligible maximum_lag st" by (auto simp: statuses)
    with elig current(1) Some show ?thesis
      by (auto simp: select_read_replica_def router_select_def replica_status_of_def serving_def)
  qed
qed

section \<open>The persistent log\<close>

lemma prefixed_less: "p @ a < p @ b \<longleftrightarrow> a < (b :: string)"
  by (induction p) simp_all

lemma emplace_all_append:
  assumes "om_ok (target @ map (\<lambda>(k, v). (prefix @ k, v)) values)"
  shows "emplace_all prefix values target = target @ map (\<lambda>(k, v). (prefix @ k, v)) values"
  using assms
proof (induction "values" arbitrary: target)
  case (Cons e es)
  obtain k v where e: "e = (k, v)" by (cases e)
  have "\<forall>x \<in> set target. fst x < prefix @ k" using Cons.prems by (auto simp: om_ok_def sorted_wrt_append e)
  note app = om_emplace_append [OF this, of v]
  have "om_ok ((target @ [(prefix @ k, v)]) @ map (\<lambda>(k, v). (prefix @ k, v)) es)" using Cons.prems by (simp add: e)
  from Cons.IH [OF this] show ?case by (simp add: emplace_all_def e app)
qed (simp add: emplace_all_def)

lemma om_ok_prefixed:
  fixes m m' :: "(string, string) omap"
  assumes "om_ok m" and "om_ok m'"
  shows "om_ok (map (\<lambda>(k, v). (''f:'' @ k, v)) m @ map (\<lambda>(k, v). (''m:'' @ k, v)) m')"
proof -
  have "sorted_wrt (<) (map fst (map (\<lambda>(k, v). (p @ k, v)) m))" if "om_ok m" for p and m :: "(string, string) omap"
    using that by (induction m) (auto simp: om_ok_def prefixed_less)
  then have "om_ok (map (\<lambda>(k, v). (p @ k, v)) m)" if "om_ok m" for p and m :: "(string, string) omap"
    using that by (simp add: om_ok_def)
  from this [OF assms(1), of "''f:''"] this [OF assms(2), of "''m:''"] show ?thesis
    by (auto simp: om_ok_def sorted_wrt_append less_char_def)
qed

lemma unwrap_fields_append:
  "unwrap_fields (xs @ ys) flds metadata =
    (case unwrap_fields xs flds metadata of None \<Rightarrow> None | Some (flds', metadata') \<Rightarrow> unwrap_fields ys flds' metadata')"
  by (induction xs flds metadata rule: unwrap_fields.induct) auto

lemma unwrap_fields_f:
  "om_ok (flds @ m) \<Longrightarrow> unwrap_fields (map (\<lambda>(k, v). (''f:'' @ k, v)) m) flds metadata = Some (flds @ m, metadata)"
proof (induction m arbitrary: flds)
  case (Cons e m)
  obtain k v where e: "e = (k, v)" by (cases e)
  have "\<forall>x \<in> set flds. fst x < k" using Cons.prems by (auto simp: om_ok_def sorted_wrt_append e)
  from om_emplace_append [OF this, of v] Cons show ?case by (simp add: e)
qed simp

lemma unwrap_fields_m:
  "om_ok (metadata @ m) \<Longrightarrow> unwrap_fields (map (\<lambda>(k, v). (''m:'' @ k, v)) m) flds metadata = Some (flds, metadata @ m)"
proof (induction m arbitrary: metadata)
  case (Cons e m)
  obtain k v where e: "e = (k, v)" by (cases e)
  have "\<forall>x \<in> set metadata. fst x < k" using Cons.prems by (auto simp: om_ok_def sorted_wrt_append e)
  from om_emplace_append [OF this, of v] Cons show ?case by (simp add: e)
qed simp

lemma parse_number_to_string:
  fixes w :: u64
  shows "parse_number (to_string_nat (unat w)) = Some w"
proof -
  have "unat w \<le> 2 ^ 64 - 1" using unat_u64_less [of w] by simp
  from from_chars_unsigned_to_string [OF this] show ?thesis by (simp add: parse_number_def from_chars_u64_def)
qed

lemma parse_number_shard:
  fixes w :: u32
  shows "parse_number (to_string_nat (unat w)) = Some (ucast w)"
proof -
  have "unat w \<le> 2 ^ 64 - 1" using unat_u32_less [of w] by simp
  from from_chars_unsigned_to_string [OF this] show ?thesis
    by (simp add: parse_number_def from_chars_u64_def)
qed

lemma unwrap_persisted:
  assumes "document_ok (mr_document r)" and "mr_operation_id r \<noteq> []"
  shows "unwrap (mr_shard r) (mr_epoch r) (mr_sequence r) (persisted r) = Inr r"
proof -
  define d where "d = mr_document r"
  have ok: "om_ok (doc_fields d)" "om_ok (doc_metadata d)" using assms(1) by (simp_all add: document_ok_def d_def)
  note both = om_ok_prefixed [OF ok]
  have f: "emplace_all ''f:'' (doc_fields d) [] = map (\<lambda>(k, v). (''f:'' @ k, v)) (doc_fields d)"
    using emplace_all_append [of "[]" "''f:''" "doc_fields d"] om_ok_prefixed [OF ok(1) om_ok_Nil] by simp
  have flds: "doc_fields (persisted r) =
      map (\<lambda>(k, v). (''f:'' @ k, v)) (doc_fields d) @ map (\<lambda>(k, v). (''m:'' @ k, v)) (doc_metadata d)"
    using emplace_all_append [OF both] by (simp add: persisted_def Let_def d_def [symmetric] f)
  have "unwrap_fields (doc_fields (persisted r)) [] [] = Some (doc_fields d, doc_metadata d)"
    unfolding flds unwrap_fields_append
    using unwrap_fields_f [of "[]" "doc_fields d"] unwrap_fields_m [of "[]" "doc_metadata d"] ok by simp
  moreover have "doc_metadata (persisted r) = [(''@deleted'', if doc_deleted d then ''1'' else ''0''),
      (''@document'', doc_id d), (''@epoch'', to_string_nat (unat (mr_epoch r))),
      (''@shard'', to_string_nat (unat (mr_shard r))), (''@version'', to_string_nat (unat (doc_version d)))]"
    by (simp add: persisted_def Let_def d_def emplace_all_def om_emplace_def less_char_def)
  moreover have "doc_id (persisted r) = mr_operation_id r" "doc_version (persisted r) = mr_sequence r"
    by (simp_all add: persisted_def Let_def)
  ultimately show ?thesis
    using assms(2) by (simp add: unwrap_def Let_def parse_number_to_string parse_number_shard d_def)
qed

lemma unwrap_all_persisted:
  assumes "log_ok shard epoch log" and "\<forall>r \<in> set log. document_ok (mr_document r)" and "i \<le> length log"
  shows "unwrap_all shard epoch (of_nat (i + 1)) (map persisted (drop i log)) acc = Inr (acc @ drop i log)"
  using assms(3)
proof (induction "length log - i" arbitrary: i acc)
  case (Suc n)
  then have i: "i < length log" by simp
  define r where "r = log ! i"
  have r: "mr_shard r = shard" "mr_epoch r = epoch" "mr_sequence r = of_nat (i + 1)" "mr_operation_id r \<noteq> []"
    using assms(1) i unfolding log_ok_def r_def by blast+
  moreover have "document_ok (mr_document r)" using assms(2) i by (simp add: r_def)
  ultimately have "unwrap shard epoch (of_nat (i + 1)) (persisted r) = Inr r" using unwrap_persisted [of r] by simp
  moreover have "n = length log - Suc i" "Suc i \<le> length log" using Suc.hyps(2) i by simp_all
  from Suc.hyps(1) [OF this, of "acc @ [r]"]
  have "unwrap_all shard epoch (of_nat (i + 1) + 1) (map persisted (drop (Suc i) log)) (acc @ [r]) = Inr ((acc @ [r]) @ drop (Suc i) log)"
    by (simp add: ac_simps)
  moreover have "drop i log = r # drop (Suc i) log" using Cons_nth_drop_Suc [OF i] by (simp add: r_def)
  ultimately show ?case by (simp only: list.map unwrap_all.simps sum.case append_assoc append_Cons append_Nil)
qed simp

lemma put_identifier: "index_put ix d = Inr ix' \<Longrightarrow> doc_id d \<noteq> []"
  by (auto simp: index_put_def split: if_splits)

lemma log_identifier: "log_index schema log = Inr ix \<Longrightarrow> r \<in> set log \<Longrightarrow> doc_id (mr_document r) \<noteq> []"
  using log_index_prefix [of schema log ix] log_index_next [of schema log ix] put_identifier
  by (metis in_set_conv_nth)

lemma deliver_group: "rg_shard (snd (acknowledge mode r g)) = rg_shard g" "rg_epoch (snd (acknowledge mode r g)) = rg_epoch g"
  by (simp_all add: acknowledge_def Let_def split: option.split prod.split)

lemma reachable_identity: "group_reachable schema g \<Longrightarrow> rg_shard g \<noteq> 0 \<and> rg_epoch g \<noteq> 0"
proof (induction rule: group_reachable.induct)
  case (create shard epoch nodes limit g)
  then show ?case by (auto simp: group_create_def group_new_def split: if_splits)
next
  case (submit g op d mode)
  then show ?case by (simp add: group_submit_def Let_def deliver_group split: option.split prod.split sum.split)
next
  case (set_health g node health)
  then show ?case by (simp add: group_set_health_def split: prod.split)
qed

definition complete_record :: "mutation_record \<Rightarrow> bool" where
  "complete_record r \<longleftrightarrow> mr_shard r \<noteq> 0 \<and> mr_epoch r \<noteq> 0 \<and> mr_sequence r \<noteq> 0 \<and> mr_operation_id r \<noteq> [] \<and>
     doc_id (mr_document r) \<noteq> [] \<and> replayable default_wal_limits (persisted r)"

lemma log_append_complete:
  assumes "complete_record r"
  shows "mutation_log_append (Append_written Sync_ok) r f = (Inr (), Some (file_bytes f @ record_of (persisted r)))"
    and "snd (mutation_log_append (Append_write_failed n) r f) = Some (file_bytes f @ take n (record_of (persisted r)))"
  using assms wal_append_replayable [of default_wal_limits "persisted r"]
  by (simp_all add: mutation_log_append_def complete_record_def)

definition persist_log :: "mutation_record list \<Rightarrow> wal_file" where
  "persist_log rs = fold (\<lambda>r f. snd (mutation_log_append (Append_written Sync_ok) r f)) rs None"

lemma persist_log_bytes:
  assumes "\<forall>r \<in> set rs. complete_record r"
  shows "file_bytes (persist_log rs) = concat (map record_of (map persisted rs))"
proof -
  have "file_bytes (fold (\<lambda>r f. snd (mutation_log_append (Append_written Sync_ok) r f)) rs f) =
      file_bytes f @ concat (map record_of (map persisted rs))" for f
    using assms by (induction rs arbitrary: f) (simp_all add: log_append_complete(1))
  then show ?thesis by (simp add: persist_log_def)
qed

lemma reachable_complete:
  assumes "group_reachable schema g" and "r \<in> set (retained_log g)" and "replayable default_wal_limits (persisted r)"
  shows "complete_record r"
proof -
  note inv = group_invD [OF group_reachable_inv [OF assms(1)]]
  from assms(2) obtain i where i: "i < length (rg_log g)" "r = rg_log g ! i" by (auto simp: retained_log_def in_set_conv_nth)
  have "unat (mr_sequence r) = i + 1" using log_sequence [OF inv(2) i(1)] i(2) by simp
  then have "mr_sequence r \<noteq> 0" by auto
  moreover have "doc_id (mr_document r) \<noteq> []" using inv(3) log_identifier assms(2) by (auto simp: retained_log_def)
  moreover have "mr_shard r = rg_shard g" "mr_epoch r = rg_epoch g" "mr_operation_id r \<noteq> []"
    using inv(2) i by (simp_all add: log_ok_def)
  ultimately show ?thesis using reachable_identity [OF assms(1)] assms(3) by (simp add: complete_record_def)
qed

text \<open>
  C29: a replica comes back after a crash. The first \<open>k\<close> mutations of a reachable group are appended to a
  persistent log, and the process stops while the record of the next one is written, with any number
  \<open>n\<close> of its bytes in the file. Recovering a replica from that file succeeds, and the replica is
  in the state to which the first \<open>k\<close> mutations lead (\<open>k + 1\<close>, if the last record is complete), ready
  for the next one. The documents have to be within the limits of the log.
\<close>

theorem replica_recovers_after_crash:
  assumes "group_reachable schema g" and "k < length (retained_log g)" and "k < 10000000"
    and "\<forall>r \<in> set (retained_log g). document_ok (mr_document r) \<and> replayable default_wal_limits (persisted r)"
    and "f = snd (mutation_log_append (Append_write_failed n) (retained_log g ! k) (persist_log (take k (retained_log g))))"
    and "length (file_bytes f) \<le> 1073741824" and "benign rio"
    and "j = (if n < length (record_of (persisted (retained_log g ! k))) then k else k + 1)"
  shows "\<exists>s. fst (recover_replica rio node (rg_shard g) (rg_epoch g) schema f) = Inr s \<and>
    unat (or_applied_sequence s) = j \<and> log_index schema (take j (retained_log g)) = Inr (or_index s)"
proof -
  define log where "log = retained_log g"
  have log: "rg_log g = log" by (simp add: log_def retained_log_def)
  note inv = group_invD [OF group_reachable_inv [OF assms(1)], unfolded log]
  have comp: "complete_record r" if "r \<in> set log" for r
    using reachable_complete [OF assms(1)] assms(4) that by (simp add: log_def)
  have k: "k < length log" using assms(2) by (simp add: log_def)
  have taken: "\<forall>r \<in> set (take k log). complete_record r" using comp by (auto dest: in_set_takeD)
  have f: "f = Some (concat (map record_of (map persisted (take k log))) @ take n (record_of (persisted (log ! k))))"
    using assms(5) log_append_complete(2) [OF comp [OF nth_mem [OF k]]] persist_log_bytes [OF taken] by (simp add: log_def)
  have rep: "\<forall>d \<in> set (map persisted (take k log)). replayable default_wal_limits d" "replayable default_wal_limits (persisted (log ! k))"
    using taken comp [OF nth_mem [OF k]] by (auto simp: complete_record_def)
  have lim: "length (map persisted (take k log)) < unat (wl_maximum_records default_wal_limits)"
    using k assms(3) by (simp add: default_wal_limits_def)
  have size: "length (concat (map record_of (map persisted (take k log))) @ take n (record_of (persisted (log ! k)))) \<le>
      unat (wl_maximum_file_bytes default_wal_limits)"
    using assms(6) unfolding f by (simp add: default_wal_limits_def)
  have j: "map persisted (take k log) @ (if n < length (record_of (persisted (log ! k))) then [] else [persisted (log ! k)]) =
      map persisted (take j log)" and jl: "j \<le> length log"
    using assms(8) k by (simp_all add: log_def take_Suc_conv_app_nth)
  have wal: "fst (wal_replay rio default_wal_limits f) = Inr (map persisted (take j log))"
    unfolding f using wal_replay_file [OF rep lim size assms(7)] j by (simp add: Let_def)
  have ok: "log_ok (rg_shard g) (rg_epoch g) (take j log)"
    using inv(2) by (auto simp: log_ok_def distinct_take simp flip: take_map)
  have "unwrap_all (rg_shard g) (rg_epoch g) 1 (map persisted (take j log)) [] = Inr (take j log)"
    using unwrap_all_persisted [OF ok, of 0 "[]"] assms(4) by (auto simp: log_def dest: in_set_takeD)
  then have replay: "fst (mutation_log_replay rio (rg_shard g) (rg_epoch g) default_wal_limits f) = Inr (take j log)"
    using wal by (auto simp: mutation_log_replay_def split: prod.splits sum.splits)
  obtain ix where ix: "log_index schema (take j log) = Inr ix" using inv(3) log_index_prefix by blast
  obtain s where s: "replay_log (take j log) (replica_new node (rg_shard g) (rg_epoch g) schema) = (Inr (), s)"
      "follows (rg_shard g) (rg_epoch g) schema (take j log) (length (take j log)) s"
    by (rule replay_whole [OF ok ix follows_new])
  have "fst (recover_replica rio node (rg_shard g) (rg_epoch g) schema f) = Inr s"
    using replay s(1) by (auto simp: recover_replica_def split: prod.splits sum.splits)
  moreover have "unat (or_applied_sequence s) = j" using follows_position [OF ok s(2)] jl by simp
  moreover have "log_index schema (take j log) = Inr (or_index s)" using s(2) jl by (simp add: follows_def min_absorb2)
  ultimately show ?thesis by (auto simp: log_def)
qed

section \<open>A concrete group\<close>

definition ex_group :: group where
  "ex_group = group_new 1 1 [''a'', ''b''] 10 []"

definition ex_mutation :: document where
  "ex_mutation = tombstone ''d'' 1"

definition ex_committed :: group where
  "ex_committed = snd (group_submit ''op'' ex_mutation Primary_only ex_group)"

lemma ex_group_reachable: "group_reachable [] ex_group"
  by (rule group_reachable.create [of 1 1 "[''a'', ''b'']" 10]) (simp add: group_create_def ex_group_def)

lemma ex_committed_reachable: "group_reachable [] ex_committed"
  unfolding ex_committed_def by (rule group_reachable.submit [OF ex_group_reachable])

lemma ex_mutation_put: "\<exists>ix. index_put (index_new [] (- 1)) ex_mutation = Inr ix"
  by (simp add: index_put_def index_new_def stale_def validate_document_def allocate_def prepare_def Let_def ex_mutation_def
      tombstone_def)

lemma ex_group_simps:
  "retained_log ex_group = []" "rg_limit ex_group = 10" "or_index (hd (rg_replicas ex_group)) = index_new [] (- 1)"
  "acks_of ex_group = 2"
  by (simp_all add: ex_group_def group_new_def retained_log_def replica_new_def acks_of_def serving_def)

lemma ex_submit:
  obtains g' where "group_submit ''op'' ex_mutation Primary_only ex_group = (Inr \<lparr>rc_sequence = 1, rc_acknowledgements = 2\<rparr>, g')"
    and "map or_node (rg_replicas g') = [''a'', ''b'']" and "ex_committed = g'"
    and "retained_log g' = [\<lparr>mr_shard = 1, mr_epoch = 1, mr_operation_id = ''op'', mr_sequence = 1, mr_document = ex_mutation\<rparr>]"
proof -
  obtain ix where ix: "index_put (or_index (hd (rg_replicas ex_group))) ex_mutation = Inr ix"
    using ex_mutation_put ex_group_simps by auto
  have g: "map_of (rg_operation_indices ex_group) ''op'' = None" "length (rg_log ex_group) < unat (rg_limit ex_group)" "rg_log ex_group = []"
      "rg_shard ex_group = 1" "rg_epoch ex_group = 1" "map or_node (rg_replicas ex_group) = [''a'', ''b'']"
    by (simp_all add: ex_group_def group_new_def replica_new_def)
  have ne: "''op'' \<noteq> []" by simp
  obtain g' where run: "group_submit ''op'' ex_mutation Primary_only ex_group =
      (receipt_of Primary_only ex_group (of_nat (length (rg_log ex_group) + 1)), g')"
    "rg_log g' = rg_log ex_group @ [\<lparr>mr_shard = rg_shard ex_group, mr_epoch = rg_epoch ex_group, mr_operation_id = ''op'',
      mr_sequence = of_nat (length (rg_log ex_group) + 1), mr_document = ex_mutation\<rparr>]"
    "map or_node (rg_replicas g') = map or_node (rg_replicas ex_group)"
    by (rule submit_new [OF group_reachable_inv [OF ex_group_reachable] g(1) ne g(2) ix, of Primary_only])
  show thesis
  proof (rule that [of g'])
    show "group_submit ''op'' ex_mutation Primary_only ex_group = (Inr \<lparr>rc_sequence = 1, rc_acknowledgements = 2\<rparr>, g')"
      unfolding run(1) by (simp add: receipt_of_def g(3) ex_group_simps(4))
    show "map or_node (rg_replicas g') = [''a'', ''b'']" unfolding run(3) by (rule g(6))
    show "ex_committed = g'" unfolding ex_committed_def run(1) by simp
    show "retained_log g' = [\<lparr>mr_shard = 1, mr_epoch = 1, mr_operation_id = ''op'', mr_sequence = 1, mr_document = ex_mutation\<rparr>]"
      unfolding retained_log_def run(2) g(3-5) by simp
  qed
qed

theorem replicas_follow_log_witness:
  "log_index [] (take (unat (or_applied_sequence (hd (rg_replicas ex_committed)))) (retained_log ex_committed)) =
     Inr (or_index (hd (rg_replicas ex_committed))) \<and>
   unat (or_applied_sequence (hd (rg_replicas ex_committed))) = 1"
proof -
  obtain g' where g': "ex_committed = g'" "map or_node (rg_replicas g') = [''a'', ''b'']"
      "retained_log g' = [\<lparr>mr_shard = 1, mr_epoch = 1, mr_operation_id = ''op'', mr_sequence = 1, mr_document = ex_mutation\<rparr>]"
    by (rule ex_submit)
  then have "hd (rg_replicas ex_committed) \<in> set (rg_replicas ex_committed)" by (intro hd_in_set) auto
  note follow = replicas_follow_log [OF ex_committed_reachable this]
  have one: "length (retained_log ex_committed) = 1" using g' by simp
  show ?thesis using follow unfolding one by blast
qed

theorem recovered_node_catches_up_witness:
  "\<exists>g' s. group_set_health ''b'' Healthy ex_committed = (Inr (), g') \<and> s \<in> set (rg_replicas g') \<and> or_node s = ''b'' \<and>
    or_health s = Healthy \<and> or_index s = or_index (hd (rg_replicas g')) \<and>
    st_lag (replica_status_of s (or_applied_sequence (hd (rg_replicas g')))) = 0"
proof -
  obtain g' where g': "ex_committed = g'" "map or_node (rg_replicas g') = [''a'', ''b'']"
    by (rule ex_submit)
  have "''b'' \<in> set (map or_node (rg_replicas ex_committed))" by (simp only: g') simp
  then have "''b'' \<in> or_node ` set (rg_replicas ex_committed)" by simp
  from recovered_node_catches_up [OF ex_committed_reachable this, of Healthy] show ?thesis by simp
qed

theorem submit_exactly_once_witness:
  "\<exists>g'. group_submit ''op'' ex_mutation Primary_only ex_group = (Inr \<lparr>rc_sequence = 1, rc_acknowledgements = 2\<rparr>, g') \<and>
    map mr_operation_id (retained_log g') = [''op''] \<and>
    group_submit ''op'' ex_mutation Primary_only g' = (receipt_of Primary_only g' 1, g')"
proof -
  obtain ix where ix: "index_put (or_index (hd (rg_replicas ex_group))) ex_mutation = Inr ix"
    using ex_mutation_put ex_group_simps by auto
  show ?thesis
    using submit_exactly_once [OF ex_group_reachable _ _ _ ix, of "''op''" Primary_only ex_mutation]
    by (auto simp: ex_group_simps)
qed

theorem read_replica_current_witness:
  "case select_read_replica 0 ex_committed of
      Inr node \<Rightarrow> (\<exists>s. s \<in> set (rg_replicas ex_committed) \<and> or_node s = node \<and> or_index s = or_index (hd (rg_replicas ex_committed)))
    | Inl f \<Rightarrow> f = repl_fail No_eligible_replica ''no replica satisfies health and lag policy''"
  using read_replica_current [OF ex_committed_reachable, of 0] by (auto split: sum.splits)

theorem replica_recovers_after_crash_witness:
  "\<exists>s. fst (recover_replica ex_replay_io ''c'' (rg_shard ex_committed) (rg_epoch ex_committed) []
      (snd (mutation_log_append (Append_write_failed 20) (retained_log ex_committed ! 0) None))) = Inr s \<and>
    unat (or_applied_sequence s) = 0"
proof -
  define r where "r = \<lparr>mr_shard = 1, mr_epoch = 1, mr_operation_id = ''op'', mr_sequence = 1, mr_document = ex_mutation\<rparr>"
  obtain g' where "ex_committed = g'" "retained_log g' = [r]"
    unfolding r_def by (rule ex_submit)
  then have log: "retained_log ex_committed = [r]" by simp
  have one: "to_string_nat 1 = ''1''" by code_simp
  have p: "persisted r = \<lparr>doc_id = ''op'', doc_fields = [], doc_metadata = [(''@deleted'', ''1''), (''@document'', ''d''),
      (''@epoch'', ''1''), (''@shard'', ''1''), (''@version'', ''1'')], doc_version = 1, doc_deleted = False\<rparr>"
    by (simp add: persisted_def r_def ex_mutation_def tombstone_def emplace_all_def om_emplace_def less_char_def Let_def
        one [simplified])
  have len: "length (record_of (persisted r)) = 117"
    by (simp add: p wal_payload_def wal_map_def wal_entry_def)
  have rep: "replayable default_wal_limits (persisted r)" "document_ok (mr_document r)"
    using len by (simp_all add: replayable_def wal_string_ok_def wal_map_ok_def default_wal_limits_def p)
      (simp_all add: less_char_def r_def ex_mutation_def)
  have comp: "complete_record r"
    using reachable_complete [OF ex_committed_reachable] log rep by simp
  have bytes: "length (file_bytes (snd (mutation_log_append (Append_write_failed 20) r None))) \<le> 1073741824"
    by (simp add: log_append_complete(2) [OF comp] len)
  show ?thesis
    using replica_recovers_after_crash [OF ex_committed_reachable _ _ _ refl _ ex_benign refl, of 0 20 "''c''"]
      rep bytes len by (auto simp: log persist_log_def)
qed

end
