(* ===== verification/Decoder.thy ===== *)
theory Decoder
  imports Bytes
begin

text \<open>
  Decoders with error values: the \<^verbatim>\<open>Cursor\<close> classes of \<^verbatim>\<open>src/storage/segment.cpp\<close> and
  \<^verbatim>\<open>src/storage/manifest.cpp\<close> return \<^verbatim>\<open>std::expected\<close>. A decoder maps the bytes that are left to an
  error, or to a value and the bytes after it. \<open>decodes rd bs x\<close> says that \<open>rd\<close> reads exactly \<open>bs\<close>,
  whatever follows, and returns \<open>x\<close>; the rules in \<open>decode_intros\<close> follow the structure of a decoder.
\<close>

type_synonym ('e, 'a) decoder = "bytes \<Rightarrow> ('e, 'a \<times> bytes) result"

definition dec_return :: "'a \<Rightarrow> ('e, 'a) decoder" where
  "dec_return x bs = Inr (x, bs)"

definition dec_fail :: "'e \<Rightarrow> ('e, 'a) decoder" where
  "dec_fail e bs = Inl e"

definition dec_bind :: "('e, 'a) decoder \<Rightarrow> ('a \<Rightarrow> ('e, 'b) decoder) \<Rightarrow> ('e, 'b) decoder" where
  "dec_bind rd k bs = (case rd bs of Inl e \<Rightarrow> Inl e | Inr (x, rest) \<Rightarrow> k x rest)"

text \<open>
  Several reads whose failures, tested together after the last of them, all give the error \<open>e\<close>.
\<close>

definition dec_catch :: "'e \<Rightarrow> ('f, 'a) decoder \<Rightarrow> ('e, 'a) decoder" where
  "dec_catch e rd bs = (case rd bs of Inl _ \<Rightarrow> Inl e | Inr p \<Rightarrow> Inr p)"

definition dec_read :: "'e \<Rightarrow> 'a reader \<Rightarrow> ('e, 'a) decoder" where
  "dec_read e rd bs = (case rd bs of None \<Rightarrow> Inl e | Some p \<Rightarrow> Inr p)"

text \<open>A counting loop whose body reads.\<close>

fun dec_times :: "nat \<Rightarrow> ('s \<Rightarrow> ('e, 's) decoder) \<Rightarrow> 's \<Rightarrow> ('e, 's) decoder" where
  "dec_times 0 body s = dec_return s"
| "dec_times (Suc n) body s = dec_bind (body s) (dec_times n body)"

text \<open>A decoder for a whole section: trailing bytes are the error \<open>e\<close>.\<close>

definition dec_all :: "'e \<Rightarrow> ('e, 'a) decoder \<Rightarrow> bytes \<Rightarrow> ('e, 'a) result" where
  "dec_all e rd bs = (case rd bs of Inl f \<Rightarrow> Inl f | Inr (x, rest) \<Rightarrow> if rest = [] then Inr x else Inl e)"

definition get_u16 :: "u16 reader" where
  "get_u16 bs = map_option (\<lambda>(v, rest). (ucast v, rest)) (get_integer 2 bs)"

definition put_u16 :: "u16 \<Rightarrow> bytes" where
  "put_u16 v = put_integer 2 (ucast v)"

lemma length_put_u16 [simp]: "length (put_u16 v) = 2"
  by (simp add: put_u16_def)

lemma get_put_u16 [simp]: "get_u16 (put_u16 v @ rest) = Some (v, rest)"
proof -
  have "ucast (take_bit 16 (ucast v :: u64)) = v"
    by (rule bit_eqI) (auto simp: bit_unsigned_iff bit_take_bit_iff)
  then show ?thesis by (simp add: get_u16_def put_u16_def get_put_integer)
qed

lemma get_byte_Cons [simp]: "get_byte (b # rest) = Some (b, rest)"
  by (simp add: get_byte_def)

section \<open>What a decoder reads\<close>

definition decodes :: "('e, 'a) decoder \<Rightarrow> bytes \<Rightarrow> 'a \<Rightarrow> bool" where
  "decodes rd bs x \<longleftrightarrow> (\<forall>rest. rd (bs @ rest) = Inr (x, rest))"

named_theorems decode_intros \<open>what the decoders built from other decoders read\<close>

lemma decodesD: "decodes rd bs x \<Longrightarrow> rd (bs @ rest) = Inr (x, rest)"
  by (simp add: decodes_def)

lemma decodesD_all: "decodes rd bs x \<Longrightarrow> rd bs = Inr (x, [])"
  using decodesD [of rd bs x "[]"] by simp

lemma decodes_return [decode_intros]: "decodes (dec_return x) [] x"
  by (simp add: decodes_def dec_return_def)

lemma decodes_bind: "decodes rd a x \<Longrightarrow> decodes (k x) b y \<Longrightarrow> decodes (dec_bind rd k) (a @ b) y"
  by (simp add: decodes_def dec_bind_def)

lemma decodes_bind_last: "decodes rd a x \<Longrightarrow> decodes (k x) [] y \<Longrightarrow> decodes (dec_bind rd k) a y"
  using decodes_bind [of rd a x k "[]" y] by simp

lemma decodes_catch [decode_intros]: "decodes rd bs x \<Longrightarrow> decodes (dec_catch e rd) bs x"
  by (simp add: decodes_def dec_catch_def)

lemma decodes_u16: "decodes (dec_read e get_u16) (put_u16 v) v"
  and decodes_u32: "decodes (dec_read e get_u32) (put_u32 w) w"
  and decodes_u64: "decodes (dec_read e get_u64) (put_u64 x) x"
  and decodes_byte: "decodes (dec_read e get_byte) [b] b"
  by (simp_all add: decodes_def dec_read_def)

lemmas decodes_integer_bind [decode_intros] =
  decodes_bind [OF decodes_u16] decodes_bind [OF decodes_u32] decodes_bind [OF decodes_u64]
  decodes_bind_last [OF decodes_u16] decodes_bind_last [OF decodes_u32] decodes_bind_last [OF decodes_u64]

lemma decodes_byte_bind [decode_intros]:
  "decodes (k b) bs y \<Longrightarrow> decodes (dec_bind (dec_read e get_byte) k) (b # bs) y"
  using decodes_bind [OF decodes_byte [of e b], of k bs y] by simp

lemma decodes_guard: "\<not> c \<Longrightarrow> decodes rd bs x \<Longrightarrow> decodes (if c then rd' else rd) bs x"
  by simp

lemma decodes_times:
  "(\<And>i. i < length xs \<Longrightarrow> decodes (body (st i)) (enc (xs ! i)) (st (Suc i))) \<Longrightarrow>
    decodes (dec_times (length xs) body (st 0)) (concat (map enc xs)) (st (length xs))"
proof (induction xs arbitrary: st)
  case (Cons x xs)
  have "decodes (dec_times (length xs) body (st (Suc 0))) (concat (map enc xs)) (st (Suc (length xs)))"
    using Cons.prems Cons.IH [of "\<lambda>i. st (Suc i)"] by fastforce
  moreover have "decodes (body (st 0)) (enc x) (st (Suc 0))" using Cons.prems [of 0] by simp
  ultimately show ?case by (auto intro: decodes_bind)
qed (simp add: decodes_return)

lemma decodes_times_fold:
  assumes "\<And>i. i < length xs \<Longrightarrow> decodes (body (fold upd (take i xs) s)) (enc (xs ! i)) (upd (xs ! i) (fold upd (take i xs) s))"
  shows "decodes (dec_times (length xs) body s) (concat (map enc xs)) (fold upd xs s)"
proof -
  have "decodes (dec_times (length xs) body (fold upd (take 0 xs) s)) (concat (map enc xs))
      (fold upd (take (length xs) xs) s)"
    by (rule decodes_times) (use assms in \<open>simp add: take_Suc_conv_app_nth\<close>)
  then show ?thesis by simp
qed

text \<open>A loop that appends what it reads, as long as a test on what it has read so far passes.\<close>

lemma decodes_times_append:
  assumes "\<And>i. i < length xs \<Longrightarrow> decodes (body (take i xs)) (enc (xs ! i)) (take i xs @ [xs ! i])"
  shows "decodes (dec_times (length xs) body []) (concat (map enc xs)) xs"
  using decodes_times [of xs body "\<lambda>i. take i xs" enc] assms by (simp add: take_Suc_conv_app_nth)

lemma dec_all_decodes: "decodes rd bs x \<Longrightarrow> dec_all e rd bs = Inr x"
  by (simp add: dec_all_def decodesD_all)

text \<open>A successful step of a decoder.\<close>

lemma dec_bind_Inr: "dec_bind rd k bs = Inr (y, rest) \<longleftrightarrow> (\<exists>x mid. rd bs = Inr (x, mid) \<and> k x mid = Inr (y, rest))"
  by (auto simp: dec_bind_def split: sum.splits prod.splits)

lemma dec_catch_Inr: "dec_catch e rd bs = Inr p \<longleftrightarrow> rd bs = Inr p"
  by (auto simp: dec_catch_def split: sum.splits)

lemma dec_return_Inr: "dec_return x bs = Inr (y, rest) \<longleftrightarrow> x = y \<and> bs = rest"
  by (auto simp: dec_return_def)

lemma dec_fail_Inr: "dec_fail e bs \<noteq> Inr p"
  by (simp add: dec_fail_def)

lemmas decoder_Inr = dec_bind_Inr dec_catch_Inr dec_return_Inr

lemma dec_times_invariant:
  assumes "\<And>s bs s' rest. P s \<Longrightarrow> body s bs = Inr (s', rest) \<Longrightarrow> P s'"
    and "P s" and "dec_times n body s bs = Inr (s', rest)"
  shows "P s'"
  using assms(2,3)
proof (induction n arbitrary: s bs)
  case (Suc n)
  then obtain s1 mid where "body s bs = Inr (s1, mid)" "dec_times n body s1 mid = Inr (s', rest)"
    by (auto simp: dec_bind_Inr)
  with assms(1) [OF Suc.prems(1)] Suc.IH show ?case by blast
qed (simp add: dec_return_Inr)

section \<open>Encoded values in a locale\<close>

text \<open>
  A record format: every value that satisfies \<open>ok\<close> is read back from its encoding. A table writes
  its records one after the other; the loop that reads them returns them in order.
\<close>

locale record_format =
  fixes put :: "'a \<Rightarrow> bytes" and get :: "('e, 'a) decoder" and ok :: "'a \<Rightarrow> bool"
  assumes decodes_put: "ok x \<Longrightarrow> decodes get (put x) x"
begin

lemma decodes_table:
  assumes "list_all ok xs"
  shows "decodes (dec_times (length xs) (\<lambda>ys. dec_bind get (\<lambda>y. dec_return (ys @ [y]))) []) (concat (map put xs)) xs"
proof (rule decodes_times_append)
  fix i
  assume "i < length xs"
  with assms have "decodes get (put (xs ! i)) (xs ! i)" by (simp add: list_all_length decodes_put)
  then show "decodes (dec_bind get (\<lambda>y. dec_return (take i xs @ [y]))) (put (xs ! i)) (take i xs @ [xs ! i])"
    by (rule decodes_bind_last) (rule decodes_return)
qed

text \<open>A table with a key that must be new, as \<^verbatim>\<open>std::map::emplace\<close> tests it.\<close>

lemma decodes_map:
  fixes key :: "'a \<Rightarrow> 'k::linorder"
  assumes "list_all ok xs" and "om_ok (map (\<lambda>x. (key x, val x)) xs)"
  shows "decodes (dec_times (length xs)
      (\<lambda>m. dec_bind get (\<lambda>y. let (m', fresh) = om_emplace (key y) (val y) m
                               in if fresh then dec_return m' else dec_fail e)) [])
    (concat (map put xs)) (map (\<lambda>x. (key x, val x)) xs)"
proof -
  let ?kv = "\<lambda>x. (key x, val x)"
  let ?body = "\<lambda>m. dec_bind get (\<lambda>y. let (m', fresh) = om_emplace (key y) (val y) m
                               in if fresh then dec_return m' else dec_fail e)"
  have "decodes (?body (map ?kv (take i xs))) (put (xs ! i)) (map ?kv (take (Suc i) xs))" if i: "i < length xs" for i
  proof -
    have *: "map ?kv (take (Suc i) xs) = map ?kv (take i xs) @ [?kv (xs ! i)]"
      using i by (simp add: take_Suc_conv_app_nth)
    moreover have "om_ok (map ?kv (take (Suc i) xs))"
      using assms(2) unfolding om_ok_def take_map [symmetric] by (rule sorted_wrt_take)
    ultimately have "om_emplace (key (xs ! i)) (val (xs ! i)) (map ?kv (take i xs)) = (map ?kv (take (Suc i) xs), True)"
      using om_emplace_append [of "map ?kv (take i xs)"] by (simp add: om_ok_def sorted_wrt_append)
    moreover have "decodes get (put (xs ! i)) (xs ! i)" using assms(1) i by (simp add: list_all_length decodes_put)
    ultimately show ?thesis by (auto intro!: decodes_bind_last decodes_return)
  qed
  then show ?thesis using decodes_times [of xs ?body "\<lambda>i. map ?kv (take i xs)" put] by simp
qed

end

end
