(* ===== verification/Segment.thy ===== *)
theory Segment
  imports Index Posting_Codec Decoder
begin

text \<open>
  Immutable segments: \<^verbatim>\<open>src/storage/segment.cpp\<close> and its header. A segment file is a header of 64
  bytes, a directory of six sections and the sections: schema, documents, statistics, terms,
  postings and positions. Postings are stored as fixed-width records that refer to the positions
  section or, compressed, as variable-byte deltas.

  The writer of the sources reserves zeroed bytes and overwrites them (\<open>overwrite\<close>). The reader is
  built from the decoders of theory \<open>Decoder\<close>, section by section, in the order of
  \<^verbatim>\<open>SegmentReader::open\<close>; counts, offsets and sizes keep their 64-bit width where the sources
  compare or subtract them. What the operating system answers is a parameter (\<open>open_io\<close>,
  \<open>write_io\<close>); a directory is a map from paths to contents. Running out of memory is not modelled.
\<close>

section \<open>Data\<close>

datatype segment_error_code =
    Seg_io_error | Seg_corruption | Seg_unsupported_version | Seg_resource_limit | Seg_invalid_snapshot

record segment_error =
  sge_code :: segment_error_code
  sge_message :: string

record segment_write_options =
  wo_segment_id :: segment_id
  wo_compressed_postings :: bool

record segment_read_limits =
  rl_maximum_file_bytes :: u64
  rl_maximum_documents :: u64
  rl_maximum_terms :: u64
  rl_maximum_postings :: u64
  rl_maximum_positions :: u64
  rl_maximum_string_bytes :: u64
  rl_maximum_fields :: u64

definition default_read_limits :: segment_read_limits where
  "default_read_limits =
     \<lparr>rl_maximum_file_bytes = 2 ^ 30, rl_maximum_documents = 10000000, rl_maximum_terms = 100000000,
      rl_maximum_postings = 1000000000, rl_maximum_positions = 4000000000,
      rl_maximum_string_bytes = 16 * 2 ^ 20, rl_maximum_fields = 4096\<rparr>"

record segment_reader =
  sgr_segment_id :: segment_id
  sgr_schema :: schema
  sgr_fields :: field_dictionaries
  sgr_documents :: document_records
  sgr_external_ids :: external_id_map
  sgr_statistics :: "(string, field_statistics) omap"

definition seg_fail :: "segment_error_code \<Rightarrow> string \<Rightarrow> segment_error" where
  "seg_fail code message = \<lparr>sge_code = code, sge_message = message\<rparr>"

abbreviation corrupt :: "string \<Rightarrow> segment_error" where
  "corrupt \<equiv> seg_fail Seg_corruption"

abbreviation over_limit :: "string \<Rightarrow> segment_error" where
  "over_limit \<equiv> seg_fail Seg_resource_limit"

definition describe_segment :: "segment_error_code \<Rightarrow> string" where
  "describe_segment code =
     (case code of
        Seg_io_error \<Rightarrow> ''segment I/O error''
      | Seg_corruption \<Rightarrow> ''segment corruption''
      | Seg_unsupported_version \<Rightarrow> ''unsupported segment version''
      | Seg_resource_limit \<Rightarrow> ''segment resource limit exceeded''
      | Seg_invalid_snapshot \<Rightarrow> ''invalid index snapshot'')"

definition segment_magic :: bytes where
  "segment_magic = text_bytes ''DSESEG01''"

section \<open>Encoding the sections\<close>

definition put_string :: "string \<Rightarrow> bytes" where
  "put_string s = put_u64 (of_nat (length s)) @ text_bytes s"

definition fnv_step :: "u64 \<Rightarrow> u64 \<Rightarrow> u64" where
  "fnv_step byte hash = (hash XOR byte) * 1099511628211"

definition fingerprint_add :: "string \<Rightarrow> u64 \<Rightarrow> u64" where
  "fingerprint_add s hash = fnv_step 0xff (fold (\<lambda>c. fnv_step (ucast (byte_of_char c))) s hash)"

definition field_type_number :: "field_type \<Rightarrow> nat" where
  "field_type_number t = (case t of FT_text \<Rightarrow> 0 | FT_keyword \<Rightarrow> 1 | FT_int64 \<Rightarrow> 2 | FT_timestamp \<Rightarrow> 3)"

definition schema_fingerprint :: "schema \<Rightarrow> u64" where
  "schema_fingerprint schema =
     fold (\<lambda>(name, field) hash.
       fingerprint_add (case fd_analyzer field of None \<Rightarrow> ''none'' | Some a \<Rightarrow> descriptor a)
        (fingerprint_add (to_string_nat (unat (fd_boost field)))
          (fingerprint_add (if fd_stored field then ''1'' else ''0'')
            (fingerprint_add (if fd_indexed field then ''1'' else ''0'')
              (fingerprint_add (to_string_nat (field_type_number (fd_type field)))
                (fingerprint_add name hash))))))
     schema 14695981039346656037"

definition encode_field :: "string \<times> field_definition \<Rightarrow> bytes" where
  "encode_field = (\<lambda>(name, field).
     put_string name @ [of_nat (field_type_number (fd_type field))] @ [if fd_indexed field then 1 else 0] @
     [if fd_stored field then 1 else 0] @ [0] @ put_u64 (fd_boost field) @
     put_string (case fd_analyzer field of None \<Rightarrow> [] | Some a \<Rightarrow> descriptor a))"

definition encode_schema :: "schema \<Rightarrow> bytes" where
  "encode_schema schema =
     put_u64 (schema_fingerprint schema) @ put_u64 (of_nat (length schema)) @ concat (map encode_field schema)"

definition encode_pair :: "string \<times> string \<Rightarrow> bytes" where
  "encode_pair = (\<lambda>(key, v). put_string key @ put_string v)"

definition encode_string_map :: "(string, string) omap \<Rightarrow> bytes" where
  "encode_string_map m = put_u64 (of_nat (length m)) @ concat (map encode_pair m)"

definition encode_length :: "string \<times> u32 \<Rightarrow> bytes" where
  "encode_length = (\<lambda>(field, len). put_string field @ put_u32 len)"

definition encode_references :: "string \<times> string list \<Rightarrow> bytes" where
  "encode_references = (\<lambda>(field, terms).
     put_string field @ put_u64 (of_nat (length terms)) @ concat (map put_string terms))"

definition encode_document :: "document_id \<times> document_record \<Rightarrow> bytes" where
  "encode_document = (\<lambda>(external, r).
     put_u32 (dr_internal_id r) @ put_string external @ put_u64 (doc_version (dr_document r)) @
     [if doc_deleted (dr_document r) then 1 else 0] @
     encode_string_map (doc_fields (dr_document r)) @ encode_string_map (doc_metadata (dr_document r)) @
     put_u64 (of_nat (length (dr_field_lengths r))) @ concat (map encode_length (dr_field_lengths r)) @
     put_u64 (of_nat (length (dr_indexed_terms r))) @ concat (map encode_references (dr_indexed_terms r)))"

definition encode_documents :: "index_snapshot \<Rightarrow> bytes" where
  "encode_documents sn = put_u64 (of_nat (length (sn_documents sn))) @ concat (map encode_document (sn_documents sn))"

definition encode_statistic :: "string \<times> field_statistics \<Rightarrow> bytes" where
  "encode_statistic = (\<lambda>(field, st). put_string field @ put_u64 (fs_count st) @ put_u64 (fs_total st))"

definition encode_statistics :: "index_snapshot \<Rightarrow> bytes" where
  "encode_statistics sn =
     put_u64 (of_nat (length (sn_statistics sn))) @ concat (map encode_statistic (sn_statistics sn))"

record encoded_index =
  ei_terms :: bytes
  ei_postings :: bytes
  ei_positions :: bytes
  ei_term_count :: u64
  ei_posting_count :: u64
  ei_position_count :: u64

fun encode_position_deltas :: "u32 \<Rightarrow> u32 list \<Rightarrow> bytes" where
  "encode_position_deltas previous [] = []"
| "encode_position_deltas previous (p # ps) = varbyte_encode (p - previous) @ encode_position_deltas p ps"

text \<open>One posting; the second component is \<^verbatim>\<open>previous_document\<close>.\<close>

definition encode_posting :: "bool \<Rightarrow> posting \<Rightarrow> encoded_index \<times> u32 \<Rightarrow> encoded_index \<times> u32" where
  "encode_posting compressed p = (\<lambda>(ei, previous_document).
     let (record_bytes, previous') =
           (if compressed
            then (varbyte_encode (p_doc p - previous_document) @ varbyte_encode (p_tf p) @
                  encode_position_deltas 0 (p_positions p), p_doc p)
            else (put_u32 (p_doc p) @ put_u32 (p_tf p) @ put_u64 (ei_position_count ei) @
                  put_u64 (of_nat (length (p_positions p))), previous_document))
     in (ei\<lparr>ei_postings := ei_postings ei @ record_bytes,
            ei_posting_count := ei_posting_count ei + 1,
            ei_positions := ei_positions ei @ (if compressed then [] else concat (map put_u32 (p_positions p))),
            ei_position_count := ei_position_count ei + of_nat (length (p_positions p))\<rparr>, previous'))"

definition encode_entry :: "bool \<Rightarrow> string \<Rightarrow> string \<times> term_entry \<Rightarrow> encoded_index \<Rightarrow> encoded_index" where
  "encode_entry compressed field = (\<lambda>(trm, entry) ei.
     let posting_start = (if compressed then of_nat (length (ei_postings ei)) else ei_posting_count ei);
         ei' = fst (fold (encode_posting compressed) (te_postings entry)
                      (ei\<lparr>ei_term_count := ei_term_count ei + 1\<rparr>, 0))
     in ei'\<lparr>ei_terms := ei_terms ei' @ put_string field @ put_string trm @ put_u32 (te_df entry) @ put_u32 0 @
              put_u64 posting_start @
              put_u64 (if compressed then of_nat (length (ei_postings ei')) - posting_start
                       else of_nat (length (te_postings entry)))\<rparr>)"

definition encode_index :: "index_snapshot \<Rightarrow> bool \<Rightarrow> encoded_index" where
  "encode_index sn compressed =
     fold (\<lambda>(field, dictionary). fold (encode_entry compressed field) dictionary) (sn_fields sn)
       \<lparr>ei_terms = [], ei_postings = [], ei_positions = [], ei_term_count = 0, ei_posting_count = 0,
        ei_position_count = 0\<rparr>"

section \<open>The file\<close>

record section_data =
  sec_type :: u32
  sec_bytes :: bytes
  sec_count :: u64

definition segment_sections :: "index_snapshot \<Rightarrow> bool \<Rightarrow> section_data list" where
  "segment_sections sn compressed =
     (let encoded = encode_index sn compressed
      in [\<lparr>sec_type = 1, sec_bytes = encode_schema (sn_schema sn), sec_count = of_nat (length (sn_schema sn))\<rparr>,
          \<lparr>sec_type = 2, sec_bytes = encode_documents sn, sec_count = of_nat (length (sn_documents sn))\<rparr>,
          \<lparr>sec_type = 3, sec_bytes = encode_statistics sn, sec_count = of_nat (length (sn_statistics sn))\<rparr>,
          \<lparr>sec_type = 4, sec_bytes = ei_terms encoded, sec_count = ei_term_count encoded\<rparr>,
          \<lparr>sec_type = 5, sec_bytes = ei_postings encoded, sec_count = ei_posting_count encoded\<rparr>,
          \<lparr>sec_type = 6, sec_bytes = ei_positions encoded, sec_count = ei_position_count encoded\<rparr>])"

definition overwrite :: "nat \<times> bytes \<Rightarrow> bytes \<Rightarrow> bytes" where
  "overwrite = (\<lambda>(offset, new) bs. take offset bs @ new @ drop (offset + length new) bs)"

text \<open>One round of the loop that writes the directory: the file so far and the directory offset.\<close>

definition write_section :: "section_data \<Rightarrow> bytes \<times> nat \<Rightarrow> bytes \<times> nat" where
  "write_section sec = (\<lambda>(file, directory).
     (fold overwrite
        [(directory, put_u32 (sec_type sec)), (directory + 8, put_u64 (of_nat (length file))),
         (directory + 16, put_u64 (of_nat (length (sec_bytes sec)))), (directory + 24, put_u64 (sec_count sec))] file @
      sec_bytes sec, directory + 32))"

definition segment_bytes :: "index_snapshot \<Rightarrow> segment_write_options \<Rightarrow> bytes" where
  "segment_bytes sn options =
     (let file = fst (fold write_section (segment_sections sn (wo_compressed_postings options))
                       (replicate (64 + 6 * 32) 0, 64));
          minor = (if wo_compressed_postings options then 1 else 0)
      in fold overwrite
           [(0, segment_magic), (8, put_u16 1), (10, put_u16 minor), (12, put_u32 64),
            (16, put_u64 (of_nat (length file))), (24, put_u64 (wo_segment_id options)), (32, put_u32 6),
            (36, put_u32 (if wo_compressed_postings options then 1 else 0)), (40, put_u32 (crc32c (drop 64 file)))]
           file)"

section \<open>Reading: the cursor\<close>

abbreviation seg_u8 :: "(segment_error, u8) decoder" where
  "seg_u8 \<equiv> dec_read (corrupt ''truncated segment integer'') get_byte"
abbreviation seg_u16 :: "(segment_error, u16) decoder" where
  "seg_u16 \<equiv> dec_read (corrupt ''truncated segment integer'') get_u16"
abbreviation seg_u32 :: "(segment_error, u32) decoder" where
  "seg_u32 \<equiv> dec_read (corrupt ''truncated segment integer'') get_u32"
abbreviation seg_u64 :: "(segment_error, u64) decoder" where
  "seg_u64 \<equiv> dec_read (corrupt ''truncated segment integer'') get_u64"

definition seg_string :: "segment_read_limits \<Rightarrow> (segment_error, string) decoder" where
  "seg_string limits = dec_bind seg_u64 (\<lambda>size bs.
     if size > rl_maximum_string_bytes limits then Inl (over_limit ''segment string limit exceeded'')
     else if unat size > length bs then Inl (corrupt ''truncated segment string'')
     else Inr (bytes_text (take (unat size) bs), drop (unat size) bs))"

section \<open>Reading: the schema\<close>

text \<open>\<^verbatim>\<open>number\<close>: the argument is the rest of the descriptor from \<^verbatim>\<open>at\<close>.\<close>

definition descriptor_number :: "string \<Rightarrow> (nat \<times> string) option" where
  "descriptor_number s =
     (if CHR '':'' \<notin> set s then None
      else let range = takeWhile (\<lambda>c. c \<noteq> CHR '':'') s
           in case from_chars_u64 range of
                (ec, consumed, v) \<Rightarrow>
                  if ec \<noteq> Errc_ok \<or> consumed \<noteq> length range then None
                  else Some (v, drop (length range + 1) s))"

fun descriptor_words :: "nat \<Rightarrow> string list \<Rightarrow> string \<Rightarrow> (string list \<times> string) option" where
  "descriptor_words 0 words s = Some (words, s)"
| "descriptor_words (Suc n) words s =
     (case descriptor_number s of
        None \<Rightarrow> None
      | Some (len, rest) \<Rightarrow>
          if len > length rest then None
          else descriptor_words n (words @ [take len rest]) (drop len rest))"

definition analyzer_from :: "string \<Rightarrow> (segment_error, analyzer option) result" where
  "analyzer_from s =
     (if s = [] then Inr None
      else if s = ''keyword-v1'' then Inr (Some KeywordAnalyzer)
      else if take 12 s \<noteq> ''standard-v1:''
      then Inl (seg_fail Seg_unsupported_version ''unsupported analyzer descriptor'')
      else case descriptor_number (drop 12 s) of
             None \<Rightarrow> Inl (corrupt ''invalid analyzer descriptor'')
           | Some (count, rest) \<Rightarrow>
               (case descriptor_words count [] rest of
                  None \<Rightarrow> Inl (corrupt ''invalid analyzer stop-word descriptor'')
                | Some (words, rest') \<Rightarrow>
                    if rest' \<noteq> [] then Inl (corrupt ''trailing analyzer descriptor data'')
                    else Inr (Some (standard_analyzer words))))"

definition field_type_of :: "u8 \<Rightarrow> field_type" where
  "field_type_of n = (if n = 0 then FT_text else if n = 1 then FT_keyword else if n = 2 then FT_int64 else FT_timestamp)"

definition read_field :: "segment_read_limits \<Rightarrow> (segment_error, field_definition) decoder" where
  "read_field limits =
     dec_bind (dec_catch (corrupt ''invalid persisted field definition'')
       (dec_bind (seg_string limits) (\<lambda>name. dec_bind seg_u8 (\<lambda>type. dec_bind seg_u8 (\<lambda>indexed.
        dec_bind seg_u8 (\<lambda>stored. dec_bind seg_u8 (\<lambda>reserved. dec_bind seg_u64 (\<lambda>boost.
        dec_bind (seg_string limits) (\<lambda>descr.
          if reserved \<noteq> 0 \<or> type > 3 \<or> indexed > 1 \<or> stored > 1
          then dec_fail (corrupt ''invalid persisted field definition'')
          else dec_return (name, type, indexed, stored, boost, descr))))))))))
     (\<lambda>(name, type, indexed, stored, boost, descr).
        case analyzer_from descr of
          Inl e \<Rightarrow> dec_fail e
        | Inr a \<Rightarrow> dec_return \<lparr>fd_name = name, fd_type = field_type_of type, fd_indexed = indexed \<noteq> 0,
                              fd_stored = stored \<noteq> 0, fd_boost = boost, fd_analyzer = a\<rparr>)"

record segment_slice =
  sl_bytes :: bytes
  sl_count :: u64

definition read_schema :: "segment_read_limits \<Rightarrow> segment_slice \<Rightarrow> (segment_error, schema) result" where
  "read_schema limits sl =
     (case dec_all (corrupt ''trailing schema data'')
        (dec_bind (dec_catch (corrupt ''invalid segment schema count'')
          (dec_bind seg_u64 (\<lambda>fingerprint. dec_bind seg_u64 (\<lambda>count.
             if count \<noteq> sl_count sl then dec_fail (corrupt ''invalid segment schema count'')
             else dec_return (fingerprint, count)))))
         (\<lambda>(fingerprint, count).
            if count > rl_maximum_fields limits then dec_fail (over_limit ''segment schema field limit exceeded'')
            else dec_bind (dec_times (unat count)
                   (\<lambda>ds. dec_bind (read_field limits) (\<lambda>d. dec_return (ds @ [d]))) [])
                 (\<lambda>ds. dec_return (fingerprint, ds)))) (sl_bytes sl) of
        Inl e \<Rightarrow> Inl e
      | Inr (fingerprint, ds) \<Rightarrow>
          (case schema_create ds of
             Inl e \<Rightarrow> Inl (corrupt (se_message e))
           | Inr schema \<Rightarrow>
               if schema_fingerprint schema \<noteq> fingerprint then Inl (corrupt ''schema fingerprint mismatch'')
               else Inr schema))"

end
