(* ===== verification/Segment_Reader.thy ===== *)
theory Segment_Reader
  imports Segment
begin

text \<open>
  \<^verbatim>\<open>SegmentReader\<close>: the sections after the schema, the header and the directory, the methods of the
  reader, its self check, and \<^verbatim>\<open>SegmentWriter::write\<close>, which opens what it has written before it
  publishes it.
\<close>

section \<open>Reading: documents and statistics\<close>

definition read_pair :: "segment_read_limits \<Rightarrow> (segment_error, string \<times> string) decoder" where
  "read_pair limits =
     dec_bind (seg_string limits) (\<lambda>key. dec_bind (seg_string limits) (\<lambda>v. dec_return (key, v)))"

definition read_string_map :: "segment_read_limits \<Rightarrow> u64 \<Rightarrow> (segment_error, (string, string) omap) decoder" where
  "read_string_map limits maximum = dec_bind seg_u64 (\<lambda>count.
     if count > maximum then dec_fail (over_limit ''segment map count limit exceeded'')
     else dec_times (unat count) (\<lambda>m. dec_bind (read_pair limits) (\<lambda>e.
            let (m', fresh) = om_emplace (fst e) (snd e) m
            in if fresh then dec_return m' else dec_fail (corrupt ''duplicate segment map key''))) [])"

definition read_count :: "u64 \<Rightarrow> string \<Rightarrow> (segment_error, u64) decoder" where
  "read_count maximum message = dec_catch (over_limit message) (dec_bind seg_u64 (\<lambda>count.
     if count > maximum then dec_fail (over_limit message) else dec_return count))"

definition read_length :: "segment_read_limits \<Rightarrow> (segment_error, string \<times> u32) decoder" where
  "read_length limits = dec_catch (corrupt ''invalid field length record'')
     (dec_bind (seg_string limits) (\<lambda>field. dec_bind seg_u32 (\<lambda>len. dec_return (field, len))))"

definition read_references :: "segment_read_limits \<Rightarrow> (segment_error, string \<times> string list) decoder" where
  "read_references limits =
     dec_bind (dec_catch (over_limit ''indexed term count exceeded'')
       (dec_bind (seg_string limits) (\<lambda>field. dec_bind seg_u64 (\<lambda>count.
          if count > rl_maximum_terms limits then dec_fail (over_limit ''indexed term count exceeded'')
          else dec_return (field, count)))))
     (\<lambda>(field, count).
        dec_bind (dec_times (unat count) (\<lambda>ts. dec_bind (seg_string limits) (\<lambda>t. dec_return (ts @ [t]))) [])
          (\<lambda>terms. dec_return (field, terms)))"

definition read_header ::
  "segment_read_limits \<Rightarrow> (segment_error, internal_document_id \<times> document_id \<times> u64 \<times> u8) decoder" where
  "read_header limits = dec_catch (corrupt ''invalid segment document header'')
     (dec_bind seg_u32 (\<lambda>internal. dec_bind (seg_string limits) (\<lambda>external. dec_bind seg_u64 (\<lambda>version.
      dec_bind seg_u8 (\<lambda>deleted.
        if internal = 0 \<or> external = [] \<or> deleted > 1
        then dec_fail (corrupt ''invalid segment document header'')
        else dec_return (internal, external, version, deleted))))))"

definition read_record :: "segment_read_limits \<Rightarrow> (segment_error, document_record) decoder" where
  "read_record limits = dec_bind (read_header limits) (\<lambda>(internal, external, version, deleted).
     dec_bind (read_string_map limits (rl_maximum_fields limits)) (\<lambda>flds.
     dec_bind (read_string_map limits (rl_maximum_fields limits)) (\<lambda>metadata.
     dec_bind (read_count (rl_maximum_fields limits) ''field length count exceeded'') (\<lambda>length_count.
     dec_bind (dec_times (unat length_count) (\<lambda>m. dec_bind (read_length limits) (\<lambda>e.
            let (m', fresh) = om_emplace (fst e) (snd e) m
            in if fresh then dec_return m' else dec_fail (corrupt ''invalid field length record''))) []) (\<lambda>lengths.
     dec_bind (read_count (rl_maximum_fields limits) ''indexed field count exceeded'') (\<lambda>indexed_count.
     dec_bind (dec_times (unat indexed_count) (\<lambda>m. dec_bind (read_references limits) (\<lambda>e.
            let (m', fresh) = om_emplace (fst e) (snd e) m
            in if fresh then dec_return m' else dec_fail (corrupt ''duplicate indexed field''))) []) (\<lambda>references.
     dec_return
       \<lparr>dr_internal_id = internal,
        dr_document = \<lparr>doc_id = external, doc_fields = flds, doc_metadata = metadata, doc_version = version,
                       doc_deleted = (deleted \<noteq> 0)\<rparr>,
        dr_field_lengths = lengths, dr_indexed_terms = references\<rparr>)))))))"

definition add_record ::
  "document_record \<Rightarrow> document_records \<times> external_id_map \<Rightarrow>
   (segment_error, document_records \<times> external_id_map) decoder" where
  "add_record r = (\<lambda>(documents, external_ids).
     let (external_ids', fresh) = om_emplace (dr_internal_id r) (doc_id (dr_document r)) external_ids;
         (documents', fresh') = om_emplace (doc_id (dr_document r)) r documents
     in if \<not> fresh \<or> \<not> fresh' then dec_fail (corrupt ''duplicate segment document ID'')
        else dec_return (documents', external_ids'))"

definition read_documents_section ::
  "segment_read_limits \<Rightarrow> segment_slice \<Rightarrow> (segment_error, document_records \<times> external_id_map) result" where
  "read_documents_section limits sl =
     dec_all (corrupt ''trailing document data'')
       (dec_bind (dec_catch (over_limit ''invalid segment document count'') (dec_bind seg_u64 (\<lambda>count.
          if count \<noteq> sl_count sl \<or> count > rl_maximum_documents limits
          then dec_fail (over_limit ''invalid segment document count'') else dec_return count)))
        (\<lambda>count. dec_times (unat count) (\<lambda>st. dec_bind (read_record limits) (\<lambda>r. add_record r st)) ([], [])))
       (sl_bytes sl)"

definition read_statistic :: "segment_read_limits \<Rightarrow> (segment_error, string \<times> field_statistics) decoder" where
  "read_statistic limits = dec_catch (corrupt ''invalid field statistics'')
     (dec_bind (seg_string limits) (\<lambda>field. dec_bind seg_u64 (\<lambda>count. dec_bind seg_u64 (\<lambda>total.
        if count = 0 then dec_fail (corrupt ''invalid field statistics'')
        else dec_return (field, statistics_of \<lparr>fa_count = count, fa_total = total\<rparr>)))))"

definition read_statistics_section ::
  "segment_read_limits \<Rightarrow> segment_slice \<Rightarrow> (segment_error, (string, field_statistics) omap) result" where
  "read_statistics_section limits sl =
     dec_all (corrupt ''trailing statistics data'')
       (dec_bind (dec_catch (over_limit ''invalid statistics count'') (dec_bind seg_u64 (\<lambda>count.
          if count \<noteq> sl_count sl \<or> count > rl_maximum_fields limits
          then dec_fail (over_limit ''invalid statistics count'') else dec_return count)))
        (\<lambda>count. dec_times (unat count) (\<lambda>m. dec_bind (read_statistic limits) (\<lambda>e.
            let (m', fresh) = om_emplace (fst e) (snd e) m
            in if fresh then dec_return m' else dec_fail (corrupt ''invalid field statistics''))) []))
       (sl_bytes sl)"

section \<open>Reading: positions, postings and terms\<close>

definition read_positions ::
  "segment_read_limits \<Rightarrow> bool \<Rightarrow> segment_slice \<Rightarrow> (segment_error, u32 list) result" where
  "read_positions limits compressed sl =
     (if sl_count sl > rl_maximum_positions limits \<or>
         \<not> compressed \<and> (unat (sl_count sl) > (2 ^ 64 - 1) div 4 \<or> length (sl_bytes sl) \<noteq> unat (sl_count sl * 4)) \<or>
         compressed \<and> sl_bytes sl \<noteq> []
      then Inl (over_limit ''invalid position section size'')
      else if compressed then Inr []
      else map_sum id fst (dec_times (unat (sl_count sl))
             (\<lambda>ps. dec_bind seg_u32 (\<lambda>p. dec_return (ps @ [p]))) [] (sl_bytes sl)))"

record raw_posting =
  rp_document :: u32
  rp_frequency :: u32
  rp_start :: u64
  rp_count :: u64

definition read_raw_posting :: "nat \<Rightarrow> (segment_error, raw_posting) decoder" where
  "read_raw_posting positions = dec_catch (corrupt ''invalid posting record'')
     (dec_bind seg_u32 (\<lambda>document. dec_bind seg_u32 (\<lambda>frequency. dec_bind seg_u64 (\<lambda>start. dec_bind seg_u64 (\<lambda>count.
        if ucast frequency \<noteq> count \<or> unat start > positions \<or> unat count > positions - unat start
        then dec_fail (corrupt ''invalid posting record'')
        else dec_return \<lparr>rp_document = document, rp_frequency = frequency, rp_start = start, rp_count = count\<rparr>)))))"

definition read_raw_postings ::
  "segment_read_limits \<Rightarrow> bool \<Rightarrow> nat \<Rightarrow> segment_slice \<Rightarrow> (segment_error, raw_posting list) result" where
  "read_raw_postings limits compressed positions sl =
     (if sl_count sl > rl_maximum_postings limits \<or>
         \<not> compressed \<and> (unat (sl_count sl) > (2 ^ 64 - 1) div 24 \<or> length (sl_bytes sl) \<noteq> unat (sl_count sl * 24))
      then Inl (over_limit ''invalid posting section size'')
      else if compressed then Inr []
      else map_sum id fst (dec_times (unat (sl_count sl))
             (\<lambda>ps. dec_bind (read_raw_posting positions) (\<lambda>p. dec_return (ps @ [p]))) [] (sl_bytes sl)))"

text \<open>
  The state of the loop over the terms: the dictionaries, and for compressed postings the numbers of
  decoded postings and positions and the expected offset.
\<close>

record term_state =
  tms_fields :: field_dictionaries
  tms_posting_count :: u64
  tms_position_count :: u64
  tms_offset :: u64

record term_header =
  th_field :: string
  th_term :: string
  th_frequency :: u32
  th_start :: u64
  th_count :: u64

definition read_term_header :: "segment_read_limits \<Rightarrow> (segment_error, term_header) decoder" where
  "read_term_header limits = dec_catch (corrupt ''invalid term record'')
     (dec_bind (seg_string limits) (\<lambda>field. dec_bind (seg_string limits) (\<lambda>trm. dec_bind seg_u32 (\<lambda>frequency.
      dec_bind seg_u32 (\<lambda>reserved. dec_bind seg_u64 (\<lambda>start. dec_bind seg_u64 (\<lambda>count.
        if reserved \<noteq> 0 \<or> trm = [] \<or> frequency = 0 then dec_fail (corrupt ''invalid term record'')
        else dec_return \<lparr>th_field = field, th_term = trm, th_frequency = frequency, th_start = start,
                         th_count = count\<rparr>)))))))"

text \<open>The positions of a compressed posting: the position before, and the positions so far.\<close>

definition read_compressed_position :: "u32 \<times> u32 list \<Rightarrow> (segment_error, u32 \<times> u32 list) decoder" where
  "read_compressed_position = (\<lambda>(previous, ps).
     dec_catch (corrupt ''invalid compressed position'') (dec_bind (dec_catch (corrupt []) varbyte_decode) (\<lambda>delta.
       if (ps \<noteq> [] \<and> delta = 0) \<or> delta > - 1 - previous
       then dec_fail (corrupt ''invalid compressed position'')
       else dec_return (previous + delta, ps @ [previous + delta]))))"

record compressed_state =
  cst_document :: u32
  cst_postings :: "posting list"
  cst_posting_count :: u64
  cst_position_count :: u64

definition read_compressed_posting ::
  "segment_read_limits \<Rightarrow> compressed_state \<Rightarrow> (segment_error, compressed_state) decoder" where
  "read_compressed_posting limits st =
     dec_bind (dec_catch (corrupt ''invalid compressed posting'')
       (dec_bind (dec_catch (corrupt []) varbyte_decode) (\<lambda>delta.
        dec_bind (dec_catch (corrupt []) varbyte_decode) (\<lambda>frequency.
          if delta = 0 \<or> delta > - 1 - cst_document st \<or> frequency = 0 \<or>
             cst_position_count st > rl_maximum_positions limits \<or>
             ucast frequency > rl_maximum_positions limits - cst_position_count st
          then dec_fail (corrupt ''invalid compressed posting'')
          else dec_return (cst_document st + delta, frequency)))))
     (\<lambda>(document, frequency).
        dec_bind (dec_times (unat frequency) read_compressed_position (0, [])) (\<lambda>(previous, ps).
          dec_return (st\<lparr>cst_document := document,
                         cst_postings := cst_postings st @ [\<lparr>p_doc = document, p_tf = frequency, p_positions = ps\<rparr>],
                         cst_posting_count := cst_posting_count st + 1,
                         cst_position_count := cst_position_count st + ucast frequency\<rparr>)))"

definition compressed_entry ::
  "segment_read_limits \<Rightarrow> bytes \<Rightarrow> term_header \<Rightarrow> term_state \<Rightarrow> (segment_error, term_entry \<times> term_state) result" where
  "compressed_entry limits posting_bytes h st =
     (if th_start h \<noteq> tms_offset st \<or> unat (th_start h) > length posting_bytes \<or>
         unat (th_count h) > length posting_bytes - unat (th_start h)
      then Inl (corrupt ''invalid compressed posting range'')
      else case dec_times (unat (th_frequency h)) (read_compressed_posting limits)
                  \<lparr>cst_document = 0, cst_postings = [], cst_posting_count = tms_posting_count st,
                   cst_position_count = tms_position_count st\<rparr>
                  (take (unat (th_count h)) (drop (unat (th_start h)) posting_bytes)) of
             Inl e \<Rightarrow> Inl e
           | Inr (cs, rest) \<Rightarrow>
               if rest \<noteq> [] then Inl (corrupt ''trailing compressed posting bytes'')
               else if th_count h > - 1 - tms_offset st then Inl (corrupt ''compressed posting offset overflow'')
               else Inr (\<lparr>te_df = th_frequency h, te_postings = cst_postings cs\<rparr>,
                         st\<lparr>tms_posting_count := cst_posting_count cs, tms_position_count := cst_position_count cs,
                            tms_offset := tms_offset st + th_count h\<rparr>))"

definition raw_to_posting :: "u32 list \<Rightarrow> raw_posting \<Rightarrow> posting" where
  "raw_to_posting positions raw =
     \<lparr>p_doc = rp_document raw, p_tf = rp_frequency raw,
      p_positions = take (unat (rp_count raw)) (drop (unat (rp_start raw)) positions)\<rparr>"

definition raw_entry ::
  "u32 list \<Rightarrow> raw_posting list \<Rightarrow> term_header \<Rightarrow> (segment_error, term_entry) result" where
  "raw_entry positions raws h =
     (if ucast (th_frequency h) \<noteq> th_count h \<or> unat (th_start h) > length raws \<or>
         unat (th_count h) > length raws - unat (th_start h)
      then Inl (corrupt ''invalid term posting range'')
      else Inr \<lparr>te_df = th_frequency h,
                te_postings = map (\<lambda>j. raw_to_posting positions (raws ! (unat (th_start h) + j))) [0..<unat (th_count h)]\<rparr>)"

definition add_term :: "term_header \<Rightarrow> term_entry \<Rightarrow> term_state \<Rightarrow> (segment_error, term_state) result" where
  "add_term h entry st =
     (let (dictionary, fresh) = om_emplace (th_term h) entry (om_get [] (tms_fields st) (th_field h))
      in if \<not> fresh then Inl (corrupt ''duplicate segment term'')
         else Inr (st\<lparr>tms_fields := om_assign (th_field h) dictionary (tms_fields st)\<rparr>))"

definition read_term ::
  "segment_read_limits \<Rightarrow> bool \<Rightarrow> u32 list \<Rightarrow> raw_posting list \<Rightarrow> bytes \<Rightarrow> term_state \<Rightarrow>
   (segment_error, term_state) decoder" where
  "read_term limits compressed positions raws posting_bytes st =
     dec_bind (read_term_header limits) (\<lambda>h.
       case (if compressed then compressed_entry limits posting_bytes h st
             else map_sum id (\<lambda>entry. (entry, st)) (raw_entry positions raws h)) of
         Inl e \<Rightarrow> dec_fail e
       | Inr (entry, st1) \<Rightarrow> (case add_term h entry st1 of Inl e \<Rightarrow> dec_fail e | Inr st2 \<Rightarrow> dec_return st2))"

definition read_dictionaries ::
  "segment_read_limits \<Rightarrow> bool \<Rightarrow> segment_slice \<Rightarrow> segment_slice \<Rightarrow> segment_slice \<Rightarrow>
   (segment_error, field_dictionaries) result" where
  "read_dictionaries limits compressed term_slice posting_slice position_slice =
     (case read_positions limits compressed position_slice of
        Inl e \<Rightarrow> Inl e
      | Inr positions \<Rightarrow>
          (case read_raw_postings limits compressed (length positions) posting_slice of
             Inl e \<Rightarrow> Inl e
           | Inr raws \<Rightarrow>
               if sl_count term_slice > rl_maximum_terms limits then Inl (over_limit ''term count limit exceeded'')
               else case dec_times (unat (sl_count term_slice))
                           (read_term limits compressed positions raws (sl_bytes posting_slice))
                           \<lparr>tms_fields = [], tms_posting_count = 0, tms_position_count = 0, tms_offset = 0\<rparr>
                           (sl_bytes term_slice) of
                      Inl e \<Rightarrow> Inl e
                    | Inr (st, rest) \<Rightarrow>
                        if compressed \<and> (unat (tms_offset st) \<noteq> length (sl_bytes posting_slice) \<or>
                             tms_posting_count st \<noteq> sl_count posting_slice \<or>
                             tms_position_count st \<noteq> sl_count position_slice)
                        then Inl (corrupt ''compressed section count mismatch'')
                        else if rest \<noteq> [] then Inl (corrupt ''trailing term data'')
                        else Inr (tms_fields st)))"

section \<open>The methods of the reader\<close>

definition reader_lookup :: "segment_reader \<Rightarrow> string \<Rightarrow> string \<Rightarrow> term_entry option" where
  "reader_lookup s field trm =
     (case map_of (sgr_fields s) field of None \<Rightarrow> None | Some dictionary \<Rightarrow> map_of dictionary trm)"

definition reader_document :: "segment_reader \<Rightarrow> document_id \<Rightarrow> document_record option" where
  "reader_document s did = map_of (sgr_documents s) did"

definition reader_external_id :: "segment_reader \<Rightarrow> internal_document_id \<Rightarrow> document_id option" where
  "reader_external_id s i = map_of (sgr_external_ids s) i"

definition reader_document_internal :: "segment_reader \<Rightarrow> internal_document_id \<Rightarrow> document_record option" where
  "reader_document_internal s i =
     (case reader_external_id s i of None \<Rightarrow> None | Some external \<Rightarrow> reader_document s external)"

definition reader_internal_id :: "segment_reader \<Rightarrow> document_id \<Rightarrow> internal_document_id option" where
  "reader_internal_id s did = map_option dr_internal_id (reader_document s did)"

definition reader_live_document_ids :: "segment_reader \<Rightarrow> internal_document_id list" where
  "reader_live_document_ids s =
     map fst (filter (\<lambda>(i, external). case reader_document s external of
                        None \<Rightarrow> False | Some r \<Rightarrow> \<not> doc_deleted (dr_document r)) (sgr_external_ids s))"

definition reader_live_document_count :: "segment_reader \<Rightarrow> nat" where
  "reader_live_document_count s = length (filter (\<lambda>(did, r). \<not> doc_deleted (dr_document r)) (sgr_documents s))"

definition reader_field_statistics :: "segment_reader \<Rightarrow> string \<Rightarrow> field_statistics" where
  "reader_field_statistics s field =
     (case map_of (sgr_statistics s) field of
        None \<Rightarrow> \<lparr>fs_count = 0, fs_total = 0, fs_average = fp_zero\<rparr>
      | Some st \<Rightarrow> st)"

end
