(* ===== verification/Segment_File.thy ===== *)
theory Segment_File
  imports Segment_Reader
begin

text \<open>
  The self check of an opened segment, the header and the directory, \<^verbatim>\<open>SegmentReader::open\<close> and
  \<^verbatim>\<open>SegmentWriter::write\<close>.

  The self check searches the term references of a document before it has tested that they are
  sorted, so the binary search is modelled by the bisection it performs (\<open>bisect\<close>): what it finds
  is in the list whether the list is sorted or not, and on a sorted list it finds every element.
\<close>

section \<open>Binary search\<close>

text \<open>\<^verbatim>\<open>std::ranges::lower_bound\<close> by bisection, over the \<open>len\<close> elements from \<open>first\<close>.\<close>

function bisect :: "('a \<Rightarrow> 'k::linorder) \<Rightarrow> 'k \<Rightarrow> 'a list \<Rightarrow> nat \<Rightarrow> nat \<Rightarrow> nat" where
  "bisect key x xs first len =
     (if len = 0 then first
      else let half = len div 2; mid = first + half
           in if key (xs ! mid) < x then bisect key x xs (mid + 1) (len - half - 1)
              else bisect key x xs first half)"
  by pat_completeness auto
termination
  by (relation "measure (\<lambda>(key, x, xs, first, len). len)") auto

declare bisect.simps [simp del]

definition binary_search :: "('a \<Rightarrow> 'k::linorder) \<Rightarrow> 'k \<Rightarrow> 'a list \<Rightarrow> bool" where
  "binary_search key x xs =
     (let i = bisect key x xs 0 (length xs) in i < length xs \<and> \<not> x < key (xs ! i))"

section \<open>The self check\<close>

definition check_reader_posting ::
  "segment_reader \<Rightarrow> string \<Rightarrow> string \<Rightarrow> posting \<Rightarrow> unit \<Rightarrow> (string, unit) result" where
  "check_reader_posting s field trm p u =
     (case reader_document_internal s (p_doc p) of
        None \<Rightarrow> Inl ''invalid posting''
      | Some r \<Rightarrow>
          if doc_deleted (dr_document r) \<or> p_tf p = 0 \<or> unat (p_tf p) \<noteq> length (p_positions p) \<or>
             \<not> sorted (p_positions p) \<or> \<not> no_adjacent_equal (p_positions p) \<or>
             \<not> om_contains (dr_field_lengths r) field
          then Inl ''invalid posting''
          else case map_of (dr_indexed_terms r) field of
                 None \<Rightarrow> Inl ''posting absent from document term references''
               | Some terms \<Rightarrow>
                   if binary_search id trm terms then Inr ()
                   else Inl ''posting absent from document term references'')"

definition check_reader_entry ::
  "segment_reader \<Rightarrow> string \<Rightarrow> string \<times> term_entry \<Rightarrow> unit \<Rightarrow> (string, unit) result" where
  "check_reader_entry s field = (\<lambda>(trm, entry) u.
     if schema_find (sgr_schema s) field = None \<or> trm = [] \<or> unat (te_df entry) \<noteq> length (te_postings entry) \<or>
        \<not> sorted (map p_doc (te_postings entry)) \<or> \<not> no_adjacent_equal (map p_doc (te_postings entry))
     then Inl ''invalid term entry''
     else fold_result (check_reader_posting s field trm) (te_postings entry) ())"

definition check_known :: "segment_reader \<Rightarrow> string \<Rightarrow> string \<times> 'v \<Rightarrow> unit \<Rightarrow> (string, unit) result" where
  "check_known s message = (\<lambda>(field, v) u.
     if schema_find (sgr_schema s) field = None then Inl message else Inr ())"

definition check_length ::
  "segment_reader \<Rightarrow> string \<times> u32 \<Rightarrow> (string, field_accumulator) omap \<Rightarrow>
   (string, (string, field_accumulator) omap) result" where
  "check_length s = (\<lambda>(field, len) expected.
     if schema_find (sgr_schema s) field = None then Inl ''length references unknown field''
     else Inr (insert_length (field, len) expected))"

definition check_reference ::
  "segment_reader \<Rightarrow> document_record \<Rightarrow> string \<Rightarrow> string \<Rightarrow> unit \<Rightarrow> (string, unit) result" where
  "check_reference s r field trm u =
     (case reader_lookup s field trm of
        None \<Rightarrow> Inl ''document term reference has no posting''
      | Some entry \<Rightarrow>
          if binary_search p_doc (dr_internal_id r) (te_postings entry) then Inr ()
          else Inl ''document term reference has no posting'')"

definition check_references ::
  "segment_reader \<Rightarrow> document_record \<Rightarrow> string \<times> string list \<Rightarrow> unit \<Rightarrow> (string, unit) result" where
  "check_references s r = (\<lambda>(field, terms) u.
     if \<not> sorted terms \<or> \<not> no_adjacent_equal terms then Inl ''invalid document term references''
     else fold_result (check_reference s r field) terms ())"

definition check_reader_record ::
  "segment_reader \<Rightarrow> document_id \<times> document_record \<Rightarrow> (string, field_accumulator) omap \<Rightarrow>
   (string, (string, field_accumulator) omap) result" where
  "check_reader_record s = (\<lambda>(did, r) expected.
     if did \<noteq> doc_id (dr_document r) \<or> map_of (sgr_external_ids s) (dr_internal_id r) \<noteq> Some did \<or>
        doc_deleted (dr_document r) \<and> (dr_field_lengths r \<noteq> [] \<or> dr_indexed_terms r \<noteq> [])
     then Inl ''invalid document record''
     else case fold_result (check_known s ''document references unknown field'') (doc_fields (dr_document r)) () of
            Inl e \<Rightarrow> Inl e
          | Inr _ \<Rightarrow>
              (case fold_result (check_known s ''metadata references unknown field'')
                      (doc_metadata (dr_document r)) () of
                 Inl e \<Rightarrow> Inl e
               | Inr _ \<Rightarrow>
                   if doc_deleted (dr_document r) then Inr expected
                   else case fold_result (check_length s) (dr_field_lengths r) expected of
                          Inl e \<Rightarrow> Inl e
                        | Inr expected' \<Rightarrow>
                            (case fold_result (check_references s r) (dr_indexed_terms r) () of
                               Inl e \<Rightarrow> Inl e
                             | Inr _ \<Rightarrow> Inr expected')))"

definition check_statistic ::
  "segment_reader \<Rightarrow> string \<times> field_accumulator \<Rightarrow> unit \<Rightarrow> (string, unit) result" where
  "check_statistic s = (\<lambda>(field, expected) u.
     case map_of (sgr_statistics s) field of
       None \<Rightarrow> Inl ''field statistics mismatch''
     | Some st \<Rightarrow> if fs_count st \<noteq> fa_count expected \<or> fs_total st \<noteq> fa_total expected
                then Inl ''field statistics mismatch'' else Inr ())"

definition reader_validate_invariants :: "segment_reader \<Rightarrow> (string, unit) result" where
  "reader_validate_invariants s =
     (case fold_result (\<lambda>(field, dictionary). fold_result (check_reader_entry s field) dictionary) (sgr_fields s) () of
        Inl e \<Rightarrow> Inl e
      | Inr _ \<Rightarrow>
          if length (sgr_external_ids s) \<noteq> length (sgr_documents s) then Inl ''document mapping size mismatch''
          else case fold_result (check_reader_record s) (sgr_documents s) [] of
                 Inl e \<Rightarrow> Inl e
               | Inr expected \<Rightarrow>
                   if length expected \<noteq> length (sgr_statistics s) then Inl ''field statistics size mismatch''
                   else fold_result (check_statistic s) expected ())"

section \<open>Opening\<close>

record segment_header =
  sh_segment_id :: u64
  sh_compressed :: bool

definition read_segment_header :: "bytes \<Rightarrow> (segment_error, segment_header) result" where
  "read_segment_header bs =
     (if take 8 bs \<noteq> segment_magic then Inl (corrupt ''invalid segment magic'')
      else case dec_catch (corrupt ''truncated segment header'')
             (dec_bind seg_u16 (\<lambda>major. dec_bind seg_u16 (\<lambda>minor. dec_bind seg_u32 (\<lambda>header_size.
              dec_bind seg_u64 (\<lambda>recorded_size. dec_bind seg_u64 (\<lambda>segment_id. dec_bind seg_u32 (\<lambda>section_count.
              dec_bind seg_u32 (\<lambda>flags. dec_bind seg_u32 (\<lambda>checksum.
                dec_return (major, minor, header_size, recorded_size, segment_id, section_count, flags, checksum))))))))))
             (take 56 (drop 8 bs)) of
             Inl e \<Rightarrow> Inl e
           | Inr ((major, minor, header_size, recorded_size, segment_id, section_count, flags, checksum), _) \<Rightarrow>
               if major \<noteq> 1 then Inl (seg_fail Seg_unsupported_version ''unsupported segment major version'')
               else if minor > 1 \<or> flags AND NOT 1 \<noteq> 0 \<or> (flags AND 1 \<noteq> 0 \<and> minor < 1)
               then Inl (seg_fail Seg_unsupported_version ''unsupported segment features'')
               else if header_size \<noteq> 64 \<or> unat recorded_size \<noteq> length bs \<or> segment_id = 0 \<or> section_count \<noteq> 6
               then Inl (corrupt ''invalid segment header values'')
               else if list_ex (\<lambda>b. b \<noteq> 0) (take 20 (drop 44 bs)) then Inl (corrupt ''nonzero reserved header bytes'')
               else if crc32c (drop 64 bs) \<noteq> checksum then Inl (corrupt ''segment checksum mismatch'')
               else Inr \<lparr>sh_segment_id = segment_id, sh_compressed = flags AND 1 \<noteq> 0\<rparr>)"

text \<open>One round of the loop over the directory: the index, the expected offset and the slices so far.\<close>

definition read_directory_entry ::
  "bytes \<Rightarrow> u32 \<times> u64 \<times> segment_slice list \<Rightarrow> (segment_error, u32 \<times> u64 \<times> segment_slice list) decoder" where
  "read_directory_entry file = (\<lambda>(index, expected_offset, slices).
     dec_catch (corrupt ''invalid segment section directory'')
       (dec_bind seg_u32 (\<lambda>type. dec_bind seg_u32 (\<lambda>reserved. dec_bind seg_u64 (\<lambda>offset.
        dec_bind seg_u64 (\<lambda>len. dec_bind seg_u64 (\<lambda>count.
          if reserved \<noteq> 0 \<or> type \<noteq> index + 1 \<or> offset \<noteq> expected_offset \<or> len > of_nat (length file) - offset
          then dec_fail (corrupt ''invalid segment section directory'')
          else dec_return (index + 1, expected_offset + len,
                 slices @ [\<lparr>sl_bytes = take (unat len) (drop (unat offset) file), sl_count = count\<rparr>]))))))))"

definition read_directory :: "bytes \<Rightarrow> (segment_error, segment_slice list) result" where
  "read_directory file =
     (case dec_times 6 (read_directory_entry file) (0, 64 + 6 * 32, []) (take (6 * 32) (drop 64 file)) of
        Inl e \<Rightarrow> Inl e
      | Inr ((index, expected_offset, slices), _) \<Rightarrow>
          if unat expected_offset \<noteq> length file then Inl (corrupt ''trailing or missing segment section bytes'')
          else Inr slices)"

definition read_sections ::
  "segment_read_limits \<Rightarrow> segment_header \<Rightarrow> segment_slice list \<Rightarrow> (segment_error, segment_reader) result" where
  "read_sections limits h slices =
     (case read_schema limits (slices ! 0) of
        Inl e \<Rightarrow> Inl e
      | Inr schema \<Rightarrow>
          (case read_documents_section limits (slices ! 1) of
             Inl e \<Rightarrow> Inl e
           | Inr (documents, external_ids) \<Rightarrow>
               (case read_statistics_section limits (slices ! 2) of
                  Inl e \<Rightarrow> Inl e
                | Inr statistics \<Rightarrow>
                    (case read_dictionaries limits (sh_compressed h) (slices ! 3) (slices ! 4) (slices ! 5) of
                       Inl e \<Rightarrow> Inl e
                     | Inr dictionaries \<Rightarrow>
                         (let reader = \<lparr>sgr_segment_id = sh_segment_id h, sgr_schema = schema,
                                        sgr_fields = dictionaries, sgr_documents = documents,
                                        sgr_external_ids = external_ids, sgr_statistics = statistics\<rparr>
                          in case reader_validate_invariants reader of
                               Inl reason \<Rightarrow> Inl (corrupt (''segment invariant failed: '' @ reason))
                             | Inr _ \<Rightarrow> Inr reader)))))"

definition segment_decode :: "segment_read_limits \<Rightarrow> bytes \<Rightarrow> (segment_error, segment_reader) result" where
  "segment_decode limits file =
     (case read_segment_header file of
        Inl e \<Rightarrow> Inl e
      | Inr h \<Rightarrow> (case read_directory file of Inl e \<Rightarrow> Inl e | Inr slices \<Rightarrow> read_sections limits h slices))"

text \<open>
  \<open>Stat_failed\<close>: the size of the file cannot be determined, in particular when there is none;
  \<open>Read_failed\<close>: the file cannot be opened or read.
\<close>

datatype open_io = Open_ok | Stat_failed string | Read_failed

definition segment_open ::
  "open_io \<Rightarrow> segment_read_limits \<Rightarrow> bytes option \<Rightarrow> (segment_error, segment_reader) result" where
  "segment_open io limits file =
     (case (io, file) of
        (Stat_failed message, _) \<Rightarrow> Inl (seg_fail Seg_io_error (''cannot stat segment: '' @ message))
      | (_, None) \<Rightarrow> Inl (seg_fail Seg_io_error ''cannot stat segment: No such file or directory'')
      | (_, Some bs) \<Rightarrow>
          if length bs > unat (rl_maximum_file_bytes limits)
          then Inl (over_limit ''segment file size limit exceeded'')
          else if length bs < 64 + 6 * 32 then Inl (corrupt ''segment is shorter than its header'')
          else if io = Read_failed then Inl (seg_fail Seg_io_error ''cannot read segment'')
          else segment_decode limits bs)"

section \<open>Writing\<close>

type_synonym files = "string \<Rightarrow> bytes option"

datatype path_sync = Path_synced | Path_open_failed | Path_fsync_failed string

definition sync_path :: "path_sync \<Rightarrow> (segment_error, unit) result" where
  "sync_path io =
     (case io of
        Path_synced \<Rightarrow> Inr ()
      | Path_open_failed \<Rightarrow> Inl (seg_fail Seg_io_error ''cannot open path for fsync'')
      | Path_fsync_failed message \<Rightarrow> Inl (seg_fail Seg_io_error (''fsync failed: '' @ message)))"

text \<open>
  What the operating system answers to \<^verbatim>\<open>write\<close>. \<open>wio_write = Some n\<close>: the stream reports an error when
  \<open>n\<close> bytes have reached the temporary file. \<open>wio_remove\<close>: whether removing the temporary file succeeds,
  which the sources ignore.
\<close>

record write_io =
  wio_create :: bool
  wio_write :: "nat option"
  wio_sync :: path_sync
  wio_verify :: open_io
  wio_rename :: "string option"
  wio_remove :: bool
  wio_directory_sync :: path_sync

definition discard :: "write_io \<Rightarrow> string \<Rightarrow> files \<Rightarrow> files" where
  "discard io temporary fs = (if wio_remove io then fs(temporary := None) else fs)"

definition segment_write ::
  "write_io \<Rightarrow> string \<Rightarrow> index_snapshot \<Rightarrow> segment_write_options \<Rightarrow> files \<Rightarrow>
   (segment_error, unit) result \<times> files" where
  "segment_write io path sn options fs =
     (if path = [] \<or> wo_segment_id options = 0
      then (Inl (seg_fail Seg_invalid_snapshot ''segment path and ID must be non-empty''), fs)
      else let file = segment_bytes sn options; temporary = path @ ''.tmp''
      in if \<not> wio_create io then (Inl (seg_fail Seg_io_error ''cannot create temporary segment''), fs)
      else case wio_write io of
        Some n \<Rightarrow> (Inl (seg_fail Seg_io_error ''cannot write temporary segment''),
                   discard io temporary (fs(temporary \<mapsto> take n file)))
      | None \<Rightarrow>
          let fs1 = fs(temporary \<mapsto> file)
          in case sync_path (wio_sync io) of
               Inl e \<Rightarrow> (Inl e, discard io temporary fs1)
             | Inr _ \<Rightarrow>
                 (case segment_open (wio_verify io) default_read_limits (fs1 temporary) of
                    Inl e \<Rightarrow>
                      (Inl (seg_fail Seg_invalid_snapshot (''serialized snapshot failed validation: '' @ sge_message e)),
                       discard io temporary fs1)
                  | Inr _ \<Rightarrow>
                      (case wio_rename io of
                         Some message \<Rightarrow> (Inl (seg_fail Seg_io_error (''cannot publish segment: '' @ message)),
                                         discard io temporary fs1)
                       | None \<Rightarrow> (sync_path (wio_directory_sync io), fs1(path \<mapsto> file, temporary := None)))))"

end
