(* ===== verification/Segment_Proofs.thy ===== *)
theory Segment_Proofs
  imports Segment_File View
begin

text \<open>
  Reading back what the segment writer wrote, section by section: each lemma says what a decoder of
  theory \<open>Segment\<close> or \<open>Segment_Reader\<close> returns on the bytes its encoder produced. \<open>fits\<close> collects the
  limits under which the reader accepts a snapshot.
\<close>

section \<open>Strings and maps\<close>

lemma unat_u64_of_nat: "n \<le> unat (limit :: u64) \<Longrightarrow> unat (of_nat n :: u64) = n"
  using unat_u64_less [of limit] by (simp add: unat_of_nat_small)

lemma u64_of_nat_le: "n \<le> unat (limit :: u64) \<Longrightarrow> \<not> limit < of_nat n"
  by (simp add: word_less_nat_alt unat_u64_of_nat)

definition string_fits :: "segment_read_limits \<Rightarrow> string \<Rightarrow> bool" where
  "string_fits limits s \<longleftrightarrow> length s \<le> unat (rl_maximum_string_bytes limits)"

lemma decodes_string: "string_fits limits s \<Longrightarrow> decodes (seg_string limits) (put_string s) s"
  unfolding seg_string_def put_string_def
  by (rule decodes_bind, rule decodes_u64)
    (auto simp: decodes_def string_fits_def unat_u64_of_nat u64_of_nat_le)

lemmas decodes_string_bind [decode_intros] = decodes_bind [OF decodes_string] decodes_bind_last [OF decodes_string]

interpretation strings: record_format put_string "seg_string limits" "string_fits limits"
  by unfold_locales (rule decodes_string)

definition pair_fits :: "segment_read_limits \<Rightarrow> string \<times> string \<Rightarrow> bool" where
  "pair_fits limits = (\<lambda>(k, v). string_fits limits k \<and> string_fits limits v)"

interpretation pairs: record_format encode_pair "read_pair limits" "pair_fits limits"
proof
  fix x
  assume "pair_fits limits x"
  then show "decodes (read_pair limits) (encode_pair x) x"
    by (cases x) (auto simp: pair_fits_def encode_pair_def read_pair_def
        intro!: decode_intros)
qed

definition map_fits :: "segment_read_limits \<Rightarrow> (string, string) omap \<Rightarrow> bool" where
  "map_fits limits m \<longleftrightarrow> length m \<le> unat (rl_maximum_fields limits) \<and> list_all (pair_fits limits) m"

lemma decodes_string_map:
  assumes "om_ok m" and "map_fits limits m"
  shows "decodes (read_string_map limits (rl_maximum_fields limits)) (encode_string_map m) m"
proof -
  note len = assms(2) [unfolded map_fits_def, THEN conjunct1]
  show ?thesis
    unfolding read_string_map_def encode_string_map_def
    by (rule decodes_bind, rule decodes_u64)
      (use pairs.decodes_map [of limits m fst snd] assms len in
        \<open>simp add: u64_of_nat_le unat_u64_of_nat map_fits_def\<close>)
qed

lemma decodes_count:
  "n \<le> unat maximum \<Longrightarrow> decodes (read_count maximum message) (put_u64 (of_nat n)) (of_nat n)"
  unfolding read_count_def
  by (rule decodes_catch, rule decodes_bind_last, rule decodes_u64) (simp add: u64_of_nat_le decodes_return)

section \<open>Documents\<close>

definition length_fits :: "segment_read_limits \<Rightarrow> string \<times> u32 \<Rightarrow> bool" where
  "length_fits limits = (\<lambda>(f, n). string_fits limits f)"

interpretation lengths: record_format encode_length "read_length limits" "length_fits limits"
proof
  fix x
  assume "length_fits limits x"
  then show "decodes (read_length limits) (encode_length x) x"
    by (cases x) (auto simp: length_fits_def encode_length_def read_length_def
        intro!: decode_intros)
qed

definition references_fit :: "segment_read_limits \<Rightarrow> string \<times> string list \<Rightarrow> bool" where
  "references_fit limits = (\<lambda>(f, ts). string_fits limits f \<and> length ts \<le> unat (rl_maximum_terms limits) \<and>
     list_all (string_fits limits) ts)"

interpretation refs: record_format encode_references "read_references limits" "references_fit limits"
proof
  fix x
  assume x: "references_fit limits x"
  obtain f ts where fts: "x = (f, ts)" by (cases x)
  have "decodes (dec_bind (dec_times (length ts)
      (\<lambda>ts. dec_bind (seg_string limits) (\<lambda>t. dec_return (ts @ [t]))) []) (\<lambda>terms. dec_return (f, terms)))
      (concat (map put_string ts)) (f, ts)"
    using strings.decodes_table [of limits ts] x by (auto simp: fts references_fit_def intro: decodes_bind_last decodes_return)
  then have "decodes (dec_bind (dec_times (unat (of_nat (length ts) :: u64))
      (\<lambda>ts. dec_bind (seg_string limits) (\<lambda>t. dec_return (ts @ [t]))) []) (\<lambda>terms. dec_return (f, terms)))
      (concat (map put_string ts)) (f, ts)"
    using x unat_u64_of_nat [of "length ts" "rl_maximum_terms limits"] by (simp add: fts references_fit_def)
  moreover have "decodes (dec_catch (over_limit ''indexed term count exceeded'')
       (dec_bind (seg_string limits) (\<lambda>field. dec_bind seg_u64 (\<lambda>count.
          if count > rl_maximum_terms limits then dec_fail (over_limit ''indexed term count exceeded'')
          else dec_return (field, count))))) (put_string f @ put_u64 (of_nat (length ts))) (f, of_nat (length ts))"
    using x by (auto simp: fts references_fit_def u64_of_nat_le intro!: decode_intros)
  ultimately have "decodes (read_references limits)
      ((put_string f @ put_u64 (of_nat (length ts))) @ concat (map put_string ts)) (f, ts)"
    unfolding read_references_def by (intro decodes_bind) (assumption, simp)
  then show "decodes (read_references limits) (encode_references x) x"
    by (simp add: fts encode_references_def)
qed

definition record_fits :: "segment_read_limits \<Rightarrow> document_record \<Rightarrow> bool" where
  "record_fits limits r \<longleftrightarrow>
     string_fits limits (doc_id (dr_document r)) \<and>
     map_fits limits (doc_fields (dr_document r)) \<and> map_fits limits (doc_metadata (dr_document r)) \<and>
     length (dr_field_lengths r) \<le> unat (rl_maximum_fields limits) \<and> list_all (length_fits limits) (dr_field_lengths r) \<and>
     length (dr_indexed_terms r) \<le> unat (rl_maximum_fields limits) \<and> list_all (references_fit limits) (dr_indexed_terms r)"

text \<open>What the reader needs of a record beyond its size.\<close>

definition record_storable :: "document_record \<Rightarrow> bool" where
  "record_storable r \<longleftrightarrow> dr_internal_id r \<noteq> 0 \<and> doc_id (dr_document r) \<noteq> [] \<and> document_ok (dr_document r) \<and>
     om_ok (dr_field_lengths r) \<and> om_ok (dr_indexed_terms r)"

lemma decodes_header:
  assumes "record_storable r" and "record_fits limits r"
  shows "decodes (read_header limits)
    (put_u32 (dr_internal_id r) @ put_string (doc_id (dr_document r)) @ put_u64 (doc_version (dr_document r)) @
     [if doc_deleted (dr_document r) then 1 else 0])
    (dr_internal_id r, doc_id (dr_document r), doc_version (dr_document r), if doc_deleted (dr_document r) then 1 else 0)"
  using assms unfolding read_header_def record_storable_def record_fits_def
  by (auto intro!: decode_intros)

lemma decodes_record:
  assumes "record_storable r" and "record_fits limits r"
  shows "decodes (read_record limits) (encode_document (doc_id (dr_document r), r)) r"
proof -
  note fit = assms(2) [unfolded record_fits_def] and ok = assms(1) [unfolded record_storable_def document_ok_def]
  have maps: "decodes (read_string_map limits (rl_maximum_fields limits)) (encode_string_map (doc_fields (dr_document r)))
        (doc_fields (dr_document r))"
      "decodes (read_string_map limits (rl_maximum_fields limits)) (encode_string_map (doc_metadata (dr_document r)))
        (doc_metadata (dr_document r))"
    using fit ok by (auto intro: decodes_string_map)
  have counts: "decodes (read_count (rl_maximum_fields limits) m) (put_u64 (of_nat (length (dr_field_lengths r))))
        (of_nat (length (dr_field_lengths r)))"
      "decodes (read_count (rl_maximum_fields limits) m) (put_u64 (of_nat (length (dr_indexed_terms r))))
        (of_nat (length (dr_indexed_terms r)))" for m
    using fit by (auto intro: decodes_count)
  have unat: "unat (of_nat (length (dr_field_lengths r)) :: u64) = length (dr_field_lengths r)"
      "unat (of_nat (length (dr_indexed_terms r)) :: u64) = length (dr_indexed_terms r)"
    using fit unat_u64_of_nat [of _ "rl_maximum_fields limits"] by auto
  have loops: "decodes (dec_times (length (dr_field_lengths r)) (\<lambda>m. dec_bind (read_length limits) (\<lambda>e.
            let (m', fresh) = om_emplace (fst e) (snd e) m
            in if fresh then dec_return m' else dec_fail (corrupt ''invalid field length record''))) [])
        (concat (map encode_length (dr_field_lengths r))) (dr_field_lengths r)"
      "decodes (dec_times (length (dr_indexed_terms r)) (\<lambda>m. dec_bind (read_references limits) (\<lambda>e.
            let (m', fresh) = om_emplace (fst e) (snd e) m
            in if fresh then dec_return m' else dec_fail (corrupt ''duplicate indexed field''))) [])
        (concat (map encode_references (dr_indexed_terms r))) (dr_indexed_terms r)"
    using lengths.decodes_map [of limits "dr_field_lengths r" fst snd] refs.decodes_map [of limits "dr_indexed_terms r" fst snd]
      fit ok by simp_all
  have "decodes (read_record limits)
    ((put_u32 (dr_internal_id r) @ put_string (doc_id (dr_document r)) @ put_u64 (doc_version (dr_document r)) @
     [if doc_deleted (dr_document r) then 1 else 0]) @
     encode_string_map (doc_fields (dr_document r)) @ encode_string_map (doc_metadata (dr_document r)) @
     put_u64 (of_nat (length (dr_field_lengths r))) @ concat (map encode_length (dr_field_lengths r)) @
     put_u64 (of_nat (length (dr_indexed_terms r))) @ concat (map encode_references (dr_indexed_terms r))) r"
    unfolding read_record_def
    by (rule decodes_bind [OF decodes_header [OF assms]], unfold prod.case,
        rule decodes_bind [OF maps(1)], rule decodes_bind [OF maps(2)], rule decodes_bind [OF counts(1)], unfold unat,
        rule decodes_bind [OF loops(1)], rule decodes_bind [OF counts(2)], unfold unat,
        rule decodes_bind_last [OF loops(2)]) (simp add: decodes_def dec_return_def)
  then show ?thesis by (simp add: encode_document_def)
qed

definition external_ids_of :: "document_records \<Rightarrow> external_id_map" where
  "external_ids_of docs = fold (\<lambda>(did, r). om_assign (dr_internal_id r) did) docs []"

lemma external_ids_of_snoc [simp]:
  "external_ids_of (docs @ [(did, r)]) = om_assign (dr_internal_id r) did (external_ids_of docs)"
  by (simp add: external_ids_of_def)

lemma external_ids_of_map:
  assumes "distinct (map (dr_internal_id \<circ> snd) docs)"
  shows "om_ok (external_ids_of docs) \<and>
    (map_of (external_ids_of docs) i = Some did \<longleftrightarrow> (\<exists>r. (did, r) \<in> set docs \<and> dr_internal_id r = i))"
  using assms
proof (induction docs arbitrary: i did rule: rev_induct)
  case (snoc x docs)
  obtain d r where x: "x = (d, r)" by (cases x)
  have ok: "om_ok (external_ids_of docs)" using snoc by simp
  have "map_of (external_ids_of docs) i = Some did \<longleftrightarrow> (\<exists>r. (did, r) \<in> set docs \<and> dr_internal_id r = i)"
    using snoc by simp
  moreover have "\<not> (\<exists>d' r'. (d', r') \<in> set docs \<and> dr_internal_id r' = dr_internal_id r)"
    using snoc.prems by (force simp: x)
  ultimately show ?case using ok by (auto simp: x om_ok_assign)
qed (simp add: external_ids_of_def)

lemma external_ids_of_new:
  assumes "distinct (map (dr_internal_id \<circ> snd) (docs @ [(did, r)]))"
  shows "map_of (external_ids_of docs) (dr_internal_id r) = None"
proof -
  have "\<nexists>r'. (d', r') \<in> set docs \<and> dr_internal_id r' = dr_internal_id r" for d'
    using assms by force
  with external_ids_of_map [of docs "dr_internal_id r"] assms show ?thesis by fastforce
qed

lemma decodes_documents:
  assumes "om_ok docs" and "distinct (map (dr_internal_id \<circ> snd) docs)"
    and "\<forall>(did, r) \<in> set docs. did = doc_id (dr_document r) \<and> record_storable r \<and> record_fits limits r"
  shows "decodes (dec_times (length docs) (\<lambda>st. dec_bind (read_record limits) (\<lambda>r. add_record r st)) ([], []))
    (concat (map encode_document docs)) (docs, external_ids_of docs)"
proof -
  let ?body = "\<lambda>st. dec_bind (read_record limits) (\<lambda>r. add_record r st)"
  let ?st = "\<lambda>i. (take i docs, external_ids_of (take i docs))"
  have "decodes (?body (?st i)) (encode_document (docs ! i)) (?st (Suc i))" if i: "i < length docs" for i
  proof -
    obtain did r where di: "docs ! i = (did, r)" by fastforce
    have nx: "take (Suc i) docs = take i docs @ [(did, r)]" using i di by (simp add: take_Suc_conv_app_nth)
    have mem: "(did, r) \<in> set docs" using i di by (metis nth_mem)
    then have r: "did = doc_id (dr_document r)" "record_storable r" "record_fits limits r" using assms(3) by auto
    have "distinct (map (dr_internal_id \<circ> snd) (take (Suc i) docs))"
      using assms(2) by (metis distinct_take take_map)
    then have "om_emplace (dr_internal_id r) did (external_ids_of (take i docs)) = (external_ids_of (take (Suc i) docs), True)"
      using external_ids_of_new [of "take i docs" did r] by (simp add: nx om_emplace_def)
    moreover have "om_ok (take (Suc i) docs)"
      using assms(1) unfolding om_ok_def take_map [symmetric] by (rule sorted_wrt_take)
    then have "om_emplace did r (take i docs) = (take (Suc i) docs, True)"
      using om_emplace_append [of "take i docs" did r] by (simp add: nx om_ok_def sorted_wrt_append)
    ultimately have "decodes (add_record r (?st i)) [] (?st (Suc i))"
      by (simp add: add_record_def decodes_return flip: r(1))
    then show ?thesis
      using decodes_record [OF r(2,3)] by (simp add: di r(1) decodes_bind_last)
  qed
  from decodes_times [of docs ?body ?st, OF this] show ?thesis by (simp add: external_ids_of_def)
qed

lemma read_documents_written:
  assumes "documents_inv schema docs" and "ids_inv docs exts" and "next_inv exts nxt maximum"
    and "length docs \<le> unat (rl_maximum_documents limits)" and "\<forall>(did, r) \<in> set docs. record_fits limits r"
    and "sn_documents sn = docs"
  shows "read_documents_section limits \<lparr>sl_bytes = encode_documents sn, sl_count = of_nat (length docs)\<rparr> = Inr (docs, exts)"
proof -
  have ok: "om_ok docs" and exts: "om_ok exts" using assms(1,2) by (simp_all add: documents_inv_def ids_inv_def)
  have "record_storable r" if "map_of docs did = Some r" for did r
  proof -
    have "map_of exts (dr_internal_id r) \<noteq> None" using ids_invD(1) [OF assms(2) that] by simp
    then have "dr_internal_id r \<noteq> 0" using assms(3) by (auto simp: next_inv_def)
    moreover have "doc_id (dr_document r) = did" "did \<noteq> []" "record_ok schema r"
      using assms(1) that by (auto simp: documents_inv_def)
    ultimately show ?thesis
      using om_ok_doc_analysed [of "dr_document r" schema] by (auto simp: record_storable_def record_ok_def om_ok_def)
  qed
  then have fit: "\<forall>(did, r) \<in> set docs. did = doc_id (dr_document r) \<and> record_storable r \<and> record_fits limits r"
    using assms(1,5) om_ok_map_of [OF ok] by (fastforce simp: documents_inv_def)
  have "inj_on (dr_internal_id \<circ> snd) (set docs)"
  proof (rule inj_onI)
    fix x y
    assume "x \<in> set docs" "y \<in> set docs" and same: "(dr_internal_id \<circ> snd) x = (dr_internal_id \<circ> snd) y"
    then have "map_of docs (fst x) = Some (snd x)" "map_of docs (fst y) = Some (snd y)"
      using om_ok_map_of [OF ok] by (metis prod.collapse)+
    with same show "x = y"
      using ids_invD(1) [OF assms(2), of "fst x" "snd x"] ids_invD(1) [OF assms(2), of "fst y" "snd y"]
      by (auto simp: prod_eq_iff)
  qed
  then have dist: "distinct (map (dr_internal_id \<circ> snd) docs)"
    using om_ok_distinct [OF ok] by (simp add: distinct_map)
  have "map_of (external_ids_of docs) i = Some did \<longleftrightarrow> map_of exts i = Some did" for i did
  proof -
    have "map_of (external_ids_of docs) i = Some did \<longleftrightarrow> (\<exists>r. map_of docs did = Some r \<and> dr_internal_id r = i)"
      unfolding external_ids_of_map [OF dist, THEN conjunct2] om_ok_map_of [OF ok] ..
    also have "\<dots> \<longleftrightarrow> map_of exts i = Some did" using ids_invD [OF assms(2)] by blast
    finally show ?thesis .
  qed
  then have "map_of (external_ids_of docs) i = map_of exts i" for i
    by (metis not_None_eq)
  then have ext: "external_ids_of docs = exts"
    using external_ids_of_map [OF dist] exts by (intro om_ext) auto
  have "decodes (dec_bind (dec_catch (over_limit ''invalid segment document count'') (dec_bind seg_u64 (\<lambda>count.
          if count \<noteq> of_nat (length docs) \<or> count > rl_maximum_documents limits
          then dec_fail (over_limit ''invalid segment document count'') else dec_return count)))
        (\<lambda>count. dec_times (unat count) (\<lambda>st. dec_bind (read_record limits) (\<lambda>r. add_record r st)) ([], [])))
      (put_u64 (of_nat (length docs)) @ concat (map encode_document docs)) (docs, exts)"
    using decodes_documents [OF ok dist fit] assms(4) unat_u64_of_nat [OF assms(4)] u64_of_nat_le [OF assms(4)]
    by (intro decodes_bind [of _ _ "of_nat (length docs)"] decodes_catch decode_intros) (simp_all add: ext decode_intros)
  then show ?thesis
    by (simp add: read_documents_section_def encode_documents_def assms(6) dec_all_decodes)
qed

section \<open>Statistics\<close>

definition statistic_fits :: "segment_read_limits \<Rightarrow> string \<times> field_statistics \<Rightarrow> bool" where
  "statistic_fits limits = (\<lambda>(f, st). string_fits limits f \<and> fs_count st \<noteq> 0 \<and>
     st = statistics_of \<lparr>fa_count = fs_count st, fa_total = fs_total st\<rparr>)"

interpretation stats: record_format encode_statistic "read_statistic limits" "statistic_fits limits"
proof
  fix x
  assume "statistic_fits limits x"
  then show "decodes (read_statistic limits) (encode_statistic x) x"
    by (cases x) (auto simp: statistic_fits_def encode_statistic_def read_statistic_def intro!: decode_intros)
qed

lemma read_statistics_written:
  assumes "om_ok (sn_statistics sn)" and "list_all (statistic_fits limits) (sn_statistics sn)"
    and "length (sn_statistics sn) \<le> unat (rl_maximum_fields limits)"
  shows "read_statistics_section limits
    \<lparr>sl_bytes = encode_statistics sn, sl_count = of_nat (length (sn_statistics sn))\<rparr> = Inr (sn_statistics sn)"
proof -
  have "decodes (dec_bind (dec_catch (over_limit ''invalid statistics count'') (dec_bind seg_u64 (\<lambda>count.
          if count \<noteq> of_nat (length (sn_statistics sn)) \<or> count > rl_maximum_fields limits
          then dec_fail (over_limit ''invalid statistics count'') else dec_return count)))
        (\<lambda>count. dec_times (unat count) (\<lambda>m. dec_bind (read_statistic limits) (\<lambda>e.
            let (m', fresh) = om_emplace (fst e) (snd e) m
            in if fresh then dec_return m' else dec_fail (corrupt ''invalid field statistics''))) []))
      (put_u64 (of_nat (length (sn_statistics sn))) @ concat (map encode_statistic (sn_statistics sn))) (sn_statistics sn)"
    using stats.decodes_map [of limits "sn_statistics sn" fst snd] assms unat_u64_of_nat [OF assms(3)] u64_of_nat_le [OF assms(3)]
    by (intro decodes_bind [of _ _ "of_nat (length (sn_statistics sn))"] decodes_catch decode_intros)
      (simp_all add: decode_intros)
  then show ?thesis by (simp add: read_statistics_section_def encode_statistics_def dec_all_decodes)
qed

section \<open>The schema\<close>

text \<open>The analyzers that the constructors of the sources build.\<close>

definition constructed :: "analyzer \<Rightarrow> bool" where
  "constructed a \<longleftrightarrow> (case a of StandardAnalyzer ws \<Rightarrow> standard_analyzer ws = a | KeywordAnalyzer \<Rightarrow> True
     | CustomAnalyzer _ _ \<Rightarrow> False)"

lemma descriptor_number_written:
  assumes "n < 2 ^ 64"
  shows "descriptor_number (to_string_nat n @ CHR '':'' # rest) = Some (n, rest)"
proof -
  have "takeWhile (\<lambda>c. c \<noteq> CHR '':'') (to_string_nat n @ CHR '':'' # rest) = to_string_nat n"
    using to_string_nat_digits [of n] by (subst takeWhile_append2) (auto simp: isdigit_def)
  with assms show ?thesis
    by (simp add: descriptor_number_def from_chars_u64_def from_chars_unsigned_to_string)
qed

lemma descriptor_words_written:
  "\<forall>w \<in> set ws. length w < 2 ^ 64 \<Longrightarrow>
    descriptor_words (length ws) acc (concat (map (\<lambda>w. to_string_nat (length w) @ '':'' @ w) ws) @ rest) = Some (acc @ ws, rest)"
  by (induction ws arbitrary: acc) (simp_all add: descriptor_number_written)

lemma length_le_descriptor:
  "w \<in> set ws \<Longrightarrow> length w \<le> length (concat (map (\<lambda>w. to_string_nat (length w) @ '':'' @ w) ws))"
  "length ws \<le> length (concat (map (\<lambda>w. to_string_nat (length w) @ '':'' @ w) ws))"
  by (induction ws) auto

lemma analyzer_from_descriptor:
  assumes "constructed a" and "length (descriptor a) < 2 ^ 64"
  shows "analyzer_from (descriptor a) = Inr (Some a)"
proof (cases a)
  case (StandardAnalyzer ws)
  let ?words = "concat (map (\<lambda>w. to_string_nat (length w) @ '':'' @ w) ws)"
  have len: "length ?words < 2 ^ 64" using assms(2) by (simp add: StandardAnalyzer)
  then have ws: "length ws < 2 ^ 64" "\<forall>w \<in> set ws. length w < 2 ^ 64"
    using length_le_descriptor [where ws = ws] by (auto intro: le_less_trans)
  from descriptor_words_written [OF ws(2), of "[]" "[]"] assms(1) show ?thesis
    by (simp add: StandardAnalyzer analyzer_from_def descriptor_number_written [OF ws(1)] constructed_def)
qed (use assms in \<open>simp_all add: analyzer_from_def constructed_def\<close>)

definition field_fits :: "segment_read_limits \<Rightarrow> field_definition \<Rightarrow> bool" where
  "field_fits limits fd \<longleftrightarrow> string_fits limits (fd_name fd) \<and>
     (case fd_analyzer fd of None \<Rightarrow> True | Some a \<Rightarrow> constructed a \<and> string_fits limits (descriptor a))"

interpretation field_defs: record_format "\<lambda>fd. encode_field (fd_name fd, fd)" "read_field limits" "field_fits limits"
proof
  fix fd
  assume fit: "field_fits limits fd"
  let ?descr = "case fd_analyzer fd of None \<Rightarrow> [] | Some a \<Rightarrow> descriptor a"
  have descr: "string_fits limits ?descr" "analyzer_from ?descr = Inr (fd_analyzer fd)"
    using fit analyzer_from_descriptor unat_u64_less [of "rl_maximum_string_bytes limits"] analyzer_from_def [of "[]"]
    by (auto simp: field_fits_def string_fits_def split: option.splits)
  define t :: u8 where "t = of_nat (field_type_number (fd_type fd))"
  have t: "\<not> 3 < t" "field_type_of t = fd_type fd"
    by (cases "fd_type fd"; simp add: t_def field_type_number_def field_type_of_def)+
  have "decodes (read_field limits) (encode_field (fd_name fd, fd)) fd"
    unfolding read_field_def encode_field_def prod.case t_def [symmetric] append_Cons append_Nil
    by (rule decodes_bind_last [of _ _ "(fd_name fd, t, if fd_indexed fd then 1 else 0, if fd_stored fd then 1 else 0,
          fd_boost fd, ?descr)"], use fit in \<open>intro decode_intros\<close>)
      (use descr t fit in \<open>auto simp: field_fits_def decodes_def dec_return_def intro!: field_definition.equality\<close>)
  then show "decodes (read_field limits) (encode_field (fd_name fd, fd)) fd" .
qed

lemma schema_recreated:
  assumes "schema_ok schema"
  shows "schema_create (map snd schema) = Inr schema"
proof -
  have names: "\<forall>(name, fd) \<in> set schema. fd_name fd = name \<and> definition_ok fd"
    using assms om_ok_map_of [of schema] by (auto simp: schema_ok_def)
  have ok: "om_ok schema" using assms by (simp add: schema_ok_def)
  have *: "map fd_name (map snd schema) = map fst schema" using names by (auto intro!: map_cong)
  have "schema_create (map snd schema) = Inr (fold (\<lambda>fd. om_assign (fd_name fd) fd) (map snd schema) [])"
    unfolding schema_create_def schema_create_from_Inr_iff * using names om_ok_distinct [OF ok] by auto
  moreover have "fold (\<lambda>fd. om_assign (fd_name fd) fd) (map snd schema) [] = schema"
    using names ok
  proof (induction schema rule: rev_induct)
    case (snoc e schema)
    then have "om_assign (fst e) (snd e) schema = schema @ [e]"
      by (subst om_assign_append) (auto simp: om_ok_def sorted_wrt_append)
    moreover have "om_ok schema" using snoc.prems(2) by (simp add: om_ok_def sorted_wrt_append)
    ultimately show ?case using snoc by (auto simp: case_prod_beta)
  qed simp
  ultimately show ?thesis by simp
qed

lemma read_schema_written:
  assumes "schema_ok schema" and "\<forall>(name, fd) \<in> set schema. field_fits limits fd"
    and "length schema \<le> unat (rl_maximum_fields limits)"
  shows "read_schema limits \<lparr>sl_bytes = encode_schema schema, sl_count = of_nat (length schema)\<rparr> = Inr schema"
proof -
  have names: "encode_field x = encode_field (fd_name (snd x), snd x)" if "x \<in> set schema" for x
    using assms(1) om_ok_map_of [of schema] that by (cases x) (auto simp: schema_ok_def)
  have fields: "concat (map encode_field schema) = concat (map (\<lambda>fd. encode_field (fd_name fd, fd)) (map snd schema))"
    using names by (auto intro!: arg_cong [of _ _ concat] map_cong)
  have fit: "list_all (field_fits limits) (map snd schema)" using assms(2) by (auto simp: list_all_iff)
  have "decodes (dec_bind (dec_catch (corrupt ''invalid segment schema count'')
          (dec_bind seg_u64 (\<lambda>fingerprint. dec_bind seg_u64 (\<lambda>count.
             if count \<noteq> of_nat (length schema) then dec_fail (corrupt ''invalid segment schema count'')
             else dec_return (fingerprint, count)))))
         (\<lambda>(fingerprint, count).
            if count > rl_maximum_fields limits then dec_fail (over_limit ''segment schema field limit exceeded'')
            else dec_bind (dec_times (unat count)
                   (\<lambda>ds. dec_bind (read_field limits) (\<lambda>d. dec_return (ds @ [d]))) [])
                 (\<lambda>ds. dec_return (fingerprint, ds))))
      ((put_u64 (schema_fingerprint schema) @ put_u64 (of_nat (length schema))) @
       concat (map (\<lambda>fd. encode_field (fd_name fd, fd)) (map snd schema)))
      (schema_fingerprint schema, map snd schema)"
    using field_defs.decodes_table [OF fit] unat_u64_of_nat [OF assms(3)] u64_of_nat_le [OF assms(3)]
    by (intro decodes_bind [of _ _ "(schema_fingerprint schema, of_nat (length schema))"] decodes_catch decode_intros)
      (auto simp: decodes_return intro: decodes_bind_last)
  from dec_all_decodes [OF this] schema_recreated [OF assms(1)] show ?thesis
    by (simp add: read_schema_def encode_schema_def fields)
qed

end
