(* ===== verification/Segment_Terms.thy ===== *)
theory Segment_Terms
  imports Segment_Proofs
begin

text \<open>
  Reading back the terms, postings and positions of a segment, in both formats. The writer visits the
  dictionaries as one sequence of entries (\<open>dict_entries\<close>) and the reader rebuilds the dictionaries from
  it; what it has rebuilt is determined by its lookups (\<open>dicts_ext\<close>).
\<close>

section \<open>The entries of the dictionaries\<close>

type_synonym dict_entry = "string \<times> string \<times> term_entry"

definition dict_entries :: "field_dictionaries \<Rightarrow> dict_entry list" where
  "dict_entries dicts = concat (map (\<lambda>(f, dict). map (\<lambda>(t, e). (f, t, e)) dict) dicts)"

definition postings_of_entries :: "dict_entry list \<Rightarrow> posting list" where
  "postings_of_entries es = concat (map (\<lambda>(f, t, e). te_postings e) es)"

definition positions_of_postings :: "posting list \<Rightarrow> u32 list" where
  "positions_of_postings ps = concat (map p_positions ps)"

lemma entries_snoc [simp]:
  "postings_of_entries (es @ [(f, t, e)]) = postings_of_entries es @ te_postings e"
  "positions_of_postings (ps @ qs) = positions_of_postings ps @ positions_of_postings qs"
  "positions_of_postings [] = []" "postings_of_entries [] = []"
  "positions_of_postings (p # ps) = p_positions p @ positions_of_postings ps"
  by (simp_all add: postings_of_entries_def positions_of_postings_def)

definition encode_entries :: "bool \<Rightarrow> dict_entry list \<Rightarrow> encoded_index" where
  "encode_entries compressed es = fold (\<lambda>(f, t, e). encode_entry compressed f (t, e)) es
     \<lparr>ei_terms = [], ei_postings = [], ei_positions = [], ei_term_count = 0, ei_posting_count = 0,
      ei_position_count = 0\<rparr>"

lemma encode_index_entries: "encode_index sn compressed = encode_entries compressed (dict_entries (sn_fields sn))"
proof -
  have "fold (encode_entry c f) dict = fold (\<lambda>(f, t, e). encode_entry c f (t, e)) (map (\<lambda>(t, e). (f, t, e)) dict)" for c f dict
    by (simp add: fold_map comp_def case_prod_beta)
  then have "fold (\<lambda>(f, dict). fold (encode_entry c f) dict) dicts =
      fold (\<lambda>(f, t, e). encode_entry c f (t, e)) (dict_entries dicts)" for c dicts
    by (induction dicts) (auto simp: dict_entries_def)
  then show ?thesis by (simp add: encode_index_def encode_entries_def)
qed

section \<open>What the encoder writes\<close>

definition put_header :: "term_header \<Rightarrow> bytes" where
  "put_header h = put_string (th_field h) @ put_string (th_term h) @ put_u32 (th_frequency h) @ put_u32 0 @
     put_u64 (th_start h) @ put_u64 (th_count h)"

definition put_raw :: "raw_posting \<Rightarrow> bytes" where
  "put_raw r = put_u32 (rp_document r) @ put_u32 (rp_frequency r) @ put_u64 (rp_start r) @ put_u64 (rp_count r)"

fun compressed_postings :: "u32 \<Rightarrow> posting list \<Rightarrow> bytes" where
  "compressed_postings previous [] = []"
| "compressed_postings previous (p # ps) =
     varbyte_encode (p_doc p - previous) @ varbyte_encode (p_tf p) @ encode_position_deltas 0 (p_positions p) @
     compressed_postings (p_doc p) ps"

definition compressed_bytes :: "dict_entry list \<Rightarrow> bytes" where
  "compressed_bytes es = concat (map (\<lambda>(f, t, e). compressed_postings 0 (te_postings e)) es)"

text \<open>The raw records of postings that follow \<open>n\<close> positions.\<close>

fun raw_records :: "nat \<Rightarrow> posting list \<Rightarrow> raw_posting list" where
  "raw_records n [] = []"
| "raw_records n (p # ps) =
     \<lparr>rp_document = p_doc p, rp_frequency = p_tf p, rp_start = of_nat n, rp_count = of_nat (length (p_positions p))\<rparr> #
     raw_records (n + length (p_positions p)) ps"

lemma raw_records_append:
  "raw_records n (ps @ qs) = raw_records n ps @ raw_records (n + length (positions_of_postings ps)) qs"
  by (induction n ps rule: raw_records.induct) (simp_all add: add.assoc)

lemma length_raw_records [simp]: "length (raw_records n ps) = length ps"
  by (induction n ps rule: raw_records.induct) simp_all

definition header_of :: "bool \<Rightarrow> dict_entry list \<Rightarrow> dict_entry \<Rightarrow> term_header" where
  "header_of compressed es = (\<lambda>(f, t, e).
     \<lparr>th_field = f, th_term = t, th_frequency = te_df e,
      th_start = of_nat (if compressed then length (compressed_bytes es) else length (postings_of_entries es)),
      th_count = of_nat (if compressed then length (compressed_postings 0 (te_postings e)) else length (te_postings e))\<rparr>)"

definition headers :: "bool \<Rightarrow> dict_entry list \<Rightarrow> term_header list" where
  "headers compressed es = map (\<lambda>i. header_of compressed (take i es) (es ! i)) [0..<length es]"

lemma put_header_make:
  "put_header \<lparr>th_field = f, th_term = t, th_frequency = n, th_start = a, th_count = c\<rparr> =
    put_string f @ put_string t @ put_u32 n @ put_u32 0 @ put_u64 a @ put_u64 c"
  by (simp add: put_header_def)

lemma headers_snoc: "headers compressed (es @ [x]) = headers compressed es @ [header_of compressed es x]"
  by (auto simp: headers_def nth_append intro!: map_cong)

lemma fold_encode_posting:
  assumes "fold (encode_posting compressed) ps (ei, previous) = (ei', previous')"
    and "compressed \<or> ei_position_count ei = of_nat n"
  shows "ei' = ei\<lparr>ei_postings := ei_postings ei @
        (if compressed then compressed_postings previous ps
         else concat (map put_raw (raw_records n ps))),
      ei_posting_count := ei_posting_count ei + of_nat (length ps),
      ei_positions := ei_positions ei @ (if compressed then [] else concat (map put_u32 (positions_of_postings ps))),
      ei_position_count := ei_position_count ei + of_nat (length (positions_of_postings ps))\<rparr>"
  using assms
proof (induction ps arbitrary: ei previous n)
  case (Cons p ps)
  obtain ei1 pr1 where step: "encode_posting compressed p (ei, previous) = (ei1, pr1)" by fastforce
  with Cons.prems(1) have rest: "fold (encode_posting compressed) ps (ei1, pr1) = (ei', previous')" by simp
  have "compressed \<or> ei_position_count ei1 = of_nat (n + length (p_positions p))"
    using step Cons.prems(2) by (cases compressed) (auto simp: encode_posting_def Let_def)
  from Cons.IH [OF rest this] step Cons.prems(2) show ?case
    by (cases compressed) (auto simp: encode_posting_def Let_def put_raw_def)
qed simp

lemma encode_entries_written:
  "encode_entries compressed es =
    \<lparr>ei_terms = concat (map put_header (headers compressed es)),
     ei_postings = (if compressed then compressed_bytes es else concat (map put_raw (raw_records 0 (postings_of_entries es)))),
     ei_positions = (if compressed then [] else concat (map put_u32 (positions_of_postings (postings_of_entries es)))),
     ei_term_count = of_nat (length es), ei_posting_count = of_nat (length (postings_of_entries es)),
     ei_position_count = of_nat (length (positions_of_postings (postings_of_entries es)))\<rparr>"
proof (induction es rule: rev_induct)
  case Nil
  then show ?case by (simp add: encode_entries_def headers_def compressed_bytes_def)
next
  case (snoc x es)
  obtain f t e where x: "x = (f, t, e)" by (cases x)
  let ?ei = "encode_entries compressed es"
  let ?n = "length (positions_of_postings (postings_of_entries es))"
  obtain ei' pr where fold: "fold (encode_posting compressed) (te_postings e)
      (?ei\<lparr>ei_term_count := ei_term_count ?ei + 1\<rparr>, 0) = (ei', pr)" by fastforce
  have "encode_entries compressed (es @ [x]) = encode_entry compressed f (t, e) ?ei"
    by (simp add: encode_entries_def x)
  then have step: "encode_entries compressed (es @ [x]) =
      ei'\<lparr>ei_terms := ei_terms ei' @ put_string f @ put_string t @ put_u32 (te_df e) @ put_u32 0 @
        put_u64 (if compressed then of_nat (length (ei_postings ?ei)) else ei_posting_count ?ei) @
        put_u64 (if compressed then of_nat (length (ei_postings ei')) - of_nat (length (ei_postings ?ei))
                 else of_nat (length (te_postings e)))\<rparr>"
    by (simp only: encode_entry_def prod.case Let_def fold fst_conv if_cancel) simp
  have "compressed \<or> ei_position_count (?ei\<lparr>ei_term_count := ei_term_count ?ei + 1\<rparr>) = of_nat ?n"
    by (simp add: snoc)
  note ei' = fold_encode_posting [OF fold this]
  show ?case
    unfolding step ei' unfolding snoc by (cases compressed) (simp_all add: x headers_snoc header_of_def
        put_header_make compressed_bytes_def raw_records_append)
qed

section \<open>Rebuilding the dictionaries\<close>

definition entry_keys :: "dict_entry list \<Rightarrow> ((string \<times> string) \<times> term_entry) list" where
  "entry_keys es = map (\<lambda>(f, t, e). ((f, t), e)) es"

lemma entry_keys_snoc: "entry_keys (es @ [(f, t, e)]) = entry_keys es @ [((f, t), e)]"
  by (simp add: entry_keys_def)

definition rebuild_step :: "dict_entry \<Rightarrow> field_dictionaries \<Rightarrow> field_dictionaries" where
  "rebuild_step = (\<lambda>(f, t, e) m. om_assign f (om_assign t e (om_get [] m f)) m)"

definition nonempty_dicts :: "field_dictionaries \<Rightarrow> bool" where
  "nonempty_dicts m \<longleftrightarrow> om_ok m \<and> (\<forall>f d. map_of m f = Some d \<longrightarrow> om_ok d \<and> d \<noteq> [])"

lemma dicts_ext:
  assumes "nonempty_dicts m" and "nonempty_dicts m'"
    and "\<And>f t. map_of (om_get [] m f) t = map_of (om_get [] m' f) t"
  shows "m = m'"
proof (rule om_ext)
  show "om_ok m" "om_ok m'" using assms(1,2) by (simp_all add: nonempty_dicts_def)
  fix f
  have *: "om_get [] m f = om_get [] m' f"
    using assms by (intro om_ext) (auto simp: nonempty_dicts_def om_get_def split: option.splits)
  show "map_of m f = map_of m' f"
    using * assms(1,2) by (auto simp: nonempty_dicts_def om_get_def split: option.splits)
qed

lemma rebuild_step_ok: "nonempty_dicts m \<Longrightarrow> nonempty_dicts (rebuild_step x m)"
  by (cases x) (auto simp: rebuild_step_def nonempty_dicts_def om_get_def om_ok_assign split: option.splits)

lemma rebuild_lookup:
  "distinct (map fst (entry_keys es)) \<Longrightarrow>
    nonempty_dicts (fold rebuild_step es []) \<and>
    map_of (om_get [] (fold rebuild_step es []) f) t = map_of (entry_keys es) (f, t)"
proof (induction es arbitrary: f t rule: rev_induct)
  case Nil
  then show ?case by (simp add: nonempty_dicts_def entry_keys_def om_get_def)
next
  case (snoc x es)
  obtain f' t' e where x: "x = (f', t', e)" by (cases x)
  define m where "m = fold rebuild_step es []"
  have keys: "entry_keys (es @ [x]) = entry_keys es @ [((f', t'), e)]" by (simp add: entry_keys_snoc x)
  have m: "nonempty_dicts m" "map_of (om_get [] m f) t = map_of (entry_keys es) (f, t)" for f t
    using snoc by (simp_all add: keys m_def)
  have new: "map_of (entry_keys es) (f', t') = None"
    using snoc.prems by (simp add: keys map_of_eq_None_iff)
  have get: "om_get [] (rebuild_step x m) f = (if f = f' then om_assign t' e (om_get [] m f') else om_get [] m f)"
    by (simp add: x rebuild_step_def om_get_def)
  have "map_of (om_get [] (rebuild_step x m) f) t = map_of (entry_keys (es @ [x])) (f, t)"
    unfolding get keys map_of_append using m(2) new by (auto simp: map_add_def split: option.splits)
  with rebuild_step_ok [OF m(1), of x] show ?case by (simp add: m_def)
qed

lemma dict_entries_keys:
  assumes "nonempty_dicts dicts"
  shows "distinct (map fst (entry_keys (dict_entries dicts)))"
    and "map_of (entry_keys (dict_entries dicts)) (f, t) = map_of (om_get [] dicts f) t"
proof -
  have ok: "om_ok dicts" "\<And>f d. (f, d) \<in> set dicts \<Longrightarrow> om_ok d"
    using assms om_ok_map_of [of dicts] by (auto simp: nonempty_dicts_def)
  have keys: "map fst (entry_keys (dict_entries ds)) = concat (map (\<lambda>(f, d). map (\<lambda>(t, e). (f, t)) d) ds)" for ds
    by (induction ds) (auto simp: entry_keys_def dict_entries_def)
  show "distinct (map fst (entry_keys (dict_entries dicts)))"
    using ok unfolding keys
  proof (induction dicts)
    case (Cons x dicts)
    obtain f d where x: "x = (f, d)" by (cases x)
    have "distinct (map fst d)" using Cons.prems(2) [of f d] by (simp add: x om_ok_distinct)
    then have "distinct (map (\<lambda>(t, e). (f, t)) d)"
      by (simp add: distinct_map inj_on_def case_prod_beta)
    moreover have "f \<notin> fst ` set dicts" using Cons.prems(1) by (auto simp: x)
    ultimately show ?case using Cons by (force simp: x)
  qed simp
  show "map_of (entry_keys (dict_entries dicts)) (f, t) = map_of (om_get [] dicts f) t"
    using ok
  proof (induction dicts)
    case (Cons x dicts)
    obtain f' d where x: "x = (f', d)" by (cases x)
    have head: "map_of (map (\<lambda>(t, e). ((f', t), e)) d) (f, t) = (if f = f' then map_of d t else None)"
      by (induction d) auto
    have "f' \<notin> fst ` set dicts" using Cons.prems(1) by (auto simp: x)
    then have "map_of (entry_keys (dict_entries dicts)) (f', t) = None"
      by (force simp: map_of_eq_None_iff entry_keys_def dict_entries_def)
    moreover have "entry_keys (dict_entries (x # dicts)) = map (\<lambda>(t, e). ((f', t), e)) d @ entry_keys (dict_entries dicts)"
      by (simp add: entry_keys_def dict_entries_def x case_prod_beta comp_def)
    moreover have "map_of (entry_keys (dict_entries dicts)) (f, t) = map_of (om_get [] dicts f) t"
      using Cons by (auto simp: om_get_def)
    ultimately show ?case
      using head by (cases "f = f'") (auto simp: x om_get_def map_add_def split: option.splits)
  qed (simp add: entry_keys_def dict_entries_def om_get_def)
qed

lemma rebuild_entries: "nonempty_dicts dicts \<Longrightarrow> fold rebuild_step (dict_entries dicts) [] = dicts"
  using rebuild_lookup [of "dict_entries dicts"] dict_entries_keys [of dicts] by (intro dicts_ext) auto

section \<open>Uncompressed postings\<close>

text \<open>What the writer relies on for a posting and for the entry of a term.\<close>

definition posting_storable :: "posting \<Rightarrow> bool" where
  "posting_storable p \<longleftrightarrow> p_doc p \<noteq> 0 \<and> p_positions p \<noteq> [] \<and> unat (p_tf p) = length (p_positions p) \<and>
     sorted_wrt (<) (p_positions p)"

definition entry_storable :: "term_entry \<Rightarrow> bool" where
  "entry_storable e \<longleftrightarrow> te_df e \<noteq> 0 \<and> unat (te_df e) = length (te_postings e) \<and> ssorted_by p_doc (te_postings e) \<and>
     list_all posting_storable (te_postings e)"

interpretation u32s: record_format put_u32 "seg_u32" "\<lambda>_. True"
  by unfold_locales (rule decodes_u32)

lemma length_put_u32s [simp]: "length (concat (map put_u32 ps)) = 4 * length ps"
  by (induction ps) simp_all

lemma read_positions_written:
  assumes "length ps \<le> unat (rl_maximum_positions limits)" and "4 * length ps < 2 ^ 64"
  shows "read_positions limits False \<lparr>sl_bytes = concat (map put_u32 ps), sl_count = of_nat (length ps)\<rparr> = Inr ps"
proof -
  have n: "unat (of_nat (length ps) :: u64) = length ps" using unat_u64_of_nat [OF assms(1)] .
  have "unat (of_nat (length ps) * 4 :: u64) = 4 * length ps"
    using assms(2) by (simp add: unat_word_ariths n)
  moreover have "decodes (dec_times (length ps) (\<lambda>ps. dec_bind seg_u32 (\<lambda>p. dec_return (ps @ [p]))) [])
      (concat (map put_u32 ps)) ps"
    by (rule u32s.decodes_table) (simp add: list_all_iff)
  ultimately show ?thesis
    using assms u64_of_nat_le [OF assms(1)] by (simp add: read_positions_def n decodesD_all)
qed

definition raw_ok :: "nat \<Rightarrow> raw_posting \<Rightarrow> bool" where
  "raw_ok n r \<longleftrightarrow> ucast (rp_frequency r) = rp_count r \<and> unat (rp_start r) \<le> n \<and> unat (rp_count r) \<le> n - unat (rp_start r)"

interpretation raws: record_format put_raw "read_raw_posting n" "raw_ok n"
proof
  fix r
  assume "raw_ok n r"
  then show "decodes (read_raw_posting n) (put_raw r) r"
    by (cases r) (auto simp: raw_ok_def put_raw_def read_raw_posting_def intro!: decode_intros)
qed

lemma length_put_raws [simp]: "length (concat (map put_raw rs)) = 24 * length rs"
  by (induction rs) (simp_all add: put_raw_def)

lemma ucast_of_length: "unat (v :: u32) = n \<Longrightarrow> ucast v = (of_nat n :: u64)"
  by (auto simp: of_nat_unat)

lemma raw_records_ok:
  "list_all posting_storable ps \<Longrightarrow> n + length (positions_of_postings ps) \<le> N \<Longrightarrow> N < 2 ^ 64 \<Longrightarrow>
    list_all (raw_ok N) (raw_records n ps)"
  by (induction n ps rule: raw_records.induct)
    (simp_all add: raw_ok_def posting_storable_def ucast_of_length unat_of_nat_small)

lemma raw_to_posting_nth:
  assumes "i < length ps" and "length (positions_of_postings ps) < 2 ^ 64"
  shows "raw_to_posting (positions_of_postings ps) (raw_records 0 ps ! i) = ps ! i"
proof -
  have ps: "ps = take i ps @ ps ! i # drop (Suc i) ps" using assms(1) by (simp add: id_take_nth_drop)
  let ?n = "length (positions_of_postings (take i ps))"
  have total: "length (positions_of_postings ps) = ?n + length (p_positions (ps ! i)) +
      length (positions_of_postings (drop (Suc i) ps))"
    by (subst ps) simp
  have nth: "raw_records 0 ps ! i = \<lparr>rp_document = p_doc (ps ! i), rp_frequency = p_tf (ps ! i), rp_start = of_nat ?n,
      rp_count = of_nat (length (p_positions (ps ! i)))\<rparr>"
    using assms(1) by (subst ps) (simp add: raw_records_append nth_append)
  have "positions_of_postings ps = positions_of_postings (take i ps) @ p_positions (ps ! i) @ positions_of_postings (drop (Suc i) ps)"
    by (subst ps) simp
  moreover have "unat (of_nat ?n :: u64) = ?n" "unat (of_nat (length (p_positions (ps ! i))) :: u64) = length (p_positions (ps ! i))"
    using assms(2) total by (simp_all add: unat_of_nat_small)
  ultimately show ?thesis by (simp add: raw_to_posting_def nth)
qed

lemma read_raws_written:
  assumes "list_all posting_storable ps" and "length ps \<le> unat (rl_maximum_postings limits)"
    and "24 * length ps < 2 ^ 64" and "length (positions_of_postings ps) < 2 ^ 64"
  shows "read_raw_postings limits False (length (positions_of_postings ps))
    \<lparr>sl_bytes = concat (map put_raw (raw_records 0 ps)), sl_count = of_nat (length ps)\<rparr> = Inr (raw_records 0 ps)"
proof -
  have n: "unat (of_nat (length ps) :: u64) = length ps" using unat_u64_of_nat [OF assms(2)] .
  have "unat (of_nat (length ps) * 24 :: u64) = 24 * length ps"
    using assms(3) by (simp add: unat_word_ariths n)
  moreover have "list_all (raw_ok (length (positions_of_postings ps))) (raw_records 0 ps)"
    using raw_records_ok [OF assms(1) _ assms(4)] by simp
  from raws.decodes_table [OF this]
  have "decodes (dec_times (length ps) (\<lambda>rs. dec_bind (read_raw_posting (length (positions_of_postings ps)))
      (\<lambda>r. dec_return (rs @ [r]))) []) (concat (map put_raw (raw_records 0 ps))) (raw_records 0 ps)" by simp
  ultimately show ?thesis
    using assms u64_of_nat_le [OF assms(2)] by (simp add: read_raw_postings_def n decodesD_all)
qed

lemma raw_entry_written:
  assumes "es = before @ (f, t, e) # after" and "entry_storable e"
    and "length (postings_of_entries es) < 2 ^ 64" and "length (positions_of_postings (postings_of_entries es)) < 2 ^ 64"
  shows "raw_entry (positions_of_postings (postings_of_entries es)) (raw_records 0 (postings_of_entries es))
    (header_of False before (f, t, e)) = Inr e"
proof -
  let ?ps = "postings_of_entries es" and ?n = "length (postings_of_entries before)"
  have ps: "?ps = postings_of_entries before @ te_postings e @ postings_of_entries after"
    by (simp add: assms(1) postings_of_entries_def)
  have un: "unat (of_nat ?n :: u64) = ?n" "unat (of_nat (length (te_postings e)) :: u64) = length (te_postings e)"
    using assms(3) by (simp_all add: ps unat_of_nat_small)
  have df: "ucast (te_df e) = (of_nat (length (te_postings e)) :: u64)"
    using assms(2) by (simp add: entry_storable_def ucast_of_length)
  have "raw_to_posting (positions_of_postings ?ps) (raw_records 0 ?ps ! (?n + j)) = te_postings e ! j"
    if "j < length (te_postings e)" for j
    using raw_to_posting_nth [of "?n + j" ?ps] assms(4) that by (simp add: ps nth_append)
  then have "map (\<lambda>j. raw_to_posting (positions_of_postings ?ps) (raw_records 0 ?ps ! (?n + j))) [0..<length (te_postings e)] =
      te_postings e"
    by (intro nth_equalityI) auto
  then show ?thesis
    using un df by (simp add: raw_entry_def header_of_def) (simp add: ps)
qed

section \<open>Compressed postings\<close>

lemma u32_delta:
  assumes "a \<le> (b :: u32)"
  shows "\<not> b - a > - 1 - a" "a + (b - a) = b" "b - a = 0 \<longleftrightarrow> a = b"
proof -
  have max: "unat (- 1 :: u32) = 2 ^ 32 - 1" by (simp add: unsigned_minus_1_eq_mask mask_eq_exp_minus_1)
  have "unat (- 1 - a) = 2 ^ 32 - 1 - unat a" using max by (subst unat_sub) simp_all
  moreover have "unat (b - a) = unat b - unat a" using assms by (simp add: unat_sub)
  ultimately show "\<not> b - a > - 1 - a" using unat_u32_less [of b] by (simp add: word_less_nat_alt)
qed auto

lemma decodes_varbyte: "decodes (dec_catch e varbyte_decode) (varbyte_encode v) v"
  by (simp add: decodes_def dec_catch_def varbyte_decode_encode)

lemmas decodes_varbyte_bind = decodes_bind [OF decodes_varbyte] decodes_bind_last [OF decodes_varbyte]

lemma decodes_position_deltas:
  assumes "sorted_wrt (<) (read @ ps)" and "previous = (if read = [] then 0 else last read)"
  shows "decodes (dec_times (length ps) read_compressed_position (previous, read)) (encode_position_deltas previous ps)
    (last (previous # ps), read @ ps)"
  using assms
proof (induction ps arbitrary: read previous)
  case (Cons p ps)
  have le: "previous \<le> p" and strict: "read \<noteq> [] \<Longrightarrow> previous \<noteq> p"
    using Cons.prems by (auto simp: sorted_wrt_append intro: less_imp_le)
  have head: "decodes (read_compressed_position (previous, read)) (varbyte_encode (p - previous)) (p, read @ [p])"
    unfolding read_compressed_position_def prod.case
    by (intro decodes_catch decodes_varbyte_bind(2)) (use u32_delta [OF le] strict in \<open>auto simp: decodes_return\<close>)
  have tail: "decodes (dec_times (length ps) read_compressed_position (p, read @ [p])) (encode_position_deltas p ps)
      (last (p # ps), (read @ [p]) @ ps)"
    by (rule Cons.IH) (use Cons.prems in simp_all)
  from decodes_bind [where k = "dec_times (length ps) read_compressed_position", OF head tail]
  show ?case by simp
qed (simp add: decodes_return)

lemma decodes_compressed_posting:
  assumes "posting_storable p" and "previous < p_doc p" and "cst_document st = previous"
    and "cst_position_count st = of_nat n"
    and "n + length (p_positions p) \<le> unat (rl_maximum_positions limits)"
  shows "decodes (read_compressed_posting limits st)
    (varbyte_encode (p_doc p - previous) @ varbyte_encode (p_tf p) @ encode_position_deltas 0 (p_positions p))
    (st\<lparr>cst_document := p_doc p, cst_postings := cst_postings st @ [p], cst_posting_count := cst_posting_count st + 1,
        cst_position_count := of_nat (n + length (p_positions p))\<rparr>)"
proof -
  note ok = assms(1) [unfolded posting_storable_def]
  have tf: "p_tf p \<noteq> 0" "ucast (p_tf p) = (of_nat (length (p_positions p)) :: u64)"
    using ok by (auto simp: ucast_of_length)
  have n: "unat (of_nat n :: u64) = n" "unat (of_nat (length (p_positions p)) :: u64) = length (p_positions p)"
    using assms(5) unat_u64_of_nat [of _ "rl_maximum_positions limits"] by auto
  have limit: "\<not> of_nat n > rl_maximum_positions limits"
      "\<not> (of_nat (length (p_positions p)) :: u64) > rl_maximum_positions limits - of_nat n"
    using assms(5) n by (simp_all add: word_less_nat_alt word_le_nat_alt unat_sub)
  have doc: "p_doc p - previous \<noteq> 0" "\<not> p_doc p - previous > - 1 - previous" "previous + (p_doc p - previous) = p_doc p"
    using assms(2) u32_delta [of previous "p_doc p"] by auto
  have head: "decodes (dec_catch (corrupt ''invalid compressed posting'')
       (dec_bind (dec_catch (corrupt []) varbyte_decode) (\<lambda>delta.
        dec_bind (dec_catch (corrupt []) varbyte_decode) (\<lambda>frequency.
          if delta = 0 \<or> delta > - 1 - cst_document st \<or> frequency = 0 \<or>
             cst_position_count st > rl_maximum_positions limits \<or>
             ucast frequency > rl_maximum_positions limits - cst_position_count st
          then dec_fail (corrupt ''invalid compressed posting'')
          else dec_return (cst_document st + delta, frequency)))))
      (varbyte_encode (p_doc p - previous) @ varbyte_encode (p_tf p)) (p_doc p, p_tf p)"
    by (intro decodes_catch decodes_varbyte_bind)
      (use doc tf limit in \<open>simp add: assms(3,4) decodes_return\<close>)
  have deltas: "decodes (dec_times (unat (p_tf p)) read_compressed_position (0, [])) (encode_position_deltas 0 (p_positions p))
      (last (0 # p_positions p), p_positions p)"
    using decodes_position_deltas [of "[]" "p_positions p" 0] ok by simp
  show ?thesis
    unfolding read_compressed_posting_def append_assoc [symmetric]
    by (rule decodes_bind [OF head], unfold prod.case, rule decodes_bind_last [OF deltas])
      (simp add: assms(4) tf decodes_def dec_return_def)
qed

lemma decodes_compressed_postings:
  assumes "list_all posting_storable ps" and "ssorted_by p_doc ps" and "\<forall>p \<in> set ps. previous < p_doc p"
    and "cst_document st = previous" and "cst_position_count st = of_nat n"
    and "n + length (positions_of_postings ps) \<le> unat (rl_maximum_positions limits)"
  shows "decodes (dec_times (length ps) (read_compressed_posting limits) st) (compressed_postings previous ps)
    (st\<lparr>cst_document := last (previous # map p_doc ps), cst_postings := cst_postings st @ ps,
        cst_posting_count := cst_posting_count st + of_nat (length ps),
        cst_position_count := of_nat (n + length (positions_of_postings ps))\<rparr>)"
  using assms
proof (induction ps arbitrary: previous st n)
  case (Cons p ps)
  let ?st = "st\<lparr>cst_document := p_doc p, cst_postings := cst_postings st @ [p], cst_posting_count := cst_posting_count st + 1,
        cst_position_count := of_nat (n + length (p_positions p))\<rparr>"
  have head: "decodes (read_compressed_posting limits st)
      (varbyte_encode (p_doc p - previous) @ varbyte_encode (p_tf p) @ encode_position_deltas 0 (p_positions p)) ?st"
    by (rule decodes_compressed_posting) (use Cons.prems in simp_all)
  have tail: "decodes (dec_times (length ps) (read_compressed_posting limits) ?st) (compressed_postings (p_doc p) ps)
     (?st\<lparr>cst_document := last (p_doc p # map p_doc ps), cst_postings := cst_postings ?st @ ps,
        cst_posting_count := cst_posting_count ?st + of_nat (length ps),
        cst_position_count := of_nat (n + length (p_positions p) + length (positions_of_postings ps))\<rparr>)"
    by (rule Cons.IH) (use Cons.prems in simp_all)
  from decodes_bind [where k = "dec_times (length ps) (read_compressed_posting limits)", OF head tail]
  show ?case by (simp add: add.assoc)
next
  case Nil
  then show ?case by (cases st) (auto simp: decodes_return)
qed

lemma compressed_entry_written:
  assumes "es = before @ (f, t, e) # after" and "entry_storable e"
    and "length (compressed_bytes es) < 2 ^ 64"
    and "length (positions_of_postings (postings_of_entries es)) \<le> unat (rl_maximum_positions limits)"
    and "tms_posting_count st = of_nat (length (postings_of_entries before))"
    and "tms_position_count st = of_nat (length (positions_of_postings (postings_of_entries before)))"
    and "tms_offset st = of_nat (length (compressed_bytes before))"
  shows "compressed_entry limits (compressed_bytes es) (header_of True before (f, t, e)) st =
    Inr (e, st\<lparr>tms_posting_count := of_nat (length (postings_of_entries (before @ [(f, t, e)]))),
               tms_position_count := of_nat (length (positions_of_postings (postings_of_entries (before @ [(f, t, e)])))),
               tms_offset := of_nat (length (compressed_bytes (before @ [(f, t, e)])))\<rparr>)"
proof -
  let ?c = "compressed_postings 0 (te_postings e)" and ?a = "compressed_bytes before"
  have es: "compressed_bytes es = ?a @ ?c @ compressed_bytes after" by (simp add: assms(1) compressed_bytes_def)
  have un: "unat (of_nat (length ?a) :: u64) = length ?a" "unat (of_nat (length ?c) :: u64) = length ?c"
    using assms(3) by (simp_all add: es unat_of_nat_small)
  have max: "unat (- 1 :: u64) = 2 ^ 64 - 1" by (simp add: unsigned_minus_1_eq_mask mask_eq_exp_minus_1)
  have "unat (- 1 - of_nat (length ?a) :: u64) = 2 ^ 64 - 1 - length ?a" using max un by (subst unat_sub) simp_all
  then have over: "\<not> (of_nat (length ?c) :: u64) > - 1 - of_nat (length ?a)"
    using assms(3) un by (simp add: word_less_nat_alt es)
  note ok = assms(2) [unfolded entry_storable_def]
  have docs: "\<forall>p \<in> set (te_postings e). 0 < p_doc p"
    using ok by (auto simp: list_all_iff posting_storable_def word_neq_0_conv)
  have n: "length (positions_of_postings (postings_of_entries before)) + length (positions_of_postings (te_postings e))
      \<le> unat (rl_maximum_positions limits)"
    using assms(4) by (simp add: assms(1) postings_of_entries_def)
  let ?st = "\<lparr>cst_document = 0, cst_postings = [], cst_posting_count = tms_posting_count st,
                   cst_position_count = tms_position_count st\<rparr>"
  have "decodes (dec_times (length (te_postings e)) (read_compressed_posting limits) ?st) ?c
      (?st\<lparr>cst_document := last (0 # map p_doc (te_postings e)), cst_postings := cst_postings ?st @ te_postings e,
        cst_posting_count := cst_posting_count ?st + of_nat (length (te_postings e)),
        cst_position_count := of_nat (length (positions_of_postings (postings_of_entries before)) +
          length (positions_of_postings (te_postings e)))\<rparr>)"
    by (rule decodes_compressed_postings) (use ok docs n assms(6) in simp_all)
  from decodesD_all [OF this] show ?thesis
    using ok un over by (simp add: compressed_entry_def header_of_def assms(5-7) es)
      (simp add: compressed_bytes_def)
qed

section \<open>The terms\<close>

definition header_ok :: "segment_read_limits \<Rightarrow> term_header \<Rightarrow> bool" where
  "header_ok limits h \<longleftrightarrow> string_fits limits (th_field h) \<and> string_fits limits (th_term h) \<and> th_term h \<noteq> [] \<and>
     th_frequency h \<noteq> 0"

interpretation term_headers: record_format put_header "read_term_header limits" "header_ok limits"
proof
  fix h
  assume "header_ok limits h"
  then show "decodes (read_term_header limits) (put_header h) h"
    by (cases h) (auto simp: header_ok_def put_header_def read_term_header_def intro!: decode_intros)
qed

definition entry_fits :: "segment_read_limits \<Rightarrow> dict_entry \<Rightarrow> bool" where
  "entry_fits limits = (\<lambda>(f, t, e). string_fits limits f \<and> string_fits limits t \<and> t \<noteq> [] \<and> entry_storable e)"

definition term_state_after :: "bool \<Rightarrow> dict_entry list \<Rightarrow> term_state" where
  "term_state_after compressed es =
     \<lparr>tms_fields = fold rebuild_step es [],
      tms_posting_count = (if compressed then of_nat (length (postings_of_entries es)) else 0),
      tms_position_count = (if compressed then of_nat (length (positions_of_postings (postings_of_entries es))) else 0),
      tms_offset = (if compressed then of_nat (length (compressed_bytes es)) else 0)\<rparr>"

definition sizes_fit :: "segment_read_limits \<Rightarrow> bool \<Rightarrow> dict_entry list \<Rightarrow> bool" where
  "sizes_fit limits compressed es \<longleftrightarrow>
     length es \<le> unat (rl_maximum_terms limits) \<and>
     length (postings_of_entries es) \<le> unat (rl_maximum_postings limits) \<and>
     length (positions_of_postings (postings_of_entries es)) \<le> unat (rl_maximum_positions limits) \<and>
     (if compressed then length (compressed_bytes es) < 2 ^ 64
      else 24 * length (postings_of_entries es) < 2 ^ 64 \<and>
           4 * length (positions_of_postings (postings_of_entries es)) < 2 ^ 64)"

lemma add_term_written:
  assumes "distinct (map fst (entry_keys (before @ [(f, t, e)])))" and "tms_fields st = fold rebuild_step before []"
    and "th_field h = f" and "th_term h = t"
  shows "add_term h e st = Inr (st\<lparr>tms_fields := fold rebuild_step (before @ [(f, t, e)]) []\<rparr>)"
proof -
  have d: "distinct (map fst (entry_keys before))" "map_of (entry_keys before) (f, t) = None"
    using assms(1) by (auto simp: entry_keys_snoc map_of_eq_None_iff)
  then have "map_of (om_get [] (fold rebuild_step before []) f) t = None"
    using rebuild_lookup [OF d(1), of f t] by simp
  then show ?thesis
    using assms by (simp add: add_term_def om_emplace_def rebuild_step_def)
qed

lemma decodes_term:
  assumes "es = before @ (f, t, e) # after" and "list_all (entry_fits limits) es" and "sizes_fit limits compressed es"
    and "distinct (map fst (entry_keys es))"
    and "compressed \<or> positions = positions_of_postings (postings_of_entries es) \<and> raws = raw_records 0 (postings_of_entries es)"
    and "compressed \<Longrightarrow> posting_bytes = compressed_bytes es"
  shows "decodes (read_term limits compressed positions raws posting_bytes (term_state_after compressed before))
    (put_header (header_of compressed before (f, t, e))) (term_state_after compressed (before @ [(f, t, e)]))"
proof -
  let ?h = "header_of compressed before (f, t, e)" and ?st = "term_state_after compressed before"
  have e: "entry_storable e" "header_ok limits ?h"
    using assms(2) by (auto simp: assms(1) entry_fits_def header_ok_def header_of_def entry_storable_def)
  define st1 where "st1 = (term_state_after compressed (before @ [(f, t, e)]))\<lparr>tms_fields := tms_fields ?st\<rparr>"
  have "(if compressed then compressed_entry limits posting_bytes ?h ?st
             else map_sum id (\<lambda>entry. (entry, ?st)) (raw_entry positions raws ?h)) = Inr (e, st1)"
  proof (cases compressed)
    case True
    then show ?thesis
      using compressed_entry_written [OF assms(1) e(1), of limits ?st] assms(3,6)
      by (simp add: sizes_fit_def term_state_after_def st1_def)
  next
    case False
    then show ?thesis
      using raw_entry_written [OF assms(1) e(1)] assms(3,5) by (simp add: sizes_fit_def term_state_after_def st1_def)
  qed
  moreover have "distinct (map fst (entry_keys (before @ [(f, t, e)])))"
    using assms(4) by (simp add: assms(1) entry_keys_def)
  from add_term_written [OF this, of st1 ?h]
  have "add_term ?h e st1 = Inr (term_state_after compressed (before @ [(f, t, e)]))"
    by (simp add: st1_def term_state_after_def header_of_def)
  ultimately show ?thesis
    unfolding read_term_def
    by (intro decodes_bind_last [OF term_headers.decodes_put [OF e(2)]]) (simp add: decodes_return)
qed

lemma read_dictionaries_written:
  assumes "nonempty_dicts dicts" and "es = dict_entries dicts" and "list_all (entry_fits limits) es"
    and "sizes_fit limits compressed es" and "ei = encode_entries compressed es"
  shows "read_dictionaries limits compressed
    \<lparr>sl_bytes = ei_terms ei, sl_count = ei_term_count ei\<rparr> \<lparr>sl_bytes = ei_postings ei, sl_count = ei_posting_count ei\<rparr>
    \<lparr>sl_bytes = ei_positions ei, sl_count = ei_position_count ei\<rparr> = Inr dicts"
proof -
  let ?ps = "postings_of_entries es" and ?qs = "positions_of_postings (postings_of_entries es)"
  note ei = encode_entries_written [of compressed es, folded assms(5)]
  note sz = assms(4) [unfolded sizes_fit_def]
  have un: "unat (of_nat (length es) :: u64) = length es"
    using unat_u64_of_nat [of "length es" "rl_maximum_terms limits"] sz by simp
  have keys: "distinct (map fst (entry_keys es))" using dict_entries_keys [OF assms(1)] assms(2) by simp
  define positions where "positions = (if compressed then [] else ?qs)"
  define raws where "raws = (if compressed then [] else raw_records 0 ?ps)"
  have store: "list_all posting_storable ?ps"
    using assms(3) by (auto simp: list_all_iff postings_of_entries_def entry_fits_def entry_storable_def)
  have pos: "read_positions limits compressed \<lparr>sl_bytes = ei_positions ei, sl_count = ei_position_count ei\<rparr> = Inr positions"
    using read_positions_written [of ?qs limits] sz u64_of_nat_le [of "length ?qs" "rl_maximum_positions limits"]
    by (cases compressed) (simp_all add: ei positions_def read_positions_def)
  have raw: "read_raw_postings limits compressed (length positions)
      \<lparr>sl_bytes = ei_postings ei, sl_count = ei_posting_count ei\<rparr> = Inr raws"
    using read_raws_written [OF store, of limits] sz u64_of_nat_le [of "length ?ps" "rl_maximum_postings limits"]
    by (cases compressed) (simp_all add: ei positions_def raws_def read_raw_postings_def)
  have "decodes (read_term limits compressed positions raws (ei_postings ei) (term_state_after compressed (take i es)))
      (put_header (headers compressed es ! i)) (term_state_after compressed (take (Suc i) es))" if i: "i < length es" for i
  proof -
    obtain f t e where x: "es ! i = (f, t, e)" by (cases "es ! i")
    have "es = take i es @ (f, t, e) # drop (Suc i) es" using i id_take_nth_drop [of i es] x by simp
    from decodes_term [OF this assms(3,4) keys, of positions raws "ei_postings ei"] show ?thesis
      using i x by (simp add: positions_def raws_def ei headers_def take_Suc_conv_app_nth)
  qed
  then have "decodes (dec_times (length (headers compressed es)) (read_term limits compressed positions raws (ei_postings ei))
      (term_state_after compressed (take 0 es))) (concat (map put_header (headers compressed es)))
      (term_state_after compressed (take (length (headers compressed es)) es))"
    by (intro decodes_times) (simp add: headers_def)
  then have terms: "dec_times (length es) (read_term limits compressed positions raws (ei_postings ei))
      \<lparr>tms_fields = [], tms_posting_count = 0, tms_position_count = 0, tms_offset = 0\<rparr> (ei_terms ei) =
      Inr (term_state_after compressed es, [])"
    using decodesD_all by (fastforce simp: headers_def ei term_state_after_def compressed_bytes_def)
  have "unat (of_nat (length (compressed_bytes es)) :: u64) = length (compressed_bytes es)" if compressed
    using sz that by (simp add: unat_of_nat_small)
  then show ?thesis
    using pos raw terms un sz u64_of_nat_le [of "length es" "rl_maximum_terms limits"] rebuild_entries [OF assms(1)]
    by (simp add: read_dictionaries_def ei term_state_after_def assms(2))
qed

end
