(* ===== verification/Segment_Layout.thy ===== *)
theory Segment_Layout
  imports Segment_Terms
begin

text \<open>
  The layout of a segment file. The writer overwrites zeroed bytes at increasing offsets
  (\<open>fold_overwrite\<close>), so that the file is the header, the directory and the sections one after the
  other (\<open>segment_bytes_layout\<close>); the reader recovers the header and the sections from it.
\<close>

section \<open>Overwriting zeroed bytes\<close>

fun fill :: "nat \<Rightarrow> (nat \<times> bytes) list \<Rightarrow> bytes" where
  "fill position [] = []"
| "fill position ((offset, new) # ps) = replicate (offset - position) 0 @ new @ fill (offset + length new) ps"

fun patches_within :: "nat \<Rightarrow> nat \<Rightarrow> (nat \<times> bytes) list \<Rightarrow> bool" where
  "patches_within position limit [] \<longleftrightarrow> position \<le> limit"
| "patches_within position limit ((offset, new) # ps) \<longleftrightarrow>
     position \<le> offset \<and> patches_within (offset + length new) limit ps"

lemma patches_within_le: "patches_within position limit ps \<Longrightarrow> position \<le> limit"
  by (induction position limit ps rule: patches_within.induct) auto

lemma overwrite_zeros:
  assumes "offset = length written + gap" and "gap + length new \<le> k"
  shows "overwrite (offset, new) (written @ replicate k 0 @ rest) =
    (written @ replicate gap 0 @ new) @ replicate (k - (gap + length new)) 0 @ rest"
  using assms by (simp add: overwrite_def min_def)

lemma fold_overwrite:
  "patches_within (length written) (length written + k) ps \<Longrightarrow>
    fold overwrite ps (written @ replicate k 0 @ rest) =
      written @ fill (length written) ps @ replicate (k - length (fill (length written) ps)) 0 @ rest"
proof (induction ps arbitrary: written k)
  case (Cons p ps)
  obtain offset new where p: "p = (offset, new)" by (cases p)
  define gap where "gap = offset - length written"
  have off: "offset = length written + gap" and within: "patches_within (offset + length new) (length written + k) ps"
    using Cons.prems by (auto simp: p gap_def)
  have le: "gap + length new \<le> k" using patches_within_le [OF within] off by simp
  let ?w = "written @ replicate gap 0 @ new"
  have "length ?w = offset + length new" "length ?w + (k - (gap + length new)) = length written + k"
    using off le by simp_all
  with Cons.IH [of ?w "k - (gap + length new)"] within overwrite_zeros [OF off le, of rest] show ?case
    by (simp add: p gap_def)
qed simp

section \<open>The file\<close>

definition put_section_entry :: "section_data \<Rightarrow> nat \<Rightarrow> bytes" where
  "put_section_entry s offset =
     put_u32 (sec_type s) @ put_u32 0 @ put_u64 (of_nat offset) @ put_u64 (of_nat (length (sec_bytes s))) @
     put_u64 (sec_count s)"

fun directory_bytes :: "nat \<Rightarrow> section_data list \<Rightarrow> bytes" where
  "directory_bytes offset [] = []"
| "directory_bytes offset (s # ss) = put_section_entry s offset @ directory_bytes (offset + length (sec_bytes s)) ss"

lemma put_u32_zero: "put_u32 0 = replicate 4 0"
  by (simp add: put_u32_def put_integer_def numeral_eq_Suc)

lemma length_section_entry [simp]: "length (put_section_entry s offset) = 32"
  by (simp add: put_section_entry_def)

lemma length_directory_bytes [simp]: "length (directory_bytes offset ss) = 32 * length ss"
  by (induction ss arbitrary: offset) simp_all

lemma write_section_zeros:
  assumes "32 \<le> k"
  shows "write_section s (written @ replicate k 0 @ payload, length written) =
    ((written @ put_section_entry s (length written + k + length payload)) @ replicate (k - 32) 0 @
       payload @ sec_bytes s, length written + 32)"
proof -
  let ?n = "length written" and ?o = "length written + k + length payload"
  let ?ps = "[(?n, put_u32 (sec_type s)), (?n + 8, put_u64 (of_nat ?o)),
      (?n + 16, put_u64 (of_nat (length (sec_bytes s)))), (?n + 24, put_u64 (sec_count s))]"
  have "fill ?n ?ps = put_section_entry s ?o"
    by (simp add: put_section_entry_def put_u32_zero)
  moreover have "patches_within ?n (?n + k) ?ps" using assms by simp
  ultimately have eq: "fold overwrite ?ps (written @ replicate k 0 @ payload) =
      written @ put_section_entry s ?o @ replicate (k - 32) 0 @ payload"
    using fold_overwrite [of written k ?ps payload] by simp
  have len: "length (written @ replicate k 0 @ payload) = ?o" by simp
  show ?thesis unfolding write_section_def prod.case len eq by simp
qed

lemma fold_write_section:
  "fold write_section ss (written @ replicate (32 * length ss) 0 @ payload, length written) =
    (written @ directory_bytes (length written + 32 * length ss + length payload) ss @ payload @
       concat (map sec_bytes ss), length written + 32 * length ss)"
proof (induction ss arbitrary: written payload)
  case (Cons s ss)
  let ?o = "length written + 32 * length (s # ss) + length payload"
  let ?w = "written @ put_section_entry s ?o"
  have "write_section s (written @ replicate (32 * length (s # ss)) 0 @ payload, length written) =
      (?w @ replicate (32 * length ss) 0 @ payload @ sec_bytes s, length ?w)"
    using write_section_zeros [of "32 * length (s # ss)" s written payload] by simp
  with Cons.IH [of ?w "payload @ sec_bytes s"] show ?case by (simp add: add.assoc)
qed simp

lemma length_segment_sections [simp]: "length (segment_sections sn compressed) = 6"
  by (simp add: segment_sections_def Let_def)

definition segment_body :: "index_snapshot \<Rightarrow> bool \<Rightarrow> bytes" where
  "segment_body sn compressed = directory_bytes 256 (segment_sections sn compressed) @
     concat (map sec_bytes (segment_sections sn compressed))"

lemma segment_bytes_layout:
  "segment_bytes sn options =
    (let compressed = wo_compressed_postings options; body = segment_body sn compressed
     in segment_magic @
        (put_u16 1 @ put_u16 (if compressed then 1 else 0) @ put_u32 64 @ put_u64 (of_nat (64 + length body)) @
         put_u64 (wo_segment_id options) @ put_u32 6 @ put_u32 (if compressed then 1 else 0) @ put_u32 (crc32c body)) @
        replicate 20 0 @ body)"
proof -
  define body where "body = segment_body sn (wo_compressed_postings options)"
  have img: "fst (fold write_section (segment_sections sn (wo_compressed_postings options)) (replicate (64 + 6 * 32) 0, 64)) =
      [] @ replicate 64 0 @ body"
    using fold_write_section [of "segment_sections sn (wo_compressed_postings options)" "replicate 64 0" "[]"]
    by (simp add: body_def segment_body_def flip: replicate_add)
  have magic: "length segment_magic = 8" by (simp add: segment_magic_def)
  let ?ps = "[(0, segment_magic), (8, put_u16 1), (10, put_u16 (if wo_compressed_postings options then 1 else 0)),
      (12, put_u32 64), (16, put_u64 (of_nat (64 + length body))), (24, put_u64 (wo_segment_id options)),
      (32, put_u32 6), (36, put_u32 (if wo_compressed_postings options then 1 else 0)), (40, put_u32 (crc32c body))]"
  have "segment_bytes sn options = fold overwrite ?ps ([] @ replicate 64 0 @ body)"
    unfolding segment_bytes_def Let_def img by simp
  also have "\<dots> = [] @ fill 0 ?ps @ replicate 20 0 @ body"
    by (subst fold_overwrite) (simp_all add: magic)
  finally show ?thesis by (simp add: magic body_def Let_def)
qed

section \<open>Reading the header and the directory\<close>

lemma read_header_written:
  assumes "length (segment_bytes sn options) < 2 ^ 64" and "wo_segment_id options \<noteq> 0"
  shows "read_segment_header (segment_bytes sn options) =
    Inr \<lparr>sh_segment_id = wo_segment_id options, sh_compressed = wo_compressed_postings options\<rparr>"
proof -
  define c where "c = wo_compressed_postings options"
  define body where "body = segment_body sn c"
  define mid where "mid = put_u16 1 @ put_u16 (if c then 1 else 0) @ put_u32 64 @ put_u64 (of_nat (64 + length body)) @
         put_u64 (wo_segment_id options) @ put_u32 6 @ put_u32 (if c then 1 else 0) @ put_u32 (crc32c body)"
  have magic: "length segment_magic = 8" by (simp add: segment_magic_def)
  have img: "segment_bytes sn options = segment_magic @ mid @ replicate 20 0 @ body"
    by (simp add: segment_bytes_layout Let_def mid_def body_def c_def)
  have mid: "length mid = 36" by (simp add: mid_def)
  have len: "length (segment_bytes sn options) = 64 + length body" by (simp add: img magic mid)
  have "decodes (dec_catch (corrupt ''truncated segment header'')
             (dec_bind seg_u16 (\<lambda>major. dec_bind seg_u16 (\<lambda>minor. dec_bind seg_u32 (\<lambda>header_size.
              dec_bind seg_u64 (\<lambda>recorded_size. dec_bind seg_u64 (\<lambda>segment_id. dec_bind seg_u32 (\<lambda>section_count.
              dec_bind seg_u32 (\<lambda>flags. dec_bind seg_u32 (\<lambda>checksum.
                dec_return (major, minor, header_size, recorded_size, segment_id, section_count, flags, checksum)))))))))))
      mid (1, if c then 1 else 0, 64, of_nat (64 + length body), wo_segment_id options, 6, if c then 1 else 0, crc32c body)"
    unfolding mid_def by (intro decode_intros)
  note header = decodesD [OF this, of "replicate 20 0"]
  have parts: "take 8 (segment_bytes sn options) = segment_magic"
      "take 56 (drop 8 (segment_bytes sn options)) = mid @ replicate 20 0"
      "take 20 (drop 44 (segment_bytes sn options)) = replicate 20 0" "drop 64 (segment_bytes sn options) = body"
    by (simp_all add: img magic mid)
  have size: "unat (of_nat (64 + length body) :: u64) = length (segment_bytes sn options)"
    unfolding len by (rule unat_of_nat_small) (use assms(1) len in simp)
  have zero: "\<not> list_ex (\<lambda>b. b \<noteq> 0) (replicate 20 (0 :: u8))" by (simp add: list_ex_iff)
  show ?thesis
    unfolding read_segment_header_def parts header using size zero assms(2) by (cases c) (simp_all add: c_def)
qed

fun numbered :: "u32 \<Rightarrow> section_data list \<Rightarrow> bool" where
  "numbered k [] \<longleftrightarrow> True"
| "numbered k (s # ss) \<longleftrightarrow> sec_type s = k + 1 \<and> numbered (k + 1) ss"

definition slice_of :: "section_data \<Rightarrow> segment_slice" where
  "slice_of s = \<lparr>sl_bytes = sec_bytes s, sl_count = sec_count s\<rparr>"

lemma decodes_directory:
  "file = written @ concat (map sec_bytes ss) \<Longrightarrow> length file < 2 ^ 64 \<Longrightarrow> numbered k ss \<Longrightarrow>
    decodes (dec_times (length ss) (read_directory_entry file) (k, of_nat (length written), slices))
      (directory_bytes (length written) ss)
      (k + of_nat (length ss), of_nat (length file), slices @ map slice_of ss)"
proof (induction ss arbitrary: written k slices)
  case (Cons s ss)
  let ?n = "length written" and ?m = "length (sec_bytes s)"
  have "?n < 2 ^ 64" "?m < 2 ^ 64" using Cons.prems(1,2) by simp_all
  then have un: "unat (of_nat ?n :: u64) = ?n" "unat (of_nat ?m :: u64) = ?m" "unat (of_nat (length file) :: u64) = length file"
    using Cons.prems(2) by (simp_all add: unat_of_nat_small)
  have "unat (of_nat (length file) - of_nat ?n :: u64) = length file - ?n"
    using un Cons.prems(1) by (subst unat_sub) (simp_all add: word_le_nat_alt)
  then have le: "\<not> (of_nat ?m :: u64) > of_nat (length file) - of_nat ?n"
    using un Cons.prems(1) by (simp add: word_less_nat_alt)
  have head: "decodes (read_directory_entry file (k, of_nat ?n, slices)) (put_section_entry s ?n)
      (k + 1, of_nat (length (written @ sec_bytes s)), slices @ [slice_of s])"
    unfolding read_directory_entry_def put_section_entry_def prod.case
    by (intro decode_intros) (use le un Cons.prems(1,3) in \<open>simp add: decodes_return slice_of_def\<close>)
  have tail: "decodes (dec_times (length ss) (read_directory_entry file)
        (k + 1, of_nat (length (written @ sec_bytes s)), slices @ [slice_of s]))
      (directory_bytes (length (written @ sec_bytes s)) ss)
      (k + 1 + of_nat (length ss), of_nat (length file), (slices @ [slice_of s]) @ map slice_of ss)"
    by (rule Cons.IH) (use Cons.prems in simp_all)
  from decodes_bind [where k = "dec_times (length ss) (read_directory_entry file)", OF head tail]
  show ?case by (simp add: add.assoc)
qed (simp add: decodes_return)

lemma read_directory_written:
  assumes "length (segment_bytes sn options) < 2 ^ 64"
  shows "read_directory (segment_bytes sn options) =
    Inr (map slice_of (segment_sections sn (wo_compressed_postings options)))"
proof -
  define ss where "ss = segment_sections sn (wo_compressed_postings options)"
  define image where "image = segment_bytes sn options"
  obtain head where head: "length head = 64" "image = (head @ directory_bytes 256 ss) @ concat (map sec_bytes ss)"
  proof -
    have img: "image = (segment_magic @ (put_u16 1 @ put_u16 (if wo_compressed_postings options then 1 else 0) @ put_u32 64 @
        put_u64 (of_nat (64 + length (segment_body sn (wo_compressed_postings options)))) @
        put_u64 (wo_segment_id options) @ put_u32 6 @ put_u32 (if wo_compressed_postings options then 1 else 0) @
        put_u32 (crc32c (segment_body sn (wo_compressed_postings options)))) @ replicate 20 0) @
        segment_body sn (wo_compressed_postings options)"
      by (simp add: image_def segment_bytes_layout Let_def)
    show thesis by (rule that [OF _ img [unfolded segment_body_def, folded ss_def append_assoc]])
        (simp add: segment_magic_def)
  qed
  have len6: "length ss = 6" by (simp add: ss_def)
  have off: "length (head @ directory_bytes 256 ss) = 256" using head(1) by (simp add: len6)
  have num: "numbered 0 ss" by (simp add: ss_def segment_sections_def Let_def)
  have "decodes (dec_times 6 (read_directory_entry image) (0, 256, [])) (directory_bytes 256 ss)
      (0 + of_nat (length ss), of_nat (length image), [] @ map slice_of ss)"
    using decodes_directory [OF head(2), of 0 "[]"] assms num off by (simp add: len6 image_def)
  moreover have "take (6 * 32) (drop 64 image) = directory_bytes 256 ss"
    using head by (simp add: len6)
  ultimately show ?thesis
    using assms by (simp add: read_directory_def image_def [symmetric] decodesD_all unat_of_nat_small ss_def)
qed

end
