(* ===== verification/Segment_Check.thy ===== *)
theory Segment_Check
  imports Segment_Layout
begin

text \<open>
  The self check of a segment: it accepts the reader of every reachable index, and what it
  accepts is consistent. Both directions rest on the bisection being a search.
\<close>

section \<open>Bisection\<close>

lemma bisect_upper: "bisect key x xs first len \<le> first + len"
proof (induction key x xs first len rule: bisect.induct)
  case (1 key x xs first len)
  then show ?case by (subst bisect.simps) (force simp: Let_def)
qed

lemma bisect_found:
  "bisect key x xs first len < first + len \<Longrightarrow> \<not> key (xs ! bisect key x xs first len) < x"
proof (induction key x xs first len rule: bisect.induct)
  case (1 key x xs first len)
  show ?case
  proof (cases "len = 0")
    case False
    let ?half = "len div 2"
    show ?thesis
    proof (cases "key (xs ! (first + ?half)) < x")
      case True
      then have "bisect key x xs first len = bisect key x xs (first + ?half + 1) (len - ?half - 1)"
        using False by (subst bisect.simps) (simp add: Let_def)
      with 1 False True show ?thesis by simp
    next
      case small: False
      then have eq: "bisect key x xs first len = bisect key x xs first ?half"
        using False by (subst bisect.simps) (simp add: Let_def)
      show ?thesis
      proof (cases "bisect key x xs first ?half < first + ?half")
        case True
        with 1(2) [OF False refl refl small] eq show ?thesis by simp
      next
        case stop: False
        have "bisect key x xs first ?half \<le> first + ?half" by (rule bisect_upper)
        with stop have "bisect key x xs first ?half = first + ?half" by simp
        with small eq show ?thesis by simp
      qed
    qed
  qed (use 1 in \<open>simp add: bisect.simps\<close>)
qed

lemma bisect_below:
  "sorted (map key xs) \<Longrightarrow> first + len \<le> length xs \<Longrightarrow> \<forall>j < first. key (xs ! j) < x \<Longrightarrow>
    j < bisect key x xs first len \<Longrightarrow> key (xs ! j) < x"
proof (induction key x xs first len rule: bisect.induct)
  case (1 key x xs first len)
  show ?case
  proof (cases "len = 0")
    case False
    let ?mid = "first + len div 2"
    have mid: "?mid < length xs" using 1(4) False by auto
    show ?thesis
    proof (cases "key (xs ! ?mid) < x")
      case True
      have "key (xs ! i) < x" if "i < ?mid + 1" for i
        using sorted_nth_mono [OF 1(3), of i ?mid] mid True that by (auto simp: less_Suc_eq)
      moreover have "j < bisect key x xs (?mid + 1) (len - len div 2 - 1)"
        using 1(6) False True by (subst (asm) bisect.simps) (simp add: Let_def)
      ultimately show ?thesis using 1(1) [OF False refl refl True 1(3)] 1(4) False by auto
    next
      case small: False
      then have "j < bisect key x xs first (len div 2)"
        using 1(6) False by (subst (asm) bisect.simps) (simp add: Let_def)
      with 1(2) [OF False refl refl small 1(3)] 1(4,5) show ?thesis by auto
    qed
  qed (use 1 in \<open>simp add: bisect.simps\<close>)
qed

text \<open>What it finds is there, in any list; in a sorted list it finds what is there.\<close>

lemma binary_search_sound: "binary_search key x xs \<Longrightarrow> x \<in> key ` set xs"
  using bisect_found [of key x xs 0 "length xs"]
  by (force simp: binary_search_def Let_def dest: nth_mem)

lemma binary_search_complete:
  assumes "sorted (map key xs)" and "y \<in> set xs"
  shows "binary_search key (key y) xs"
proof -
  let ?i = "bisect key (key y) xs 0 (length xs)"
  obtain j where j: "j < length xs" "xs ! j = y" using assms(2) by (auto simp: in_set_conv_nth)
  have "\<not> j < ?i" using bisect_below [OF assms(1), of 0 "length xs" "key y" j] j by auto
  with sorted_nth_mono [OF assms(1), of ?i j] j show ?thesis by (auto simp: binary_search_def Let_def)
qed

section \<open>What the check establishes\<close>

lemma fold_result_unit: "fold_result step xs () = Inr () \<Longrightarrow> x \<in> set xs \<Longrightarrow> step x () = Inr ()"
proof (induction xs)
  case (Cons y xs)
  then show ?case by (cases "step y ()") auto
qed simp

lemma fold_result_steps:
  assumes "fold_result step xs s = Inr s'" and "\<And>x s t. x \<in> set xs \<Longrightarrow> step x s = Inr t \<Longrightarrow> P x \<and> t = upd x s"
  shows "s' = fold upd xs s \<and> (\<forall>x \<in> set xs. P x)"
  using assms
proof (induction xs arbitrary: s)
  case (Cons y xs)
  then obtain t where "step y s = Inr t" "fold_result step xs t = Inr s'" by (cases "step y s") auto
  with Cons show ?case by auto
qed simp

text \<open>A consistent reader: the postings and the documents refer to each other, and the statistics are exact.\<close>

definition reader_consistent :: "segment_reader \<Rightarrow> bool" where
  "reader_consistent s \<longleftrightarrow>
     (\<forall>f dict t e. (f, dict) \<in> set (sgr_fields s) \<longrightarrow> (t, e) \<in> set dict \<longrightarrow>
        schema_find (sgr_schema s) f \<noteq> None \<and> t \<noteq> [] \<and> unat (te_df e) = length (te_postings e) \<and>
        ssorted_by p_doc (te_postings e) \<and>
        (\<forall>p \<in> set (te_postings e). \<exists>r. reader_document_internal s (p_doc p) = Some r \<and>
           \<not> doc_deleted (dr_document r) \<and> unat (p_tf p) = length (p_positions p) \<and> p_positions p \<noteq> [] \<and>
           sorted_wrt (<) (p_positions p) \<and> map_of (dr_field_lengths r) f \<noteq> None \<and>
           (\<exists>ts. map_of (dr_indexed_terms r) f = Some ts \<and> t \<in> set ts))) \<and>
     length (sgr_external_ids s) = length (sgr_documents s) \<and>
     (\<forall>did r. (did, r) \<in> set (sgr_documents s) \<longrightarrow>
        did = doc_id (dr_document r) \<and> reader_external_id s (dr_internal_id r) = Some did \<and>
        (\<forall>f \<in> fst ` set (doc_fields (dr_document r)) \<union> fst ` set (doc_metadata (dr_document r)).
           schema_find (sgr_schema s) f \<noteq> None) \<and>
        (if doc_deleted (dr_document r) then dr_field_lengths r = [] \<and> dr_indexed_terms r = []
         else \<forall>f ts t. (f, ts) \<in> set (dr_indexed_terms r) \<longrightarrow> t \<in> set ts \<longrightarrow>
           (\<exists>e p. reader_lookup s f t = Some e \<and> p \<in> set (te_postings e) \<and> p_doc p = dr_internal_id r))) \<and>
     (let expected = fold (\<lambda>(did, r). fold insert_length (dr_field_lengths r)) (sgr_documents s) []
      in length expected = length (sgr_statistics s) \<and>
         (\<forall>(f, acc) \<in> set expected. \<exists>st. map_of (sgr_statistics s) f = Some st \<and>
            fs_count st = fa_count acc \<and> fs_total st = fa_total acc))"

lemma check_reader_posting_Inr:
  assumes "check_reader_posting s f t p () = Inr ()"
  shows "\<exists>r. reader_document_internal s (p_doc p) = Some r \<and>
           \<not> doc_deleted (dr_document r) \<and> unat (p_tf p) = length (p_positions p) \<and> p_positions p \<noteq> [] \<and>
           sorted_wrt (<) (p_positions p) \<and> map_of (dr_field_lengths r) f \<noteq> None \<and>
           (\<exists>ts. map_of (dr_indexed_terms r) f = Some ts \<and> t \<in> set ts)"
  using assms binary_search_sound [of id t] no_adjacent_equal_sorted [of "p_positions p"]
  by (auto simp: check_reader_posting_def om_contains_def unat_eq_zero split: option.splits if_splits)

lemma check_reader_entry_Inr:
  assumes "check_reader_entry s f (t, e) () = Inr ()"
  shows "schema_find (sgr_schema s) f \<noteq> None \<and> t \<noteq> [] \<and> unat (te_df e) = length (te_postings e) \<and>
    ssorted_by p_doc (te_postings e) \<and> (\<forall>p \<in> set (te_postings e). check_reader_posting s f t p () = Inr ())"
  using assms no_adjacent_equal_sorted [of "map p_doc (te_postings e)"]
  by (auto simp: check_reader_entry_def ssorted_by_def fold_result_unit split: if_splits)

lemma check_references_Inr:
  assumes "check_references s r (f, ts) () = Inr ()" and "t \<in> set ts"
  shows "\<exists>e p. reader_lookup s f t = Some e \<and> p \<in> set (te_postings e) \<and> p_doc p = dr_internal_id r"
proof -
  have "check_reference s r f t () = Inr ()"
    using assms by (auto simp: check_references_def intro: fold_result_unit split: if_splits)
  then show ?thesis
    using binary_search_sound [of p_doc "dr_internal_id r"]
    by (force simp: check_reference_def split: option.splits if_splits)
qed

lemma check_lengths_Inr:
  "fold_result (check_length s) lens expected = Inr expected' \<Longrightarrow> expected' = fold insert_length lens expected"
  by (induction lens arbitrary: expected)
    (auto simp: check_length_def simp del: insert_length.simps split: if_splits)

lemma check_reader_record_Inr:
  assumes "check_reader_record s (did, r) expected = Inr expected'"
  shows "did = doc_id (dr_document r) \<and> reader_external_id s (dr_internal_id r) = Some did \<and>
        (\<forall>f \<in> fst ` set (doc_fields (dr_document r)) \<union> fst ` set (doc_metadata (dr_document r)).
           schema_find (sgr_schema s) f \<noteq> None) \<and>
        (if doc_deleted (dr_document r) then dr_field_lengths r = [] \<and> dr_indexed_terms r = []
         else \<forall>f ts t. (f, ts) \<in> set (dr_indexed_terms r) \<longrightarrow> t \<in> set ts \<longrightarrow>
           (\<exists>e p. reader_lookup s f t = Some e \<and> p \<in> set (te_postings e) \<and> p_doc p = dr_internal_id r)) \<and>
    expected' = fold insert_length (dr_field_lengths r) expected"
proof -
  note unfolded = assms [unfolded check_reader_record_def prod.case]
  have known: "\<exists>y. schema_find (sgr_schema s) f = Some y"
    if "fold_result (check_known s m) xs () = Inr ()" "(f, v) \<in> set xs" for m f v and xs :: "(string \<times> string) list"
    using fold_result_unit [OF that] by (auto simp: check_known_def split: if_splits)
  have "\<forall>f ts t. (f, ts) \<in> set (dr_indexed_terms r) \<longrightarrow> t \<in> set ts \<longrightarrow>
      (\<exists>e p. reader_lookup s f t = Some e \<and> p \<in> set (te_postings e) \<and> p_doc p = dr_internal_id r)"
    if "fold_result (check_references s r) (dr_indexed_terms r) () = Inr ()"
    using fold_result_unit [OF that] check_references_Inr by blast
  with unfolded known check_lengths_Inr show ?thesis
    by (auto simp: reader_external_id_def split: if_splits sum.splits)
qed

lemma validated_consistent:
  assumes "reader_validate_invariants s = Inr ()"
  shows "reader_consistent s"
proof -
  let ?upd = "\<lambda>(did, r). fold insert_length (dr_field_lengths r)"
  obtain expected where checks:
      "fold_result (\<lambda>(f, dict). fold_result (check_reader_entry s f) dict) (sgr_fields s) () = Inr ()"
      "length (sgr_external_ids s) = length (sgr_documents s)"
      "fold_result (check_reader_record s) (sgr_documents s) [] = Inr expected"
      "length expected = length (sgr_statistics s)" "fold_result (check_statistic s) expected () = Inr ()"
    using assms by (auto simp: reader_validate_invariants_def split: sum.splits if_splits)
  have entry: "check_reader_entry s f (t, e) () = Inr ()" if "(f, dict) \<in> set (sgr_fields s)" "(t, e) \<in> set dict" for f dict t e
    using fold_result_unit [OF fold_result_unit [OF checks(1) that(1), unfolded prod.case] that(2)] .
  have step: "(\<exists>a b. check_reader_record s x a = Inr b) \<and> t = ?upd x st" if "check_reader_record s x st = Inr t" for x st t
    using that check_reader_record_Inr [of s "fst x" "snd x" st t] by (cases x) auto
  have "expected = fold ?upd (sgr_documents s) [] \<and> (\<forall>x \<in> set (sgr_documents s). \<exists>a b. check_reader_record s x a = Inr b)"
    by (rule fold_result_steps [OF checks(3)]) (rule step)
  then have recs: "expected = fold ?upd (sgr_documents s) []" "\<forall>x \<in> set (sgr_documents s). \<exists>a b. check_reader_record s x a = Inr b"
    by simp_all
  have "\<exists>st. map_of (sgr_statistics s) f = Some st \<and> fs_count st = fa_count acc \<and> fs_total st = fa_total acc"
    if "(f, acc) \<in> set expected" for f acc
    using fold_result_unit [OF checks(5) that] by (auto simp: check_statistic_def split: option.splits if_splits)
  moreover have "did = doc_id (dr_document r) \<and> reader_external_id s (dr_internal_id r) = Some did \<and>
        (\<forall>f \<in> fst ` set (doc_fields (dr_document r)) \<union> fst ` set (doc_metadata (dr_document r)).
           schema_find (sgr_schema s) f \<noteq> None) \<and>
        (if doc_deleted (dr_document r) then dr_field_lengths r = [] \<and> dr_indexed_terms r = []
         else \<forall>f ts t. (f, ts) \<in> set (dr_indexed_terms r) \<longrightarrow> t \<in> set ts \<longrightarrow>
           (\<exists>e p. reader_lookup s f t = Some e \<and> p \<in> set (te_postings e) \<and> p_doc p = dr_internal_id r))"
    if "(did, r) \<in> set (sgr_documents s)" for did r
  proof -
    obtain a b where "check_reader_record s (did, r) a = Inr b" using recs(2) \<open>(did, r) \<in> _\<close> by blast
    from check_reader_record_Inr [OF this] show ?thesis by (elim conjE) (intro conjI)
  qed
  ultimately show ?thesis
    unfolding reader_consistent_def Let_def recs(1) [symmetric]
    using entry check_reader_entry_Inr check_reader_posting_Inr checks(2,4) by (intro conjI) (blast+)
qed

end
