(* ===== verification/Segment_Roundtrip.thy ===== *)
theory Segment_Roundtrip
  imports Segment_Check
begin

text \<open>
  The reader that a segment of an index opens as (\<open>reader_of\<close>), why the self check accepts it, the limits
  under which the reader accepts a segment (\<open>segment_fits\<close>), and the round trip through a file.
\<close>

section \<open>The reader of an index\<close>

definition reader_of :: "segment_id \<Rightarrow> index \<Rightarrow> segment_reader" where
  "reader_of sid ix =
     \<lparr>sgr_segment_id = sid, sgr_schema = ix_schema ix, sgr_fields = ix_fields ix, sgr_documents = ix_documents ix,
      sgr_external_ids = ix_external_ids ix, sgr_statistics = sn_statistics (index_snapshot_of ix)\<rparr>"

definition segment_view :: "segment_reader \<Rightarrow> view" where
  "segment_view s =
     \<lparr>v_lookup = reader_lookup s, v_document = reader_document s,
      v_document_internal = reader_document_internal s, v_internal_id = reader_internal_id s,
      v_external_id = reader_external_id s, v_live_document_ids = reader_live_document_ids s,
      v_live_document_count = reader_live_document_count s,
      v_field_statistics = reader_field_statistics s, v_schema = sgr_schema s\<rparr>"

lemma reader_of_simps [simp]:
  "sgr_schema (reader_of sid ix) = ix_schema ix" "sgr_fields (reader_of sid ix) = ix_fields ix"
  "sgr_documents (reader_of sid ix) = ix_documents ix" "sgr_external_ids (reader_of sid ix) = ix_external_ids ix"
  "sgr_statistics (reader_of sid ix) = sn_statistics (index_snapshot_of ix)" "sgr_segment_id (reader_of sid ix) = sid"
  by (simp_all add: reader_of_def)

lemma map_of_snapshot_statistics:
  "map_of (sn_statistics (index_snapshot_of ix)) f = map_option statistics_of (map_of (ix_statistics ix) f)"
  by (simp add: index_snapshot_of_def map_of_map)

lemma reader_of_methods [simp]:
  "reader_lookup (reader_of sid ix) = index_lookup ix"
  "reader_document (reader_of sid ix) = index_document ix"
  "reader_document_internal (reader_of sid ix) = index_document_internal ix"
  "reader_external_id (reader_of sid ix) = index_external_id ix"
  "reader_internal_id (reader_of sid ix) = index_internal_id ix"
  "reader_live_document_ids (reader_of sid ix) = index_live_document_ids ix"
  "reader_live_document_count (reader_of sid ix) = index_live_document_count ix"
  "reader_field_statistics (reader_of sid ix) = index_field_statistics ix"
  by (auto simp: fun_eq_iff reader_lookup_def index_lookup_def reader_document_def index_document_def
      reader_document_internal_def index_document_internal_def reader_external_id_def index_external_id_def
      reader_internal_id_def index_internal_id_def reader_live_document_ids_def index_live_document_ids_def
      reader_live_document_count_def index_live_document_count_def reader_field_statistics_def
      index_field_statistics_def map_of_snapshot_statistics split: option.splits)

lemma segment_view_reader_of: "segment_view (reader_of sid ix) = memory_view ix"
  by (simp add: segment_view_def memory_view_def)

section \<open>Known fields\<close>

definition known_fields :: "schema \<Rightarrow> document_record \<Rightarrow> bool" where
  "known_fields schema r \<longleftrightarrow> (\<forall>f \<in> fst ` set (doc_fields (dr_document r)) \<union> fst ` set (doc_metadata (dr_document r)).
     schema_find schema f \<noteq> None)"

lemma validate_all_known:
  "validate_all schema policy e xs = Inr u \<Longrightarrow> f \<in> fst ` set xs \<Longrightarrow> schema_find schema f \<noteq> None"
  by (induction schema policy e xs rule: validate_all.induct) (auto split: sum.splits option.splits if_splits)

lemma put_known_fields:
  assumes "index_put ix d = Inr ix'" and "\<forall>did r. map_of (ix_documents ix) did = Some r \<longrightarrow> known_fields (ix_schema ix) r"
  shows "\<forall>did r. map_of (ix_documents ix') did = Some r \<longrightarrow> known_fields (ix_schema ix') r"
proof (rule index_put_Inr [OF assms(1)])
  fix i p u
  assume ok: "validate_document (ix_schema ix) d = Inr u" and ix': "ix' = publish ix i d p"
  have "known_fields (ix_schema ix) r" if "dr_document r = d" for r
  proof -
    obtain u1 u2 where "validate_all (ix_schema ix) fd_indexed
          (\<lambda>field. schema_fail Field_not_indexed field ''field is not configured for indexing'') (doc_fields d) = Inr u1"
        "validate_all (ix_schema ix) fd_stored
          (\<lambda>field. schema_fail Field_not_stored field ''field is not configured for stored metadata'') (doc_metadata d) = Inr u2"
      using ok by (auto simp: validate_document_def split: sum.splits)
    with that show ?thesis unfolding known_fields_def by (auto dest: validate_all_known)
  qed
  with assms(2) show ?thesis
    by (auto simp: ix' publish_def Let_def case_prod_beta)
qed

lemma reachable_known_fields:
  "index_reachable schema maximum ix \<Longrightarrow> map_of (ix_documents ix) did = Some r \<Longrightarrow> known_fields schema r"
proof -
  assume reach: "index_reachable schema maximum ix" and "map_of (ix_documents ix) did = Some r"
  from reach have "\<forall>did r. map_of (ix_documents ix) did = Some r \<longrightarrow> known_fields (ix_schema ix) r"
  proof (induction rule: index_reachable.induct)
    case (erase ix did version ix')
    then show ?case using put_known_fields index_erase_put by blast
  next
    case (put ix d ix')
    then show ?case using put_known_fields by blast
  qed (simp add: index_new_def)
  with \<open>map_of (ix_documents ix) did = Some r\<close> index_reachable_schema [OF reach] show "known_fields schema r" by auto
qed

section \<open>The self check accepts the index\<close>

lemma engine_terms: "engine_schema schema \<Longrightarrow> field_tokens schema f v = Some tokens \<Longrightarrow>
    sorted_wrt (<) (map tok_position tokens) \<and> (\<forall>tok \<in> set tokens. tok_term tok \<noteq> [])"
  using engine_tokens by blast

lemma dictionary_entry:
  assumes "index_inv ix" and "engine_schema (ix_schema ix)" and "(f, dict) \<in> set (ix_fields ix)" and "(t, e) \<in> set dict"
  shows "index_lookup ix f t = Some e" "t \<noteq> []" "te_postings e = plist (ix_fields ix) f t"
    "unat (te_df e) = length (te_postings e)" "te_postings e \<noteq> []" "ssorted_by p_doc (te_postings e)"
    "validate_entry ix f (t, e) () = Inr ()"
proof -
  have ok: "dicts_ok (ix_fields ix)" using assms(1) by (rule index_invD)
  then have "map_of (ix_fields ix) f = Some dict" "om_ok dict"
    using assms(3) by (auto simp: dicts_ok_def dict_ok_def om_ok_map_of)
  with assms(4) show l: "index_lookup ix f t = Some e" by (simp add: index_lookup_def om_ok_map_of)
  note e = lookup_postings [OF assms(1) l]
  then show "te_postings e = plist (ix_fields ix) f t" "te_postings e \<noteq> []" by metis+
  then show "unat (te_df e) = length (te_postings e)" "ssorted_by p_doc (te_postings e)"
    using e plist_length [OF assms(1), of f t] index_invD(5) [OF assms(1)]
    by (simp_all add: unat_of_nat_small plist_inv_def)
  have all: "fold_result (validate_entry ix f) dict () = Inr ()"
    using validate_dictionaries_ok [OF assms(1) engine_terms [OF assms(2)] assms(3)] .
  then show entry: "validate_entry ix f (t, e) () = Inr ()" using assms(4) by (rule fold_result_unit)
  obtain p where "p \<in> set (te_postings e)" using e by (meson list.set_sel(1))
  then have "validate_posting ix f t p () = Inr ()"
    using entry by (auto simp: validate_entry_def intro: fold_result_unit split: if_splits)
  then show "t \<noteq> []" by (auto simp: validate_posting_def split: option.splits if_splits)
qed

lemma check_posting_accepts:
  assumes "index_inv ix" and "engine_schema (ix_schema ix)" and "(f, dict) \<in> set (ix_fields ix)" and "(t, e) \<in> set dict"
    and "p \<in> set (te_postings e)"
  shows "check_reader_posting (reader_of sid ix) f t p () = Inr ()" and "posting_storable p"
proof -
  note E = dictionary_entry [OF assms(1-4)]
  have p: "p \<in> set (plist (ix_fields ix) f t)" using assms(5) E(3) by simp
  then obtain r where r: "index_document_internal ix (p_doc p) = Some r" "record_ok (ix_schema ix) r"
      "p_positions p = term_positions (ix_schema ix) (dr_document r) f t" "p_positions p \<noteq> []"
      "unat (p_tf p) = length (p_positions p)"
    by (rule plist_posting [OF assms(1)])
  have v: "validate_posting ix f t p () = Inr ()"
    using E(7) assms(5) by (auto simp: validate_entry_def intro: fold_result_unit split: if_splits)
  then have sorted: "sorted_wrt (<) (p_positions p)" "sorted (p_positions p)" "no_adjacent_equal (p_positions p)"
    using r(1) no_adjacent_equal_sorted [of "p_positions p"] by (auto simp: validate_posting_def split: if_splits)
  obtain tokens where tk: "map_of (doc_analysed (ix_schema ix) (dr_document r)) f = Some tokens"
      "p_positions p = positions_of t tokens"
    using term_positions_live(3) [OF r(2), of f t] r(3,4) by auto
  have terms: "map_of (dr_indexed_terms r) f = Some (term_list tokens)" using r(2) tk(1) by (simp add: record_ok_def)
  have "t \<in> set (term_list tokens)" using r(4) tk(2) by (auto simp: set_term_list positions_of_Nil_iff)
  then have "binary_search id t (term_list tokens)"
    using binary_search_complete [of id "term_list tokens" t] term_list_sorted [of tokens] by (simp add: strict_sorted_iff)
  moreover have "p_tf p \<noteq> 0" using r(4,5) by auto
  ultimately show "check_reader_posting (reader_of sid ix) f t p () = Inr ()"
    using v r(1) terms sorted by (auto simp: check_reader_posting_def validate_posting_def split: if_splits)
  have "p_doc p \<noteq> 0"
    using r(1) index_invD(3) [OF assms(1)]
    by (auto simp: next_inv_def index_document_internal_def index_external_id_def split: option.splits)
  with r(4,5) sorted show "posting_storable p" by (simp add: posting_storable_def)
qed

lemma check_entry_accepts:
  assumes "index_inv ix" and "engine_schema (ix_schema ix)" and "(f, dict) \<in> set (ix_fields ix)" and "(t, e) \<in> set dict"
    and "\<forall>did r. map_of (ix_documents ix) did = Some r \<longrightarrow> known_fields (ix_schema ix) r"
  shows "check_reader_entry (reader_of sid ix) f (t, e) () = Inr ()" and "entry_storable e"
proof -
  note E = dictionary_entry [OF assms(1-4)] and P = check_posting_accepts [OF assms(1-4)]
  obtain p where p: "p \<in> set (plist (ix_fields ix) f t)" using E(3,5) by (metis list.set_sel(1))
  then obtain r where r: "index_document_internal ix (p_doc p) = Some r" "record_ok (ix_schema ix) r"
      "p_positions p = term_positions (ix_schema ix) (dr_document r) f t" "p_positions p \<noteq> []"
    by (rule plist_posting [OF assms(1)])
  obtain tokens where tk: "map_of (doc_analysed (ix_schema ix) (dr_document r)) f = Some tokens"
    using term_positions_live(3) [OF r(2), of f t] r(3,4) by auto
  from analysed_length(3) [OF r(2) this] have "schema_find (ix_schema ix) f \<noteq> None"
    by (auto simp: field_tokens_def split: option.splits)
  moreover have "sorted (map p_doc (te_postings e)) \<and> no_adjacent_equal (map p_doc (te_postings e))"
    unfolding no_adjacent_equal_sorted using E(6) by (simp add: ssorted_by_def)
  moreover have "fold_result (check_reader_posting (reader_of sid ix) f t) (te_postings e) () = Inr ()"
    using P(1) by (intro fold_result_all)
  ultimately show "check_reader_entry (reader_of sid ix) f (t, e) () = Inr ()"
    using E(2,4) by (simp add: check_reader_entry_def)
  show "entry_storable e"
    using E(4-6) P(2) by (auto simp: entry_storable_def list_all_iff)
qed

lemma check_references_accepts:
  assumes "index_inv ix" and "index_document ix did = Some r" and "(f, ts) \<in> set (dr_indexed_terms r)"
  shows "check_references (reader_of sid ix) r (f, ts) () = Inr ()"
proof -
  have rec: "record_ok (ix_schema ix) r" using assms(1,2) by (rule documents_invD)
  then have "om_ok (dr_indexed_terms r)"
    using om_ok_doc_analysed [of "dr_document r"] by (simp add: record_ok_def om_ok_def)
  then have ts: "map_of (dr_indexed_terms r) f = Some ts" using assms(3) by (simp add: om_ok_map_of)
  then have "sorted_wrt (<) ts" using rec by (auto simp: record_ok_def term_list_sorted)
  then have "sorted ts \<and> no_adjacent_equal ts" by (simp only: no_adjacent_equal_sorted)
  moreover have "check_reference (reader_of sid ix) r f t () = Inr ()" if t: "t \<in> set ts" for t
  proof -
    have "validate_reference ix r f t () = Inr ()" by (rule validate_reference_ok [OF assms(1,2) ts t])
    then obtain e p where e: "index_lookup ix f t = Some e" "p \<in> set (te_postings e)" "p_doc p = dr_internal_id r"
      by (auto simp: validate_reference_def lower_bound_def split: option.splits list.splits if_splits)
        (metis dropWhile_eq_Cons_conv in_set_conv_decomp set_dropWhileD list.set_intros(1))
    have "sorted (map p_doc (te_postings e))"
      using lookup_postings [OF assms(1) e(1)] index_invD(5) [OF assms(1)]
      by (simp add: plist_inv_def ssorted_by_def strict_sorted_iff)
    with binary_search_complete [of p_doc "te_postings e" p] e show ?thesis by (simp add: check_reference_def)
  qed
  ultimately show ?thesis by (auto simp: check_references_def intro!: fold_result_all)
qed

lemma check_record_accepts:
  assumes "index_inv ix" and "index_document ix did = Some r" and "known_fields (ix_schema ix) r"
  shows "check_reader_record (reader_of sid ix) (did, r) expected = Inr (fold insert_length (dr_field_lengths r) expected)"
proof -
  note D = documents_invD [OF assms(1,2)]
  have known: "fold_result (check_known (reader_of sid ix) m) (doc_fields (dr_document r)) () = Inr ()"
      "fold_result (check_known (reader_of sid ix) m) (doc_metadata (dr_document r)) () = Inr ()" for m
  proof -
    have "\<exists>y. schema_find (ix_schema ix) f = Some y"
      if "(f, v) \<in> set (doc_fields (dr_document r)) \<union> set (doc_metadata (dr_document r))" for f v
      using assms(3) that unfolding known_fields_def by (metis UnCI UnE fst_conv imageI not_Some_eq)
    then show "fold_result (check_known (reader_of sid ix) m) (doc_fields (dr_document r)) () = Inr ()"
      "fold_result (check_known (reader_of sid ix) m) (doc_metadata (dr_document r)) () = Inr ()"
      by (auto 0 3 simp: check_known_def intro!: fold_result_all) blast+
  qed
  have "schema_find (ix_schema ix) f \<noteq> None" if "(f, len) \<in> set (dr_field_lengths r)" for f len
  proof -
    have "om_ok (dr_field_lengths r)" using D(3) om_ok_doc_analysed [of "dr_document r"] by (simp add: record_ok_def om_ok_def)
    with that obtain tokens where "map_of (doc_analysed (ix_schema ix) (dr_document r)) f = Some tokens"
      using D(3) by (auto simp: record_ok_def om_ok_map_of)
    from analysed_length(3) [OF D(3) this] show ?thesis by (auto simp: field_tokens_def split: option.splits)
  qed
  then have "fold_result (check_length (reader_of sid ix)) (dr_field_lengths r) expected =
      Inr (fold insert_length (dr_field_lengths r) expected)"
    by (intro fold_result_fold) (auto simp: check_length_def simp del: insert_length.simps)
  moreover have "fold_result (check_references (reader_of sid ix) r) (dr_indexed_terms r) () = Inr ()"
    using check_references_accepts [OF assms(1,2)] by (auto intro!: fold_result_all)
  moreover have "doc_deleted (dr_document r) \<Longrightarrow> dr_field_lengths r = [] \<and> dr_indexed_terms r = []"
    using D(3) by (simp add: record_ok_def doc_analysed_def)
  ultimately show ?thesis
    using D(2,4) known by (auto simp: check_reader_record_def index_external_id_def)
qed

lemma reader_validated:
  assumes "index_reachable schema maximum ix" and "engine_schema schema"
  shows "reader_validate_invariants (reader_of sid ix) = Inr ()"
proof -
  let ?upd = "\<lambda>(did, r). fold insert_length (dr_field_lengths r)"
  have inv: "index_inv ix" and sch: "ix_schema ix = schema" and eng: "engine_schema (ix_schema ix)"
    using assms reachable_inv index_reachable_schema by blast+
  have known: "\<forall>did r. map_of (ix_documents ix) did = Some r \<longrightarrow> known_fields (ix_schema ix) r"
    using reachable_known_fields [OF assms(1)] sch by blast
  have docs: "om_ok (ix_documents ix)" using index_invD(1) [OF inv] by (simp add: documents_inv_def)
  have dicts: "fold_result (\<lambda>(f, dict). fold_result (check_reader_entry (reader_of sid ix) f) dict) (ix_fields ix) () = Inr ()"
    using check_entry_accepts(1) [OF inv eng _ _ known] by (intro fold_result_all) (auto intro!: fold_result_all)
  have rec: "check_reader_record (reader_of sid ix) x a = Inr (?upd x a)" if "x \<in> set (ix_documents ix)" for x a
  proof -
    obtain did r where x: "x = (did, r)" by (cases x)
    then have "index_document ix did = Some r" using that om_ok_map_of [OF docs] by (simp add: index_document_def)
    with check_record_accepts [OF inv this] known show ?thesis by (simp add: x index_document_def)
  qed
  have step: "validate_record ix x a = Inr (?upd x a)" if "x \<in> set (ix_documents ix)" for x a
  proof -
    obtain did r where x: "x = (did, r)" by (cases x)
    then have "index_document ix did = Some r" using that om_ok_map_of [OF docs] by (simp add: index_document_def)
    with validate_record_ok [OF inv this] show ?thesis by (simp add: x)
  qed
  have "fold_result (check_reader_record (reader_of sid ix)) (ix_documents ix) [] = Inr (fold ?upd (ix_documents ix) [])"
    by (rule fold_result_fold) (rule rec)
  moreover have "fold_result (validate_record ix) (ix_documents ix) [] = Inr (fold ?upd (ix_documents ix) [])"
    by (rule fold_result_fold) (rule step)
  ultimately have recs: "fold_result (check_reader_record (reader_of sid ix)) (ix_documents ix) [] = Inr (ix_statistics ix)"
    using validate_documents_ok [OF inv] by simp
  have stats: "om_ok (ix_statistics ix)" using index_invD(6) [OF inv] by (simp add: stats_inv_def)
  have "fold_result (check_statistic (reader_of sid ix)) (ix_statistics ix) () = Inr ()"
    using stats by (intro fold_result_all)
      (auto simp: check_statistic_def map_of_snapshot_statistics statistics_of_def om_ok_map_of)
  moreover have "length (ix_external_ids ix) = length (ix_documents ix)"
    using ids_length(1) [OF docs index_invD(2) [OF inv]] by simp
  ultimately show ?thesis
    using dicts recs by (simp add: reader_validate_invariants_def index_snapshot_of_def)
qed

section \<open>Segments that fit the limits of the reader\<close>

definition segment_fits :: "segment_read_limits \<Rightarrow> segment_write_options \<Rightarrow> index \<Rightarrow> bool" where
  "segment_fits limits options ix \<longleftrightarrow>
     length (segment_bytes (index_snapshot_of ix) options) \<le> unat (rl_maximum_file_bytes limits) \<and>
     length (ix_schema ix) \<le> unat (rl_maximum_fields limits) \<and> list_all (field_fits limits) (map snd (ix_schema ix)) \<and>
     length (ix_documents ix) \<le> unat (rl_maximum_documents limits) \<and>
     list_all (record_fits limits) (map snd (ix_documents ix)) \<and>
     length (ix_statistics ix) \<le> unat (rl_maximum_fields limits) \<and>
     list_all (string_fits limits) (map fst (ix_statistics ix)) \<and>
     (let es = dict_entries (ix_fields ix)
      in length es \<le> unat (rl_maximum_terms limits) \<and>
         length (postings_of_entries es) \<le> unat (rl_maximum_postings limits) \<and>
         length (positions_of_postings (postings_of_entries es)) \<le> unat (rl_maximum_positions limits) \<and>
         list_all (\<lambda>(f, t, e). string_fits limits f \<and> string_fits limits t) es)"

lemma fits_engine: "segment_fits limits options ix \<Longrightarrow> engine_schema (ix_schema ix)"
  by (fastforce simp: segment_fits_def list_all_iff field_fits_def engine_schema_def engine_analyzer_def constructed_def
      split: option.splits analyzer.splits)

lemma length_segment_bytes:
  "length (segment_bytes sn options) =
    256 + length (concat (map sec_bytes (segment_sections sn (wo_compressed_postings options))))"
  by (simp add: segment_bytes_layout Let_def segment_body_def segment_magic_def)

lemma sections_read:
  assumes "index_reachable schema maximum ix" and "schema_ok schema" and "segment_fits limits options ix"
    and "sn = index_snapshot_of ix" and "compressed = wo_compressed_postings options"
    and "slices = map slice_of (segment_sections sn compressed)"
  shows "read_schema limits (slices ! 0) = Inr schema"
    and "read_documents_section limits (slices ! 1) = Inr (ix_documents ix, ix_external_ids ix)"
    and "read_statistics_section limits (slices ! 2) = Inr (sn_statistics sn)"
    and "read_dictionaries limits compressed (slices ! 3) (slices ! 4) (slices ! 5) = Inr (ix_fields ix)"
proof -
  have inv: "index_inv ix" and sch: "ix_schema ix = schema"
    using assms(1) reachable_inv index_reachable_schema by blast+
  note fit = assms(3) [unfolded segment_fits_def sch Let_def] and I = index_invD [OF inv]
  have sn: "sn_schema sn = schema" "sn_documents sn = ix_documents ix" "sn_fields sn = ix_fields ix"
      "length (sn_statistics sn) = length (ix_statistics ix)" "map fst (sn_statistics sn) = map fst (ix_statistics ix)"
    by (simp_all add: assms(4) index_snapshot_of_def sch case_prod_beta comp_def)
  note sl = assms(6) [unfolded segment_sections_def Let_def slice_of_def sn, simplified]
  show "read_schema limits (slices ! 0) = Inr schema"
    unfolding sl using read_schema_written [OF assms(2), of limits] fit by (simp add: list_all_iff case_prod_beta)
  show "read_documents_section limits (slices ! 1) = Inr (ix_documents ix, ix_external_ids ix)"
    unfolding sl using read_documents_written [OF I(1-3), of limits sn] fit sn
    by (simp add: list_all_iff case_prod_beta)
  have "om_ok (sn_statistics sn)" using I(6) sn(5) by (simp add: stats_inv_def om_ok_def)
  moreover have fits: "statistic_fits limits (f, st)" if st: "(f, st) \<in> set (sn_statistics sn)" for f st
  proof -
    obtain acc where acc: "(f, acc) \<in> set (ix_statistics ix)" "st = statistics_of acc"
      using st by (auto simp: assms(4) index_snapshot_of_def)
    have "om_ok (ix_statistics ix)" using I(6) by (simp add: stats_inv_def)
    with acc(1) I(6) have a: "accumulated (field_count (ix_documents ix) f) (field_total (ix_documents ix) f) = Some acc"
      by (simp add: om_ok_map_of stats_inv_def)
    have "field_count (ix_documents ix) f < 2 ^ 64"
      using field_count_le [of "ix_documents ix" f] ids_length(2) [OF _ I(2)] I(1) by (simp add: documents_inv_def)
    with a have "fa_count acc \<noteq> 0"
      by (auto simp: accumulated_def word_of_nat_eq_0_iff nat_dvd_not_less split: if_splits)
    moreover have "string_fits limits f" using acc(1) fit by (force simp: list_all_iff)
    ultimately show ?thesis by (simp add: statistic_fits_def acc(2) statistics_of_def)
  qed
  moreover have "list_all (statistic_fits limits) (sn_statistics sn)"
    unfolding list_all_iff using fits by (metis prod.collapse)
  ultimately show "read_statistics_section limits (slices ! 2) = Inr (sn_statistics sn)"
    unfolding sl using read_statistics_written [of sn limits] fit sn(4) by simp
  let ?es = "dict_entries (ix_fields ix)"
  have eng: "engine_schema (ix_schema ix)" using assms(3) by (rule fits_engine)
  have known: "\<forall>did r. map_of (ix_documents ix) did = Some r \<longrightarrow> known_fields (ix_schema ix) r"
    using reachable_known_fields [OF assms(1)] sch by blast
  have "entry_fits limits (f, t, e)" if mem: "(f, t, e) \<in> set ?es" for f t e
  proof -
    obtain dict where "(f, dict) \<in> set (ix_fields ix)" "(t, e) \<in> set dict" using mem by (auto simp: dict_entries_def)
    with dictionary_entry(2) [OF inv eng] check_entry_accepts(2) [OF inv eng _ _ known]
    have "t \<noteq> []" "entry_storable e" by blast+
    then show ?thesis using fit mem by (fastforce simp: entry_fits_def list_all_iff)
  qed
  then have es: "list_all (entry_fits limits) ?es" by (auto simp: list_all_iff)
  have "length (concat (map sec_bytes (segment_sections sn compressed))) < 2 ^ 64"
    using fit unat_u64_less [of "rl_maximum_file_bytes limits"] length_segment_bytes [of sn options] assms(4,5) by simp
  then have "sizes_fit limits compressed ?es"
    using fit by (cases compressed) (simp_all add: sizes_fit_def segment_sections_def Let_def encode_index_entries
        encode_entries_written sn)
  moreover have "nonempty_dicts (ix_fields ix)"
    using I(4) by (auto simp: nonempty_dicts_def dicts_ok_def dict_ok_def)
  ultimately show "read_dictionaries limits compressed (slices ! 3) (slices ! 4) (slices ! 5) = Inr (ix_fields ix)"
    unfolding sl using read_dictionaries_written [OF _ refl es _ refl, of compressed]
    by (simp add: encode_index_entries sn)
qed

lemma open_written:
  assumes "index_reachable schema maximum ix" and "schema_ok schema" and "segment_fits limits options ix"
    and "wo_segment_id options \<noteq> 0"
  shows "segment_open Open_ok limits (Some (segment_bytes (index_snapshot_of ix) options)) =
    Inr (reader_of (wo_segment_id options) ix)"
proof -
  let ?sn = "index_snapshot_of ix"
  have sch: "ix_schema ix = schema" using assms(1) by (rule index_reachable_schema)
  have small: "length (segment_bytes ?sn options) < 2 ^ 64"
    using assms(3) unat_u64_less [of "rl_maximum_file_bytes limits"] by (simp add: segment_fits_def)
  have reader: "\<lparr>sgr_segment_id = wo_segment_id options, sgr_schema = schema, sgr_fields = ix_fields ix,
      sgr_documents = ix_documents ix, sgr_external_ids = ix_external_ids ix, sgr_statistics = sn_statistics ?sn\<rparr> =
      reader_of (wo_segment_id options) ix"
    by (simp add: reader_of_def sch)
  have "segment_decode limits (segment_bytes ?sn options) = Inr (reader_of (wo_segment_id options) ix)"
    using sections_read [OF assms(1-3) refl refl refl] reader_validated [OF assms(1)] fits_engine [OF assms(3)] sch
    by (simp add: segment_decode_def read_header_written [OF small assms(4)] read_directory_written [OF small]
        read_sections_def reader)
  then show ?thesis
    using assms(3) by (simp add: segment_open_def length_segment_bytes segment_fits_def)
qed

lemma opened_segment_validated:
  assumes "segment_open io limits f = Inr s"
  shows "reader_consistent s"
proof -
  obtain bs where "segment_decode limits bs = Inr s"
    using assms by (auto simp: segment_open_def split: open_io.splits option.splits if_splits)
  then obtain h slices where "read_sections limits h slices = Inr s"
    by (auto simp: segment_decode_def split: sum.splits)
  then have "reader_validate_invariants s = Inr ()"
    by (auto simp: read_sections_def Let_def split: sum.splits prod.splits)
  then show ?thesis by (rule validated_consistent)
qed

end
