(* ===== verification/Segment_Properties.thy ===== *)
theory Segment_Properties
  imports Segment_Roundtrip
begin

text \<open>
  What segments promise: a segment written from a reachable index and opened again is that index, as
  the query engine sees it; whatever bytes a file has, an opened segment is consistent; and writing
  publishes a segment atomically.
\<close>

section \<open>Concrete segments\<close>

definition ex_write_options :: segment_write_options where
  "ex_write_options = \<lparr>wo_segment_id = 7, wo_compressed_postings = False\<rparr>"

lemma ex_fits: "segment_fits default_read_limits ex_write_options ex_index"
  unfolding segment_fits_def length_segment_bytes
  by (simp add: ex_write_options_def index_snapshot_of_def segment_sections_def
     encode_schema_def encode_field_def put_string_def encode_documents_def encode_document_def encode_string_map_def
     encode_pair_def encode_length_def encode_references_def encode_statistics_def encode_statistic_def
     encode_index_entries encode_entries_written ex_index_def ex_schema_def ex_document_def dict_entries_def
     postings_of_entries_def positions_of_postings_def headers_def header_of_def put_header_def put_raw_def
     default_read_limits_def string_fits_def field_fits_def record_fits_def map_fits_def pair_fits_def length_fits_def
     references_fit_def constructed_def standard_analyzer_def to_string_nat.simps Let_def)

lemma ex_created: "schema_create (map snd ex_schema) = Inr ex_schema"
  by (simp add: schema_create_def ex_schema_def schema_add_def needs_analyzer_def om_emplace_def fp_eval_defs)

definition ex_segment :: bytes where
  "ex_segment = segment_bytes (index_snapshot_of ex_index) ex_write_options"

lemma ex_opened: "segment_open Open_ok default_read_limits (Some ex_segment) = Inr (reader_of 7 ex_index)"
  using open_written [OF ex_reachable schema_create_ok [OF ex_created] ex_fits]
  by (simp add: ex_write_options_def ex_segment_def)

section \<open>Properties\<close>

text \<open>
  C19: segments round-trip. The segment of a reachable index, with compressed or uncompressed postings,
  opens again as long as it is within the limits of the reader, and the opened segment is the index:
  every method of the search interface (lookups, documents, identifiers, statistics) returns what
  the index returns, so that planning, searching and explaining give the same results over both.
\<close>

theorem segment_roundtrip:
  assumes "schema_create flds = Inr schema" and "index_reachable schema maximum ix"
    and "segment_fits limits options ix" and "wo_segment_id options \<noteq> 0"
  shows "\<exists>s. segment_open Open_ok limits (Some (segment_bytes (index_snapshot_of ix) options)) = Inr s \<and>
    sgr_segment_id s = wo_segment_id options \<and> segment_view s = memory_view ix \<and>
    sgr_documents s = ix_documents ix"
  using open_written [OF assms(2) schema_create_ok [OF assms(1)] assms(3,4)]
  by (simp add: segment_view_reader_of)

theorem segment_roundtrip_witness:
  "schema_create (map snd ex_schema) = Inr ex_schema \<and> index_reachable ex_schema 10 ex_index \<and>
   segment_fits default_read_limits ex_write_options ex_index \<and>
   (\<exists>s. segment_open Open_ok default_read_limits (Some ex_segment) = Inr s \<and> sgr_segment_id s = 7 \<and>
      segment_view s = memory_view ex_index)"
proof -
  have "wo_segment_id ex_write_options \<noteq> 0" by (simp add: ex_write_options_def)
  from segment_roundtrip [OF ex_created ex_reachable ex_fits this] ex_created ex_reachable ex_fits show ?thesis
    by (auto simp: ex_segment_def ex_write_options_def)
qed

text \<open>
  C20: an opened segment is consistent, whatever bytes its file has: every posting names a live document
  that has the field and lists the term, postings and positions increase strictly, frequencies are
  the lengths of their lists, every term a live document lists has a posting for it, identifiers
  correspond one to one, every field is in the schema, and the statistics are those of the documents.
\<close>

theorem opened_segment_consistent:
  assumes "segment_open io limits f = Inr s"
  shows "reader_consistent s"
  using assms by (rule opened_segment_validated)

theorem opened_segment_consistent_witness:
  "segment_open Open_ok default_read_limits (Some ex_segment) = Inr (reader_of 7 ex_index) \<and>
   reader_consistent (reader_of 7 ex_index)"
  using opened_segment_consistent [OF ex_opened] ex_opened by simp

text \<open>
  C21: a segment is published atomically. Whatever the operating system answers, writing a segment
  changes no file but its own and its temporary one; at its own path there is afterwards what was
  there before, or the complete new segment, which has been opened successfully; it is there
  whenever the writer reports success, and when it is there and the writer reports an error, only
  the final synchronisation of the directory has failed.
\<close>

theorem segment_write_atomic:
  assumes "segment_write io path sn options fs = (res, fs')"
  shows "(\<forall>other. other \<noteq> path \<longrightarrow> other \<noteq> path @ ''.tmp'' \<longrightarrow> fs' other = fs other) \<and>
    (fs' path = fs path \<and> res \<noteq> Inr () \<or>
     fs' path = Some (segment_bytes sn options) \<and> fs' (path @ ''.tmp'') = None \<and> res = sync_path (wio_directory_sync io) \<and>
     (\<exists>s. segment_open Open_ok default_read_limits (fs' path) = Inr s \<and> reader_consistent s))"
proof -
  have "segment_open v limits f = Inr s \<Longrightarrow> segment_open Open_ok limits f = Inr s" for v limits f s
    by (cases v) (auto simp: segment_open_def split: option.splits if_splits)
  then have opened: "segment_open v limits f = Inr s \<Longrightarrow> segment_open Open_ok limits f = Inr s \<and> reader_consistent s"
    for v limits f s
    using opened_segment_validated by blast
  have neq: "path \<noteq> path @ ''.tmp''" by simp
  show ?thesis
    using assms neq opened [of "wio_verify io" default_read_limits "Some (segment_bytes sn options)"]
    by (auto simp: segment_write_def discard_def Let_def split: if_splits option.splits sum.splits)
qed

definition ex_write_io :: write_io where
  "ex_write_io = \<lparr>wio_create = True, wio_write = None, wio_sync = Path_synced, wio_verify = Open_ok,
     wio_rename = None, wio_remove = True, wio_directory_sync = Path_synced\<rparr>"

theorem segment_write_atomic_witness:
  "\<exists>fs'. segment_write ex_write_io ''s'' (index_snapshot_of ex_index) ex_write_options (\<lambda>_. None) = (Inr (), fs') \<and>
     fs' ''s'' = Some ex_segment \<and> fs' ''s.tmp'' = None \<and>
     (\<exists>s. segment_open Open_ok default_read_limits (fs' ''s'') = Inr s \<and> reader_consistent s)"
proof -
  have *: "segment_write ex_write_io ''s'' (index_snapshot_of ex_index) ex_write_options (\<lambda>_. None) =
      (Inr (), (\<lambda>_. None)(''s.tmp'' \<mapsto> ex_segment, ''s'' \<mapsto> ex_segment, ''s.tmp'' := None))"
    using ex_opened by (simp add: segment_write_def ex_write_io_def sync_path_def Let_def ex_write_options_def
        flip: ex_segment_def [unfolded ex_write_options_def])
  from segment_write_atomic [OF *] * show ?thesis by (auto simp: sync_path_def ex_write_io_def)
qed

end
