(* ===== verification/Index_Rebuild.thy ===== *)
theory Index_Rebuild
  imports Index_Properties
begin

text \<open>
  Rebuilding an index: the documents of a reachable index can be put into a fresh index, in any order, and
  the fresh index then has the same documents. Generations, replica snapshots and the index writer rely
  on it.
\<close>

text \<open>A document that \<^verbatim>\<open>put\<close> accepts in an index that does not have it.\<close>

definition puttable :: "schema \<Rightarrow> document \<Rightarrow> bool" where
  "puttable schema d \<longleftrightarrow> document_ok d \<and> doc_id d \<noteq> [] \<and> validate_document schema d = Inr () \<and> (\<exists>p. prepare schema d = Inr p)"

lemma put_puttable: "index_put ix d = Inr ix' \<Longrightarrow> document_ok d \<Longrightarrow> puttable (ix_schema ix) d"
  by (auto simp: index_put_def puttable_def split: if_splits sum.splits)

lemma put_visible:
  assumes "index_inv ix" and "document_ok d" and "index_put ix d = Inr ix'"
  shows "visible ix' = (visible ix)(doc_id d \<mapsto> d)"
  by (rule put_effect [OF assms]) (simp add: visible_def index_document_def fun_eq_iff)

lemma reachable_puttable:
  "index_reachable schema maximum ix \<Longrightarrow> visible ix did = Some d \<Longrightarrow> puttable schema d"
proof (induction arbitrary: did d rule: index_reachable.induct)
  case start
  then show ?case by (simp add: visible_def index_document_def index_new_def)
next
  case (put ix e ix')
  then show ?case
    using put_visible [OF reachable_inv [OF put.hyps(1)] put.hyps(2,3)] put_puttable [OF put.hyps(3,2)]
      index_reachable_schema [OF put.hyps(1)]
    by (auto split: if_splits)
next
  case (erase ix e version ix')
  note p = index_erase_put [OF erase.hyps(2)]
  show ?case
    using erase put_visible [OF reachable_inv [OF erase.hyps(1)] _ p] put_puttable [OF p]
      index_reachable_schema [OF erase.hyps(1)]
    by (auto split: if_splits)
qed

text \<open>The identifiers of an index that has never been given a second version are consecutive.\<close>

definition compact :: "index \<Rightarrow> bool" where
  "compact ix \<longleftrightarrow> ix_maximum_internal_id ix = - 1 \<and> ix_next_internal_id ix = of_nat (Suc (length (ix_documents ix)))"

lemma compact_new: "compact (index_new schema (- 1))"
  by (simp add: compact_def index_new_def)

lemma put_fresh:
  assumes "compact ix" and "om_ok (ix_documents ix)" and "puttable (ix_schema ix) d"
    and "visible ix (doc_id d) = None" and "length (ix_documents ix) < 2 ^ 32 - 1"
  shows "\<exists>ix'. index_put ix d = Inr ix' \<and> compact ix' \<and> length (ix_documents ix') = Suc (length (ix_documents ix))"
proof -
  have none: "map_of (ix_documents ix) (doc_id d) = None"
    using assms(4) by (simp add: visible_def index_document_def)
  obtain p where p: "prepare (ix_schema ix) d = Inr p" using assms(3) by (auto simp: puttable_def)
  have "unat (ix_next_internal_id ix) = Suc (length (ix_documents ix))"
    using assms(1,5) unat_of_nat_small [of "Suc (length (ix_documents ix))", where 'a = 32] by (simp add: compact_def del: of_nat_Suc)
  then have "ix_next_internal_id ix \<noteq> 0" by auto
  then have "index_put ix d = Inr (publish ix (ix_next_internal_id ix) d p)"
    using assms(1,3) none p by (simp add: index_put_def stale_def allocate_def puttable_def compact_def)
  moreover have "length (om_assign (doc_id d) r (ix_documents ix)) = Suc (length (ix_documents ix))" for r
    using om_assign_length [OF assms(2)] none by simp
  ultimately show ?thesis
    using assms(1) none by (simp add: publish_def compact_def Let_def case_prod_beta)
qed

text \<open>Putting documents with distinct identifiers, one after the other, into a fresh index.\<close>

lemma put_all_fresh:
  assumes "distinct (map doc_id ds)" and "\<forall>d \<in> set ds. puttable schema d" and "index_reachable schema (- 1) ix"
    and "compact ix" and "\<forall>d \<in> set ds. visible ix (doc_id d) = None" and "length (ix_documents ix) + length ds < 2 ^ 32"
  shows "\<exists>ix'. fold_result (\<lambda>d ix. index_put ix d) ds ix = Inr ix' \<and> index_reachable schema (- 1) ix' \<and>
    visible ix' = visible ix ++ map_of (map (\<lambda>d. (doc_id d, d)) ds)"
  using assms
proof (induction ds arbitrary: ix)
  case (Cons d ds)
  have inv: "index_inv ix" and sch: "ix_schema ix = schema"
    using Cons.prems(3) reachable_inv index_reachable_schema by blast+
  then have docs: "om_ok (ix_documents ix)" using index_invD(1) [OF inv] by (simp add: documents_inv_def)
  obtain ix1 where ix1: "index_put ix d = Inr ix1" "compact ix1" "length (ix_documents ix1) = Suc (length (ix_documents ix))"
    using put_fresh [OF Cons.prems(4) docs, of d] Cons.prems(2,5,6) sch by auto
  have ok: "document_ok d" using Cons.prems(2) by (simp add: puttable_def)
  have reach: "index_reachable schema (- 1) ix1" by (rule index_reachable.put [OF Cons.prems(3) ok ix1(1)])
  have vis: "visible ix1 = (visible ix)(doc_id d \<mapsto> d)" by (rule put_visible [OF inv ok ix1(1)])
  obtain ix' where ix': "fold_result (\<lambda>d ix. index_put ix d) ds ix1 = Inr ix'" "index_reachable schema (- 1) ix'"
      "visible ix' = visible ix1 ++ map_of (map (\<lambda>d. (doc_id d, d)) ds)"
  proof -
    have "visible ix1 (doc_id e) = None" if "e \<in> set ds" for e
      using that Cons.prems(1,5) by (auto simp: vis) (metis imageI)
    then show thesis
      using Cons.IH [OF _ _ reach ix1(2)] Cons.prems(1,2,6) ix1(3) that by auto
  qed
  have "doc_id d \<notin> dom (map_of (map (\<lambda>d. (doc_id d, d)) ds))"
    using Cons.prems(1) by (auto dest!: map_of_SomeD)
  then have "visible ix' = visible ix ++ map_of (map (\<lambda>d. (doc_id d, d)) (d # ds))"
    unfolding ix'(3) vis by (auto simp: fun_eq_iff map_add_def split: option.splits)
  moreover have "fold_result (\<lambda>d ix. index_put ix d) (d # ds) ix = Inr ix'" using ix1(1) ix'(1) by simp
  ultimately show ?case using ix'(2) by blast
qed simp

lemma length_documents:
  assumes "index_inv ix"
  shows "length (ix_documents ix) < 2 ^ 32"
proof -
  have ok: "om_ok (ix_documents ix)" using index_invD(1) [OF assms] by (simp add: documents_inv_def)
  let ?ids = "\<lambda>(did, r). dr_internal_id r"
  have "inj_on ?ids (set (ix_documents ix))"
  proof (rule inj_onI, clarify)
    fix a r b s
    assume "(a, r) \<in> set (ix_documents ix)" "(b, s) \<in> set (ix_documents ix)" and eq: "dr_internal_id r = dr_internal_id s"
    then have "index_document ix a = Some r" "index_document ix b = Some s"
      using ok by (simp_all add: index_document_def om_ok_map_of)
    then show "a = b \<and> r = s" using documents_invD(4,5) [OF assms] eq by (metis option.inject)
  qed
  then have "length (ix_documents ix) = card (?ids ` set (ix_documents ix))"
    using om_ok_distinct [OF ok] by (metis card_image distinct_card distinct_map)
  also have "\<dots> < 2 ^ 32"
  proof (rule ids_bound [OF assms])
    fix i
    assume "i \<in> ?ids ` set (ix_documents ix)"
    then obtain did r where "index_document ix did = Some r" "i = dr_internal_id r"
      using ok by (auto simp: index_document_def om_ok_map_of)
    then show "index_external_id ix i \<noteq> None" using documents_invD(4) [OF assms] by simp
  qed
  finally show ?thesis .
qed

text \<open>The documents of an index, in the order of their identifiers.\<close>

definition index_contents :: "index \<Rightarrow> document list" where
  "index_contents ix = map (\<lambda>(did, r). dr_document r) (ix_documents ix)"

lemma index_contents:
  assumes "index_inv ix"
  shows "distinct (map doc_id (index_contents ix))" and "map_of (map (\<lambda>d. (doc_id d, d)) (index_contents ix)) = visible ix"
    and "length (index_contents ix) < 2 ^ 32" and "d \<in> set (index_contents ix) \<Longrightarrow> visible ix (doc_id d) = Some d"
proof -
  have ok: "om_ok (ix_documents ix)" using index_invD(1) [OF assms] by (simp add: documents_inv_def)
  have key: "doc_id (dr_document r) = did" if "(did, r) \<in> set (ix_documents ix)" for did r
    using that documents_invD(2) [OF assms, of did r] ok by (simp add: index_document_def om_ok_map_of)
  then have "map doc_id (index_contents ix) = map fst (ix_documents ix)"
    by (auto simp: index_contents_def)
  then show "distinct (map doc_id (index_contents ix))" using om_ok_distinct [OF ok] by simp
  have "map (\<lambda>d. (doc_id d, d)) (index_contents ix) = map (\<lambda>(did, r). (did, dr_document r)) (ix_documents ix)"
    using key by (auto simp: index_contents_def)
  then show vis: "map_of (map (\<lambda>d. (doc_id d, d)) (index_contents ix)) = visible ix"
    by (simp add: map_of_map visible_def index_document_def fun_eq_iff)
  show "length (index_contents ix) < 2 ^ 32" using length_documents [OF assms] by (simp add: index_contents_def)
  show "visible ix (doc_id d) = Some d" if "d \<in> set (index_contents ix)"
    using that key ok by (auto simp: index_contents_def visible_def index_document_def om_ok_map_of)
qed

lemma rebuild:
  assumes "index_reachable schema maximum ix"
  shows "\<exists>ix'. fold_result (\<lambda>d ix. index_put ix d) (index_contents ix) (index_new schema (- 1)) = Inr ix' \<and>
    index_reachable schema (- 1) ix' \<and> visible ix' = visible ix"
proof -
  note c = index_contents [OF reachable_inv [OF assms]]
  have "\<forall>d \<in> set (index_contents ix). puttable schema d" using c(4) reachable_puttable [OF assms] by blast
  moreover have "visible (index_new schema (- 1)) = Map.empty"
    by (simp add: visible_def index_document_def index_new_def fun_eq_iff)
  moreover have "ix_documents (index_new schema (- 1)) = []" by (simp add: index_new_def)
  ultimately show ?thesis
    using put_all_fresh [OF c(1) _ index_reachable.start compact_new, of schema] c(2,3) by (simp del: fold_result.simps)
qed

end
