(* ===== verification/Replica_Snapshot.thy ===== *)
theory Replica_Snapshot
  imports Replication_Properties Segment_Properties Index_Rebuild
begin

text \<open>
  Snapshots of replicas: \<^verbatim>\<open>write_replica_snapshot\<close> and \<^verbatim>\<open>OrderedReplica::restore\<close> of
  \<^verbatim>\<open>src/distributed/replication.cpp\<close>. A snapshot is a segment whose identifier is the sequence number of the
  last mutation the replica has applied; a restored replica has the documents and the sequence, and
  continues with the next mutation.
\<close>

definition restore_document ::
  "document_id \<times> document_record \<Rightarrow> ordered_replica \<Rightarrow> (replication_fault, ordered_replica) result" where
  "restore_document = (\<lambda>(did, r) s.
     case index_put (or_index s) (dr_document r) of
       Inl (Rejected e) \<Rightarrow> Inl (repl_fail Mutation_error (''snapshot restore failed: '' @ ie_message e))
     | Inl Null_dereference \<Rightarrow> Inl Crashed
     | Inr ix \<Rightarrow> Inr (s\<lparr>or_index := ix\<rparr>))"

definition replica_restore ::
  "node_id \<Rightarrow> shard_id \<Rightarrow> u64 \<Rightarrow> segment_reader \<Rightarrow> (replication_fault, ordered_replica) result" where
  "replica_restore node shard epoch snapshot =
     (if shard = 0 \<or> epoch = 0 \<or> sgr_segment_id snapshot = 0
      then Inl (repl_fail Invalid_topology ''invalid replica snapshot identity'')
      else case fold_result restore_document (sgr_documents snapshot)
                  (replica_new node shard epoch (sgr_schema snapshot)) of
             Inl f \<Rightarrow> Inl f
           | Inr s \<Rightarrow> Inr (s\<lparr>or_applied_sequence := sgr_segment_id snapshot\<rparr>))"

definition write_replica_snapshot ::
  "write_io \<Rightarrow> string \<Rightarrow> ordered_replica \<Rightarrow> files \<Rightarrow> (replication_fault, unit) result \<times> files" where
  "write_replica_snapshot io path s fs =
     (let sequence = st_applied_sequence (replica_status_of s 0)
      in if sequence = 0 then (Inl (repl_fail Stale_sequence ''cannot snapshot an empty replica''), fs)
         else case segment_write io path (index_snapshot_of (or_index s))
                     \<lparr>wo_segment_id = sequence, wo_compressed_postings = True\<rparr> fs of
                (Inl e, fs') \<Rightarrow> (Inl (repl_fail Mutation_error (''replica snapshot failed: '' @ sge_message e)), fs')
              | (Inr _, fs') \<Rightarrow> (Inr (), fs'))"

lemma restore_documents:
  "fold_result (\<lambda>d ix. index_put ix d) (map (\<lambda>(did, r). dr_document r) rs) (or_index s) = Inr ix \<Longrightarrow>
    fold_result restore_document rs s = Inr (s\<lparr>or_index := ix\<rparr>)"
proof (induction rs arbitrary: s)
  case (Cons e rs)
  obtain did r where e: "e = (did, r)" by fastforce
  from Cons.prems obtain ix1 where ix1: "index_put (or_index s) (dr_document r) = Inr ix1"
      "fold_result (\<lambda>d ix. index_put ix d) (map (\<lambda>(did, r). dr_document r) rs) ix1 = Inr ix"
    by (auto simp: e split: sum.splits)
  with Cons.IH [of "s\<lparr>or_index := ix1\<rparr>"] show ?case by (simp add: e restore_document_def)
qed simp

text \<open>
  C25: a replica can be restored from its snapshot. Take a replica that has applied mutations to an
  index over a schema that the library created, and write its snapshot with any answers of the operating
  system under which writing succeeds. If the segment is within the limits of the reader, it
  opens, and restoring from it succeeds on any node: the restored replica has the same
  documents and tombstones under their identifiers, the same applied sequence number, and the index of it is
  one that mutations of a fresh index reach.
\<close>

theorem snapshot_restores:
  assumes "index_reachable schema (- 1) (or_index s)" and "schema_create flds = Inr schema"
    and "segment_fits default_read_limits \<lparr>wo_segment_id = or_applied_sequence s, wo_compressed_postings = True\<rparr> (or_index s)"
    and "write_replica_snapshot io path s fs = (Inr (), fs')" and "shard \<noteq> 0" and "epoch \<noteq> 0"
  shows "\<exists>reader s'. segment_open Open_ok default_read_limits (fs' path) = Inr reader \<and>
    replica_restore node shard epoch reader = Inr s' \<and> or_node s' = node \<and> or_shard s' = shard \<and> or_epoch s' = epoch \<and>
    or_applied_sequence s' = or_applied_sequence s \<and> visible (or_index s') = visible (or_index s) \<and>
    index_reachable schema (- 1) (or_index s')"
proof -
  let ?o = "\<lparr>wo_segment_id = or_applied_sequence s, wo_compressed_postings = True\<rparr>"
  have seq: "or_applied_sequence s \<noteq> 0"
    and "segment_write io path (index_snapshot_of (or_index s)) ?o fs = (Inr (), fs')"
    using assms(4) by (auto simp: write_replica_snapshot_def replica_status_of_def Let_def split: if_splits prod.splits sum.splits)
  then have "fs' path = Some (segment_bytes (index_snapshot_of (or_index s)) ?o)"
    by (auto simp: segment_write_def Let_def split: if_splits option.splits sum.splits)
  then have opened: "segment_open Open_ok default_read_limits (fs' path) = Inr (reader_of (or_applied_sequence s) (or_index s))"
    using open_written [OF assms(1) schema_create_ok [OF assms(2)] assms(3)] seq by simp
  obtain ix where ix: "fold_result (\<lambda>d ix. index_put ix d) (index_contents (or_index s)) (index_new schema (- 1)) = Inr ix"
      "index_reachable schema (- 1) ix" "visible ix = visible (or_index s)"
    using rebuild [OF assms(1)] by blast
  let ?new = "replica_new node shard epoch schema"
  have "fold_result restore_document (ix_documents (or_index s)) ?new = Inr (?new\<lparr>or_index := ix\<rparr>)"
    using ix(1) by (intro restore_documents) (simp add: index_contents_def replica_new_def)
  then have "replica_restore node shard epoch (reader_of (or_applied_sequence s) (or_index s)) =
      Inr (?new\<lparr>or_index := ix, or_applied_sequence := or_applied_sequence s\<rparr>)"
    using seq assms(5,6) index_reachable_schema [OF assms(1)] by (simp add: replica_restore_def)
  with opened ix(2,3) show ?thesis by (auto simp: replica_new_def)
qed

section \<open>The property at a concrete replica\<close>

definition ex_replica :: ordered_replica where
  "ex_replica = (replica_new ''n'' 1 1 ex_schema)\<lparr>or_index := ex_index\<lparr>ix_maximum_internal_id := - 1\<rparr>, or_applied_sequence := 7\<rparr>"

lemma ex_replica_reachable: "index_reachable ex_schema (- 1) (or_index ex_replica)"
proof (rule index_reachable.put [OF index_reachable.start ex_document_ok])
  show "index_put (index_new ex_schema (- 1)) ex_document = Inr (or_index ex_replica)"
    by (simp add: index_put_def index_new_def stale_def validate_document_def schema_find_def
      allocate_def prepare_def Let_def ex_schema_def ex_document_def ex_analyze validate_value_def
      prepare_field_def om_get_def publish_def ex_index_def ex_replica_def del: analyze.simps)
qed

lemma ex_compressed_length:
  "length (compressed_bytes
     [(''body'', ''a'', \<lparr>te_df = 1, te_postings = [\<lparr>p_doc = 1, p_tf = 2, p_positions = [0, 2]\<rparr>]\<rparr>),
      (''body'', ''b'', \<lparr>te_df = 1, te_postings = [\<lparr>p_doc = 1, p_tf = 1, p_positions = [1]\<rparr>]\<rparr>)]) = 7"
  by code_simp

lemma ex_replica_fits:
  "segment_fits default_read_limits \<lparr>wo_segment_id = 7, wo_compressed_postings = True\<rparr> (or_index ex_replica)"
  unfolding segment_fits_def length_segment_bytes
  by (simp add: ex_replica_def index_snapshot_of_def segment_sections_def
     encode_schema_def encode_field_def put_string_def encode_documents_def encode_document_def encode_string_map_def
     encode_pair_def encode_length_def encode_references_def encode_statistics_def encode_statistic_def
     encode_index_entries encode_entries_written ex_index_def ex_schema_def ex_document_def dict_entries_def
     postings_of_entries_def positions_of_postings_def headers_def header_of_def put_header_def put_raw_def
     default_read_limits_def string_fits_def field_fits_def record_fits_def map_fits_def pair_fits_def length_fits_def
     references_fit_def constructed_def standard_analyzer_def to_string_nat.simps ex_compressed_length Let_def)

theorem snapshot_restores_witness:
  "\<exists>fs' reader s'. write_replica_snapshot ex_write_io ''r'' ex_replica (\<lambda>_. None) = (Inr (), fs') \<and>
     segment_open Open_ok default_read_limits (fs' ''r'') = Inr reader \<and> replica_restore ''m'' 1 1 reader = Inr s' \<and>
     or_applied_sequence s' = 7 \<and> visible (or_index s') = visible (or_index ex_replica)"
proof -
  let ?o = "\<lparr>wo_segment_id = 7, wo_compressed_postings = True\<rparr>"
  have seven: "or_applied_sequence ex_replica = 7" by (simp add: ex_replica_def)
  note opened = open_written [OF ex_replica_reachable schema_create_ok [OF ex_created] ex_replica_fits]
  have "\<exists>fs'. segment_write ex_write_io ''r'' (index_snapshot_of (or_index ex_replica)) ?o (\<lambda>_. None) = (Inr (), fs')"
    using opened by (simp add: segment_write_def ex_write_io_def sync_path_def Let_def)
  then obtain fs' where "write_replica_snapshot ex_write_io ''r'' ex_replica (\<lambda>_. None) = (Inr (), fs')"
    by (auto simp: write_replica_snapshot_def replica_status_of_def seven Let_def)
  from snapshot_restores [OF ex_replica_reachable ex_created _ this, of 1 1 "''m''"] ex_replica_fits this show ?thesis
    unfolding seven by fastforce
qed

end
