(* ===== verification/Telemetry.thy ===== *)
theory Telemetry
  imports Float_Text
begin

text \<open>
  The metrics registry: \<^verbatim>\<open>src/telemetry/metrics.cpp\<close>. Counters saturate at the largest 64-bit value,
  gauges at both ends of \<^verbatim>\<open>int64_t\<close> (an \<open>int\<close> within its range here), histograms count observations
  cumulatively. Every method holds the mutex.
\<close>

section \<open>The registry\<close>

record histogram_snapshot =
  hs_upper_bounds :: "double list"
  hs_cumulative_counts :: "u64 list"
  hs_count :: u64
  hs_sum :: double

record histogram =
  hg_bounds :: "double list"
  hg_buckets :: "u64 list"
  hg_count :: u64
  hg_sum :: double

record registry =
  mt_counters :: "(string, u64) omap"
  mt_gauges :: "(string, int) omap"
  mt_histograms :: "(string, histogram) omap"

definition registry_new :: registry where
  "registry_new = \<lparr>mt_counters = [], mt_gauges = [], mt_histograms = []\<rparr>"

definition name_char :: "char \<Rightarrow> bool" where
  "name_char c \<longleftrightarrow> (CHR ''a'' \<le> c \<and> c \<le> CHR ''z'') \<or> (CHR ''A'' \<le> c \<and> c \<le> CHR ''Z'') \<or>
     (CHR ''0'' \<le> c \<and> c \<le> CHR ''9'') \<or> c = CHR ''_'' \<or> c = CHR '':''"

definition valid_name :: "string \<Rightarrow> bool" where
  "valid_name name \<longleftrightarrow> name \<noteq> [] \<and> list_all name_char name"

definition saturating_add :: "u64 \<Rightarrow> u64 \<Rightarrow> u64" where
  "saturating_add v amount = (if amount > - 1 - v then - 1 else v + amount)"

definition increment :: "string \<Rightarrow> u64 \<Rightarrow> registry \<Rightarrow> registry" where
  "increment name amount m =
     (if \<not> valid_name name then m
      else m\<lparr>mt_counters := om_assign name (saturating_add (om_get 0 (mt_counters m) name) amount) (mt_counters m)\<rparr>)"

definition int64_max :: int where "int64_max = 9223372036854775807"
definition int64_min :: int where "int64_min = - 9223372036854775808"

definition gauge_add :: "int \<Rightarrow> int \<Rightarrow> int" where
  "gauge_add v amount =
     (if amount > 0 \<and> v > int64_max - amount then int64_max
      else if amount < 0 \<and> v < int64_min - amount then int64_min
      else v + amount)"

definition add_gauge :: "string \<Rightarrow> int \<Rightarrow> registry \<Rightarrow> registry" where
  "add_gauge name amount m =
     (if \<not> valid_name name then m
      else m\<lparr>mt_gauges := om_assign name (gauge_add (om_get 0 (mt_gauges m) name) amount) (mt_gauges m)\<rparr>)"

definition set_gauge :: "string \<Rightarrow> int \<Rightarrow> registry \<Rightarrow> registry" where
  "set_gauge name v m =
     (if \<not> valid_name name then m else m\<lparr>mt_gauges := om_assign name v (mt_gauges m)\<rparr>)"

fun fp_is_sorted :: "double list \<Rightarrow> bool" where
  "fp_is_sorted (x # y # xs) \<longleftrightarrow> \<not> fp_less y x \<and> fp_is_sorted (y # xs)"
| "fp_is_sorted _ \<longleftrightarrow> True"

fun fp_adjacent_equal :: "double list \<Rightarrow> bool" where
  "fp_adjacent_equal (x # y # xs) \<longleftrightarrow> fp_eq x y \<or> fp_adjacent_equal (y # xs)"
| "fp_adjacent_equal _ \<longleftrightarrow> False"

definition fp_list_eq :: "double list \<Rightarrow> double list \<Rightarrow> bool" where
  "fp_list_eq xs ys \<longleftrightarrow> list_all2 fp_eq xs ys"

definition record_value :: "double \<Rightarrow> histogram \<Rightarrow> histogram" where
  "record_value v h =
     h\<lparr>hg_buckets := map2 (\<lambda>bound bucket. if fp_le v bound then bucket + 1 else bucket) (hg_bounds h) (hg_buckets h),
       hg_count := hg_count h + 1, hg_sum := fadd (hg_sum h) v\<rparr>"

definition observe :: "string \<Rightarrow> double \<Rightarrow> double list \<Rightarrow> registry \<Rightarrow> registry" where
  "observe name v bounds m =
     (if \<not> valid_name name \<or> \<not> isfinite v \<or> \<not> fp_is_sorted bounds \<or> fp_adjacent_equal bounds then m
      else case map_of (mt_histograms m) name of
             None \<Rightarrow>
               m\<lparr>mt_histograms := om_assign name
                   (record_value v \<lparr>hg_bounds = bounds, hg_buckets = replicate (length bounds) 0,
                                    hg_count = 0, hg_sum = 0\<rparr>) (mt_histograms m)\<rparr>
           | Some h \<Rightarrow>
               if \<not> fp_list_eq (hg_bounds h) bounds then m
               else m\<lparr>mt_histograms := om_assign name (record_value v h) (mt_histograms m)\<rparr>)"

definition default_bounds :: "double list" where
  "default_bounds = [0x3f50624dd2f1a9fc, 0x3f747ae147ae147b, 0x3f847ae147ae147b, 0x3fa999999999999a,
     0x3fb999999999999a, 0x3fe0000000000000, 0x3ff0000000000000, 0x4014000000000000]"

definition counter_value :: "string \<Rightarrow> registry \<Rightarrow> u64" where
  "counter_value name m = (case map_of (mt_counters m) name of None \<Rightarrow> 0 | Some v \<Rightarrow> v)"

definition gauge_value :: "string \<Rightarrow> registry \<Rightarrow> int" where
  "gauge_value name m = (case map_of (mt_gauges m) name of None \<Rightarrow> 0 | Some v \<Rightarrow> v)"

definition histogram_value :: "string \<Rightarrow> registry \<Rightarrow> histogram_snapshot" where
  "histogram_value name m =
     (case map_of (mt_histograms m) name of
        None \<Rightarrow> \<lparr>hs_upper_bounds = [], hs_cumulative_counts = [], hs_count = 0, hs_sum = 0\<rparr>
      | Some h \<Rightarrow> \<lparr>hs_upper_bounds = hg_bounds h, hs_cumulative_counts = hg_buckets h, hs_count = hg_count h,
                  hs_sum = hg_sum h\<rparr>)"

definition newline :: string where "newline = [char_of (10 :: nat)]"
definition quote :: string where "quote = [char_of (34 :: nat)]"

definition histogram_text :: "string \<Rightarrow> histogram \<Rightarrow> string" where
  "histogram_text name h =
     concat (map2 (\<lambda>bound bucket. name @ ''_bucket{le='' @ quote @ fp_text bound @ quote @ ''} '' @
                     to_string_nat (unat bucket) @ newline) (hg_bounds h) (hg_buckets h)) @
     name @ ''_bucket{le='' @ quote @ ''+Inf'' @ quote @ ''} '' @ to_string_nat (unat (hg_count h)) @ newline @
     name @ ''_sum '' @ fp_text (hg_sum h) @ newline @
     name @ ''_count '' @ to_string_nat (unat (hg_count h)) @ newline"

definition prometheus :: "registry \<Rightarrow> string" where
  "prometheus m =
     concat (map (\<lambda>(name, v). name @ '' '' @ to_string_nat (unat v) @ newline) (mt_counters m)) @
     concat (map (\<lambda>(name, v). name @ '' '' @ to_string_int v @ newline) (mt_gauges m)) @
     concat (map (\<lambda>(name, h). histogram_text name h) (mt_histograms m))"

section \<open>Exactness\<close>

datatype metric_op =
    Increment string u64 | Add_gauge string int | Set_gauge string int | Observe string double "double list"

fun metric_step :: "metric_op \<Rightarrow> registry \<Rightarrow> registry" where
  "metric_step (Increment name amount) m = increment name amount m"
| "metric_step (Add_gauge name amount) m = add_gauge name amount m"
| "metric_step (Set_gauge name v) m = set_gauge name v m"
| "metric_step (Observe name v bounds) m = observe name v bounds m"

fun increments_of :: "string \<Rightarrow> metric_op \<Rightarrow> nat" where
  "increments_of name (Increment name' amount) = (if name' = name \<and> valid_name name then unat amount else 0)"
| "increments_of name op = 0"

fun observes :: "string \<Rightarrow> double list \<Rightarrow> metric_op \<Rightarrow> bool" where
  "observes name bounds (Observe name' v bounds') \<longleftrightarrow> name' = name \<and> bounds' = bounds \<and> isfinite v"
| "observes name bounds op \<longleftrightarrow> False"

fun observed :: "metric_op \<Rightarrow> double" where
  "observed (Observe name v bounds) = v"
| "observed op = 0"

lemma saturating_add_nat: "unat (saturating_add v amount) = min (2 ^ 64 - 1) (unat v + unat amount)"
proof -
  have max: "unat (- 1 :: u64) = 2 ^ 64 - 1" by (simp add: unsigned_minus_1_eq_mask mask_eq_exp_minus_1)
  have sub: "unat (- 1 - v) = 2 ^ 64 - 1 - unat v" using max by (subst unat_sub) simp_all
  show ?thesis
    using unat_u64_less [of v] unat_u64_less [of amount]
    by (auto simp: saturating_add_def word_less_nat_alt sub max unat_word_ariths min_def)
qed

lemma counter_step:
  "unat (counter_value name (metric_step op m)) = min (2 ^ 64 - 1) (unat (counter_value name m) + increments_of name op)"
proof (cases op)
  case (Increment name' amount)
  then show ?thesis
    using unat_u64_less [of "counter_value name m"]
    by (cases "map_of (mt_counters m) name")
      (auto simp: increment_def counter_value_def om_get_def saturating_add_nat min_def split: option.splits)
qed (use unat_u64_less [of "counter_value name m"] in
    \<open>auto simp: counter_value_def add_gauge_def set_gauge_def observe_def min_def split: option.splits\<close>)

lemma counter_run:
  "unat (counter_value name (fold metric_step ops m)) =
    min (2 ^ 64 - 1) (unat (counter_value name m) + (\<Sum>op \<leftarrow> ops. increments_of name op))"
proof (induction ops arbitrary: m)
  case Nil
  then show ?case using unat_u64_less [of "counter_value name m"] by simp
next
  case (Cons op ops)
  show ?case unfolding fold_Cons comp_apply Cons counter_step by (simp add: min_def)
qed

text \<open>What a histogram holds after the observations \<open>vs\<close>.\<close>

definition holds :: "double list \<Rightarrow> double list \<Rightarrow> histogram \<Rightarrow> bool" where
  "holds bounds vs h \<longleftrightarrow> hg_bounds h = bounds \<and> hg_count h = of_nat (length vs) \<and> hg_sum h = foldl fadd 0 vs \<and>
     hg_buckets h = map (\<lambda>b. of_nat (length (filter (\<lambda>v. fp_le v b) vs))) bounds"

lemma holds_record: "holds bounds vs h \<Longrightarrow> holds bounds (vs @ [v]) (record_value v h)"
  by (auto simp: holds_def record_value_def map2_map_map intro!: nth_equalityI)

lemma holds_new:
  "holds bounds [] \<lparr>hg_bounds = bounds, hg_buckets = replicate (length bounds) 0, hg_count = 0, hg_sum = 0\<rparr>"
  by (simp add: holds_def map_replicate_const)

definition stored :: "string \<Rightarrow> double list \<Rightarrow> double list \<Rightarrow> registry \<Rightarrow> bool" where
  "stored name bounds vs m \<longleftrightarrow>
     (case map_of (mt_histograms m) name of None \<Rightarrow> vs = [] | Some h \<Rightarrow> holds bounds vs h)"

fun uses_bounds :: "string \<Rightarrow> double list \<Rightarrow> metric_op \<Rightarrow> bool" where
  "uses_bounds name bounds (Observe name' v bounds') \<longleftrightarrow> (name' = name \<longrightarrow> bounds' = bounds)"
| "uses_bounds name bounds op \<longleftrightarrow> True"

lemma fp_list_eq_refl: "list_all isfinite xs \<Longrightarrow> fp_list_eq xs xs"
  by (induction xs) (auto simp: fp_list_eq_def fp_eq_key)

lemma stored_step:
  assumes "stored name bounds vs m" and "uses_bounds name bounds op" and "valid_name name"
    and "list_all isfinite bounds" and "fp_is_sorted bounds" and "\<not> fp_adjacent_equal bounds"
  shows "stored name bounds (vs @ map observed (filter (observes name bounds) [op])) (metric_step op m)"
proof (cases op)
  case (Observe name' v bounds')
  show ?thesis
  proof (cases "name' = name \<and> isfinite v")
    case True
    with assms Observe have b: "bounds' = bounds" by simp
    show ?thesis
    proof (cases "map_of (mt_histograms m) name")
      case None
      with assms(1) have "vs = []" by (simp add: stored_def)
      with True b None assms(3,5,6) holds_record [OF holds_new, of bounds v] show ?thesis
        by (simp add: Observe observe_def stored_def)
    next
      case (Some h)
      with assms(1) have h: "holds bounds vs h" by (simp add: stored_def)
      then have "fp_list_eq (hg_bounds h) bounds" using fp_list_eq_refl [OF assms(4)] by (simp add: holds_def)
      with True b Some assms(3,5,6) holds_record [OF h, of v] show ?thesis
        by (simp add: Observe observe_def stored_def)
    qed
  next
    case False
    with assms(1) show ?thesis by (auto simp: Observe observe_def stored_def split: option.splits)
  qed
qed (use assms(1) in \<open>auto simp: stored_def increment_def add_gauge_def set_gauge_def\<close>)

lemma stored_run:
  assumes "stored name bounds vs m" and "\<forall>op \<in> set ops. uses_bounds name bounds op" and "valid_name name"
    and "list_all isfinite bounds" and "fp_is_sorted bounds" and "\<not> fp_adjacent_equal bounds"
  shows "stored name bounds (vs @ map observed (filter (observes name bounds) ops)) (fold metric_step ops m)"
  using assms(1,2)
proof (induction ops arbitrary: vs m)
  case (Cons op ops)
  have "stored name bounds (vs @ map observed (filter (observes name bounds) [op])) (metric_step op m)"
    using stored_step [OF Cons.prems(1) _ assms(3-6), of op] Cons.prems(2) by simp
  from Cons.IH [OF this] Cons.prems(2) show ?case by (simp split: if_splits)
qed simp

text \<open>
  C37: the metrics are exact. After any sequence of operations on a new registry a counter holds the sum of
  its increments, or the largest 64-bit value when the sum exceeds it. If every observation of a
  histogram gives the same sorted finite bounds, the histogram holds, for each bound, the number of finite
  observations that are at most the bound, and the number and the floating-point sum of all of them in
  the order in which they were made.
\<close>

theorem metrics_exact:
  assumes "m = fold metric_step ops registry_new" and "valid_name name"
    and "\<forall>op \<in> set ops. uses_bounds name bounds op"
    and "list_all isfinite bounds" and "fp_is_sorted bounds" and "\<not> fp_adjacent_equal bounds"
    and "vs = map observed (filter (observes name bounds) ops)"
  shows "unat (counter_value c m) = min (2 ^ 64 - 1) (\<Sum>op \<leftarrow> ops. increments_of c op) \<and>
    (vs \<noteq> [] \<longrightarrow> histogram_value name m =
      \<lparr>hs_upper_bounds = bounds,
       hs_cumulative_counts = map (\<lambda>b. of_nat (length (filter (\<lambda>v. fp_le v b) vs))) bounds,
       hs_count = of_nat (length vs), hs_sum = foldl fadd 0 vs\<rparr>)"
proof -
  have "stored name bounds [] registry_new" by (simp add: stored_def registry_new_def)
  from stored_run [OF this assms(3,2,4-6)] have "stored name bounds vs m" by (simp add: assms(1,7))
  then have "vs \<noteq> [] \<longrightarrow> histogram_value name m =
      \<lparr>hs_upper_bounds = bounds,
       hs_cumulative_counts = map (\<lambda>b. of_nat (length (filter (\<lambda>v. fp_le v b) vs))) bounds,
       hs_count = of_nat (length vs), hs_sum = foldl fadd 0 vs\<rparr>"
    by (auto simp: stored_def holds_def histogram_value_def split: option.splits)
  moreover have "counter_value c registry_new = 0" by (simp add: counter_value_def registry_new_def)
  ultimately show ?thesis using counter_run [of c ops registry_new] by (simp add: assms(1))
qed

theorem metrics_exact_witness:
  "unat (counter_value ''hits'' (fold metric_step
      [Increment ''hits'' (- 1), Observe ''t'' fp_half [fp_half, fp_one], Increment ''hits'' 5] registry_new)) = 2 ^ 64 - 1 \<and>
   hs_cumulative_counts (histogram_value ''t'' (fold metric_step
      [Increment ''hits'' (- 1), Observe ''t'' fp_half [fp_half, fp_one], Increment ''hits'' 5] registry_new)) = [1, 1]"
proof -
  have max: "unat (- 1 :: u64) = 2 ^ 64 - 1" by (simp add: unsigned_minus_1_eq_mask mask_eq_exp_minus_1)
  have fp: "list_all isfinite [fp_half, fp_one]" "fp_is_sorted [fp_half, fp_one]" "\<not> fp_adjacent_equal [fp_half, fp_one]"
      "isfinite fp_half" "fp_le fp_half fp_half" "fp_le fp_half fp_one"
    by code_simp+
  have names: "valid_name ''t''" "valid_name ''hits''" by code_simp+
  show ?thesis
    using metrics_exact [OF refl names(1) _ fp(1-3) refl,
        of "[Increment ''hits'' (- 1), Observe ''t'' fp_half [fp_half, fp_one], Increment ''hits'' 5]" "''hits''"]
    by (simp add: max fp names)
qed

end
