(* ===== verification/Search_Defaults.thy ===== *)
theory Search_Defaults
  imports Executor
begin

text \<open>
  The default members of the option structures of the query engine, which the cluster, the shard server and
  the command-line programs use (\<^verbatim>\<open>bm25.hpp\<close>, \<^verbatim>\<open>planner.hpp\<close>, \<^verbatim>\<open>executor.hpp\<close>).
\<close>

text \<open>1.2 and 0.75.\<close>

definition default_parameters :: bm25_parameters where
  "default_parameters = \<lparr>bm_k1 = 0x3ff3333333333333, bm_b = 0x3fe8000000000000\<rparr>"

definition default_planner_limits :: planner_limits where
  "default_planner_limits = \<lparr>maximum_nodes = 1024, maximum_analyzed_tokens = 4096, maximum_phrase_tokens = 256, maximum_depth = 128\<rparr>"

definition default_search_fields :: "search_field list" where
  "default_search_fields = map (\<lambda>name. \<lparr>sf_name = name, sf_boost = fp_one\<rparr>) [''title'', ''body'', ''tags'']"

definition default_options :: search_options where
  "default_options = \<lparr>so_top_k = 10, so_default_fields = default_search_fields, so_planner_limits = default_planner_limits\<rparr>"

text \<open>The parameters are accepted by the scorer.\<close>

lemma default_parameters_ok: "bm25_create default_parameters = Inr default_parameters"
  by code_simp

end
