(* ===== verification/Cluster.thy ===== *)
theory Cluster
  imports Scoring Index_Rebuild Search_Defaults
begin

text \<open>
  The local cluster: \<^verbatim>\<open>src/distributed/local_cluster.cpp\<close>. Documents are routed to shards by a hash of
  their identifier; an index of all documents (the oracle) supplies the statistics, so that a shard scores its
  documents as the whole collection would. A search asks every shard and merges the best hits.

  The methods hold a mutex (shared for searches), so a run is a sequence of calls; the futures of a search
  are awaited in the order of the shards. The cache of a \<^verbatim>\<open>ShardSearchView\<close> remembers what its first
  lookup of a term computed; the two indexes do not change while it lives.
\<close>

unbundle bit_operations_syntax

section \<open>Routing\<close>

definition fnv_byte :: "char \<Rightarrow> u64 \<Rightarrow> u64" where
  "fnv_byte character hash = (hash XOR of_nat (of_char character)) * 1099511628211"

definition route :: "nat \<Rightarrow> document_id \<Rightarrow> nat" where
  "route shard_count did =
     (let hash = fold fnv_byte did 14695981039346656037
      in if shard_count = 0 then 0 else unat hash mod shard_count)"

section \<open>The view of a shard\<close>

definition shard_lookup :: "view \<Rightarrow> view \<Rightarrow> string \<Rightarrow> string \<Rightarrow> term_entry option" where
  "shard_lookup local global field trm =
     (case v_lookup local field trm of
        None \<Rightarrow> None
      | Some entry \<Rightarrow>
          Some (entry\<lparr>te_df := (case v_lookup global field trm of None \<Rightarrow> 0 | Some g \<Rightarrow> te_df g)\<rparr>))"

definition shard_view :: "view \<Rightarrow> view \<Rightarrow> view" where
  "shard_view local global =
     \<lparr>v_lookup = shard_lookup local global, v_document = v_document local,
      v_document_internal = v_document_internal local, v_internal_id = v_internal_id local,
      v_external_id = v_external_id local, v_live_document_ids = v_live_document_ids local,
      v_live_document_count = v_live_document_count global, v_field_statistics = v_field_statistics global,
      v_schema = v_schema global\<rparr>"

section \<open>The cluster\<close>

datatype cluster_error_code = Invalid_shard_count | Cl_mutation_error | Cl_execution_error | Result_overflow

record cluster_error =
  cle_code :: cluster_error_code
  cle_message :: string

datatype cluster_fault = Cl_failed cluster_error | Cl_crashed

record cluster =
  lc_global :: index
  lc_shards :: "index list"

definition cl_fail :: "cluster_error_code \<Rightarrow> string \<Rightarrow> cluster_fault" where
  "cl_fail code message = Cl_failed \<lparr>cle_code = code, cle_message = message\<rparr>"

definition cluster_create :: "nat \<Rightarrow> schema \<Rightarrow> (cluster_fault, cluster) result" where
  "cluster_create shard_count schema =
     (if shard_count = 0 \<or> shard_count > 1024
      then Inl (cl_fail Invalid_shard_count ''shard count must be between 1 and 1024'')
      else Inr \<lparr>lc_global = index_new schema (- 1), lc_shards = replicate shard_count (index_new schema (- 1))\<rparr>)"

definition cluster_route :: "cluster \<Rightarrow> document_id \<Rightarrow> nat" where
  "cluster_route c did = route (length (lc_shards c)) did"

definition mutation_fault :: "index_fault \<Rightarrow> cluster_fault" where
  "mutation_fault f = (case f of Rejected e \<Rightarrow> cl_fail Cl_mutation_error (ie_message e) | Null_dereference \<Rightarrow> Cl_crashed)"

definition cluster_put :: "document \<Rightarrow> cluster \<Rightarrow> (cluster_fault, unit) result \<times> cluster" where
  "cluster_put d c =
     (let shard = cluster_route c (doc_id d)
      in case index_put (lc_global c) d of
           Inl f \<Rightarrow> (Inl (mutation_fault f), c)
         | Inr global \<Rightarrow>
             (let c' = c\<lparr>lc_global := global\<rparr>
              in case index_put (lc_shards c ! shard) d of
                   Inl f \<Rightarrow> (Inl (mutation_fault f), c')
                 | Inr local \<Rightarrow> (Inr (), c'\<lparr>lc_shards := (lc_shards c)[shard := local]\<rparr>)))"

definition cluster_erase :: "document_id \<Rightarrow> u64 \<Rightarrow> cluster \<Rightarrow> (cluster_fault, unit) result \<times> cluster" where
  "cluster_erase did version c = cluster_put (tombstone did version) c"

section \<open>Search\<close>

text \<open>One round of the loop over the futures: the collector and the number of hits so far.\<close>

definition merge_result ::
  "(execution_error, search_result) result \<Rightarrow> top_k_collector \<times> nat \<Rightarrow> (cluster_fault, top_k_collector \<times> nat) result" where
  "merge_result result = (\<lambda>(collector, hits).
     case result of
       Inl e \<Rightarrow> Inl (cl_fail Cl_execution_error (ee_message e))
     | Inr r \<Rightarrow>
         if sr_total_hits r > 2 ^ 64 - 1 - hits then Inl (cl_fail Result_overflow ''total hits overflow'')
         else Inr (fold (\<lambda>hit c. fst (collect hit c)) (sr_hits r) collector, hits + sr_total_hits r))"

definition shard_search ::
  "(double \<Rightarrow> double) \<Rightarrow> query \<Rightarrow> search_options \<Rightarrow> index \<Rightarrow> index \<Rightarrow>
     (execution_error, search_result) result" where
  "shard_search log1p q opts global local =
     search (shard_view (memory_view local) (memory_view global)) log1p default_parameters q opts"

definition cluster_search ::
  "(double \<Rightarrow> double) \<Rightarrow> query \<Rightarrow> search_options \<Rightarrow> cluster \<Rightarrow> (cluster_fault, search_result) result" where
  "cluster_search log1p q opts c =
     (case fold_result merge_result (map (shard_search log1p q opts (lc_global c)) (lc_shards c))
             (top_k_new (so_top_k opts), 0) of
        Inl e \<Rightarrow> Inl e
      | Inr (collector, hits) \<Rightarrow> Inr \<lparr>sr_hits = top_k_results collector, sr_total_hits = hits\<rparr>)"

end
