(* ===== verification/Plan_Similarity.thy ===== *)
theory Plan_Similarity
  imports Planner_Proofs Scoring
begin

text \<open>
  The plans that two views of one schema and one number of documents make of a query. The views may differ in
  what their lookups return, so the estimates differ and with them the order of the two
  children of a conjunction and everything that is sorted by canonical text above it. The plans are
  shown to be similar: equal up to estimates and the order of two children, and similar plans match and score
  alike, because the addition of scores is commutative on the IEEE bits.
\<close>

section \<open>Similar plans\<close>

inductive sim :: "plan \<Rightarrow> plan \<Rightarrow> bool" where
  sim_term: "sim (PlannedTerm n f t b) (PlannedTerm m f t b)"
| sim_phrase: "sim (PlannedPhrase n f ts b) (PlannedPhrase m f ts b)"
| sim_not: "sim p q \<Longrightarrow> sim (PlannedNot n p) (PlannedNot m q)"
| sim_range: "sim (PlannedRange n f l u il iu) (PlannedRange m f l u il iu)"
| sim_all: "sim (PlannedMatchAll n) (PlannedMatchAll m)"
| sim_and: "list_all2 sim ps qs \<Longrightarrow> sim (PlannedAnd n ps) (PlannedAnd m qs)"
| sim_or: "list_all2 sim ps qs \<Longrightarrow> sim (PlannedOr n ps) (PlannedOr m qs)"
| sim_and_swap: "sim a c \<Longrightarrow> sim b d \<Longrightarrow> sim (PlannedAnd n [a, b]) (PlannedAnd m [d, c])"
| sim_or_swap: "sim a c \<Longrightarrow> sim b d \<Longrightarrow> sim (PlannedOr n [a, b]) (PlannedOr m [d, c])"

inductive_cases sim_elims:
  "sim (PlannedTerm n f t b) q" "sim (PlannedPhrase n f ts b) q" "sim (PlannedNot n p) q"
  "sim (PlannedRange n f l u il iu) q" "sim (PlannedMatchAll n) q"

inductive_cases sim_andE: "sim (PlannedAnd n ps) q"
inductive_cases sim_orE: "sim (PlannedOr n ps) q"

lemma sim_sym: "sim p q \<Longrightarrow> sim q p"
proof (induction rule: sim.induct)
  case (sim_and ps qs n m)
  then have "list_all2 sim qs ps" by (simp add: list_all2_conv_all_nth)
  then show ?case by (rule sim.sim_and)
next
  case (sim_or ps qs n m)
  then have "list_all2 sim qs ps" by (simp add: list_all2_conv_all_nth)
  then show ?case by (rule sim.sim_or)
qed (auto intro: sim.intros)

lemma sim_refl: "sim p p"
proof (induction p)
  case (PlannedAnd n ps)
  then have "list_all2 sim ps ps" by (intro list.rel_refl_strong)
  then show ?case by (rule sim_and)
next
  case (PlannedOr n ps)
  then have "list_all2 sim ps ps" by (intro list.rel_refl_strong)
  then show ?case by (rule sim_or)
qed (auto intro: sim.intros)

lemma isinf_same: "isinf x \<Longrightarrow> isinf y \<Longrightarrow> fp_neg x = fp_neg y \<Longrightarrow> x = y"
proof -
  assume a: "isinf x" "isinf y" "fp_neg x = fp_neg y"
  have "uint z = (if fp_neg z then fp_sign_bit else 0) + fp_mag z" for z
    by (simp add: fp_neg_def fp_mag_def)
  from this [of x] this [of y] a show "x = y"
    by (simp add: isinf_def word_uint_eq_iff)
qed

lemma fadd_commute: "fadd x y = fadd y x"
  using isinf_same [of x y] by (auto simp: fadd_def Let_def min.commute add.commute disj_commute conj_commute)

lemma sim_matches: "sim p q \<Longrightarrow> plan_matches schema d p = plan_matches schema d q"
proof (induction rule: sim.induct)
  case (sim_and ps qs n m)
  then have "list_all (plan_matches schema d) ps = list_all (plan_matches schema d) qs" "ps = [] \<longleftrightarrow> qs = []"
    by (auto simp: list_all_length list_all2_conv_all_nth)
  then show ?case by simp
next
  case (sim_or ps qs n m)
  then have "list_ex (plan_matches schema d) ps = list_ex (plan_matches schema d) qs"
    by (auto simp: list_ex_length list_all2_conv_all_nth)
  then show ?case by simp
qed auto

lemma sim_score: "sim p q \<Longrightarrow> plan_score g sc d p = plan_score g sc d q"
proof (induction rule: sim.induct)
  case (sim_and ps qs n m)
  then have "map (plan_score g sc d) ps = map (plan_score g sc d) qs"
    by (auto simp: list_all2_conv_all_nth intro: nth_equalityI)
  then show ?case by simp
next
  case (sim_or ps qs n m)
  then have "map (\<lambda>p. if plan_matches (sg_schema g) d p then [plan_score g sc d p] else []) ps =
      map (\<lambda>p. if plan_matches (sg_schema g) d p then [plan_score g sc d p] else []) qs"
    using sim_matches by (auto simp: list_all2_conv_all_nth intro!: nth_equalityI)
  then show ?case by simp
next
  case (sim_and_swap a c b e n m)
  then show ?case by (simp add: fadd_commute)
next
  case (sim_or_swap a c b e n m)
  then show ?case using sim_matches [of a c] sim_matches [of b e] by (auto simp: fadd_commute)
qed simp_all

text \<open>Plans with the same canonical text and boosts differ in estimates only.\<close>

section \<open>Canonical texts of children\<close>

lemma canonical_cancel: "canonical p @ x = canonical q @ y \<Longrightarrow> canonical p = canonical q \<and> x = y"
  using canonical_append [of p x q y] by auto

lemma children_text_cong:
  "map canonical ps = map canonical qs \<Longrightarrow> map (\<lambda>c. canonical c @ '','') ps = map (\<lambda>c. canonical c @ '','') qs"
proof -
  assume eq: "map canonical ps = map canonical qs"
  have "map (\<lambda>c. canonical c @ '','') xs = map (\<lambda>k. k @ '','') (map canonical xs)" for xs by simp
  then show ?thesis using eq by (simp only:)
qed

lemma canonical_children:
  "concat (map (\<lambda>c. canonical c @ '','') ps) @ '')'' = concat (map (\<lambda>c. canonical c @ '','') qs) @ '')'' \<Longrightarrow>
    map canonical ps = map canonical qs"
proof (induction ps arbitrary: qs)
  case Nil
  show ?case
  proof (cases qs)
    case (Cons q qs')
    obtain c z where "canonical q = c # z" "c \<in> set ''TPAONRM''" using canonical_hd by blast
    with Nil Cons show ?thesis by auto
  qed simp
next
  case (Cons p ps)
  show ?case
  proof (cases qs)
    case Nil
    obtain c z where "canonical p = c # z" "c \<in> set ''TPAONRM''" using canonical_hd by blast
    with Cons.prems Nil show ?thesis by auto
  next
    case (Cons q qs')
    with Cons.prems canonical_cancel [of p "'','' @ concat (map (\<lambda>c. canonical c @ '','') ps) @ '')''" q
        "'','' @ concat (map (\<lambda>c. canonical c @ '','') qs') @ '')''"]
    have "canonical p = canonical q" "concat (map (\<lambda>c. canonical c @ '','') ps) @ '')'' = concat (map (\<lambda>c. canonical c @ '','') qs') @ '')''"
      by simp_all
    with Cons.IH Cons show ?thesis by simp
  qed
qed

lemma canonical_And: "canonical (PlannedAnd n ps) = canonical q \<longleftrightarrow> (\<exists>m qs. q = PlannedAnd m qs \<and> map canonical ps = map canonical qs)"
proof
  assume eq: "canonical (PlannedAnd n ps) = canonical q"
  from canonical_shape [OF this] obtain m qs where q: "q = PlannedAnd m qs" by (cases q) auto
  with eq have "concat (map (\<lambda>c. canonical c @ '','') ps) @ '')'' = concat (map (\<lambda>c. canonical c @ '','') qs) @ '')''" by simp
  from canonical_children [OF this] q show "\<exists>m qs. q = PlannedAnd m qs \<and> map canonical ps = map canonical qs" by simp
qed (auto dest: children_text_cong)

lemma canonical_Or: "canonical (PlannedOr n ps) = canonical q \<longleftrightarrow> (\<exists>m qs. q = PlannedOr m qs \<and> map canonical ps = map canonical qs)"
proof
  assume eq: "canonical (PlannedOr n ps) = canonical q"
  from canonical_shape [OF this] obtain m qs where q: "q = PlannedOr m qs" by (cases q) auto
  with eq have "concat (map (\<lambda>c. canonical c @ '','') ps) @ '')'' = concat (map (\<lambda>c. canonical c @ '','') qs) @ '')''" by simp
  from canonical_children [OF this] q show "\<exists>m qs. q = PlannedOr m qs \<and> map canonical ps = map canonical qs" by simp
qed (auto dest: children_text_cong)

lemma canonical_Not: "canonical (PlannedNot n p) = canonical q \<longleftrightarrow> (\<exists>m q'. q = PlannedNot m q' \<and> canonical p = canonical q')"
proof
  assume eq: "canonical (PlannedNot n p) = canonical q"
  from canonical_shape [OF this] obtain m q' where q: "q = PlannedNot m q'" by (cases q) auto
  with eq show "\<exists>m q'. q = PlannedNot m q' \<and> canonical p = canonical q'" by simp
qed auto

section \<open>Plans as a view makes them\<close>

definition term_estimate :: "view \<Rightarrow> string \<Rightarrow> string \<Rightarrow> nat" where
  "term_estimate v f t = (case v_lookup v f t of None \<Rightarrow> 0 | Some e \<Rightarrow> length (te_postings e))"

definition phrase_estimate :: "view \<Rightarrow> string \<Rightarrow> token list \<Rightarrow> nat" where
  "phrase_estimate v f tokens = fold (\<lambda>tok e. min e (term_estimate v f (tok_term tok))) tokens (v_live_document_count v)"

text \<open>Every estimate is the one the view gives, and children are in the order of the planner.\<close>

abbreviation cost_key :: "plan \<Rightarrow> nat \<times> string" where
  "cost_key p \<equiv> (estimated_matches p, canonical p)"

fun normal :: "view \<Rightarrow> plan \<Rightarrow> bool" where
  "normal v (PlannedTerm n f t b) \<longleftrightarrow> n = term_estimate v f t"
| "normal v (PlannedPhrase n f tokens b) \<longleftrightarrow> n = phrase_estimate v f tokens"
| "normal v (PlannedAnd n ps) \<longleftrightarrow> n = combined_estimate v True ps \<and> sorted_wrt (<) (map cost_key ps) \<and> list_all (normal v) ps"
| "normal v (PlannedOr n ps) \<longleftrightarrow> n = combined_estimate v False ps \<and> sorted_wrt (<) (map canonical ps) \<and> list_all (normal v) ps"
| "normal v (PlannedNot n p) \<longleftrightarrow> n = v_live_document_count v \<and> normal v p"
| "normal v (PlannedRange n f l u il iu) \<longleftrightarrow> n = v_live_document_count v"
| "normal v (PlannedMatchAll n) \<longleftrightarrow> n = v_live_document_count v"

lemma combined_estimate_map:
  "map estimated_matches ps = map estimated_matches qs \<Longrightarrow> combined_estimate v cost_order ps = combined_estimate v cost_order qs"
proof -
  assume eq: "map estimated_matches ps = map estimated_matches qs"
  have f: "fold (\<lambda>c e. g (estimated_matches c) e) xs a = fold g (map estimated_matches xs) a" for g :: "nat \<Rightarrow> nat \<Rightarrow> nat" and xs a
    by (simp add: fold_map comp_def)
  show ?thesis
    using f [of "\<lambda>x e. min e x" ps] f [of "\<lambda>x e. min e x" qs]
      f [of "\<lambda>x e. min (v_live_document_count v) (e + x)" ps] f [of "\<lambda>x e. min (v_live_document_count v) (e + x)" qs] eq
    by (simp add: combined_estimate_def)
qed

lemma phrase_estimate_terms:
  "map tok_term ts = map tok_term us \<Longrightarrow> phrase_estimate v f ts = phrase_estimate v f us"
proof -
  assume eq: "map tok_term ts = map tok_term us"
  have "phrase_estimate v f xs = fold (\<lambda>t e. min e (term_estimate v f t)) (map tok_term xs) (v_live_document_count v)" for xs
    by (simp add: phrase_estimate_def fold_map comp_def)
  then show ?thesis using eq by simp
qed

lemma normal_estimate:
  "normal v p \<Longrightarrow> normal v q \<Longrightarrow> shape_of p = shape_of q \<Longrightarrow> estimated_matches p = estimated_matches q"
proof (induction p arbitrary: q)
  case (PlannedPhrase n f ts b)
  then obtain m us b' where q: "q = PlannedPhrase m f us b'" "map (\<lambda>t. (tok_term t, tok_position t)) ts = map (\<lambda>t. (tok_term t, tok_position t)) us"
    by (cases q) auto
  from arg_cong [OF q(2), of "map fst"] have "map tok_term ts = map tok_term us" by (simp add: comp_def)
  from phrase_estimate_terms [OF this, of v f] PlannedPhrase.prems(1,2) q(1) show ?case by simp
next
  case (PlannedAnd n ps)
  then obtain m qs where q: "q = PlannedAnd m qs" "map shape_of ps = map shape_of qs" by (cases q) auto
  have len: "length ps = length qs" using q(2) map_eq_imp_length_eq by blast
  have "map estimated_matches ps = map estimated_matches qs"
  proof (rule nth_equalityI)
    fix i
    assume i: "i < length (map estimated_matches ps)"
    then have "shape_of (ps ! i) = shape_of (qs ! i)" using arg_cong [OF q(2), of "\<lambda>l. l ! i"] len by simp
    with PlannedAnd.IH [of "ps ! i" "qs ! i"] PlannedAnd.prems(1,2) q(1) i len
    show "map estimated_matches ps ! i = map estimated_matches qs ! i" by (simp add: list_all_length)
  qed (simp add: len)
  from combined_estimate_map [OF this, of v True] PlannedAnd.prems(1,2) q(1) show ?case by simp
next
  case (PlannedOr n ps)
  then obtain m qs where q: "q = PlannedOr m qs" "map shape_of ps = map shape_of qs" by (cases q) auto
  have len: "length ps = length qs" using q(2) map_eq_imp_length_eq by blast
  have "map estimated_matches ps = map estimated_matches qs"
  proof (rule nth_equalityI)
    fix i
    assume i: "i < length (map estimated_matches ps)"
    then have "shape_of (ps ! i) = shape_of (qs ! i)" using arg_cong [OF q(2), of "\<lambda>l. l ! i"] len by simp
    with PlannedOr.IH [of "ps ! i" "qs ! i"] PlannedOr.prems(1,2) q(1) i len
    show "map estimated_matches ps ! i = map estimated_matches qs ! i" by (simp add: list_all_length)
  qed (simp add: len)
  from combined_estimate_map [OF this, of v False] PlannedOr.prems(1,2) q(1) show ?case by simp
next
  case (PlannedTerm n f t b)
  show ?case using PlannedTerm.prems by (cases q) auto
next
  case (PlannedNot n p)
  show ?case using PlannedNot.prems by (cases q) auto
next
  case (PlannedRange n f l u il iu)
  show ?case using PlannedRange.prems by (cases q) auto
next
  case (PlannedMatchAll n)
  show ?case using PlannedMatchAll.prems by (cases q) auto
qed

lemma normal_cost_key: "normal v p \<Longrightarrow> normal v q \<Longrightarrow> canonical p = canonical q \<Longrightarrow> cost_key p = cost_key q"
  by (metis normal_estimate canonical_shape)

definition sim_list :: "plan list \<Rightarrow> plan list \<Rightarrow> bool" where
  "sim_list ps qs \<longleftrightarrow> list_all2 sim ps qs \<or> (\<exists>a b c d. ps = [a, b] \<and> qs = [d, c] \<and> sim a c \<and> sim b d)"

lemma sim_And: "sim (PlannedAnd n ps) q \<longleftrightarrow> (\<exists>m qs. q = PlannedAnd m qs \<and> sim_list ps qs)"
  by (auto simp: sim_list_def elim: sim_andE intro: sim.intros)

lemma sim_Or: "sim (PlannedOr n ps) q \<longleftrightarrow> (\<exists>m qs. q = PlannedOr m qs \<and> sim_list ps qs)"
  by (auto simp: sim_list_def elim: sim_orE intro: sim.intros)

lemma sim_list_canonical:
  fixes key :: "plan \<Rightarrow> 'k::linorder"
  assumes ps: "sim_list ps ps'" and qs: "sim_list qs qs'" and eq: "map canonical ps = map canonical qs"
    and step: "\<And>x x' y y'. x \<in> set ps \<Longrightarrow> x' \<in> set ps' \<Longrightarrow> y' \<in> set qs' \<Longrightarrow> sim x x' \<Longrightarrow> sim y y' \<Longrightarrow>
      canonical x = canonical y \<Longrightarrow> canonical x' = canonical y'"
    and key: "\<And>x' y'. x' \<in> set ps' \<Longrightarrow> y' \<in> set qs' \<Longrightarrow> canonical x' = canonical y' \<Longrightarrow> key x' = key y'"
    and sorted: "sorted_wrt (<) (map key ps')" "sorted_wrt (<) (map key qs')"
  shows "map canonical ps' = map canonical qs'"
proof -
  have len: "length ps = length qs" using arg_cong [OF eq, of length] by simp
  have nth: "canonical (ps ! i) = canonical (qs ! i)" if "i < length ps" for i
    using arg_cong [OF eq, of "\<lambda>l. l ! i"] that len by simp
  from ps qs show ?thesis unfolding sim_list_def
  proof (elim disjE exE conjE)
    assume all: "list_all2 sim ps ps'" "list_all2 sim qs qs'"
    then have lens: "length ps' = length ps" "length qs' = length ps" using len list_all2_lengthD by metis+
    show ?thesis
    proof (rule nth_equalityI)
      fix i
      assume "i < length (map canonical ps')"
      then have i: "i < length ps" using lens by simp
      have "canonical (ps' ! i) = canonical (qs' ! i)"
        by (rule step [of "ps ! i" _ _ "qs ! i"]) (use i lens len all nth [OF i] in \<open>auto simp: list_all2_conv_all_nth\<close>)
      then show "map canonical ps' ! i = map canonical qs' ! i" using i lens by simp
    qed (simp add: lens)
  next
    fix a b c d
    assume all: "list_all2 sim ps ps'" and q: "qs = [a, b]" "qs' = [d, c]" "sim a c" "sim b d"
    obtain x y where xy: "ps = [x, y]" using len q(1) by (auto simp: length_Suc_conv)
    with all obtain x' y' where p: "ps = [x, y]" "ps' = [x', y']" "sim x x'" "sim y y'" by (auto simp: list_all2_Cons1)
    have "canonical x' = canonical c" "canonical y' = canonical d"
      using step [of x x' c a] step [of y y' d b] nth [of 0] nth [of 1] p q by auto
    then have "key x' = key c" "key y' = key d" using key p q by auto
    then show ?thesis using sorted p q by auto
  next
    fix a b c d
    assume all: "list_all2 sim qs qs'" and p: "ps = [a, b]" "ps' = [d, c]" "sim a c" "sim b d"
    obtain x y where xy: "qs = [x, y]" using len [symmetric] p(1) by (auto simp: length_Suc_conv)
    with all obtain x' y' where q: "qs = [x, y]" "qs' = [x', y']" "sim x x'" "sim y y'" by (auto simp: list_all2_Cons1)
    have "canonical c = canonical x'" "canonical d = canonical y'"
      using step [of a c x' x] step [of b d y' y] nth [of 0] nth [of 1] p q by auto
    then have "key c = key x'" "key d = key y'" using key p q by auto
    then show ?thesis using sorted p q by auto
  next
    fix a b c d a2 b2 c2 d2
    assume p: "ps = [a, b]" "ps' = [d, c]" "sim a c" "sim b d" and q: "qs = [a2, b2]" "qs' = [d2, c2]" "sim a2 c2" "sim b2 d2"
    then show ?thesis
      using step [of a c c2 a2] step [of b d d2 b2] nth [of 0] nth [of 1] by auto
  qed
qed

text \<open>
  Similarity is one-to-one up to canonical texts: of two plans that have the same text in one view, the
  similar plans of another view have the same text.
\<close>

lemma sim_canonical:
  "sim p p' \<Longrightarrow> sim q q' \<Longrightarrow> canonical p = canonical q \<Longrightarrow> normal v p' \<Longrightarrow> normal v q' \<Longrightarrow> canonical p' = canonical q'"
proof (induction p arbitrary: p' q q')
  case (PlannedTerm n f t b)
  from canonical_shape [OF PlannedTerm.prems(3)] obtain k c where "q = PlannedTerm k f t c" by (cases q) auto
  with PlannedTerm show ?case by (auto elim!: sim_elims)
next
  case (PlannedPhrase n f ts b)
  from canonical_shape [OF PlannedPhrase.prems(3)] obtain k us c where "q = PlannedPhrase k f us c" by (cases q) auto
  with PlannedPhrase show ?case by (auto elim!: sim_elims)
next
  case (PlannedNot n p)
  obtain k q1 where q: "q = PlannedNot k q1" "canonical p = canonical q1" using PlannedNot.prems(3) unfolding canonical_Not by blast
  with PlannedNot.prems(1,2) obtain m p2 l q2 where s: "p' = PlannedNot m p2" "sim p p2" "q' = PlannedNot l q2" "sim q1 q2"
    by (auto elim!: sim_elims)
  with PlannedNot.IH [OF s(2,4) q(2)] PlannedNot.prems(4,5) show ?case by simp
next
  case (PlannedRange n f l u il iu)
  from canonical_shape [OF PlannedRange.prems(3)] obtain k where "q = PlannedRange k f l u il iu" by (cases q) auto
  with PlannedRange show ?case by (auto elim!: sim_elims)
next
  case (PlannedMatchAll n)
  from canonical_shape [OF PlannedMatchAll.prems(3)] obtain k where "q = PlannedMatchAll k" by (cases q) auto
  with PlannedMatchAll show ?case by (auto elim!: sim_elims)
next
  case (PlannedAnd n ps)
  obtain k qs where q: "q = PlannedAnd k qs" "map canonical ps = map canonical qs"
    using PlannedAnd.prems(3) unfolding canonical_And by blast
  obtain m ps' where p': "p' = PlannedAnd m ps'" "sim_list ps ps'" using PlannedAnd.prems(1) unfolding sim_And by blast
  obtain l qs' where q': "q' = PlannedAnd l qs'" "sim_list qs qs'" using PlannedAnd.prems(2) unfolding q(1) sim_And by blast
  have ok: "\<forall>x \<in> set ps'. normal v x" "\<forall>x \<in> set qs'. normal v x" "sorted_wrt (<) (map cost_key ps')" "sorted_wrt (<) (map cost_key qs')"
    using PlannedAnd.prems(4,5) by (simp_all add: p' q' list_all_iff)
  have "map canonical ps' = map canonical qs'"
  proof (rule sim_list_canonical [OF p'(2) q'(2) q(2)])
    show "x \<in> set ps \<Longrightarrow> x' \<in> set ps' \<Longrightarrow> y' \<in> set qs' \<Longrightarrow> sim x x' \<Longrightarrow> sim y y' \<Longrightarrow> canonical x = canonical y \<Longrightarrow>
        canonical x' = canonical y'" for x x' y y' using PlannedAnd.IH ok(1,2) by blast
    show "x' \<in> set ps' \<Longrightarrow> y' \<in> set qs' \<Longrightarrow> canonical x' = canonical y' \<Longrightarrow> cost_key x' = cost_key y'" for x' y'
      using normal_cost_key ok(1,2) by blast
  qed (rule ok)+
  then show ?case unfolding p' q' canonical_And by blast
next
  case (PlannedOr n ps)
  obtain k qs where q: "q = PlannedOr k qs" "map canonical ps = map canonical qs"
    using PlannedOr.prems(3) unfolding canonical_Or by blast
  obtain m ps' where p': "p' = PlannedOr m ps'" "sim_list ps ps'" using PlannedOr.prems(1) unfolding sim_Or by blast
  obtain l qs' where q': "q' = PlannedOr l qs'" "sim_list qs qs'" using PlannedOr.prems(2) unfolding q(1) sim_Or by blast
  have ok: "\<forall>x \<in> set ps'. normal v x" "\<forall>x \<in> set qs'. normal v x" "sorted_wrt (<) (map canonical ps')" "sorted_wrt (<) (map canonical qs')"
    using PlannedOr.prems(4,5) by (simp_all add: p' q' list_all_iff)
  have "map canonical ps' = map canonical qs'"
  proof (rule sim_list_canonical [OF p'(2) q'(2) q(2)])
    show "x \<in> set ps \<Longrightarrow> x' \<in> set ps' \<Longrightarrow> y' \<in> set qs' \<Longrightarrow> sim x x' \<Longrightarrow> sim y y' \<Longrightarrow> canonical x = canonical y \<Longrightarrow>
        canonical x' = canonical y'" for x x' y y' using PlannedOr.IH ok(1,2) by blast
  qed (rule ok | assumption)+
  then show ?case unfolding p' q' canonical_Or by blast
qed

section \<open>The builder on two views\<close>

definition same_plan :: "view \<Rightarrow> view \<Rightarrow> plan \<Rightarrow> plan \<Rightarrow> bool" where
  "same_plan v w p q \<longleftrightarrow> sim p q \<and> normal v p \<and> normal w q"

definition same_leaf :: "view \<Rightarrow> view \<Rightarrow> plan \<Rightarrow> plan \<Rightarrow> bool" where
  "same_leaf v w p q \<longleftrightarrow> same_plan v w p q \<and> canonical p = canonical q"

text \<open>Two results of the builder: the same error, or related values with the same counters.\<close>

abbreviation built :: "('p \<Rightarrow> 'p \<Rightarrow> bool) \<Rightarrow> ('e, 'p \<times> 'b) result \<Rightarrow> ('e, 'p \<times> 'b) result \<Rightarrow> bool" where
  "built R \<equiv> rel_sum (=) (rel_prod R (=))"

lemma built_bind:
  "built R x y \<Longrightarrow> (\<And>p q b. R p q \<Longrightarrow> built S (f p b) (g q b)) \<Longrightarrow>
    built S (case x of Inl e \<Rightarrow> Inl e | Inr (p, b) \<Rightarrow> f p b) (case y of Inl e \<Rightarrow> Inl e | Inr (q, b) \<Rightarrow> g q b)"
  by (cases x; cases y) auto

lemma built_mono: "built R x y \<Longrightarrow> (\<And>p q. R p q \<Longrightarrow> S p q) \<Longrightarrow> built S x y"
  by (cases x; cases y) auto

lemma built_make: "R p q \<Longrightarrow> built R (Planner.make opts p b) (Planner.make opts q b)"
  by (simp add: Planner.make_def Let_def)

lemma same_leaf_plan: "same_leaf v w p q \<Longrightarrow> same_plan v w p q"
  by (simp add: same_leaf_def)

lemma same_plan_canonical:
  "same_plan v w p p' \<Longrightarrow> same_plan v w q q' \<Longrightarrow> canonical p = canonical q \<longleftrightarrow> canonical p' = canonical q'"
  using sim_canonical [of p p' q q' w] sim_canonical [OF sim_sym sim_sym, of p p' q q' v] unfolding same_plan_def by blast

subsection \<open>Two children\<close>

lemma keyed_two: "keyed [l, r] [] = (if canonical l = canonical r then [(canonical l, l)] else [(canonical l, l), (canonical r, r)])"
  by (simp add: Let_def)

lemma normalize_two:
  "normalize_boolean v opts cost_order [l, r] b =
     (if canonical l = canonical r then Inr (l, b)
      else let cs = (if (if cost_order then cost_key l \<le> cost_key r else canonical l \<le> canonical r) then [l, r] else [r, l])
           in Planner.make opts (boolean_node cost_order (combined_estimate v cost_order cs) cs) b)"
  unfolding normalize_boolean_def Let_def keyed_two by simp

lemma ordered_two:
  fixes key :: "plan \<Rightarrow> 'k::linorder"
  shows "key l \<noteq> key r \<Longrightarrow> sorted_wrt (<) (map key (if key l \<le> key r then [l, r] else [r, l]))"
  by auto

lemma same_two:
  assumes "same_plan v w l l'" and "same_plan v w r r'" and "canonical l \<noteq> canonical r" and "canonical l' \<noteq> canonical r'"
  shows "same_plan v w
    (let cs = (if (if c then cost_key l \<le> cost_key r else canonical l \<le> canonical r) then [l, r] else [r, l])
     in boolean_node c (combined_estimate v c cs) cs)
    (let cs = (if (if c then cost_key l' \<le> cost_key r' else canonical l' \<le> canonical r') then [l', r'] else [r', l'])
     in boolean_node c (combined_estimate w c cs) cs)"
proof (cases c)
  case True
  have keys: "cost_key l \<noteq> cost_key r" "cost_key l' \<noteq> cost_key r'" using assms(3,4) by simp_all
  show ?thesis
    using assms(1,2) True ordered_two [of cost_key, OF keys(1)] ordered_two [of cost_key, OF keys(2)]
    by (auto simp: same_plan_def boolean_node_def Let_def intro: sim_and sim_and_swap)
next
  case False
  show ?thesis
    using assms(1,2) False ordered_two [of canonical, OF assms(3)] ordered_two [of canonical, OF assms(4)]
    by (auto simp: same_plan_def boolean_node_def Let_def intro: sim_or sim_or_swap)
qed

lemma normalize_two_same:
  assumes l: "same_plan v w l l'" and r: "same_plan v w r r'"
  shows "built (same_plan v w) (normalize_boolean v opts c [l, r] b) (normalize_boolean w opts c [l', r'] b)"
proof (cases "canonical l = canonical r")
  case True
  then show ?thesis using same_plan_canonical [OF l r] l by (simp add: normalize_two)
next
  case False
  then have ne: "canonical l' \<noteq> canonical r'" using same_plan_canonical [OF l r] by simp
  from built_make [where R = "same_plan v w", OF same_two [OF l r False ne, of c]] False ne show ?thesis
    by (simp add: normalize_two Let_def)
qed

subsection \<open>Leaves\<close>

definition same_keyed :: "view \<Rightarrow> view \<Rightarrow> string \<times> plan \<Rightarrow> string \<times> plan \<Rightarrow> bool" where
  "same_keyed v w x y \<longleftrightarrow> fst x = fst y \<and> fst x = canonical (snd x) \<and> same_leaf v w (snd x) (snd y)"

lemma same_keyed_fst: "list_all2 (same_keyed v w) xs ys \<Longrightarrow> map fst xs = map fst ys"
  by (auto simp: list_all2_conv_all_nth same_keyed_def intro!: nth_equalityI)

lemma keyed_same:
  "list_all2 (same_leaf v w) ps qs \<Longrightarrow> list_all2 (same_keyed v w) acc acc' \<Longrightarrow>
    list_all2 (same_keyed v w) (keyed ps acc) (keyed qs acc')"
proof (induction ps qs arbitrary: acc acc' rule: list_all2_induct)
  case (Cons p ps q qs)
  have "fst ` set acc = fst ` set acc'" using same_keyed_fst [OF Cons.prems] by (metis list.set_map)
  moreover have "same_keyed v w (canonical p, p) (canonical q, q)" using Cons.hyps(1) by (simp add: same_keyed_def same_leaf_def)
  then have "list_all2 (same_keyed v w) (acc @ [(canonical p, p)]) (acc' @ [(canonical q, q)])"
    using Cons.prems by (intro list_all2_appendI) simp_all
  ultimately show ?case using Cons.IH Cons.prems Cons.hyps(1) by (simp add: Let_def same_leaf_def)
qed simp

lemma keyed_distinct: "distinct (map fst acc) \<Longrightarrow> distinct (map fst (keyed ps acc))"
  by (induction ps arbitrary: acc) (auto simp: Let_def)

lemma insort_all2:
  "list_all2 R xs ys \<Longrightarrow> (\<And>x y. R x y \<Longrightarrow> key x = key y) \<Longrightarrow> R x y \<Longrightarrow> list_all2 R (insort_key key x xs) (insort_key key y ys)"
  by (induction xs ys rule: list_all2_induct) auto

lemma sort_all2:
  "list_all2 R xs ys \<Longrightarrow> (\<And>x y. R x y \<Longrightarrow> key x = key y) \<Longrightarrow> list_all2 R (sort_key key xs) (sort_key key ys)"
  by (induction xs ys rule: list_all2_induct) (auto intro: insort_all2)

lemma same_keyed_Or:
  assumes all: "list_all2 (same_keyed v w) xs ys" and ord: "sorted_wrt (<) (map fst xs)"
  shows "same_leaf v w (PlannedOr (combined_estimate v False (map snd xs)) (map snd xs))
    (PlannedOr (combined_estimate w False (map snd ys)) (map snd ys))"
proof -
  have leaf: "list_all2 (same_leaf v w) (map snd xs) (map snd ys)"
    using all by (auto simp: list_all2_conv_all_nth same_keyed_def)
  then have s: "list_all2 sim (map snd xs) (map snd ys)" and n: "list_all (normal v) (map snd xs)" "list_all (normal w) (map snd ys)"
      and c: "map canonical (map snd xs) = map canonical (map snd ys)"
    by (auto simp: list_all2_conv_all_nth same_leaf_def same_plan_def list_all_length intro!: nth_equalityI)
  have k: "map canonical (map snd xs) = map fst xs"
    using all by (induction xs ys rule: list_all2_induct) (auto simp: same_keyed_def)
  have o: "sorted_wrt (<) (map canonical (map snd xs))" "sorted_wrt (<) (map canonical (map snd ys))"
    using ord unfolding c [symmetric] k by simp_all
  have "same_plan v w (PlannedOr (combined_estimate v False (map snd xs)) (map snd xs))
      (PlannedOr (combined_estimate w False (map snd ys)) (map snd ys))"
    unfolding same_plan_def normal.simps using s n o by (blast intro: sim_or)
  moreover have "canonical (PlannedOr (combined_estimate v False (map snd xs)) (map snd xs)) =
      canonical (PlannedOr (combined_estimate w False (map snd ys)) (map snd ys))"
    unfolding canonical_Or using c by blast
  ultimately show ?thesis unfolding same_leaf_def by blast
qed

lemma normalize_or_same:
  assumes "list_all2 (same_leaf v w) ps qs"
  shows "built (same_leaf v w) (normalize_or v opts ps b) (normalize_or w opts qs b)"
proof -
  let ?ks = "keyed ps []" and ?ls = "keyed qs []"
  have all: "list_all2 (same_keyed v w) ?ks ?ls" by (rule keyed_same [OF assms]) simp
  then have len: "length ?ks = length ?ls" by (rule list_all2_lengthD)
  have srt: "list_all2 (same_keyed v w) (sort_key fst ?ks) (sort_key fst ?ls)"
    by (rule sort_all2 [OF all]) (simp add: same_keyed_def)
  have d: "distinct (map fst ?ks)" by (rule keyed_distinct) simp
  then have "ssorted_by fst (sort_key fst ?ks)" by (intro ssorted_by_sort_key) (simp_all add: distinct_map)
  then have "sorted_wrt (<) (map fst (sort_key fst ?ks))" by (simp add: ssorted_by_def)
  note node = same_keyed_Or [OF srt this]
  consider (none) "?ks = []" "?ls = []" | (single) x y where "?ks = [x]" "?ls = [y]" "same_keyed v w x y"
    | (many) "?ks \<noteq> []" "length ?ks \<noteq> 1"
  proof (cases ?ks)
    case (Cons x xs)
    with all obtain y ys where "?ls = y # ys" "same_keyed v w x y" "list_all2 (same_keyed v w) xs ys" by (auto simp: list_all2_Cons1)
    with Cons that show thesis by (cases xs) auto
  qed (use all in simp)
  then show ?thesis
  proof cases
    case none
    have "same_leaf v w (PlannedOr 0 []) (PlannedOr 0 [])" using same_keyed_Or [of v w "[]" "[]"] by (simp add: combined_estimate_def)
    with none show ?thesis
      by (simp add: normalize_or_def normalize_boolean_def boolean_node_def built_make del: keyed.simps)
  next
    case single
    then show ?thesis by (simp add: normalize_or_def normalize_boolean_def Let_def same_keyed_def)
  next
    case many
    then have "?ls \<noteq> []" "length ?ls \<noteq> 1" using len by auto
    with many built_make [where R = "same_leaf v w", OF node, of opts b] show ?thesis
      by (simp add: normalize_or_def normalize_boolean_def boolean_node_def Let_def)
  qed
qed

locale view_pair =
  fixes v w :: view
  assumes schema: "v_schema w = v_schema v" and live_count: "v_live_document_count w = v_live_document_count v"
begin

lemma leaf_term: "same_leaf v w (PlannedTerm (term_estimate v f t) f t boost) (PlannedTerm (term_estimate w f t) f t boost)"
  by (simp add: same_leaf_def same_plan_def sim_term)

lemma leaf_phrase: "same_leaf v w (PlannedPhrase (phrase_estimate v f ts) f ts boost) (PlannedPhrase (phrase_estimate w f ts) f ts boost)"
  by (simp add: same_leaf_def same_plan_def sim_phrase)

lemma searchable_same: "searchable_field w f = searchable_field v f"
  by (simp add: searchable_field_def schema)

lemma bound_same: "normalize_bound w fd f bound = normalize_bound v fd f bound"
  by (simp add: normalize_bound_def schema)

lemma term_children_same:
  "list_all2 (same_leaf v w) ps qs \<Longrightarrow>
    built (list_all2 (same_leaf v w)) (term_children v opts f boost toks seen ps b) (term_children w opts f boost toks seen qs b)"
proof (induction toks arbitrary: seen ps qs b)
  case (Cons tok toks)
  show ?case
  proof (cases "tok_term tok \<in> set seen")
    case False
    have "built (list_all2 (same_leaf v w))
        (case Planner.make opts (PlannedTerm (term_estimate v f (tok_term tok)) f (tok_term tok) boost) b of
           Inl e \<Rightarrow> Inl e | Inr (child, b') \<Rightarrow> term_children v opts f boost toks (tok_term tok # seen) (ps @ [child]) b')
        (case Planner.make opts (PlannedTerm (term_estimate w f (tok_term tok)) f (tok_term tok) boost) b of
           Inl e \<Rightarrow> Inl e | Inr (child, b') \<Rightarrow> term_children w opts f boost toks (tok_term tok # seen) (qs @ [child]) b')"
      by (rule built_bind [OF built_make [where R = "same_leaf v w", OF leaf_term]])
        (rule Cons.IH, rule list_all2_appendI, rule Cons.prems, simp)
    with False show ?thesis by (simp add: term_estimate_def)
  qed (use Cons in simp)
qed simp

lemma term_for_field_same: "built (same_leaf v w) (term_for_field v opts f s boost b) (term_for_field w opts f s boost b)"
proof -
  have "built (same_leaf v w)
      (case term_children v opts f x toks [] [] b1 of Inl e \<Rightarrow> Inl e | Inr (cs, b2) \<Rightarrow> normalize_or v opts cs b2)
      (case term_children w opts f x toks [] [] b1 of Inl e \<Rightarrow> Inl e | Inr (cs, b2) \<Rightarrow> normalize_or w opts cs b2)" for x toks b1
    by (rule built_bind [OF term_children_same]) (simp, rule normalize_or_same)
  then show ?thesis unfolding term_for_field_def searchable_same by (simp split: sum.split prod.split)
qed

lemma phrase_for_field_same: "built (same_leaf v w) (phrase_for_field v opts f s boost b) (phrase_for_field w opts f s boost b)"
proof -
  have "built (same_leaf v w) (Planner.make opts (PlannedPhrase (phrase_estimate v f ts) f ts x) b1)
      (Planner.make opts (PlannedPhrase (phrase_estimate w f ts) f ts x) b1)" for ts x b1
    by (rule built_make) (rule leaf_phrase)
  then show ?thesis unfolding phrase_for_field_def searchable_same
    by (simp add: phrase_estimate_def term_estimate_def Let_def split: sum.split prod.split)
qed

lemma default_children_same:
  assumes "\<And>f x b. built (same_leaf v w) (g f x b) (h f x b)"
  shows "list_all2 (same_leaf v w) ps qs \<Longrightarrow>
    built (list_all2 (same_leaf v w)) (default_children g boost sfs ps b) (default_children h boost sfs qs b)"
proof (induction sfs arbitrary: ps qs b)
  case (Cons sf sfs)
  show ?case unfolding default_children.simps
    by (rule built_bind [OF assms]) (rule Cons.IH, rule list_all2_appendI, rule Cons.prems, simp)
qed simp

lemma build_leaf_same:
  assumes "\<And>f x b. built (same_leaf v w) (g f x b) (h f x b)"
  shows "built (same_plan v w) (build_leaf v opts g field boost b) (build_leaf w opts h field boost b)"
proof -
  have "built (same_leaf v w) (build_leaf v opts g field boost b) (build_leaf w opts h field boost b)"
  proof (cases field)
    case None
    then show ?thesis unfolding build_leaf_def
      by (simp, intro built_bind [OF default_children_same [OF assms]]) (simp, rule normalize_or_same)
  qed (simp add: build_leaf_def assms)
  then show ?thesis by (rule built_mono) (rule same_leaf_plan)
qed

lemma same_Not: "same_plan v w p q \<Longrightarrow> same_plan v w (PlannedNot (v_live_document_count v) p) (PlannedNot (v_live_document_count w) q)"
  by (simp add: same_plan_def sim_not)

lemma build_range_same: "built (same_plan v w) (build_range v opts f l u il iu b) (build_range w opts f l u il iu b)"
proof -
  have "same_plan v w (PlannedRange (v_live_document_count v) f l u il iu) (PlannedRange (v_live_document_count w) f l u il iu)" for l u
    by (simp add: same_plan_def sim_range)
  then show ?thesis unfolding build_range_def schema bound_same
    by (simp add: built_make split: option.split sum.split)
qed

lemma build_same: "built (same_plan v w) (build v opts q field boost depth b) (build w opts q field boost depth b)"
proof (induction q arbitrary: field boost depth b)
  case (AndQuery sp l r)
  show ?case
    by (subst (1 2) build.simps) (simp add: Let_def, intro impI built_bind [OF AndQuery.IH(1)] built_bind [OF AndQuery.IH(2)] normalize_two_same)
next
  case (OrQuery sp l r)
  show ?case
    by (subst (1 2) build.simps) (simp add: Let_def, intro impI built_bind [OF OrQuery.IH(1)] built_bind [OF OrQuery.IH(2)] normalize_two_same [of v w _ _ _ _ opts False, folded normalize_or_def])
next
  case (NotQuery sp p)
  show ?case
    by (subst (1 2) build.simps) (simp add: Let_def, intro impI built_bind [OF NotQuery.IH] built_make same_Not)
next
  case (TermQuery sp s)
  show ?case by (subst (1 2) build.simps) (simp add: Let_def build_leaf_same [OF term_for_field_same])
next
  case (PhraseQuery sp s)
  show ?case by (subst (1 2) build.simps) (simp add: Let_def build_leaf_same [OF phrase_for_field_same])
next
  case (FieldQuery sp f p)
  show ?case by (subst (1 2) build.simps) (simp add: Let_def schema FieldQuery.IH)
next
  case (BoostQuery sp p x)
  show ?case by (subst (1 2) build.simps) (simp add: Let_def BoostQuery.IH)
next
  case (RangeFilter sp f l u il iu)
  show ?case by (subst (1 2) build.simps) (simp add: Let_def build_range_same)
next
  case (MatchAllQuery sp)
  have "same_plan v w (PlannedMatchAll (v_live_document_count v)) (PlannedMatchAll (v_live_document_count w))"
    by (simp add: same_plan_def sim_all)
  then show ?case by (subst (1 2) build.simps) (simp add: Let_def built_make)
qed

text \<open>The planner fails alike on both views, or its plans are similar.\<close>

lemma plan_query_same: "rel_sum (=) sim (plan_query v q opts) (plan_query w q opts)"
proof -
  have "rel_sum (=) sim (case build v opts q None fp_one 0 b of Inl e \<Rightarrow> Inl e | Inr (p, _) \<Rightarrow> Inr p)
      (case build w opts q None fp_one 0 b of Inl e \<Rightarrow> Inl e | Inr (p, _) \<Rightarrow> Inr p)" for b
    using build_same [of opts q None fp_one 0 b]
    by (cases "build v opts q None fp_one 0 b"; cases "build w opts q None fp_one 0 b") (auto simp: same_plan_def)
  then show ?thesis by (simp add: plan_query_def)
qed

end

end
