(* ===== verification/Cluster_Properties.thy ===== *)
theory Cluster_Properties
  imports Cluster Plan_Similarity Search_Properties
begin

text \<open>
  Properties of the local cluster. The shards partition the documents of the oracle index after every run of
  mutations, whichever of them fail; a sharded search gives what a search of the oracle gives.
\<close>

section \<open>Compact indexes\<close>

lemma put_compact:
  assumes "index_inv ix" and "compact ix" and "index_put ix d = Inr ix'"
  shows "compact ix'"
proof -
  from assms(3) obtain i p u where ix': "ix' = publish ix i d p" by (rule index_put_Inr)
  have "om_ok (ix_documents ix)" using index_invD(1) [OF assms(1)] by (simp add: documents_inv_def)
  from om_assign_length [OF this] show ?thesis
    using assms(2) unfolding ix' by (simp add: publish_def compact_def Let_def case_prod_beta)
qed

lemma reachable_compact: "index_reachable schema (- 1) ix \<Longrightarrow> compact ix"
proof (induction rule: index_reachable.induct)
  case (put ix d ix')
  then show ?case using put_compact [OF reachable_inv] by blast
next
  case (erase ix did version ix')
  then show ?case using put_compact [OF reachable_inv] index_erase_put by blast
qed (rule compact_new)

lemma dom_visible: "dom (visible ix) = fst ` set (ix_documents ix)"
  by (auto simp: visible_def index_document_def dom_def dom_map_of_conv_image_fst [symmetric])

lemma documents_le:
  assumes "index_inv l" and "index_inv g" and "visible l \<subseteq>\<^sub>m visible g"
  shows "length (ix_documents l) \<le> length (ix_documents g)"
proof -
  have n: "length (ix_documents ix) = card (dom (visible ix))" if "index_inv ix" for ix
  proof -
    have "distinct (map fst (ix_documents ix))"
      by (rule om_ok_distinct) (use index_invD(1) [OF that] in \<open>simp add: documents_inv_def\<close>)
    then show ?thesis unfolding dom_visible by (metis distinct_card length_map set_map)
  qed
  have "dom (visible l) \<subseteq> dom (visible g)" using map_le_implies_dom_le [OF assms(3)] .
  then show ?thesis using n assms(1,2) dom_visible [of g] by (simp add: card_mono)
qed

text \<open>A mutation that the oracle accepts is accepted by an index that holds part of its documents.\<close>

lemma put_part:
  assumes l: "index_reachable schema (- 1) l" and g: "index_reachable schema (- 1) g"
    and part: "visible l \<subseteq>\<^sub>m visible g" and d: "visible l (doc_id d) = visible g (doc_id d)"
    and put: "index_put g d = Inr g'"
  shows "\<exists>l'. index_put l d = Inr l'"
proof -
  have sch: "ix_schema l = ix_schema g" using index_reachable_schema l g by metis
  have inv: "index_inv l" "index_inv g" using reachable_inv l g by blast+
  obtain i p u where v: "validate_document (ix_schema g) d = Inr u" "allocate g (doc_id d) = Inr i" "prepare (ix_schema g) d = Inr p"
      "doc_id d \<noteq> []" "\<not> stale g (doc_id d) (doc_version d)" using put by (rule index_put_Inr)
  have st: "\<not> stale l (doc_id d) (doc_version d)"
    using v(5) d by (auto simp: stale_def visible_def index_document_def split: option.splits)
  have "\<exists>j. allocate l (doc_id d) = Inr j"
  proof (cases "map_of (ix_documents l) (doc_id d)")
    case None
    then have "map_of (ix_documents g) (doc_id d) = None" using d by (simp add: visible_def index_document_def)
    then have "ix_next_internal_id g \<noteq> 0" using v(2) by (auto simp: allocate_def split: if_splits)
    then have ne: "of_nat (Suc (length (ix_documents g))) \<noteq> (0 :: u32)" using reachable_compact [OF g] by (simp add: compact_def)
    have lt: "length (ix_documents g) < 2 ^ 32" by (rule length_documents [OF inv(2)])
    have "of_nat (2 ^ 32) = (0 :: u32)" by simp
    then have "Suc (length (ix_documents g)) \<noteq> 2 ^ 32" using ne by metis
    then have "Suc (length (ix_documents l)) < 2 ^ 32" using documents_le [OF inv part] lt by linarith
    then have "unat (of_nat (Suc (length (ix_documents l))) :: u32) = Suc (length (ix_documents l))" by (intro unat_of_nat_small) simp
    then have "ix_next_internal_id l \<noteq> 0" using reachable_compact [OF l] by (auto simp: compact_def)
    then show ?thesis using None reachable_compact [OF l] by (simp add: allocate_def compact_def)
  qed (simp add: allocate_def)
  then show ?thesis using v st by (auto simp: index_put_def sch)
qed

section \<open>Reachable clusters\<close>

inductive cluster_reachable :: "schema \<Rightarrow> nat \<Rightarrow> cluster \<Rightarrow> bool" for schema n where
  create: "cluster_create n schema = Inr c \<Longrightarrow> cluster_reachable schema n c"
| put: "cluster_reachable schema n c \<Longrightarrow> document_ok d \<Longrightarrow> cluster_reachable schema n (snd (cluster_put d c))"
| erase: "cluster_reachable schema n c \<Longrightarrow> cluster_reachable schema n (snd (cluster_erase did version c))"

definition partitioned :: "nat \<Rightarrow> cluster \<Rightarrow> bool" where
  "partitioned n c \<longleftrightarrow> length (lc_shards c) = n \<and>
     (\<forall>i < n. visible (lc_shards c ! i) = visible (lc_global c) |` {did. route n did = i})"

definition cluster_inv :: "schema \<Rightarrow> nat \<Rightarrow> cluster \<Rightarrow> bool" where
  "cluster_inv schema n c \<longleftrightarrow> 0 < n \<and> partitioned n c \<and> index_reachable schema (- 1) (lc_global c) \<and>
     (\<forall>i < n. index_reachable schema (- 1) (lc_shards c ! i))"

lemma route_less: "0 < n \<Longrightarrow> route n did < n"
  by (simp add: route_def Let_def)

lemma cluster_inv_shard:
  assumes "cluster_inv schema n c" and "i < n"
  shows "index_reachable schema (- 1) (lc_shards c ! i)" and "visible (lc_shards c ! i) \<subseteq>\<^sub>m visible (lc_global c)"
    and "route n did = i \<Longrightarrow> visible (lc_shards c ! i) did = visible (lc_global c) did"
  using assms by (auto simp: cluster_inv_def partitioned_def map_le_def dom_def restrict_map_def)

lemma cluster_put_cases:
  assumes inv: "cluster_inv schema n c" and ok: "document_ok d"
  obtains (failed) f where "index_put (lc_global c) d = Inl f" "cluster_put d c = (Inl (mutation_fault f), c)"
  | (accepted) g l where "index_put (lc_global c) d = Inr g" "index_put (lc_shards c ! route n (doc_id d)) d = Inr l"
      "cluster_put d c = (Inr (), c\<lparr>lc_global := g, lc_shards := (lc_shards c)[route n (doc_id d) := l]\<rparr>)"
proof (cases "index_put (lc_global c) d")
  case (Inl f)
  then show thesis by (intro failed) (simp_all add: cluster_put_def Let_def)
next
  case (Inr g)
  have n: "0 < n" "length (lc_shards c) = n" using inv by (simp_all add: cluster_inv_def partitioned_def)
  note sh = cluster_inv_shard [OF inv route_less [OF n(1)], of "doc_id d"]
  obtain l where "index_put (lc_shards c ! route n (doc_id d)) d = Inr l"
    using put_part [OF sh(1) _ sh(2) _ Inr] sh(3) inv by (auto simp: cluster_inv_def)
  with Inr n show thesis by (intro accepted) (simp_all add: cluster_put_def cluster_route_def Let_def)
qed

lemma cluster_inv_put:
  assumes inv: "cluster_inv schema n c" and ok: "document_ok d"
  shows "cluster_inv schema n (snd (cluster_put d c))"
  using assms
proof (cases rule: cluster_put_cases)
  case (accepted g l)
  have n: "0 < n" "length (lc_shards c) = n" and g: "index_reachable schema (- 1) (lc_global c)"
    using inv by (simp_all add: cluster_inv_def partitioned_def)
  let ?i = "route n (doc_id d)"
  have i: "?i < n" by (rule route_less [OF n(1)])
  note sh = cluster_inv_shard [OF inv]
  have vis: "visible g = (visible (lc_global c))(doc_id d \<mapsto> d)" "visible l = (visible (lc_shards c ! ?i))(doc_id d \<mapsto> d)"
    using put_visible [OF reachable_inv [OF g] ok accepted(1)] put_visible [OF reachable_inv [OF sh(1) [OF i]] ok accepted(2)] by simp_all
  have "visible ((lc_shards c)[?i := l] ! j) = visible g |` {did. route n did = j}" if j: "j < n" for j
    using inv j n(2) vis by (cases "j = ?i") (auto simp: cluster_inv_def partitioned_def restrict_map_def fun_eq_iff)
  moreover have "index_reachable schema (- 1) ((lc_shards c)[?i := l] ! j)" if j: "j < n" for j
    using index_reachable.put [OF sh(1) [OF i] ok accepted(2)] sh(1) [OF j] j n(2) by (cases "j = ?i") simp_all
  ultimately show ?thesis
    using accepted(3) n index_reachable.put [OF g ok accepted(1)] by (simp add: cluster_inv_def partitioned_def)
qed (use inv in simp)

lemma document_ok_tombstone: "document_ok (tombstone did version)"
  by (simp add: document_ok_def tombstone_def)

lemma cluster_inv_reachable: "cluster_reachable schema n c \<Longrightarrow> cluster_inv schema n c"
proof (induction rule: cluster_reachable.induct)
  case (create c)
  have "visible (index_new schema (- 1)) = Map.empty"
    by (simp add: visible_def index_document_def index_new_def fun_eq_iff)
  with create show ?case
    by (auto simp: cluster_create_def cluster_inv_def partitioned_def index_reachable.start split: if_splits)
next
  case (put c d)
  from cluster_inv_put [OF put.IH put.hyps(2)] show ?case .
next
  case (erase c did version)
  from cluster_inv_put [OF erase.IH document_ok_tombstone] show ?case by (simp add: cluster_erase_def)
qed

section \<open>The view of a shard provides a view\<close>

interpretation shard_pair: view_pair "shard_view l g" g for l g
  by unfold_locales (simp_all add: shard_view_def)

definition shard_of :: "index \<times> index \<Rightarrow> view" where
  "shard_of = (\<lambda>(l, g). shard_view (memory_view l) (memory_view g))"

definition shard_inv :: "index \<times> index \<Rightarrow> bool" where
  "shard_inv = (\<lambda>(l, g). engine_inv l \<and> engine_inv g \<and> ix_schema l = ix_schema g \<and> visible l \<subseteq>\<^sub>m visible g)"

lemma shard_of_simps [simp]:
  "v_document (shard_of (l, g)) = v_document (memory_view l)"
  "v_document_internal (shard_of (l, g)) = v_document_internal (memory_view l)"
  "v_internal_id (shard_of (l, g)) = v_internal_id (memory_view l)"
  "v_external_id (shard_of (l, g)) = v_external_id (memory_view l)"
  "v_live_document_ids (shard_of (l, g)) = v_live_document_ids (memory_view l)"
  "v_field_statistics (shard_of (l, g)) = v_field_statistics (memory_view g)"
  "v_schema (shard_of (l, g)) = ix_schema g"
  by (simp_all add: shard_of_def shard_view_def)

lemma shard_live [simp]: "live (shard_of (l, g)) = live (memory_view l)"
  by (simp add: live_def fun_eq_iff)

lemma shard_lookup_Some:
  "v_lookup (shard_of (l, g)) f t = Some e \<longleftrightarrow>
    (\<exists>e'. index_lookup l f t = Some e' \<and> e = e'\<lparr>te_df := (case index_lookup g f t of None \<Rightarrow> 0 | Some x \<Rightarrow> te_df x)\<rparr>)"
  by (auto simp: shard_of_def shard_view_def shard_lookup_def split: option.splits)

lemma live_visible:
  assumes "index_inv ix"
  shows "(\<exists>i r. live (memory_view ix) i r \<and> dr_document r = d) \<longleftrightarrow> visible ix (doc_id d) = Some d \<and> \<not> doc_deleted d"
proof -
  have "(\<exists>i r. live (memory_view ix) i r \<and> dr_document r = d) \<longleftrightarrow>
      doc_id d \<in> {doc_id (dr_document r) | i r. live (memory_view ix) i r \<and> dr_document r = d}" by auto
  also have "\<dots> \<longleftrightarrow> (\<exists>r. index_document ix (doc_id d) = Some r \<and> \<not> doc_deleted (dr_document r) \<and> dr_document r = d)"
    unfolding live_memory [OF assms, of "\<lambda>x. x = d"] by simp
  also have "\<dots> \<longleftrightarrow> visible ix (doc_id d) = Some d \<and> \<not> doc_deleted d" by (auto simp: visible_def)
  finally show ?thesis .
qed

lemma shard_live_global:
  assumes "shard_inv (l, g)" and "live (memory_view l) i r"
  shows "\<exists>j r'. live (memory_view g) j r' \<and> dr_document r' = dr_document r"
proof -
  have inv: "index_inv l" "index_inv g" and le: "visible l \<subseteq>\<^sub>m visible g" using assms(1) by (simp_all add: shard_inv_def engine_inv_def)
  have v: "visible l (doc_id (dr_document r)) = Some (dr_document r)" "\<not> doc_deleted (dr_document r)"
    using live_visible [OF inv(1), of "dr_document r"] assms(2) by blast+
  then have "visible g (doc_id (dr_document r)) = Some (dr_document r)" using le by (force simp: map_le_def dom_def)
  with v live_visible [OF inv(2)] show ?thesis by blast
qed

lemma shard_positions_global:
  assumes inv: "shard_inv (l, g)" and r: "live (memory_view l) i r" and ne: "term_positions (ix_schema g) (dr_document r) f t \<noteq> []"
  shows "\<exists>e. index_lookup g f t = Some e"
proof -
  obtain j r' where j: "live (memory_view g) j r'" "dr_document r' = dr_document r" using shard_live_global [OF inv r] by blast
  have "engine_inv g" using inv by (simp add: shard_inv_def)
  from memory.posting_iff [OF this, of f t j "term_positions (ix_schema g) (dr_document r) f t"] j ne show ?thesis by auto
qed

lemma shard_lookup_global:
  assumes inv: "shard_inv (l, g)" and e: "index_lookup l f t = Some e"
  shows "\<exists>x. index_lookup g f t = Some x"
proof -
  have l: "engine_inv l" "index_inv l" and sch: "ix_schema l = ix_schema g" using inv by (simp_all add: shard_inv_def engine_inv_def)
  obtain p where p: "p \<in> set (te_postings e)" using lookup_postings [OF l(2) e] by (meson last_in_set)
  from memory.posting_iff [OF l(1), of f t "p_doc p" "p_positions p"] e p obtain r where
    "live (memory_view l) (p_doc p) r" "term_positions (ix_schema g) (dr_document r) f t \<noteq> []" by (auto simp: sch)
  with shard_positions_global [OF inv] show ?thesis by blast
qed

interpretation shard: scoring_view shard_of shard_inv
proof (unfold_locales, goal_cases)
  case (1 s)
  then show ?case using memory.live_ids_sorted by (cases s) (simp add: shard_inv_def)
next
  case (2 s i)
  then show ?case using memory.live_ids_iff by (cases s) (simp add: shard_inv_def)
next
  case (3 s i r)
  then show ?case using memory.external_live by (cases s) (simp add: shard_inv_def)
next
  case (4 s i r j r')
  then show ?case using memory.external_inj by (cases s) (simp add: shard_inv_def, blast)
next
  case (5 s i r)
  then show ?case using memory.internal_live by (cases s) (simp add: shard_inv_def)
next
  case (6 s did i)
  then show ?case using memory.internal_external by (cases s) (simp add: shard_inv_def)
next
  case (7 s f t e)
  then show ?case using memory.postings_sorted by (cases s) (auto simp: shard_inv_def shard_lookup_Some)
next
  case (8 s f t i ps)
  obtain l g where s: "s = (l, g)" by fastforce
  have "(\<exists>e p. v_lookup (shard_of s) f t = Some e \<and> p \<in> set (te_postings e) \<and> p_doc p = i \<and> p_positions p = ps) \<longleftrightarrow>
      (\<exists>e p. v_lookup (memory_view l) f t = Some e \<and> p \<in> set (te_postings e) \<and> p_doc p = i \<and> p_positions p = ps)"
    by (auto simp: s shard_lookup_Some)
  with 8 memory.posting_iff [of l f t i ps] show ?case by (simp add: s shard_inv_def)
next
  case (9 s f t e p)
  then show ?case using memory.positions_sorted by (cases s) (auto simp: shard_inv_def shard_lookup_Some)
next
  case (10 s f t e p r)
  obtain l g where s: "s = (l, g)" by fastforce
  from 10 obtain e' where e': "index_lookup l f t = Some e'" "te_postings e = te_postings e'" "engine_inv l" "index_document_internal l (p_doc p) = Some r"
    by (auto simp: s shard_inv_def shard_lookup_Some)
  from memory.posting_lengths [OF e'(3), of f t e' p r] e' 10(3) show ?case by simp
next
  case (11 s f t e)
  obtain l g where s: "s = (l, g)" by fastforce
  from 11 obtain e' where e': "index_lookup l f t = Some e'" "e = e'\<lparr>te_df := (case index_lookup g f t of None \<Rightarrow> 0 | Some x \<Rightarrow> te_df x)\<rparr>"
    by (auto simp: s shard_lookup_Some)
  obtain x where x: "index_lookup g f t = Some x" using shard_lookup_global e'(1) 11(1) s by blast
  with memory.frequencies [of g f t x] 11(1) e'(2) show ?case by (simp add: s shard_inv_def)
next
  case (12 s f t e p)
  then show ?case using memory.term_frequency by (cases s) (auto simp: shard_inv_def shard_lookup_Some)
next
  case (13 s i r f)
  obtain l g where s: "s = (l, g)" by fastforce
  from 13 memory.field_length [of l i r f] show ?case by (simp add: s shard_inv_def)
qed

section \<open>Scores of a shard\<close>

text \<open>A score depends only on the frequencies of the terms that occur in the document.\<close>

lemma plan_score_cong:
  assumes "sg_schema g' = sg_schema g" and "sg_statistics g' = sg_statistics g"
    and freq: "\<And>f t. term_positions (sg_schema g) d f t \<noteq> [] \<Longrightarrow> sg_frequency g' f t = sg_frequency g f t"
  shows "plan_matches (sg_schema g) d p \<Longrightarrow> plan_score g' sc d p = plan_score g sc d p"
proof (induction p)
  case (PlannedTerm n f t b)
  then show ?case using freq [of f t] by (simp add: term_score_def assms(1,2))
next
  case (PlannedPhrase n f ts b)
  have "term_score g' sc d f (tok_term tok) b = term_score g sc d f (tok_term tok) b" if "tok \<in> set ts" for tok
    using phrase_occurs_positions [of "term_positions (sg_schema g) d f" ts tok] PlannedPhrase that freq [of f "tok_term tok"]
    by (simp add: term_score_def assms(1,2))
  then have "map (\<lambda>tok. term_score g' sc d f (tok_term tok) b) ts = map (\<lambda>tok. term_score g sc d f (tok_term tok) b) ts"
    by (intro map_cong) simp_all
  then show ?case by (simp only: plan_score.simps)
next
  case (PlannedAnd n ps)
  then have "map (plan_score g' sc d) ps = map (plan_score g sc d) ps" by (intro map_cong) (simp_all add: list_all_iff)
  then show ?case by (simp only: plan_score.simps)
next
  case (PlannedOr n ps)
  have "map (\<lambda>p. if plan_matches (sg_schema g) d p then [plan_score g' sc d p] else []) ps =
      map (\<lambda>p. if plan_matches (sg_schema g) d p then [plan_score g sc d p] else []) ps"
    using PlannedOr.IH by (intro map_cong) simp_all
  then show ?case by (simp only: plan_score.simps assms(1))
qed simp_all

lemma shard_score:
  assumes inv: "shard_inv (l, g)" and r: "live (memory_view l) i r" and m: "plan_matches (ix_schema g) (dr_document r) p"
  shows "plan_score (scoring_of (shard_of (l, g))) sc (dr_document r) p = plan_score (scoring_of (memory_view g)) sc (dr_document r) p"
proof (rule plan_score_cong)
  fix f t
  assume ne: "term_positions (sg_schema (scoring_of (memory_view g))) (dr_document r) f t \<noteq> []"
  have l: "engine_inv l" and sch: "ix_schema l = ix_schema g" using inv by (simp_all add: shard_inv_def)
  from memory.posting_iff [OF l, of f t i "term_positions (ix_schema g) (dr_document r) f t"] r ne obtain e where "index_lookup l f t = Some e"
    by (auto simp: sch)
  then show "sg_frequency (scoring_of (shard_of (l, g))) f t = sg_frequency (scoring_of (memory_view g)) f t"
    by (auto simp: scoring_of_def shard_of_def shard_view_def shard_lookup_def)
qed (use m in \<open>simp_all add: scoring_of_def\<close>)

text \<open>The documents of an index that a plan matches, with their scores.\<close>

definition scored_documents :: "index \<Rightarrow> (document \<Rightarrow> bool) \<Rightarrow> (document \<Rightarrow> double) \<Rightarrow> scored_document set" where
  "scored_documents ix P S = {\<lparr>sd_id = doc_id d, sd_score = S d\<rparr> | d. visible ix (doc_id d) = Some d \<and> \<not> doc_deleted d \<and> P d}"

lemma scored_live:
  assumes "index_inv ix"
  shows "{\<lparr>sd_id = doc_id (dr_document r), sd_score = S (dr_document r)\<rparr> | i r. live (memory_view ix) i r \<and> P (dr_document r)} =
    scored_documents ix P S" (is "?L = _")
proof -
  have "?L = {\<lparr>sd_id = doc_id d, sd_score = S d\<rparr> | d. (\<exists>i r. live (memory_view ix) i r \<and> dr_document r = d) \<and> P d}" by blast
  then show ?thesis unfolding live_visible [OF assms] scored_documents_def by simp
qed

text \<open>What a search over documents with these scores returns.\<close>

definition outcome :: "nat \<Rightarrow> scored_document list \<Rightarrow> (execution_error, search_result) result" where
  "outcome k xs =
     (if \<forall>x \<in> set xs. isfinite (sd_score x) then Inr \<lparr>sr_hits = take k (sort_key rank xs), sr_total_hits = length xs\<rparr>
      else Inl (ex_error Ex_ranking_error ''non-finite score''))"

lemma memory_outcome:
  assumes inv: "engine_inv g" and ok: "plan_scorable (ix_schema g) p" and params: "bm25_create parameters = Inr params"
  shows "\<exists>xs. distinct (map sd_id xs) \<and>
    set xs = scored_documents g (\<lambda>d. plan_matches (ix_schema g) d p)
      (\<lambda>d. plan_score (scoring_of (memory_view g)) \<lparr>sc_log1p = log1p, sc_parameters = params\<rparr> d p) \<and>
    search_plan (memory_view g) log1p parameters p k = outcome k xs"
proof -
  have ix: "index_inv g" using inv by (simp add: engine_inv_def)
  from memory.search_plan_outcome [OF inv params, of p log1p k] ok show ?thesis
    unfolding outcome_def scored_live [OF ix, symmetric] by simp
qed

lemma shard_outcome:
  assumes inv: "shard_inv (l, g)" and ok: "plan_scorable (ix_schema g) p" and params: "bm25_create parameters = Inr params"
  shows "\<exists>xs. distinct (map sd_id xs) \<and>
    set xs = scored_documents l (\<lambda>d. plan_matches (ix_schema g) d p)
      (\<lambda>d. plan_score (scoring_of (memory_view g)) \<lparr>sc_log1p = log1p, sc_parameters = params\<rparr> d p) \<and>
    search_plan (shard_of (l, g)) log1p parameters p k = outcome k xs"
proof -
  let ?sc = "\<lparr>sc_log1p = log1p, sc_parameters = params\<rparr>"
  have ix: "index_inv l" using inv by (simp add: shard_inv_def engine_inv_def)
  have "{\<lparr>sd_id = doc_id (dr_document r), sd_score = plan_score (scoring_of (shard_of (l, g))) ?sc (dr_document r) p\<rparr> | i r.
      live (memory_view l) i r \<and> plan_matches (ix_schema g) (dr_document r) p} =
    {\<lparr>sd_id = doc_id (dr_document r), sd_score = plan_score (scoring_of (memory_view g)) ?sc (dr_document r) p\<rparr> | i r.
      live (memory_view l) i r \<and> plan_matches (ix_schema g) (dr_document r) p}"
    by (intro Collect_cong ex_cong1) (auto simp: shard_score [OF inv])
  with shard.search_plan_outcome [OF inv params, of p log1p k] ok show ?thesis
    unfolding outcome_def scored_live [OF ix, symmetric] by simp
qed

lemma sim_scorable: "sim p q \<Longrightarrow> plan_scorable schema p = plan_scorable schema q"
proof (induction rule: sim.induct)
  case (sim_and ps qs n m)
  then show ?case by (auto simp: list_all_length list_all2_conv_all_nth)
next
  case (sim_or ps qs n m)
  then show ?case by (auto simp: list_all_length list_all2_conv_all_nth)
qed auto

section \<open>Merging the best of parts\<close>

lemma take_insort:
  assumes "take k (xs :: 'a list) = take k ys"
  shows "take k (insort_key f x xs) = take k (insort_key f x ys)"
  using assms
proof (induction k arbitrary: xs ys)
  case (Suc k)
  show ?case
  proof (cases xs)
    case Nil
    with Suc.prems show ?thesis by (cases ys) simp_all
  next
    case (Cons a as)
    with Suc.prems obtain bs where ys: "ys = a # bs" "take k as = take k bs" by (cases ys) auto
    have front: "take k (a # as) = take k (a # bs)"
    proof (cases k)
      case (Suc m)
      with arg_cong [OF ys(2), of "take m"] show ?thesis by simp
    qed simp
    show ?thesis
      by (cases "f x \<le> f a") (simp_all only: Cons ys(1) insort_key.simps if_True if_False take_Suc_Cons front Suc.IH [OF ys(2)])
  qed
qed simp

lemma take_sort_append:
  "take k (sort_key f xs) = take k (sort_key f ys) \<Longrightarrow> take k (sort_key f (zs @ xs)) = take k (sort_key f (zs @ ys))"
proof (induction zs)
  case (Cons z zs)
  from take_insort [OF Cons.IH [OF Cons.prems], of f z] show ?case by simp
qed simp

lemma sort_rank_eq:
  assumes "distinct (map sd_id xs)" and "distinct (map sd_id ys)" and "set xs = set ys"
  shows "sort_key rank xs = sort_key rank ys"
  using assms rank_inj [OF assms(1)] rank_inj [OF assms(2)]
  by (intro ssorted_by_eqI [of rank]) (simp_all add: ssorted_by_sort_key distinct_map)

abbreviation best :: "nat \<Rightarrow> scored_document list \<Rightarrow> scored_document list" where
  "best k xs \<equiv> take k (sort_key rank xs)"

lemma best_subset: "set (best k xs) \<subseteq> set xs"
  using set_take_subset [of k "sort_key rank xs"] by simp

lemma best_distinct:
  assumes "distinct (map sd_id xs)"
  shows "distinct (map sd_id (best k xs))"
proof -
  have "mset (map sd_id (sort_key rank xs)) = mset (map sd_id xs)" by simp
  from mset_eq_imp_distinct_iff [OF this] assms show ?thesis by (simp add: take_map [symmetric])
qed

lemma best_best: "best k (best k xs) = best k xs"
proof -
  have "sorted (map rank (best k xs))" by (simp add: take_map [symmetric] sorted_wrt_take)
  then show ?thesis by (simp add: sorted_sort_id sort_key_id_if_sorted)
qed

lemma best_concat:
  "distinct (map sd_id (concat xss)) \<Longrightarrow> best k (concat (map (best k) xss)) = best k (concat xss)"
proof (induction xss)
  case (Cons xs xss)
  have d: "distinct (map sd_id xs)" "distinct (map sd_id (concat xss))" "sd_id ` set xs \<inter> sd_id ` set (concat xss) = {}"
    using Cons.prems by simp_all
  have swap: "sort_key rank (ys @ concat xss) = sort_key rank (concat xss @ ys)"
    if "distinct (map sd_id ys)" "set ys \<subseteq> set xs" for ys
    using that d by (intro sort_rank_eq) auto
  have "best k (best k xs @ concat (map (best k) xss)) = best k (best k xs @ concat xss)"
    by (rule take_sort_append [OF Cons.IH [OF d(2)]])
  also have "\<dots> = best k (concat xss @ best k xs)" using swap [OF best_distinct [OF d(1)] best_subset] by simp
  also have "\<dots> = best k (concat xss @ xs)" by (rule take_sort_append [OF best_best])
  also have "\<dots> = best k (xs @ concat xss)" using swap [OF d(1) order_refl] by simp
  finally show ?case by simp
qed simp

lemma merge_outcomes:
  "n + length (concat xss) < 2 ^ 64 \<Longrightarrow> fold_result merge_result (map (outcome k) xss) (c, n) =
    (if \<forall>x \<in> set (concat xss). isfinite (sd_score x)
     then Inr (collect_all (concat (map (best k) xss)) c, n + length (concat xss))
     else Inl (cl_fail Cl_execution_error ''non-finite score''))"
proof (induction xss arbitrary: c n)
  case (Cons xs xss)
  show ?case
  proof (cases "\<forall>x \<in> set xs. isfinite (sd_score x)")
    case True
    have "merge_result (outcome k xs) (c, n) = Inr (collect_all (best k xs) c, n + length xs)"
      using True Cons.prems by (simp add: outcome_def merge_result_def collect_all_def)
    moreover have "collect_all (concat (map (best k) xss)) (collect_all (best k xs) c) = collect_all (concat (map (best k) (xs # xss))) c"
      by (simp add: collect_all_def)
    ultimately show ?thesis using Cons.IH [of "n + length xs"] Cons.prems True by (simp add: ac_simps) blast
  qed (auto simp: outcome_def merge_result_def ex_error_def)
qed (simp add: collect_all_def)

lemma distinct_routed:
  "(\<And>i. i < n \<Longrightarrow> distinct (map sd_id (X i))) \<Longrightarrow> (\<And>i x. i < n \<Longrightarrow> x \<in> set (X i) \<Longrightarrow> r (sd_id x) = i) \<Longrightarrow>
    distinct (map sd_id (concat (map X [0..<n])))"
proof (induction n)
  case (Suc n)
  have "distinct (map sd_id (concat (map X [0..<n])))" using Suc.prems by (intro Suc.IH) simp_all
  moreover have "sd_id x \<noteq> sd_id y" if "i < n" "x \<in> set (X i)" "y \<in> set (X n)" for i x y
    using Suc.prems(2) [of i x] Suc.prems(2) [of n y] that by auto
  ultimately show ?case using Suc.prems(1) [of n] by (fastforce simp: image_iff)
qed simp

section \<open>Sharded search\<close>

lemma shard_search_view: "shard_search log1p q opts g l = search (shard_of (l, g)) log1p default_parameters q opts"
  by (simp add: shard_search_def shard_of_def)

abbreviation options_of :: "search_options \<Rightarrow> planner_options" where
  "options_of opts \<equiv> \<lparr>po_default_fields = so_default_fields opts, po_limits = so_planner_limits opts\<rparr>"

lemma shard_plan: "rel_sum (=) sim (plan_query (shard_of (l, g)) q opts) (plan_query (memory_view g) q opts)"
  using shard_pair.plan_query_same [of "memory_view l" "memory_view g"] by (simp add: shard_of_def)

lemma shard_search_outcome:
  assumes inv: "shard_inv (l, g)" and p: "plan_query (memory_view g) q (options_of opts) = Inr p" and ok: "plan_scorable (ix_schema g) p"
  shows "\<exists>xs. distinct (map sd_id xs) \<and>
    set xs = scored_documents l (\<lambda>d. plan_matches (ix_schema g) d p)
      (\<lambda>d. plan_score (scoring_of (memory_view g)) \<lparr>sc_log1p = log1p, sc_parameters = default_parameters\<rparr> d p) \<and>
    shard_search log1p q opts g l = outcome (so_top_k opts) xs"
proof -
  obtain p' where p': "plan_query (shard_of (l, g)) q (options_of opts) = Inr p'" "sim p' p"
    using shard_plan [of l g q "options_of opts"] p by (cases "plan_query (shard_of (l, g)) q (options_of opts)") auto
  have ok': "plan_scorable (ix_schema g) p'" using ok sim_scorable [OF p'(2)] by simp
  from shard_outcome [OF inv ok' default_parameters_ok, of log1p "so_top_k opts"] show ?thesis
    by (simp add: sim_matches [OF p'(2)] sim_score [OF p'(2)] shard_search_view search_def p'(1))
qed

lemma shard_search_planning:
  "plan_query (memory_view g) q (options_of opts) = Inl e \<Longrightarrow> shard_search log1p q opts g l = Inl (planning_error_of e)"
  using shard_plan [of l g q "options_of opts"]
  by (cases "plan_query (shard_of (l, g)) q (options_of opts)") (auto simp: shard_search_view search_def)

lemma cluster_shard_inv:
  assumes "cluster_inv schema n c" and "engine_schema schema" and "i < n"
  shows "shard_inv (lc_shards c ! i, lc_global c)"
  using cluster_inv_shard(1,2) [OF assms(1,3)] assms(1,2) reachable_engine index_reachable_schema
  by (simp add: shard_inv_def cluster_inv_def) metis

lemma scored_partition:
  assumes "cluster_inv schema n c"
  shows "(\<Union>i < n. scored_documents (lc_shards c ! i) P S) = scored_documents (lc_global c) P S"
    and "i < n \<Longrightarrow> x \<in> scored_documents (lc_shards c ! i) P S \<Longrightarrow> route n (sd_id x) = i"
proof -
  have vis: "visible (lc_shards c ! i) = visible (lc_global c) |` {did. route n did = i}" if "i < n" for i
    using assms that by (simp add: cluster_inv_def partitioned_def)
  have "0 < n" using assms by (simp add: cluster_inv_def)
  with vis route_less [of n] show "(\<Union>i < n. scored_documents (lc_shards c ! i) P S) = scored_documents (lc_global c) P S"
    by (fastforce simp: scored_documents_def restrict_map_def split: if_splits)
  show "i < n \<Longrightarrow> x \<in> scored_documents (lc_shards c ! i) P S \<Longrightarrow> route n (sd_id x) = i"
    using vis [of i] by (auto simp: scored_documents_def restrict_map_def split: if_splits)
qed

lemma scored_bound:
  assumes "index_inv g" and "distinct (map sd_id ys)" and "set ys = scored_documents g P S"
  shows "length ys < 2 ^ 64"
proof -
  have "sd_id ` set ys \<subseteq> dom (visible g)" unfolding assms(3) by (auto simp: scored_documents_def)
  then have "length ys \<le> card (dom (visible g))"
    using assms(2) card_mono [of "dom (visible g)"] by (metis distinct_card dom_visible finite_imageI finite_set length_map set_map)
  also have "\<dots> \<le> length (ix_documents g)" unfolding dom_visible by (metis card_image_le card_length finite_set le_trans)
  also have "\<dots> < 2 ^ 32" by (rule length_documents [OF assms(1)])
  finally show ?thesis by simp
qed

text \<open>
  C8: a mutation of the cluster is all or nothing, and the shards stay a partition of the oracle. In
  every state that mutations of a new cluster reach, failed ones included, a put that is accepted
  changes the documents of the oracle as the versioned store does, and one that is refused changes nothing: the shard never
  refuses what the oracle has accepted. Afterwards every shard has exactly the documents of the oracle that are
  routed to it.
\<close>

theorem cluster_put_partition:
  assumes "cluster_reachable schema n c" and "document_ok d"
  shows "partitioned n (snd (cluster_put d c)) \<and>
    (case fst (cluster_put d c) of
       Inr _ \<Rightarrow> store_put (visible (lc_global c)) d = Some (visible (lc_global (snd (cluster_put d c))))
     | Inl _ \<Rightarrow> snd (cluster_put d c) = c \<and> (\<exists>f. index_put (lc_global c) d = Inl f))"
proof -
  have inv: "cluster_inv schema n c" by (rule cluster_inv_reachable [OF assms(1)])
  have part: "partitioned n (snd (cluster_put d c))" using cluster_inv_put [OF inv assms(2)] by (simp add: cluster_inv_def)
  from inv assms(2) show ?thesis
  proof (cases rule: cluster_put_cases)
    case (accepted g l)
    have g: "index_inv (lc_global c)" using inv reachable_inv by (auto simp: cluster_inv_def)
    have "\<not> (doc_id d = [] \<or> stale (lc_global c) (doc_id d) (doc_version d))"
      using accepted(1) by (auto simp: index_put_def split: if_splits)
    with put_visible [OF g assms(2) accepted(1)] store_put_accepts [of "lc_global c" d]
    have "store_put (visible (lc_global c)) d = Some (visible g)" by (auto simp: store_put_def split: option.splits if_splits)
    with part accepted(3) show ?thesis by simp
  qed (use part in auto)
qed

text \<open>
  C7: a sharded search is a search of the whole collection. In every reachable state of a cluster over a schema of the
  library, for every query and options whose plan has finite, non-negative boosts, searching the shards
  and merging their best hits gives exactly what one search of the index of all documents gives: the same hits with the same
  scores, bit for bit, in the same order, the same number of hits, and the same message when it fails.
\<close>

theorem cluster_search_exact:
  assumes "cluster_reachable schema n c" and "engine_schema schema"
    and "\<forall>p. plan_query (memory_view (lc_global c)) q \<lparr>po_default_fields = so_default_fields opts,
      po_limits = so_planner_limits opts\<rparr> = Inr p \<longrightarrow> plan_scorable schema p"
  shows "cluster_search log1p q opts c =
    (case search (memory_view (lc_global c)) log1p default_parameters q opts of
       Inl e \<Rightarrow> Inl (cl_fail Cl_execution_error (ee_message e))
     | Inr res \<Rightarrow> Inr res)"
proof -
  let ?g = "lc_global c" and ?k = "so_top_k opts"
  have inv: "cluster_inv schema n c" by (rule cluster_inv_reachable [OF assms(1)])
  then have n: "0 < n" "length (lc_shards c) = n" and g: "index_reachable schema (- 1) ?g"
    by (simp_all add: cluster_inv_def partitioned_def)
  have eng: "engine_inv ?g" and sch: "ix_schema ?g = schema" using reachable_engine [OF g assms(2)] index_reachable_schema [OF g] by blast+
  note sh = cluster_shard_inv [OF inv assms(2)]
  show ?thesis
  proof (cases "plan_query (memory_view ?g) q (options_of opts)")
    case (Inl e)
    obtain l ls where "lc_shards c = l # ls" using n by (cases "lc_shards c") auto
    with shard_search_planning [OF Inl] Inl show ?thesis by (simp add: cluster_search_def search_def merge_result_def)
  next
    case (Inr p)
    then have ok: "plan_scorable (ix_schema ?g) p" using assms(3) sch by simp
    let ?P = "\<lambda>d. plan_matches (ix_schema ?g) d p"
      and ?S = "\<lambda>d. plan_score (scoring_of (memory_view ?g)) \<lparr>sc_log1p = log1p, sc_parameters = default_parameters\<rparr> d p"
    obtain ys where ys: "distinct (map sd_id ys)" "set ys = scored_documents ?g ?P ?S"
        "search (memory_view ?g) log1p default_parameters q opts = outcome ?k ys"
      using memory_outcome [OF eng ok default_parameters_ok, of log1p ?k] Inr by (auto simp: search_def)
    have "\<forall>i. \<exists>xs. i < n \<longrightarrow> distinct (map sd_id xs) \<and> set xs = scored_documents (lc_shards c ! i) ?P ?S \<and>
        shard_search log1p q opts ?g (lc_shards c ! i) = outcome ?k xs"
      using shard_search_outcome [OF sh Inr ok, of _ log1p] by blast
    then obtain X where X: "\<And>i. i < n \<Longrightarrow> distinct (map sd_id (X i))" "\<And>i. i < n \<Longrightarrow> set (X i) = scored_documents (lc_shards c ! i) ?P ?S"
        "\<And>i. i < n \<Longrightarrow> shard_search log1p q opts ?g (lc_shards c ! i) = outcome ?k (X i)" by metis
    let ?xss = "map X [0..<n]"
    have res: "map (shard_search log1p q opts ?g) (lc_shards c) = map (outcome ?k) ?xss"
      using X(3) n(2) by (intro nth_equalityI) simp_all
    have dis: "distinct (map sd_id (concat ?xss))" "distinct (map sd_id (concat (map (best ?k) ?xss)))"
      using distinct_routed [of n X "route n"] distinct_routed [of n "\<lambda>i. best ?k (X i)" "route n"] X(1,2) best_distinct [OF X(1)]
        best_subset scored_partition(2) [OF inv] by (simp_all add: comp_def) blast+
    have "set (concat ?xss) = (\<Union>i < n. set (X i))" by auto
    also have "\<dots> = set ys" using X(2) scored_partition(1) [OF inv, of ?P ?S] ys(2) by simp
    finally have set: "set (concat ?xss) = set ys" .
    have len: "length (concat ?xss) = length ys"
      using dis(1) ys(1) set by (metis distinct_card distinct_map)
    have bound: "length ys < 2 ^ 64" using scored_bound [OF _ ys(1,2)] eng by (simp add: engine_inv_def)
    have fin: "\<forall>x \<in> set (concat (map (best ?k) ?xss)). isfinite (sd_score x)" if "\<forall>x \<in> set (concat ?xss). isfinite (sd_score x)"
      using that best_subset by fastforce
    have "fold_result merge_result (map (outcome ?k) ?xss) (top_k_new ?k, 0) =
        (if \<forall>x \<in> set ys. isfinite (sd_score x) then Inr (collect_all (concat (map (best ?k) ?xss)) (top_k_new ?k), length ys)
         else Inl (cl_fail Cl_execution_error ''non-finite score''))"
      using merge_outcomes [of 0 ?xss ?k "top_k_new ?k"] bound unfolding set len by simp
    moreover have "top_k_results (collect_all (concat (map (best ?k) ?xss)) (top_k_new ?k)) = best ?k ys"
      if "\<forall>x \<in> set ys. isfinite (sd_score x)"
    proof -
      have "\<forall>x \<in> set (concat ?xss). isfinite (sd_score x)" using that unfolding set .
      from collector_take [OF fin [OF this] dis(2), of ?k] show ?thesis
        unfolding best_concat [OF dis(1)] sort_rank_eq [OF dis(1) ys(1) set] .
    qed
    ultimately show ?thesis by (simp add: cluster_search_def res ys(3) outcome_def ex_error_def)
  qed
qed

section \<open>The properties at a concrete cluster\<close>

definition ex_oracle :: index where
  "ex_oracle = ex_index\<lparr>ix_maximum_internal_id := - 1\<rparr>"

definition ex_cluster :: cluster where
  "ex_cluster = \<lparr>lc_global = ex_oracle, lc_shards = [index_new ex_schema (- 1), ex_oracle]\<rparr>"

lemma ex_oracle_put: "index_put (index_new ex_schema (- 1)) ex_document = Inr ex_oracle"
  by (simp add: index_put_def index_new_def stale_def validate_document_def schema_find_def
      allocate_def prepare_def Let_def ex_schema_def ex_document_def ex_analyze validate_value_def
      prepare_field_def om_get_def publish_def ex_index_def ex_oracle_def del: analyze.simps)

lemma ex_route: "route 2 (doc_id ex_document) = 1"
  by (simp add: route_def fnv_byte_def ex_document_def Let_def)

lemma ex_cluster_reachable: "cluster_reachable ex_schema 2 ex_cluster"
proof -
  let ?c = "\<lparr>lc_global = index_new ex_schema (- 1), lc_shards = replicate 2 (index_new ex_schema (- 1))\<rparr>"
  have "cluster_reachable ex_schema 2 ?c" by (rule cluster_reachable.create) (simp add: cluster_create_def)
  from cluster_reachable.put [OF this ex_document_ok] show ?thesis
    using ex_route by (simp add: cluster_put_def cluster_route_def ex_oracle_put ex_cluster_def numeral_2_eq_2)
qed

lemma ex_oracle_view: "memory_view ex_oracle = memory_view ex_index"
  by (simp add: memory_view_def ex_oracle_def fun_eq_iff index_lookup_def index_document_def index_document_internal_def
      index_internal_id_def index_external_id_def index_live_document_ids_def index_live_document_count_def
      index_field_statistics_def split: option.split)

lemma ex_oracle_plan: "plan_query (memory_view ex_index) (MatchAllQuery 0) ex_planner_options = Inr (PlannedMatchAll 1)"
proof -
  have "index_live_document_count ex_index = 1"
    by (simp add: index_live_document_count_def ex_index_def ex_document_def)
  then show ?thesis
    by (simp add: plan_query_def build.simps ex_planner_options_def fp_one_facts Planner.make_def Let_def)
qed

lemma ex_oracle_search:
  "search (memory_view ex_oracle) log1p default_parameters (MatchAllQuery 0) ex_options =
    Inr \<lparr>sr_hits = [\<lparr>sd_id = ''d'', sd_score = fp_zero\<rparr>], sr_total_hits = 1\<rparr>"
proof -
  have "index_live_document_ids ex_index = [1]"
    by (simp add: index_live_document_ids_def index_document_def ex_index_def ex_document_def)
  moreover have "isfinite fp_zero" by (simp add: fp_eval_defs)
  moreover have "index_external_id ex_index 1 = Some ''d''" by (simp add: index_external_id_def ex_index_def)
  moreover have "options_of ex_options = ex_planner_options" "so_top_k ex_options = 10"
    by (simp_all add: ex_options_def ex_planner_options_def)
  ultimately show ?thesis
    by (simp add: ex_oracle_view search_def ex_oracle_plan search_plan_def default_parameters_ok universe_def collect_def top_k_new_def top_k_results_def)
qed

theorem cluster_put_partition_witness:
  "cluster_reachable ex_schema 2 ex_cluster \<and> document_ok ex_document \<and> (\<exists>f. index_put ex_oracle ex_document = Inl f) \<and>
   snd (cluster_put ex_document ex_cluster) = ex_cluster"
proof -
  have "index_put ex_oracle ex_document = Inl (index_fail Stale_version ''document version must be newer than visible version'')"
    by (simp add: index_put_def ex_document_def ex_index_def ex_oracle_def stale_def)
  then have "index_put (lc_global ex_cluster) ex_document = Inl (index_fail Stale_version ''document version must be newer than visible version'')"
    by (simp add: ex_cluster_def)
  moreover from this have "\<exists>x. fst (cluster_put ex_document ex_cluster) = Inl x" by (simp add: cluster_put_def Let_def)
  ultimately show ?thesis
    using cluster_put_partition [OF ex_cluster_reachable ex_document_ok] ex_cluster_reachable ex_document_ok by (auto simp: ex_cluster_def)
qed

theorem cluster_search_exact_witness:
  "cluster_reachable ex_schema 2 ex_cluster \<and> engine_schema ex_schema \<and>
   cluster_search (\<lambda>x. x) (MatchAllQuery 0) ex_options ex_cluster =
     Inr \<lparr>sr_hits = [\<lparr>sd_id = ''d'', sd_score = fp_zero\<rparr>], sr_total_hits = 1\<rparr>"
proof -
  have g: "lc_global ex_cluster = ex_oracle" by (simp add: ex_cluster_def)
  have opts: "options_of ex_options = ex_planner_options" by (simp add: ex_options_def ex_planner_options_def)
  have "\<forall>p. plan_query (memory_view (lc_global ex_cluster)) (MatchAllQuery 0) (options_of ex_options) = Inr p \<longrightarrow> plan_scorable ex_schema p"
    unfolding g ex_oracle_view opts ex_oracle_plan by auto
  from cluster_search_exact [OF ex_cluster_reachable ex_engine_schema this, of "\<lambda>x. x"]
  show ?thesis using ex_cluster_reachable ex_engine_schema unfolding g ex_oracle_search by simp
qed

end
