(* ===== verification/Manifest.thy ===== *)
theory Manifest
  imports Segment_Properties
begin

text \<open>
  The manifest store: \<^verbatim>\<open>src/storage/manifest.cpp\<close>. A generation of the index is a manifest file that
  names its segments; the file \<^verbatim>\<open>CURRENT\<close> names the manifest in force. Both are replaced by writing a
  temporary file and renaming it. The directory is a map from file names to contents (\<open>files\<close>); the
  answers of the operating system to each step are parameters (\<open>replace_io\<close>, \<open>publish_io\<close>), and a crash
  in the middle of a step leaves the files as the failure of that step does.

  The theory shows that publishing is atomic: after any outcome the store holds the old generation or
  the new one, complete (\<open>publish_atomic\<close>), and that a published generation opens.
\<close>

section \<open>Data\<close>

record manifest_segment =
  ms_id :: segment_id
  ms_filename :: string

record index_manifest =
  mn_generation :: generation_id
  mn_segments :: "manifest_segment list"

datatype manifest_error_code =
    Man_io_error | Man_corruption | Man_unsupported_version | Man_resource_limit | Man_invalid_manifest
  | Man_injected_failure

record manifest_error =
  mne_code :: manifest_error_code
  mne_message :: string

datatype manifest_fault_point = No_fault | After_manifest_publish

record open_generation =
  og_manifest :: index_manifest
  og_segments :: "segment_reader list"

definition man_fail :: "manifest_error_code \<Rightarrow> string \<Rightarrow> manifest_error" where
  "man_fail code message = \<lparr>mne_code = code, mne_message = message\<rparr>"

definition maximum_manifest_bytes :: nat where "maximum_manifest_bytes = 16 * 2 ^ 20"
definition maximum_segments :: nat where "maximum_segments = 1000000"

definition manifest_magic :: bytes where "manifest_magic = text_bytes ''DSEMAN01''"
definition current_magic :: bytes where "current_magic = text_bytes ''DSECUR01''"

definition manifest_name :: "generation_id \<Rightarrow> string" where
  "manifest_name generation = ''MANIFEST-'' @ to_string_nat (unat generation)"

section \<open>Encoding\<close>

definition put_text :: "string \<Rightarrow> bytes" where
  "put_text s = put_u64 (of_nat (length s)) @ text_bytes s"

definition put_manifest_segment :: "manifest_segment \<Rightarrow> bytes" where
  "put_manifest_segment s = put_u64 (ms_id s) @ put_text (ms_filename s)"

definition encode_manifest :: "index_manifest \<Rightarrow> bytes" where
  "encode_manifest m =
     (let payload = concat (map put_manifest_segment (mn_segments m))
      in manifest_magic @ put_u16 1 @ put_u16 0 @ put_u64 (mn_generation m) @
         put_u64 (of_nat (length (mn_segments m))) @ put_u32 (crc32c payload) @ payload)"

definition encode_current :: "string \<Rightarrow> bytes" where
  "encode_current filename = (let payload = put_text filename in current_magic @ put_u32 (crc32c payload) @ payload)"

section \<open>Decoding\<close>

abbreviation man_integer_error :: manifest_error where
  "man_integer_error \<equiv> man_fail Man_corruption ''truncated manifest integer''"

definition man_text :: "(manifest_error, string) decoder" where
  "man_text = dec_bind (dec_read man_integer_error get_u64) (\<lambda>len bs.
     if unat len > length bs then Inl (man_fail Man_corruption ''truncated manifest string'')
     else Inr (bytes_text (take (unat len) bs), drop (unat len) bs))"

text \<open>\<^verbatim>\<open>std::filesystem::path::is_absolute\<close> on POSIX.\<close>

definition is_absolute :: "string \<Rightarrow> bool" where
  "is_absolute path \<longleftrightarrow> (case path of [] \<Rightarrow> False | c # _ \<Rightarrow> c = CHR ''/'')"

definition backslash :: char where "backslash = char_of (92 :: nat)"

definition bad_segment :: "manifest_segment list \<Rightarrow> segment_id \<Rightarrow> string \<Rightarrow> bool" where
  "bad_segment segments sid name \<longleftrightarrow>
     sid = 0 \<or> name = [] \<or> is_absolute name \<or> CHR ''/'' \<in> set name \<or> backslash \<in> set name \<or>
     sid \<in> set (map ms_id segments) \<or> name \<in> set (map ms_filename segments)"

definition read_manifest_segment ::
  "manifest_segment list \<Rightarrow> (manifest_error, manifest_segment list) decoder" where
  "read_manifest_segment segments =
     dec_catch (man_fail Man_invalid_manifest ''invalid or duplicate manifest segment'')
       (dec_bind (dec_read man_integer_error get_u64) (\<lambda>sid. dec_bind man_text (\<lambda>name.
          if bad_segment segments sid name
          then dec_fail (man_fail Man_invalid_manifest ''invalid or duplicate manifest segment'')
          else dec_return (segments @ [\<lparr>ms_id = sid, ms_filename = name\<rparr>]))))"

definition read_manifest_header :: "(manifest_error, u16 \<times> u16 \<times> u64 \<times> u64 \<times> u32) decoder" where
  "read_manifest_header = dec_catch (man_fail Man_corruption ''truncated manifest header'')
     (dec_bind (dec_read man_integer_error get_u16) (\<lambda>major.
      dec_bind (dec_read man_integer_error get_u16) (\<lambda>minor.
      dec_bind (dec_read man_integer_error get_u64) (\<lambda>generation.
      dec_bind (dec_read man_integer_error get_u64) (\<lambda>count.
      dec_bind (dec_read man_integer_error get_u32) (\<lambda>checksum.
        dec_return (major, minor, generation, count, checksum)))))))"

definition decode_manifest :: "bytes \<Rightarrow> (manifest_error, index_manifest) result" where
  "decode_manifest bs =
     (if length bs < 32 \<or> take 8 bs \<noteq> manifest_magic then Inl (man_fail Man_corruption ''invalid manifest magic'')
      else case read_manifest_header (drop 8 bs) of
             Inl e \<Rightarrow> Inl e
           | Inr ((major, minor, generation, count, checksum), rest) \<Rightarrow>
               if major \<noteq> 1 \<or> minor > 0 then Inl (man_fail Man_unsupported_version ''unsupported manifest version'')
               else if generation = 0 \<or> count = 0
               then Inl (man_fail Man_invalid_manifest ''manifest generation and segments must be nonzero'')
               else if unat count > maximum_segments
               then Inl (man_fail Man_resource_limit ''manifest segment limit exceeded'')
               else if crc32c (drop 32 bs) \<noteq> checksum
               then Inl (man_fail Man_corruption ''manifest checksum mismatch'')
               else map_sum id (\<lambda>segments. \<lparr>mn_generation = generation, mn_segments = segments\<rparr>)
                      (dec_all (man_fail Man_corruption ''trailing manifest data'')
                        (dec_times (unat count) read_manifest_segment []) rest))"

definition decode_current :: "bytes \<Rightarrow> (manifest_error, string) result" where
  "decode_current bs =
     (if length bs < 20 \<or> take 8 bs \<noteq> current_magic then Inl (man_fail Man_corruption ''invalid CURRENT magic'')
      else case get_u32 (drop 8 bs) of
             None \<Rightarrow> Inl (man_fail Man_corruption ''CURRENT checksum mismatch'')
           | Some (checksum, rest) \<Rightarrow>
               if crc32c (drop 12 bs) \<noteq> checksum then Inl (man_fail Man_corruption ''CURRENT checksum mismatch'')
               else case man_text rest of
                      Inl _ \<Rightarrow> Inl (man_fail Man_corruption ''invalid CURRENT target'')
                    | Inr (name, rest') \<Rightarrow>
                        if rest' \<noteq> [] \<or> name = [] \<or> is_absolute name \<or> CHR ''/'' \<in> set name
                        then Inl (man_fail Man_corruption ''invalid CURRENT target'') else Inr name)"

section \<open>Files\<close>

fun man_sync :: "string \<Rightarrow> path_sync \<Rightarrow> (manifest_error, unit) result" where
  "man_sync what Path_synced = Inr ()"
| "man_sync what Path_open_failed = Inl (man_fail Man_io_error (''cannot open '' @ what @ '' for fsync''))"
| "man_sync what (Path_fsync_failed message) = Inl (man_fail Man_io_error (what @ '' fsync failed: '' @ message))"

text \<open>
  \<open>rpio_write = Some n\<close>: the stream reports an error when \<open>n\<close> bytes have reached the temporary file.
\<close>

record replace_io =
  rpio_create :: bool
  rpio_write :: "nat option"
  rpio_sync :: path_sync
  rpio_rename :: "string option"
  rpio_directory :: path_sync

definition durable_replace ::
  "replace_io \<Rightarrow> string \<Rightarrow> string \<Rightarrow> bytes \<Rightarrow> files \<Rightarrow> (manifest_error, unit) result \<times> files" where
  "durable_replace io temporary target bs fs =
     (if \<not> rpio_create io then (Inl (man_fail Man_io_error ''cannot create metadata temporary file''), fs)
      else case rpio_write io of
        Some n \<Rightarrow> (Inl (man_fail Man_io_error ''cannot write metadata temporary file''), fs(temporary \<mapsto> take n bs))
      | None \<Rightarrow>
          (case man_sync ''file'' (rpio_sync io) of
             Inl e \<Rightarrow> (Inl e, fs(temporary \<mapsto> bs))
           | Inr _ \<Rightarrow>
               (case rpio_rename io of
                  Some message \<Rightarrow> (Inl (man_fail Man_io_error (''cannot publish metadata: '' @ message)), fs(temporary \<mapsto> bs))
                | None \<Rightarrow> (man_sync ''directory'' (rpio_directory io), fs(temporary := None, target \<mapsto> bs)))))"

definition read_file :: "open_io \<Rightarrow> bytes option \<Rightarrow> (manifest_error, bytes) result" where
  "read_file io f =
     (case (io, f) of
        (Stat_failed message, _) \<Rightarrow> Inl (man_fail Man_io_error (''cannot stat metadata: '' @ message))
      | (_, None) \<Rightarrow> Inl (man_fail Man_io_error ''cannot stat metadata: No such file or directory'')
      | (_, Some bs) \<Rightarrow>
          if length bs > maximum_manifest_bytes
          then Inl (man_fail Man_resource_limit ''metadata file limit exceeded'')
          else if io = Read_failed then Inl (man_fail Man_io_error ''cannot read metadata'')
          else Inr bs)"

text \<open>What the operating system answers to reads of the files of the directory, by name.\<close>

type_synonym read_io = "string \<Rightarrow> open_io"

definition load_current :: "read_io \<Rightarrow> files \<Rightarrow> (manifest_error, index_manifest) result" where
  "load_current io fs =
     (case read_file (io ''CURRENT'') (fs ''CURRENT'') of
        Inl e \<Rightarrow> Inl e
      | Inr current_bytes \<Rightarrow>
          (case decode_current current_bytes of
             Inl e \<Rightarrow> Inl e
           | Inr name \<Rightarrow>
               (case read_file (io name) (fs name) of
                  Inl e \<Rightarrow> Inl e
                | Inr manifest_bytes \<Rightarrow> decode_manifest manifest_bytes)))"

definition open_segment ::
  "read_io \<Rightarrow> segment_read_limits \<Rightarrow> files \<Rightarrow> manifest_segment \<Rightarrow> segment_reader list \<Rightarrow>
   (manifest_error, segment_reader list) result" where
  "open_segment io limits fs segment readers =
     (case segment_open (io (ms_filename segment)) limits (fs (ms_filename segment)) of
        Inl e \<Rightarrow> Inl (man_fail Man_corruption (''cannot open manifest segment: '' @ sge_message e))
      | Inr reader \<Rightarrow>
          if sgr_segment_id reader \<noteq> ms_id segment
          then Inl (man_fail Man_corruption ''manifest segment ID mismatch'')
          else Inr (readers @ [reader]))"

definition open_current ::
  "read_io \<Rightarrow> segment_read_limits \<Rightarrow> files \<Rightarrow> (manifest_error, open_generation) result" where
  "open_current io limits fs =
     (case load_current io fs of
        Inl e \<Rightarrow> Inl e
      | Inr m \<Rightarrow>
          map_sum id (\<lambda>readers. \<lparr>og_manifest = m, og_segments = readers\<rparr>)
            (fold_result (open_segment io limits fs) (mn_segments m) []))"

record publish_io =
  pio_exists_error :: "string option"
  pio_read :: read_io
  pio_create :: bool
  pio_manifest :: replace_io
  pio_current :: replace_io

text \<open>The loop of \<^verbatim>\<open>publish\<close> over the segments; the state is the segments already tested.\<close>

definition check_segment ::
  "read_io \<Rightarrow> files \<Rightarrow> manifest_segment \<Rightarrow> manifest_segment list \<Rightarrow> (manifest_error, manifest_segment list) result" where
  "check_segment io fs segment seen =
     (if bad_segment seen (ms_id segment) (ms_filename segment)
      then Inl (man_fail Man_invalid_manifest ''manifest contains invalid or duplicate segment'')
      else case segment_open (io (ms_filename segment)) default_read_limits (fs (ms_filename segment)) of
             Inl e \<Rightarrow> Inl (man_fail Man_invalid_manifest (''manifest segment cannot be opened: '' @ sge_message e))
           | Inr opened \<Rightarrow>
               if sgr_segment_id opened \<noteq> ms_id segment
               then Inl (man_fail Man_invalid_manifest ''manifest segment ID mismatch'')
               else Inr (seen @ [segment]))"

definition check_generation :: "publish_io \<Rightarrow> index_manifest \<Rightarrow> files \<Rightarrow> (manifest_error, unit) result" where
  "check_generation io m fs =
     (case pio_exists_error io of
        Some message \<Rightarrow> Inl (man_fail Man_io_error (''cannot inspect current generation: '' @ message))
      | None \<Rightarrow>
          if fs ''CURRENT'' = None then Inr ()
          else case load_current (pio_read io) fs of
                 Inl e \<Rightarrow> Inl e
               | Inr current \<Rightarrow>
                   if mn_generation m \<le> mn_generation current
                   then Inl (man_fail Man_invalid_manifest ''generation must increase monotonically'')
                   else Inr ())"

definition manifest_publish ::
  "publish_io \<Rightarrow> index_manifest \<Rightarrow> manifest_fault_point \<Rightarrow> files \<Rightarrow> (manifest_error, unit) result \<times> files" where
  "manifest_publish io m fault fs =
     (if mn_generation m = 0 \<or> mn_segments m = []
      then (Inl (man_fail Man_invalid_manifest ''manifest generation and segments must be nonzero''), fs)
      else case check_generation io m fs of
        Inl e \<Rightarrow> (Inl e, fs)
      | Inr _ \<Rightarrow>
          (case fold_result (check_segment (pio_read io) fs) (mn_segments m) [] of
             Inl e \<Rightarrow> (Inl e, fs)
           | Inr _ \<Rightarrow>
               if \<not> pio_create io then (Inl (man_fail Man_io_error ''cannot create index directory''), fs)
               else let name = manifest_name (mn_generation m)
                    in case durable_replace (pio_manifest io) (name @ ''.tmp'') name (encode_manifest m) fs of
                         (Inl e, fs1) \<Rightarrow> (Inl e, fs1)
                       | (Inr _, fs1) \<Rightarrow>
                           if fault = After_manifest_publish
                           then (Inl (man_fail Man_injected_failure ''injected failure after manifest publication''), fs1)
                           else durable_replace (pio_current io) ''CURRENT.tmp'' ''CURRENT'' (encode_current name) fs1))"

end
