(* ===== verification/Manifest_Properties.thy ===== *)
theory Manifest_Properties
  imports Manifest
begin

text \<open>
  The manifest store over all outcomes: encodings are read back, publishing a generation is atomic and
  monotone, and a published generation opens with the segments that were tested when it was published.
\<close>

section \<open>Reading back\<close>

lemma decodes_text: "length s < 2 ^ 64 \<Longrightarrow> decodes man_text (put_text s) s"
  unfolding man_text_def put_text_def
  by (rule decodes_bind, rule decodes_u64) (simp add: decodes_def unat_of_nat_small)

definition segment_ok :: "manifest_segment \<Rightarrow> bool" where
  "segment_ok s \<longleftrightarrow> ms_id s \<noteq> 0 \<and> ms_filename s \<noteq> [] \<and> CHR ''/'' \<notin> set (ms_filename s) \<and> backslash \<notin> set (ms_filename s)"

definition manifest_ok :: "index_manifest \<Rightarrow> bool" where
  "manifest_ok m \<longleftrightarrow> mn_generation m \<noteq> 0 \<and> mn_segments m \<noteq> [] \<and> list_all segment_ok (mn_segments m) \<and>
     distinct (map ms_id (mn_segments m)) \<and> distinct (map ms_filename (mn_segments m))"

text \<open>The limits that the reader enforces and the writer does not test.\<close>

definition manifest_fits :: "index_manifest \<Rightarrow> bool" where
  "manifest_fits m \<longleftrightarrow> length (mn_segments m) \<le> maximum_segments \<and> length (encode_manifest m) \<le> maximum_manifest_bytes"

lemma is_absolute_slash: "is_absolute name \<Longrightarrow> CHR ''/'' \<in> set name"
  by (cases name) (auto simp: is_absolute_def)

lemma bad_segment_iff:
  "\<not> bad_segment seen (ms_id s) (ms_filename s) \<longleftrightarrow>
    segment_ok s \<and> ms_id s \<notin> set (map ms_id seen) \<and> ms_filename s \<notin> set (map ms_filename seen)"
  using is_absolute_slash by (auto simp: bad_segment_def segment_ok_def)

lemma length_header: "length manifest_magic = 8" "length current_magic = 8"
  by (simp_all add: manifest_magic_def current_magic_def)

lemma length_le_concat: "x \<in> set xs \<Longrightarrow> length (f x) \<le> length (concat (map f xs))"
  by (induction xs) auto

lemma filename_small:
  assumes "manifest_fits m" and "s \<in> set (mn_segments m)"
  shows "length (ms_filename s) < 2 ^ 64"
proof -
  have "length (put_manifest_segment s) \<le> length (encode_manifest m)"
    using length_le_concat [OF assms(2), of put_manifest_segment] by (simp add: encode_manifest_def Let_def)
  with assms(1) show ?thesis
    by (simp add: manifest_fits_def maximum_manifest_bytes_def put_manifest_segment_def put_text_def)
qed

lemma decodes_manifest_segments:
  assumes "manifest_ok m" and "manifest_fits m"
  shows "decodes (dec_times (length (mn_segments m)) read_manifest_segment [])
    (concat (map put_manifest_segment (mn_segments m))) (mn_segments m)"
proof (rule decodes_times_append)
  fix i
  let ?segs = "mn_segments m"
  assume i: "i < length ?segs"
  let ?s = "?segs ! i"
  note ok = assms(1) [unfolded manifest_ok_def]
  have mem: "?s \<in> set ?segs" using i by simp
  have "ms_id ?s \<notin> set (map ms_id (take i ?segs))" "ms_filename ?s \<notin> set (map ms_filename (take i ?segs))"
    using ok i id_take_nth_drop [OF i] by (metis distinct_append distinct_map_filter in_set_conv_decomp list.simps(9) map_append not_distinct_conv_prefix)+
  then have "\<not> bad_segment (take i ?segs) (ms_id ?s) (ms_filename ?s)"
    using ok mem by (simp add: bad_segment_iff list_all_iff)
  then show "decodes (read_manifest_segment (take i ?segs)) (put_manifest_segment ?s) (take i ?segs @ [?s])"
    using decodes_text [OF filename_small [OF assms(2) mem]]
    unfolding read_manifest_segment_def put_manifest_segment_def
    by (intro decode_intros, elim decodes_bind_last) (simp add: decodes_def dec_return_def)
qed

lemma decode_encode_manifest:
  assumes "manifest_ok m" and "manifest_fits m"
  shows "decode_manifest (encode_manifest m) = Inr m"
proof -
  define payload where "payload = concat (map put_manifest_segment (mn_segments m))"
  define head where "head = put_u16 1 @ put_u16 0 @ put_u64 (mn_generation m) @ put_u64 (of_nat (length (mn_segments m))) @
      put_u32 (crc32c payload)"
  have bs: "encode_manifest m = manifest_magic @ head @ payload"
    by (simp add: encode_manifest_def Let_def payload_def head_def)
  have head: "length head = 24" by (simp add: head_def)
  have "decodes read_manifest_header head (1, 0, mn_generation m, of_nat (length (mn_segments m)), crc32c payload)"
    unfolding read_manifest_header_def head_def by (intro decode_intros)
  from decodesD [OF this] have hd: "read_manifest_header (drop 8 (encode_manifest m)) =
      Inr ((1, 0, mn_generation m, of_nat (length (mn_segments m)), crc32c payload), payload)"
    by (simp add: bs length_header)
  have n: "unat (of_nat (length (mn_segments m)) :: u64) = length (mn_segments m)"
    using assms(2) by (intro unat_of_nat_small) (simp add: manifest_fits_def maximum_segments_def)
  moreover have "of_nat (length (mn_segments m)) \<noteq> (0 :: u64)"
    using n assms(1) by (metis length_0_conv manifest_ok_def unat_eq_zero)
  moreover have "dec_all e (dec_times (length (mn_segments m)) read_manifest_segment []) payload = Inr (mn_segments m)" for e
    unfolding payload_def by (rule dec_all_decodes [OF decodes_manifest_segments [OF assms]])
  moreover have "drop 32 (encode_manifest m) = payload" "take 8 (encode_manifest m) = manifest_magic"
      "\<not> length (encode_manifest m) < 32"
    by (simp_all add: bs length_header head)
  ultimately show ?thesis
    using assms unfolding decode_manifest_def hd by (simp add: manifest_ok_def manifest_fits_def)
qed

lemma decode_encode_current:
  assumes "name \<noteq> []" and "CHR ''/'' \<notin> set name" and "length name < 2 ^ 64"
  shows "decode_current (encode_current name) = Inr name"
proof -
  have "man_text (put_text name) = Inr (name, [])" using decodes_text [OF assms(3)] by (rule decodesD_all)
  moreover have "\<not> is_absolute name" using is_absolute_slash assms(2) by blast
  ultimately show ?thesis
    using assms by (simp add: decode_current_def encode_current_def Let_def length_header put_text_def Suc_le_eq)
qed

section \<open>The store\<close>

text \<open>
  The store holds the generation \<open>cur\<close>: there is none, or \<^verbatim>\<open>CURRENT\<close> names its manifest file and
  the file has its encoding.
\<close>

fun store_holds :: "files \<Rightarrow> index_manifest option \<Rightarrow> bool" where
  "store_holds fs None \<longleftrightarrow> fs ''CURRENT'' = None"
| "store_holds fs (Some m) \<longleftrightarrow>
     fs ''CURRENT'' = Some (encode_current (manifest_name (mn_generation m))) \<and>
     fs (manifest_name (mn_generation m)) = Some (encode_manifest m) \<and> manifest_ok m \<and> manifest_fits m"

lemma length_to_string_nat: "n < 10 ^ Suc k \<Longrightarrow> length (to_string_nat n) \<le> Suc k"
proof (induction k arbitrary: n)
  case (Suc k)
  then have "n div 10 < 10 ^ Suc k" by (simp add: less_mult_imp_div_less mult.commute)
  from Suc.IH [OF this] show ?case by (subst to_string_nat.simps) simp
qed (simp add: to_string_nat.simps)

lemma manifest_name_inj: "manifest_name g = manifest_name h \<longleftrightarrow> g = h"
  by (auto simp: manifest_name_def to_string_nat_inj word_unat_eq_iff)

lemma manifest_name_ok:
  "manifest_name g \<noteq> []" "CHR ''/'' \<notin> set (manifest_name g)" "length (manifest_name g) < 2 ^ 64"
  "manifest_name g \<noteq> ''CURRENT''" "manifest_name g \<noteq> ''CURRENT.tmp''" "manifest_name g @ ''.tmp'' \<noteq> ''CURRENT''"
  "manifest_name g \<noteq> manifest_name h @ ''.tmp''"
proof -
  have digits: "\<forall>c \<in> set (to_string_nat (unat g)). isdigit c" by (rule to_string_nat_digits)
  show "CHR ''/'' \<notin> set (manifest_name g)" using digits by (auto simp: manifest_name_def isdigit_def)
  have "unat g < 10 ^ Suc 19" using unat_u64_less [of g] by simp
  from length_to_string_nat [OF this] have "length (to_string_nat (unat g)) \<le> 20" by simp
  then show "length (manifest_name g) < 2 ^ 64" by (simp add: manifest_name_def)
  show "manifest_name g \<noteq> manifest_name h @ ''.tmp''"
  proof
    assume "manifest_name g = manifest_name h @ ''.tmp''"
    then have "to_string_nat (unat g) = to_string_nat (unat h) @ ''.tmp''" by (simp add: manifest_name_def)
    then have "CHR ''.'' \<in> set (to_string_nat (unat g))" by simp
    with digits show False by (auto simp: isdigit_def)
  qed
qed (simp_all add: manifest_name_def)

lemma length_encode_current: "length (encode_current (manifest_name g)) \<le> maximum_manifest_bytes"
proof -
  have "length (to_string_nat (unat g)) \<le> 20" using length_to_string_nat [of "unat g" 19] unat_u64_less [of g] by simp
  then show ?thesis
    by (simp add: encode_current_def Let_def put_text_def length_header manifest_name_def maximum_manifest_bytes_def)
qed

lemma load_held_io:
  assumes "store_holds fs (Some m)"
  shows "load_current (\<lambda>_. Open_ok) fs = Inr m" and "load_current io fs = Inr m' \<Longrightarrow> m' = m"
proof -
  have *: "decode_current (encode_current (manifest_name (mn_generation m))) = Inr (manifest_name (mn_generation m))"
    using manifest_name_ok by (intro decode_encode_current)
  have "decode_manifest (encode_manifest m) = Inr m" using assms by (intro decode_encode_manifest) simp_all
  then show "load_current (\<lambda>_. Open_ok) fs = Inr m" "load_current io fs = Inr m' \<Longrightarrow> m' = m"
    using assms * length_encode_current [of "mn_generation m"]
    by (auto simp: load_current_def read_file_def manifest_fits_def split: sum.splits open_io.splits if_splits)
qed

text \<open>Replacing a file changes the target to the new contents, or nothing but the temporary file.\<close>

lemma durable_replace_cases:
  assumes "durable_replace io temporary target bs fs = (res, fs')" and "temporary \<noteq> target"
  shows "(\<forall>n. n \<noteq> temporary \<longrightarrow> fs' n = fs n) \<and> res \<noteq> Inr () \<or>
    (\<forall>n. n \<noteq> temporary \<longrightarrow> fs' n = (if n = target then Some bs else fs n)) \<and> res = man_sync ''directory'' (rpio_directory io)"
  using assms by (auto simp: durable_replace_def split: if_splits option.splits sum.splits)

lemma checked_segments:
  assumes "fold_result (check_segment io fs) segs seen = Inr seen'" and "list_all segment_ok seen"
    and "distinct (map ms_id seen)" and "distinct (map ms_filename seen)"
  shows "seen' = seen @ segs \<and> list_all segment_ok seen' \<and> distinct (map ms_id seen') \<and> distinct (map ms_filename seen') \<and>
    (\<forall>s \<in> set segs. \<exists>r. segment_open Open_ok default_read_limits (fs (ms_filename s)) = Inr r \<and> sgr_segment_id r = ms_id s)"
  using assms
proof (induction segs arbitrary: seen)
  case (Cons s segs)
  from Cons.prems(1) obtain seen1 where step: "check_segment io fs s seen = Inr seen1"
      "fold_result (check_segment io fs) segs seen1 = Inr seen'"
    by (auto split: sum.splits)
  then obtain r where ok: "\<not> bad_segment seen (ms_id s) (ms_filename s)"
      "segment_open (io (ms_filename s)) default_read_limits (fs (ms_filename s)) = Inr r" "sgr_segment_id r = ms_id s"
      "fold_result (check_segment io fs) segs (seen @ [s]) = Inr seen'"
    by (auto simp: check_segment_def split: sum.splits if_splits)
  have "segment_open Open_ok default_read_limits (fs (ms_filename s)) = Inr r"
    using ok(2) by (cases "io (ms_filename s)") (auto simp: segment_open_def split: option.splits if_splits)
  moreover have "list_all segment_ok (seen @ [s])" "distinct (map ms_id (seen @ [s]))" "distinct (map ms_filename (seen @ [s]))"
    using Cons.prems(2-4) ok(1) by (auto simp: bad_segment_iff)
  ultimately have "\<exists>r. segment_open Open_ok default_read_limits (fs (ms_filename s)) = Inr r \<and> sgr_segment_id r = ms_id s"
      "seen' = (seen @ [s]) @ segs \<and> list_all segment_ok seen' \<and> distinct (map ms_id seen') \<and> distinct (map ms_filename seen') \<and>
       (\<forall>s \<in> set segs. \<exists>r. segment_open Open_ok default_read_limits (fs (ms_filename s)) = Inr r \<and> sgr_segment_id r = ms_id s)"
    using ok(3) Cons.IH [OF ok(4)] by blast+
  then show ?case unfolding append_assoc append_Cons append_Nil list.set ball_simps by blast
qed simp

lemma store_holds_cong:
  "store_holds fs cur \<Longrightarrow> fs' ''CURRENT'' = fs ''CURRENT'' \<Longrightarrow>
    (\<And>m. cur = Some m \<Longrightarrow> fs' (manifest_name (mn_generation m)) = fs (manifest_name (mn_generation m))) \<Longrightarrow> store_holds fs' cur"
  by (cases cur) auto

lemma checked_generation:
  assumes "check_generation io m fs = Inr ()" and "store_holds fs (Some old)"
  shows "mn_generation old < mn_generation m"
  using assms load_held_io(2) [OF assms(2)]
  by (auto simp: check_generation_def split: option.splits sum.splits if_splits)

text \<open>The names that publishing a generation writes.\<close>

definition metadata_names :: "generation_id \<Rightarrow> string set" where
  "metadata_names g = {''CURRENT'', ''CURRENT.tmp'', manifest_name g, manifest_name g @ ''.tmp''}"

lemma publish_cases:
  assumes "store_holds fs cur" and "manifest_fits m" and "manifest_publish io m fault fs = (res, fs')"
  shows "(\<forall>n. n \<notin> metadata_names (mn_generation m) \<longrightarrow> fs' n = fs n) \<and>
    (store_holds fs' cur \<and> res \<noteq> Inr () \<or>
     store_holds fs' (Some m) \<and> res = man_sync ''directory'' (rpio_directory (pio_current io)) \<and>
     (\<forall>old. cur = Some old \<longrightarrow> mn_generation old < mn_generation m) \<and>
     (\<forall>s \<in> set (mn_segments m). \<exists>r. segment_open Open_ok default_read_limits (fs (ms_filename s)) = Inr r \<and>
        sgr_segment_id r = ms_id s))"
proof (cases "fs' = fs \<and> res \<noteq> Inr ()")
  case True
  then show ?thesis using assms(1) by simp
next
  case False
  let ?name = "manifest_name (mn_generation m)"
  note unfolded = assms(3) [unfolded manifest_publish_def Let_def]
  obtain seen where pre: "mn_generation m \<noteq> 0" "mn_segments m \<noteq> []" "check_generation io m fs = Inr ()"
      "fold_result (check_segment (pio_read io) fs) (mn_segments m) [] = Inr seen" "pio_create io"
    using unfolded False by (auto split: if_splits sum.splits)
  note segs = checked_segments [OF pre(4), simplified]
  then have "seen = mn_segments m" by blast
  then have ok: "manifest_ok m" using pre(1,2) segs unfolding manifest_ok_def by blast
  have newer: "\<forall>old. cur = Some old \<longrightarrow> mn_generation old < mn_generation m"
    using checked_generation [OF pre(3)] assms(1) by blast
  obtain res1 fs1 where d1: "durable_replace (pio_manifest io) (?name @ ''.tmp'') ?name (encode_manifest m) fs = (res1, fs1)"
    by fastforce
  note c1 = durable_replace_cases [OF d1] and names = manifest_name_ok
  have same1: "fs1 n = fs n" if "n \<noteq> ?name" "n \<noteq> ?name @ ''.tmp''" for n
    using c1 that by auto
  have "fs1 (manifest_name (mn_generation old)) = fs (manifest_name (mn_generation old))" if "cur = Some old" for old
    using newer that names(7) by (intro same1) (auto simp: manifest_name_inj)
  then have hold1: "store_holds fs1 cur"
    using same1 [of "''CURRENT''"] names by (intro store_holds_cong [OF assms(1)]) (auto simp: eq_commute [of "''CURRENT''"])
  show ?thesis
  proof (cases "res1 = Inr () \<and> fault \<noteq> After_manifest_publish")
    case False
    then have "fs' = fs1 \<and> res \<noteq> Inr ()"
      using unfolded pre d1 by (auto split: sum.splits if_splits)
    then show ?thesis using hold1 same1 by (auto simp: metadata_names_def)
  next
    case True
    then have d2: "durable_replace (pio_current io) ''CURRENT.tmp'' ''CURRENT'' (encode_current ?name) fs1 = (res, fs')"
      using unfolded pre d1 by simp
    note c2 = durable_replace_cases [OF d2, simplified]
    have other: "fs' n = fs n" if "n \<notin> metadata_names (mn_generation m)" for n
      using c2 same1 [of n] that by (auto simp: metadata_names_def)
    from c2 show ?thesis
    proof (elim disjE)
      assume fail: "(\<forall>n. n \<noteq> ''CURRENT.tmp'' \<longrightarrow> fs' n = fs1 n) \<and> res \<noteq> Inr ()"
      then have "store_holds fs' cur" using names by (intro store_holds_cong [OF hold1]) auto
      with fail other show ?thesis by blast
    next
      assume published: "(\<forall>n. n \<noteq> ''CURRENT.tmp'' \<longrightarrow> fs' n = (if n = ''CURRENT'' then Some (encode_current ?name) else fs1 n)) \<and>
          res = man_sync ''directory'' (rpio_directory (pio_current io))"
      have "fs1 ?name = Some (encode_manifest m)" using c1 True names(7) by auto
      then have "store_holds fs' (Some m)" using published ok assms(2) names by simp
      with published other newer segs show ?thesis by blast
    qed
  qed
qed

lemma opened_segments:
  assumes "\<forall>s \<in> set segs. \<exists>r. segment_open Open_ok limits (fs (ms_filename s)) = Inr r \<and> sgr_segment_id r = ms_id s"
  shows "\<exists>rs. fold_result (open_segment (\<lambda>_. Open_ok) limits fs) segs readers = Inr (readers @ rs) \<and>
    map sgr_segment_id rs = map ms_id segs"
  using assms
proof (induction segs arbitrary: readers)
  case (Cons s segs)
  then obtain r where r: "segment_open Open_ok limits (fs (ms_filename s)) = Inr r" "sgr_segment_id r = ms_id s" by auto
  obtain rs where "fold_result (open_segment (\<lambda>_. Open_ok) limits fs) segs (readers @ [r]) = Inr ((readers @ [r]) @ rs)"
      "map sgr_segment_id rs = map ms_id segs"
    using Cons by (metis list.set_intros(2))
  moreover have "open_segment (\<lambda>_. Open_ok) limits fs s readers = Inr (readers @ [r])"
    using r by (simp add: open_segment_def)
  ultimately show ?case using r by (intro exI [of _ "r # rs"]) simp
qed simp

section \<open>Publishing\<close>

text \<open>
  C22: publishing a generation is atomic and monotone. Let the directory hold a generation, or none, and
  publish a manifest within the limits of the reader. Whatever the operating system answers, and
  with the injected failure too, no file changes but the manifest's, \<^verbatim>\<open>CURRENT\<close> and their temporary
  ones, and afterwards the directory either still holds the old generation, and an error is reported,
  or holds the new one, whose number is greater than the old one's. When it holds the new one, the result is that of
  the last synchronisation of the directory, and, unless a segment has the name of one of the metadata files,
  the generation opens with a reader for each of its segments, in their order.
\<close>

theorem publish_atomic:
  assumes "store_holds fs cur" and "manifest_fits m" and "manifest_publish io m fault fs = (res, fs')"
  shows "(\<forall>n. n \<notin> metadata_names (mn_generation m) \<longrightarrow> fs' n = fs n) \<and>
    (store_holds fs' cur \<and> res \<noteq> Inr () \<or>
     store_holds fs' (Some m) \<and> res = man_sync ''directory'' (rpio_directory (pio_current io)) \<and>
     (\<forall>old. cur = Some old \<longrightarrow> mn_generation old < mn_generation m) \<and>
     (ms_filename ` set (mn_segments m) \<inter> metadata_names (mn_generation m) = {} \<longrightarrow>
       (\<exists>g. open_current (\<lambda>_. Open_ok) default_read_limits fs' = Inr g \<and> og_manifest g = m \<and>
         map sgr_segment_id (og_segments g) = map ms_id (mn_segments m))))"
proof -
  have "\<exists>g. open_current (\<lambda>_. Open_ok) default_read_limits fs' = Inr g \<and> og_manifest g = m \<and>
      map sgr_segment_id (og_segments g) = map ms_id (mn_segments m)"
    if held: "store_holds fs' (Some m)" and same: "\<forall>n. n \<notin> metadata_names (mn_generation m) \<longrightarrow> fs' n = fs n"
      and segs: "\<forall>s \<in> set (mn_segments m). \<exists>r. segment_open Open_ok default_read_limits (fs (ms_filename s)) = Inr r \<and>
        sgr_segment_id r = ms_id s"
      and apart: "ms_filename ` set (mn_segments m) \<inter> metadata_names (mn_generation m) = {}"
  proof -
    have "\<forall>s \<in> set (mn_segments m). fs' (ms_filename s) = fs (ms_filename s)" using same apart by blast
    with segs have "\<forall>s \<in> set (mn_segments m). \<exists>r. segment_open Open_ok default_read_limits (fs' (ms_filename s)) = Inr r \<and>
        sgr_segment_id r = ms_id s" by simp
    from opened_segments [OF this, of "[]"] load_held_io(1) [OF held] show ?thesis
      by (auto simp: open_current_def)
  qed
  with publish_cases [OF assms] show ?thesis by blast
qed

definition ex_manifest :: index_manifest where
  "ex_manifest = \<lparr>mn_generation = 1, mn_segments = [\<lparr>ms_id = 7, ms_filename = ''s''\<rparr>]\<rparr>"

definition ex_replace_io :: replace_io where
  "ex_replace_io = \<lparr>rpio_create = True, rpio_write = None, rpio_sync = Path_synced, rpio_rename = None,
     rpio_directory = Path_synced\<rparr>"

definition ex_publish_io :: publish_io where
  "ex_publish_io = \<lparr>pio_exists_error = None, pio_read = (\<lambda>_. Open_ok), pio_create = True, pio_manifest = ex_replace_io,
     pio_current = ex_replace_io\<rparr>"

theorem publish_atomic_witness:
  "\<exists>fs'. manifest_publish ex_publish_io ex_manifest No_fault [''s'' \<mapsto> ex_segment] = (Inr (), fs') \<and>
     store_holds fs' (Some ex_manifest) \<and>
     (\<exists>g. open_current (\<lambda>_. Open_ok) default_read_limits fs' = Inr g \<and> og_manifest g = ex_manifest \<and>
       map sgr_segment_id (og_segments g) = [7])"
proof -
  have fits: "manifest_fits ex_manifest"
    by (simp add: manifest_fits_def ex_manifest_def encode_manifest_def maximum_segments_def maximum_manifest_bytes_def
        put_manifest_segment_def put_text_def length_header Let_def)
  have letter: "backslash \<noteq> CHR ''s''" by code_simp
  have seven: "sgr_segment_id (reader_of 7 ex_index) = 7" by (simp add: reader_of_def)
  obtain res fs' where run: "manifest_publish ex_publish_io ex_manifest No_fault [''s'' \<mapsto> ex_segment] = (res, fs')"
    by fastforce
  have "fold_result (check_segment (\<lambda>_. Open_ok) [''s'' \<mapsto> ex_segment]) (mn_segments ex_manifest) [] = Inr (mn_segments ex_manifest)"
    using ex_opened seven letter by (simp add: ex_manifest_def check_segment_def bad_segment_def is_absolute_def)
  moreover have "check_generation ex_publish_io ex_manifest [''s'' \<mapsto> ex_segment] = Inr ()"
    by (simp add: check_generation_def ex_publish_io_def)
  moreover have "durable_replace ex_replace_io a b bs fs = (Inr (), fs(a := None, b \<mapsto> bs))" for a b bs fs
    by (simp add: durable_replace_def ex_replace_io_def)
  moreover have "mn_generation ex_manifest \<noteq> 0" "mn_segments ex_manifest \<noteq> []" by (simp_all add: ex_manifest_def)
  ultimately have "res = Inr ()"
    using run by (simp add: manifest_publish_def Let_def) (simp add: ex_publish_io_def Let_def)
  moreover have "ms_filename ` set (mn_segments ex_manifest) \<inter> metadata_names (mn_generation ex_manifest) = {}"
    by (simp add: ex_manifest_def metadata_names_def manifest_name_def)
  ultimately show ?thesis
    using publish_atomic [OF _ fits run, of None] run by (auto simp: ex_manifest_def)
qed

end
