(* ===== verification/Generation.thy ===== *)
theory Generation
  imports Manifest_Properties
begin

text \<open>
  Generations: \<^verbatim>\<open>src/storage/generation.cpp\<close>. A \<^verbatim>\<open>GenerationView\<close> resolves the segments of a generation to
  the newest version of each document, tombstones included, and rebuilds an in-memory index from them;
  \<^verbatim>\<open>SegmentMerger\<close> writes the resolved documents of some segments as one segment.

  A mutation of the index can dereference a null analyzer (theory \<open>Index\<close>), which is \<open>Gen_crashed\<close> here.
\<close>

datatype generation_error_code = Empty_generation | Schema_mismatch | Gen_invalid_document | Gen_segment_error

record generation_error =
  gne_code :: generation_error_code
  gne_message :: string

datatype generation_fault = Gen_failed generation_error | Gen_crashed

definition gen_fail :: "generation_error_code \<Rightarrow> string \<Rightarrow> generation_fault" where
  "gen_fail code message = Gen_failed \<lparr>gne_code = code, gne_message = message\<rparr>"

section \<open>Schemas\<close>

definition same_field :: "field_definition \<Rightarrow> field_definition \<Rightarrow> bool" where
  "same_field x y \<longleftrightarrow>
     (if fd_name x \<noteq> fd_name y \<or> fd_type x \<noteq> fd_type y \<or> fd_indexed x \<noteq> fd_indexed y \<or> fd_stored x \<noteq> fd_stored y \<or>
         \<not> fp_eq (fd_boost x) (fd_boost y) then False
      else case (fd_analyzer x, fd_analyzer y) of
             (None, None) \<Rightarrow> True
           | (Some a, Some b) \<Rightarrow> descriptor a = descriptor b
           | _ \<Rightarrow> False)"

definition same_schema :: "schema \<Rightarrow> schema \<Rightarrow> bool" where
  "same_schema left right \<longleftrightarrow>
     length left = length right \<and> list_all (\<lambda>(a, b). same_field (snd a) (snd b)) (zip left right)"

section \<open>Resolution\<close>

type_synonym winners = "(document_id, document) omap"

definition resolve_record :: "document_id \<times> document_record \<Rightarrow> winners \<Rightarrow> (generation_fault, winners) result" where
  "resolve_record = (\<lambda>(did, r) winners.
     case map_of winners did of
       None \<Rightarrow> Inr (om_assign did (dr_document r) winners)
     | Some found \<Rightarrow>
         if doc_version (dr_document r) > doc_version found then Inr (om_assign did (dr_document r) winners)
         else if doc_version (dr_document r) = doc_version found \<and> doc_deleted (dr_document r) \<noteq> doc_deleted found
         then Inl (gen_fail Gen_invalid_document ''conflicting equal document versions'')
         else Inr winners)"

definition resolve_segment :: "schema \<Rightarrow> segment_reader \<Rightarrow> winners \<Rightarrow> (generation_fault, winners) result" where
  "resolve_segment schema segment winners =
     (if \<not> same_schema (sgr_schema segment) schema then Inl (gen_fail Schema_mismatch ''segment schemas differ'')
      else fold_result resolve_record (sgr_documents segment) winners)"

definition insert_winner :: "document_id \<times> document \<Rightarrow> index \<Rightarrow> (generation_fault, index) result" where
  "insert_winner = (\<lambda>(did, document) resolved.
     case index_put resolved document of
       Inl (Rejected e) \<Rightarrow> Inl (gen_fail Gen_invalid_document (ie_message e))
     | Inl Null_dereference \<Rightarrow> Inl Gen_crashed
     | Inr resolved' \<Rightarrow> Inr resolved')"

text \<open>
  The body that \<^verbatim>\<open>GenerationView::open\<close> and \<^verbatim>\<open>SegmentMerger::merge_segments\<close> have in common; they differ in
  the message for an empty list of segments.
\<close>

definition resolve_index :: "string \<Rightarrow> segment_reader list \<Rightarrow> (generation_fault, index) result" where
  "resolve_index empty_message segments =
     (case segments of
        [] \<Rightarrow> Inl (gen_fail Empty_generation empty_message)
      | front # _ \<Rightarrow>
          (let schema = sgr_schema front
           in case fold_result (resolve_segment schema) segments [] of
                Inl e \<Rightarrow> Inl e
              | Inr winners \<Rightarrow> fold_result insert_winner winners (index_new schema (- 1))))"

record generation_view =
  gv_generation :: open_generation
  gv_resolved :: index

definition generation_open :: "open_generation \<Rightarrow> (generation_fault, generation_view) result" where
  "generation_open generation =
     (case resolve_index ''generation has no segments'' (og_segments generation) of
        Inl e \<Rightarrow> Inl e
      | Inr resolved \<Rightarrow> Inr \<lparr>gv_generation = generation, gv_resolved = resolved\<rparr>)"

text \<open>Every method of the search interface is that of the resolved index.\<close>

definition view_of_generation :: "generation_view \<Rightarrow> view" where
  "view_of_generation g = memory_view (gv_resolved g)"

definition generation_snapshot :: "generation_view \<Rightarrow> index_snapshot" where
  "generation_snapshot g = index_snapshot_of (gv_resolved g)"

section \<open>Merging\<close>

definition segment_filename :: "segment_id \<Rightarrow> string" where
  "segment_filename output_id = ''segment-'' @ to_string_nat (unat output_id) @ ''.dseg''"

definition write_merged ::
  "write_io \<Rightarrow> index_snapshot \<Rightarrow> segment_id \<Rightarrow> bool \<Rightarrow> files \<Rightarrow> (generation_fault, manifest_segment) result \<times> files" where
  "write_merged io snapshot output_id compressed fs =
     (let filename = segment_filename output_id
      in case segment_write io filename snapshot \<lparr>wo_segment_id = output_id, wo_compressed_postings = compressed\<rparr> fs of
           (Inl e, fs') \<Rightarrow> (Inl (gen_fail Gen_segment_error (sge_message e)), fs')
         | (Inr _, fs') \<Rightarrow> (Inr \<lparr>ms_id = output_id, ms_filename = filename\<rparr>, fs'))"

definition segment_merge ::
  "write_io \<Rightarrow> generation_view \<Rightarrow> segment_id \<Rightarrow> bool \<Rightarrow> files \<Rightarrow> (generation_fault, manifest_segment) result \<times> files" where
  "segment_merge io generation output_id compressed fs =
     write_merged io (generation_snapshot generation) output_id compressed fs"

definition merge_segments ::
  "write_io \<Rightarrow> segment_reader list \<Rightarrow> segment_id \<Rightarrow> bool \<Rightarrow> files \<Rightarrow>
     (generation_fault, manifest_segment) result \<times> files" where
  "merge_segments io segments output_id compressed fs =
     (case resolve_index ''merge has no segments'' segments of
        Inl e \<Rightarrow> (Inl e, fs)
      | Inr resolved \<Rightarrow> write_merged io (index_snapshot_of resolved) output_id compressed fs)"

end
