(* ===== verification/Index_Writer.thy ===== *)
theory Index_Writer
  imports Generation Write_Ahead_Log "HOL-Library.Product_Lexorder"
begin

text \<open>
  The index writer: \<^verbatim>\<open>src/storage/index_writer.cpp\<close>. Mutations go to an in-memory index and to the
  write-ahead log; full in-memory indexes are frozen, and a worker thread writes each as a segment, publishes a
  new generation and merges small segments; \<^verbatim>\<open>refresh\<close> waits until everything is published and empties the
  log.

  Threads. The members are guarded by \<^verbatim>\<open>mutex_\<close>, which a wait on \<^verbatim>\<open>condition_\<close> releases. A call of a
  client is therefore a sequence of sections from one wait to the next: \<open>call\<close> is the point where a thread
  waits, \<open>ready\<close> the predicate it waits for, and \<open>resume\<close> one section, which returns or waits again. A wait whose predicate already holds
  continues in the same section. Publication and merging are guarded
  by \<^verbatim>\<open>publication_mutex_\<close>; the members and files they use are used by no other section, so each is one
  step. The worker takes a snapshot in one step, publishes it in another and merges in a third; \<^verbatim>\<open>merge_all\<close> is a
  sequence of such steps, and the steps of the threads interleave (\<open>system_step\<close>).

  \<open>iw_files\<close> is the content of the directory; what the operating system answers is a parameter of each step.
\<close>

section \<open>State\<close>

datatype writer_error_code = Wr_index_error | Wr_storage_error | Wr_stale_version | Wr_closed

record writer_error =
  wre_code :: writer_error_code
  wre_message :: string

datatype writer_fault = Wr_failed writer_error | Wr_crashed

record writer_options =
  wo_maximum_buffered :: nat
  wo_maximum_frozen :: nat
  wo_automatic_merge :: nat
  wo_merge_width :: nat
  wo_reclaim :: bool
  wo_compressed :: bool

definition default_writer_options :: writer_options where
  "default_writer_options =
     \<lparr>wo_maximum_buffered = 10000, wo_maximum_frozen = 2, wo_automatic_merge = 8, wo_merge_width = 4,
      wo_reclaim = True, wo_compressed = True\<rparr>"

record index_writer =
  iw_files :: files
  iw_schema :: schema
  iw_options :: writer_options
  iw_active :: index
  iw_manifest :: index_manifest
  iw_versions :: "(document_id, u64) omap"
  iw_buffered :: nat
  iw_next_segment_id :: u64
  iw_frozen :: "index_snapshot list"
  iw_busy :: bool
  iw_refreshing :: bool
  iw_stopping :: bool
  iw_error :: "writer_error option"

record writer_statistics =
  ws_buffered :: nat
  ws_frozen :: nat
  ws_flush_in_progress :: bool
  ws_segments :: nat
  ws_generation :: generation_id

definition wr_error :: "writer_error_code \<Rightarrow> string \<Rightarrow> writer_error" where
  "wr_error code message = \<lparr>wre_code = code, wre_message = message\<rparr>"

abbreviation wr_fail :: "writer_error_code \<Rightarrow> string \<Rightarrow> writer_fault" where
  "wr_fail code message \<equiv> Wr_failed (wr_error code message)"

abbreviation wal_name :: string where
  "wal_name \<equiv> ''WRITE-AHEAD.log''"

definition writer_new :: "schema \<Rightarrow> writer_options \<Rightarrow> files \<Rightarrow> index_writer" where
  "writer_new schema options fs =
     \<lparr>iw_files = fs, iw_schema = schema, iw_options = options, iw_active = index_new schema (- 1),
      iw_manifest = \<lparr>mn_generation = 0, mn_segments = []\<rparr>, iw_versions = [], iw_buffered = 0, iw_next_segment_id = 1,
      iw_frozen = [], iw_busy = False, iw_refreshing = False, iw_stopping = False, iw_error = None\<rparr>"

definition writer_statistics_of :: "index_writer \<Rightarrow> writer_statistics" where
  "writer_statistics_of w =
     \<lparr>ws_buffered = iw_buffered w, ws_frozen = length (iw_frozen w), ws_flush_in_progress = iw_busy w,
      ws_segments = length (mn_segments (iw_manifest w)), ws_generation = mn_generation (iw_manifest w)\<rparr>"

definition writer_generation :: "index_writer \<Rightarrow> generation_id" where
  "writer_generation w = mn_generation (iw_manifest w)"

section \<open>Opening\<close>

definition starts_with :: "string \<Rightarrow> string \<Rightarrow> bool" where
  "starts_with prefix s \<longleftrightarrow> take (length prefix) s = prefix"

definition ends_with :: "string \<Rightarrow> string \<Rightarrow> bool" where
  "ends_with suffix s \<longleftrightarrow> length suffix \<le> length s \<and> drop (length s - length suffix) s = suffix"

text \<open>
  An entry of the directory as the iterator gives it: its name, whether it is a regular file, and the error that
  removing it would give.
\<close>

record dir_entry =
  de_name :: string
  de_regular :: bool
  de_removal :: "string option"

definition obsolete_file :: "index_manifest \<Rightarrow> string \<Rightarrow> bool" where
  "obsolete_file current name \<longleftrightarrow>
     (if ends_with ''.tmp'' name then True
      else if starts_with ''MANIFEST-'' name \<and> name \<noteq> manifest_name (mn_generation current) then True
      else starts_with ''segment-'' name \<and> ends_with ''.dseg'' name \<and> name \<notin> ms_filename ` set (mn_segments current))"

fun cleanup_entries :: "index_manifest \<Rightarrow> dir_entry list \<Rightarrow> files \<Rightarrow> (writer_fault, unit) result \<times> files" where
  "cleanup_entries current [] fs = (Inr (), fs)"
| "cleanup_entries current (e # es) fs =
     (if \<not> de_regular e \<or> \<not> obsolete_file current (de_name e) then cleanup_entries current es fs
      else case de_removal e of
             Some message \<Rightarrow> (Inl (wr_fail Wr_storage_error (''cannot reclaim '' @ de_name e @ '': '' @ message)), fs)
           | None \<Rightarrow> cleanup_entries current es (fs(de_name e := None)))"

definition cleanup_startup_files ::
  "dir_entry list \<Rightarrow> string option \<Rightarrow> index_manifest \<Rightarrow> files \<Rightarrow> (writer_fault, unit) result \<times> files" where
  "cleanup_startup_files entries scan_error current fs =
     (case cleanup_entries current entries fs of
        (Inl e, fs') \<Rightarrow> (Inl e, fs')
      | (Inr _, fs') \<Rightarrow>
          (case scan_error of
             Some message \<Rightarrow> (Inl (wr_fail Wr_storage_error (''cannot scan index directory: '' @ message)), fs')
           | None \<Rightarrow> (Inr (), fs')))"

definition record_version :: "document_id \<times> document_record \<Rightarrow> (document_id, u64) omap \<Rightarrow> (document_id, u64) omap" where
  "record_version = (\<lambda>(did, r) versions. om_assign did (max (om_get 0 versions did) (doc_version (dr_document r))) versions)"

definition adopt_segment :: "segment_reader \<Rightarrow> index_writer \<Rightarrow> (writer_fault, index_writer) result" where
  "adopt_segment segment w =
     (if \<not> same_schema (sgr_schema segment) (iw_schema w)
      then Inl (wr_fail Wr_storage_error ''writer schema differs from persisted schema'')
      else Inr (w\<lparr>iw_next_segment_id := max (iw_next_segment_id w) (sgr_segment_id segment + 1),
                  iw_versions := fold record_version (sgr_documents segment) (iw_versions w)\<rparr>))"

definition restore_logged :: "document \<Rightarrow> index_writer \<Rightarrow> (writer_fault, index_writer) result" where
  "restore_logged d w =
     (if (\<exists>v. map_of (iw_versions w) (doc_id d) = Some v \<and> doc_version d \<le> v) then Inr w
      else case index_put (iw_active w) d of
             Inl (Rejected e) \<Rightarrow> Inl (wr_fail Wr_storage_error (''WAL replay failed: '' @ ie_message e))
           | Inl Null_dereference \<Rightarrow> Inl Wr_crashed
           | Inr active \<Rightarrow>
               Inr (w\<lparr>iw_active := active, iw_versions := om_assign (doc_id d) (doc_version d) (iw_versions w),
                      iw_buffered := iw_buffered w + 1\<rparr>))"

record writer_open_io =
  woi_create :: "string option"
  woi_read :: read_io
  woi_entries :: "dir_entry list"
  woi_scan_error :: "string option"
  woi_replay :: replay_io

definition adopt_current :: "read_io \<Rightarrow> index_writer \<Rightarrow> (writer_fault, index_writer) result" where
  "adopt_current io w =
     (if iw_files w ''CURRENT'' = None then Inr w
      else case open_current io default_read_limits (iw_files w) of
             Inl e \<Rightarrow> Inl (wr_fail Wr_storage_error (mne_message e))
           | Inr opened \<Rightarrow> fold_result adopt_segment (og_segments opened) (w\<lparr>iw_manifest := og_manifest opened\<rparr>))"

definition writer_open ::
  "writer_open_io \<Rightarrow> schema \<Rightarrow> writer_options \<Rightarrow> files \<Rightarrow> (writer_fault, index_writer) result \<times> files" where
  "writer_open io schema options fs =
     (if wo_maximum_buffered options = 0 \<or> wo_maximum_frozen options = 0 \<or> wo_merge_width options < 2 \<or>
         (wo_automatic_merge options \<noteq> 0 \<and> wo_automatic_merge options < 2)
      then (Inl (wr_fail Wr_storage_error ''invalid writer limits''), fs)
      else case woi_create io of
        Some message \<Rightarrow> (Inl (wr_fail Wr_storage_error message), fs)
      | None \<Rightarrow>
          (case adopt_current (woi_read io) (writer_new schema options fs) of
             Inl e \<Rightarrow> (Inl e, fs)
           | Inr w \<Rightarrow>
               (case (if wo_reclaim options
                      then cleanup_startup_files (woi_entries io) (woi_scan_error io) (iw_manifest w) fs
                      else (Inr (), fs)) of
                  (Inl e, fs1) \<Rightarrow> (Inl e, fs1)
                | (Inr _, fs1) \<Rightarrow>
                    (case wal_replay (woi_replay io) default_wal_limits (fs1 wal_name) of
                       (Inl e, log) \<Rightarrow> (Inl (wr_fail Wr_storage_error (we_message e)), fs1(wal_name := log))
                     | (Inr documents, log) \<Rightarrow>
                         (let fs2 = fs1(wal_name := log)
                          in (fold_result restore_logged documents (w\<lparr>iw_files := fs2\<rparr>), fs2))))))"

section \<open>Mutations and refresh\<close>

datatype call =
    Put_call document | Put_capacity document | Put_full
  | Refresh_call | Refresh_capacity | Refresh_idle

datatype section_result = Returns "(writer_fault, unit) result" | Waits call

definition capacity_ready :: "index_writer \<Rightarrow> bool" where
  "capacity_ready w \<longleftrightarrow> iw_error w \<noteq> None \<or> iw_stopping w \<or> length (iw_frozen w) < wo_maximum_frozen (iw_options w)"

definition idle_ready :: "index_writer \<Rightarrow> bool" where
  "idle_ready w \<longleftrightarrow> iw_error w \<noteq> None \<or> (\<not> iw_busy w \<and> iw_frozen w = [])"

text \<open>What \<^verbatim>\<open>wait_for_capacity_locked\<close> returns once its predicate holds.\<close>

definition capacity_error :: "index_writer \<Rightarrow> writer_error option" where
  "capacity_error w =
     (case iw_error w of
        Some e \<Rightarrow> Some e
      | None \<Rightarrow> if iw_stopping w then Some (wr_error Wr_closed ''writer is closed'') else None)"

definition freeze_active :: "index_writer \<Rightarrow> index_writer" where
  "freeze_active w =
     (if iw_buffered w = 0 then w
      else w\<lparr>iw_frozen := iw_frozen w @ [index_snapshot_of (iw_active w)], iw_active := index_new (iw_schema w) (- 1),
             iw_buffered := 0\<rparr>)"

definition put_full :: "index_writer \<Rightarrow> section_result \<times> index_writer" where
  "put_full w =
     (case capacity_error w of
        Some e \<Rightarrow> (Returns (Inl (Wr_failed e)), w)
      | None \<Rightarrow> (Returns (Inr ()), freeze_active w))"

definition put_main :: "append_io \<Rightarrow> document \<Rightarrow> index_writer \<Rightarrow> section_result \<times> index_writer" where
  "put_main io d w =
     (if (\<exists>v. map_of (iw_versions w) (doc_id d) = Some v \<and> doc_version d \<le> v)
      then (Returns (Inl (wr_fail Wr_stale_version ''document version is not newer'')), w)
      else case index_put (iw_active w) d of
        Inl (Rejected e) \<Rightarrow> (Returns (Inl (wr_fail Wr_index_error (ie_message e))), w)
      | Inl Null_dereference \<Rightarrow> (Returns (Inl Wr_crashed), w)
      | Inr active \<Rightarrow>
          (case wal_append io d (iw_files w wal_name) of
             (Inl e, log) \<Rightarrow>
               (let failure = wr_error Wr_storage_error (we_message e)
                in (Returns (Inl (Wr_failed failure)),
                    w\<lparr>iw_active := active, iw_files := (iw_files w)(wal_name := log), iw_error := Some failure\<rparr>))
           | (Inr _, log) \<Rightarrow>
               (let w' = w\<lparr>iw_active := active, iw_files := (iw_files w)(wal_name := log),
                           iw_versions := om_assign (doc_id d) (doc_version d) (iw_versions w),
                           iw_buffered := iw_buffered w + 1\<rparr>
                in if iw_buffered w' < wo_maximum_buffered (iw_options w) then (Returns (Inr ()), w')
                   else if capacity_ready w' then put_full w'
                   else (Waits Put_full, w'))))"

definition put_capacity :: "append_io \<Rightarrow> document \<Rightarrow> index_writer \<Rightarrow> section_result \<times> index_writer" where
  "put_capacity io d w =
     (case capacity_error w of
        Some e \<Rightarrow> (Returns (Inl (Wr_failed e)), w)
      | None \<Rightarrow> put_main io d (freeze_active w))"

definition put_call :: "append_io \<Rightarrow> document \<Rightarrow> index_writer \<Rightarrow> section_result \<times> index_writer" where
  "put_call io d w =
     (case iw_error w of
        Some e \<Rightarrow> (Returns (Inl (Wr_failed e)), w)
      | None \<Rightarrow>
          if iw_stopping w then (Returns (Inl (wr_fail Wr_closed ''writer is closed'')), w)
          else if iw_buffered w \<ge> wo_maximum_buffered (iw_options w)
          then (if capacity_ready w then put_capacity io d w else (Waits (Put_capacity d), w))
          else put_main io d w)"

definition refresh_idle :: "reset_io \<Rightarrow> index_writer \<Rightarrow> section_result \<times> index_writer" where
  "refresh_idle io w =
     (case iw_error w of
        Some e \<Rightarrow> (Returns (Inl (Wr_failed e)), w\<lparr>iw_refreshing := False\<rparr>)
      | None \<Rightarrow>
          (case wal_reset io (iw_files w wal_name) of
             (Inl e, log) \<Rightarrow>
               (let failure = wr_error Wr_storage_error (we_message e)
                in (Returns (Inl (Wr_failed failure)),
                    w\<lparr>iw_files := (iw_files w)(wal_name := log), iw_error := Some failure, iw_refreshing := False\<rparr>))
           | (Inr _, log) \<Rightarrow>
               (Returns (Inr ()), w\<lparr>iw_files := (iw_files w)(wal_name := log), iw_refreshing := False\<rparr>)))"

definition refresh_await :: "reset_io \<Rightarrow> index_writer \<Rightarrow> section_result \<times> index_writer" where
  "refresh_await io w = (if idle_ready w then refresh_idle io w else (Waits Refresh_idle, w))"

definition refresh_capacity :: "reset_io \<Rightarrow> index_writer \<Rightarrow> section_result \<times> index_writer" where
  "refresh_capacity io w =
     (case capacity_error w of
        Some e \<Rightarrow> (Returns (Inl (Wr_failed e)), w\<lparr>iw_refreshing := False\<rparr>)
      | None \<Rightarrow> refresh_await io (freeze_active w))"

definition refresh_call :: "reset_io \<Rightarrow> index_writer \<Rightarrow> section_result \<times> index_writer" where
  "refresh_call io w =
     (case iw_error w of
        Some e \<Rightarrow> (Returns (Inl (Wr_failed e)), w)
      | None \<Rightarrow>
          (let w' = w\<lparr>iw_refreshing := True\<rparr>
           in if iw_buffered w' \<noteq> 0
              then (if capacity_ready w' then refresh_capacity io w' else (Waits Refresh_capacity, w'))
              else refresh_await io w'))"

definition erase_call :: "document_id \<Rightarrow> u64 \<Rightarrow> call" where
  "erase_call did version = Put_call (tombstone did version)"

text \<open>The predicate a thread waits for, and the section it runs then.\<close>

fun ready :: "call \<Rightarrow> index_writer \<Rightarrow> bool" where
  "ready (Put_call d) w \<longleftrightarrow> \<not> iw_refreshing w \<or> iw_error w \<noteq> None \<or> iw_stopping w"
| "ready (Put_capacity d) w \<longleftrightarrow> capacity_ready w"
| "ready Put_full w \<longleftrightarrow> capacity_ready w"
| "ready Refresh_call w \<longleftrightarrow> \<not> iw_refreshing w \<or> iw_error w \<noteq> None"
| "ready Refresh_capacity w \<longleftrightarrow> capacity_ready w"
| "ready Refresh_idle w \<longleftrightarrow> idle_ready w"

fun resume :: "append_io \<Rightarrow> reset_io \<Rightarrow> call \<Rightarrow> index_writer \<Rightarrow> section_result \<times> index_writer" where
  "resume aio rio (Put_call d) w = put_call aio d w"
| "resume aio rio (Put_capacity d) w = put_capacity aio d w"
| "resume aio rio Put_full w = put_full w"
| "resume aio rio Refresh_call w = refresh_call rio w"
| "resume aio rio Refresh_capacity w = refresh_capacity rio w"
| "resume aio rio Refresh_idle w = refresh_idle rio w"

section \<open>Publication and merging\<close>

definition gen_message :: "generation_fault \<Rightarrow> writer_fault" where
  "gen_message f = (case f of Gen_failed e \<Rightarrow> wr_fail Wr_storage_error (gne_message e) | Gen_crashed \<Rightarrow> Wr_crashed)"

record compact_io =
  cio_read :: read_io
  cio_size_error :: "string \<Rightarrow> string option"
  cio_write :: write_io
  cio_publish :: publish_io
  cio_removed :: "string \<Rightarrow> bool"

text \<open>\<^verbatim>\<open>std::filesystem::file_size\<close> of a segment: the number of bytes or the message of the error.\<close>

definition segment_size :: "compact_io \<Rightarrow> files \<Rightarrow> manifest_segment \<Rightarrow> (writer_fault, nat) result" where
  "segment_size io fs s =
     (case (cio_size_error io (ms_filename s), fs (ms_filename s)) of
        (Some message, _) \<Rightarrow> Inl (wr_fail Wr_storage_error message)
      | (None, None) \<Rightarrow> Inl (wr_fail Wr_storage_error ''No such file or directory'')
      | (None, Some bs) \<Rightarrow> Inr (length bs))"

record candidate_segment =
  cs_index :: nat
  cs_bytes :: nat

definition add_candidate ::
  "compact_io \<Rightarrow> files \<Rightarrow> manifest_segment \<Rightarrow> candidate_segment list \<Rightarrow> (writer_fault, candidate_segment list) result" where
  "add_candidate io fs s cs =
     (case segment_size io fs s of
        Inl e \<Rightarrow> Inl e
      | Inr n \<Rightarrow> Inr (cs @ [\<lparr>cs_index = length cs, cs_bytes = n\<rparr>]))"

text \<open>The smallest segments, by size and then position; at most \<^verbatim>\<open>merge_width\<close> of them.\<close>

definition select_segments :: "nat \<Rightarrow> candidate_segment list \<Rightarrow> nat list" where
  "select_segments width cs =
     map cs_index (take (min width (length cs)) (sort_key (\<lambda>c. (cs_bytes c, cs_index c)) cs))"

definition remove_file :: "(string \<Rightarrow> bool) \<Rightarrow> string \<Rightarrow> files \<Rightarrow> files" where
  "remove_file removed name fs = (if removed name then fs(name := None) else fs)"

definition reclaim :: "(string \<Rightarrow> bool) \<Rightarrow> index_manifest \<Rightarrow> index_manifest \<Rightarrow> index_writer \<Rightarrow> index_writer" where
  "reclaim removed obsolete replacement w =
     (if \<not> wo_reclaim (iw_options w) then w
      else let names = filter (\<lambda>n. n \<notin> ms_filename ` set (mn_segments replacement)) (map ms_filename (mn_segments obsolete));
               fs = fold (remove_file removed) names (iw_files w)
           in w\<lparr>iw_files := (if mn_generation obsolete \<noteq> 0 then remove_file removed (manifest_name (mn_generation obsolete)) fs else fs)\<rparr>)"

text \<open>The generation that replaces the selected segments by the merged one, in the order of identifiers.\<close>

definition next_generation :: "index_manifest \<Rightarrow> nat list \<Rightarrow> manifest_segment \<Rightarrow> index_manifest" where
  "next_generation obsolete selected merged =
     \<lparr>mn_generation = mn_generation obsolete + 1,
      mn_segments = sort_key ms_id (nths (mn_segments obsolete) (- set selected) @ [merged])\<rparr>"

definition compact_published :: "compact_io \<Rightarrow> index_writer \<Rightarrow> (writer_fault, unit) result \<times> index_writer" where
  "compact_published io w =
     (let obsolete = iw_manifest w
      in if length (mn_segments obsolete) \<le> 1 then (Inr (), w)
      else case open_current (cio_read io) default_read_limits (iw_files w) of
        Inl e \<Rightarrow> (Inl (wr_fail Wr_storage_error (mne_message e)), w)
      | Inr generation \<Rightarrow>
          (case fold_result (add_candidate io (iw_files w)) (mn_segments obsolete) [] of
             Inl e \<Rightarrow> (Inl e, w)
           | Inr candidates \<Rightarrow>
               (let selected = select_segments (wo_merge_width (iw_options w)) candidates
                in if \<exists>i \<in> set selected. length (og_segments generation) \<le> i then (Inl Wr_crashed, w)
                else let sid = iw_next_segment_id w; w1 = w\<lparr>iw_next_segment_id := sid + 1\<rparr>
                in case merge_segments (cio_write io) (map (\<lambda>i. og_segments generation ! i) selected) sid
                          (wo_compressed (iw_options w)) (iw_files w1) of
                     (Inl e, fs) \<Rightarrow> (Inl (gen_message e), w1\<lparr>iw_files := fs\<rparr>)
                   | (Inr merged, fs) \<Rightarrow>
                       (let m = next_generation obsolete selected merged
                        in case manifest_publish (cio_publish io) m No_fault fs of
                             (Inl e, fs') \<Rightarrow> (Inl (wr_fail Wr_storage_error (mne_message e)), w1\<lparr>iw_files := fs'\<rparr>)
                           | (Inr _, fs') \<Rightarrow>
                               (Inr (), reclaim (cio_removed io) obsolete m (w1\<lparr>iw_files := fs', iw_manifest := m\<rparr>))))))"

record flush_io =
  fio_write :: write_io
  fio_publish :: publish_io
  fio_compact :: compact_io

text \<open>
  \<^verbatim>\<open>publish_snapshot\<close> up to the end of the scope of \<^verbatim>\<open>publication_mutex_\<close>. The result is \<^verbatim>\<open>segment_count\<close>; the automatic
  merge that may follow takes the mutex again and is a step of its own.
\<close>

definition publish_segment :: "flush_io \<Rightarrow> index_snapshot \<Rightarrow> index_writer \<Rightarrow> (writer_fault, nat) result \<times> index_writer" where
  "publish_segment io snapshot w =
     (let sid = iw_next_segment_id w; w1 = w\<lparr>iw_next_segment_id := sid + 1\<rparr>; filename = segment_filename sid;
          m = \<lparr>mn_generation = mn_generation (iw_manifest w) + 1,
               mn_segments = mn_segments (iw_manifest w) @ [\<lparr>ms_id = sid, ms_filename = filename\<rparr>]\<rparr>
      in case segment_write (fio_write io) filename snapshot
                \<lparr>wo_segment_id = sid, wo_compressed_postings = wo_compressed (iw_options w)\<rparr> (iw_files w1) of
           (Inl e, fs) \<Rightarrow> (Inl (wr_fail Wr_storage_error (sge_message e)), w1\<lparr>iw_files := fs\<rparr>)
         | (Inr _, fs) \<Rightarrow>
             (case manifest_publish (fio_publish io) m No_fault fs of
                (Inl e, fs') \<Rightarrow> (Inl (wr_fail Wr_storage_error (mne_message e)), w1\<lparr>iw_files := fs'\<rparr>)
              | (Inr _, fs') \<Rightarrow> (Inr (length (mn_segments m)), w1\<lparr>iw_files := fs', iw_manifest := m\<rparr>)))"

definition automatic_merge :: "nat \<Rightarrow> index_writer \<Rightarrow> bool" where
  "automatic_merge segment_count w \<longleftrightarrow>
     wo_automatic_merge (iw_options w) \<noteq> 0 \<and> segment_count \<ge> wo_automatic_merge (iw_options w)"

text \<open>
  A thread in \<^verbatim>\<open>merge_all\<close>: in the call of \<^verbatim>\<open>refresh\<close>, before the test of the number of segments, before a merge, or
  done. It holds neither mutex between these points.
\<close>

datatype merger =
    Merge_refresh call | Merge_check | Merge_compact | Merge_returned "(writer_error, unit) result" | Merge_crashed

abbreviation merge_all_call :: merger where
  "merge_all_call \<equiv> Merge_refresh Refresh_call"

fun merger_ready :: "merger \<Rightarrow> index_writer \<Rightarrow> bool" where
  "merger_ready (Merge_refresh c) w \<longleftrightarrow> ready c w"
| "merger_ready Merge_check w \<longleftrightarrow> True"
| "merger_ready Merge_compact w \<longleftrightarrow> True"
| "merger_ready _ w \<longleftrightarrow> False"

definition merge_failed :: "writer_fault \<Rightarrow> merger" where
  "merge_failed f = (case f of Wr_failed e \<Rightarrow> Merge_returned (Inl e) | Wr_crashed \<Rightarrow> Merge_crashed)"

fun merger_step :: "append_io \<Rightarrow> reset_io \<Rightarrow> compact_io \<Rightarrow> merger \<Rightarrow> index_writer \<Rightarrow> merger \<times> index_writer" where
  "merger_step aio rio io (Merge_refresh c) w =
     (case resume aio rio c w of
        (Waits c', w') \<Rightarrow> (Merge_refresh c', w')
      | (Returns (Inl f), w') \<Rightarrow> (merge_failed f, w')
      | (Returns (Inr _), w') \<Rightarrow> (Merge_check, w'))"
| "merger_step aio rio io Merge_check w =
     ((if length (mn_segments (iw_manifest w)) \<le> 1 then Merge_returned (Inr ()) else Merge_compact), w)"
| "merger_step aio rio io Merge_compact w =
     (case compact_published io w of (Inl f, w') \<Rightarrow> (merge_failed f, w') | (Inr _, w') \<Rightarrow> (Merge_check, w'))"
| "merger_step aio rio io m w = (m, w)"

section \<open>The worker and the reads\<close>

text \<open>The worker thread: it waits, or it holds a snapshot that it publishes, or it merges after it, or it has returned.\<close>

datatype worker = Worker_waits | Worker_publishes index_snapshot | Worker_compacts | Worker_returned

fun worker_ready :: "worker \<Rightarrow> index_writer \<Rightarrow> bool" where
  "worker_ready Worker_waits w \<longleftrightarrow> iw_stopping w \<or> iw_frozen w \<noteq> []"
| "worker_ready Worker_returned w \<longleftrightarrow> False"
| "worker_ready _ w \<longleftrightarrow> True"

text \<open>The end of a round of the loop, with the result of \<^verbatim>\<open>publish_snapshot\<close>.\<close>

definition worker_finish :: "(writer_fault, unit) result \<times> index_writer \<Rightarrow> worker \<times> index_writer" where
  "worker_finish r =
     (case r of
        (Inl (Wr_failed e), w) \<Rightarrow> (Worker_returned, w\<lparr>iw_busy := False, iw_error := Some e\<rparr>)
      | (Inl Wr_crashed, w) \<Rightarrow> (Worker_returned, w)
      | (Inr _, w) \<Rightarrow> (Worker_waits, w\<lparr>iw_busy := False\<rparr>))"

fun worker_step :: "flush_io \<Rightarrow> worker \<Rightarrow> index_writer \<Rightarrow> worker \<times> index_writer" where
  "worker_step io Worker_waits w =
     (case iw_frozen w of
        [] \<Rightarrow> (Worker_returned, w)
      | snapshot # rest \<Rightarrow> (Worker_publishes snapshot, w\<lparr>iw_frozen := rest, iw_busy := True\<rparr>))"
| "worker_step io (Worker_publishes snapshot) w =
     (case publish_segment io snapshot w of
        (Inl f, w') \<Rightarrow> worker_finish (Inl f, w')
      | (Inr segment_count, w') \<Rightarrow>
          if automatic_merge segment_count w' then (Worker_compacts, w') else worker_finish (Inr (), w'))"
| "worker_step io Worker_compacts w = worker_finish (compact_published (fio_compact io) w)"
| "worker_step io Worker_returned w = (Worker_returned, w)"

definition open_search_view :: "read_io \<Rightarrow> index_writer \<Rightarrow> (writer_fault, generation_view) result" where
  "open_search_view io w =
     (case iw_error w of
        Some e \<Rightarrow> Inl (Wr_failed e)
      | None \<Rightarrow>
          (case open_current io default_read_limits (iw_files w) of
             Inl e \<Rightarrow> Inl (wr_fail Wr_storage_error (mne_message e))
           | Inr generation \<Rightarrow>
               (case generation_open generation of
                  Inl f \<Rightarrow> Inl (gen_message f)
                | Inr view \<Rightarrow> Inr view)))"

text \<open>The destructor refreshes and then asks the worker to return.\<close>

definition writer_stop :: "index_writer \<Rightarrow> index_writer" where
  "writer_stop w = w\<lparr>iw_stopping := True\<rparr>"

section \<open>Threads\<close>

text \<open>
  The writer with its worker, a thread in \<^verbatim>\<open>merge_all\<close>, and the calls of \<^verbatim>\<open>put\<close>, \<^verbatim>\<open>erase\<close> and \<^verbatim>\<open>refresh\<close> that other threads have
  under way. An event is a step of one thread, with the answers of the operating system; an event that is not possible gives \<open>None\<close>.
\<close>

record writer_system =
  sy_writer :: index_writer
  sy_worker :: worker
  sy_merger :: merger
  sy_calls :: "call list"

datatype writer_event =
    Client_puts document | Client_refreshes | Client_resumes nat append_io reset_io
  | Worker_steps flush_io | Merger_steps append_io reset_io compact_io | Destructor_stops

fun system_step :: "writer_event \<Rightarrow> writer_system \<Rightarrow> writer_system option" where
  "system_step (Client_puts d) s = Some (s\<lparr>sy_calls := sy_calls s @ [Put_call d]\<rparr>)"
| "system_step Client_refreshes s = Some (s\<lparr>sy_calls := sy_calls s @ [Refresh_call]\<rparr>)"
| "system_step (Client_resumes i aio rio) s =
     (if i < length (sy_calls s) \<and> ready (sy_calls s ! i) (sy_writer s)
      then (case resume aio rio (sy_calls s ! i) (sy_writer s) of
              (Waits c, w) \<Rightarrow> Some (s\<lparr>sy_writer := w, sy_calls := (sy_calls s)[i := c]\<rparr>)
            | (Returns r, w) \<Rightarrow> Some (s\<lparr>sy_writer := w, sy_calls := take i (sy_calls s) @ drop (i + 1) (sy_calls s)\<rparr>))
      else None)"
| "system_step (Worker_steps io) s =
     (if worker_ready (sy_worker s) (sy_writer s)
      then (case worker_step io (sy_worker s) (sy_writer s) of (k, w) \<Rightarrow> Some (s\<lparr>sy_worker := k, sy_writer := w\<rparr>))
      else None)"
| "system_step (Merger_steps aio rio io) s =
     (if merger_ready (sy_merger s) (sy_writer s)
      then (case merger_step aio rio io (sy_merger s) (sy_writer s) of (m, w) \<Rightarrow> Some (s\<lparr>sy_merger := m, sy_writer := w\<rparr>))
      else None)"
| "system_step Destructor_stops s = Some (s\<lparr>sy_writer := writer_stop (sy_writer s)\<rparr>)"

end
