(* ===== verification/Generation_Properties.thy ===== *)
theory Generation_Properties
  imports Generation Index_Rebuild
begin

text \<open>
  A generation resolves to the newest version of every document, the resolved index is a reachable index
  (so that every property of the index and of the query engine holds for generations), and merging
  segments changes no document that a generation shows.
\<close>

section \<open>What a decoder may return\<close>

definition returns :: "('e, 'a) decoder \<Rightarrow> ('a \<Rightarrow> bool) \<Rightarrow> bool" where
  "returns rd P \<longleftrightarrow> (\<forall>bs x rest. rd bs = Inr (x, rest) \<longrightarrow> P x)"

lemma returnsD: "returns rd P \<Longrightarrow> rd bs = Inr (x, rest) \<Longrightarrow> P x"
  unfolding returns_def by blast

lemma returns_return: "P x \<Longrightarrow> returns (dec_return x) P"
  by (simp add: returns_def dec_return_def)

lemma returns_fail: "returns (dec_fail e) P"
  by (simp add: returns_def dec_fail_def)

lemma returns_bind: "returns rd Q \<Longrightarrow> (\<And>x. Q x \<Longrightarrow> returns (k x) P) \<Longrightarrow> returns (dec_bind rd k) P"
  by (fastforce simp: returns_def dec_bind_def split: sum.splits)

lemma returns_any: "(\<And>x. returns (k x) P) \<Longrightarrow> returns (dec_bind rd k) P"
  by (rule returns_bind [where Q = "\<lambda>_. True"]) (simp_all add: returns_def)

lemma returns_times:
  assumes "P s" and "\<And>s. P s \<Longrightarrow> returns (body s) P"
  shows "returns (dec_times n body s) P"
  using assms(1)
proof (induction n arbitrary: s)
  case (Suc n)
  show ?case unfolding dec_times.simps by (rule returns_bind [OF assms(2) [OF Suc.prems] Suc.IH])
qed (simp add: returns_return)

lemma returns_emplace:
  "om_ok m \<Longrightarrow> returns (let (m', fresh) = om_emplace k v m in if fresh then dec_return m' else dec_fail e) om_ok"
  using om_ok_emplace [of m k v] by (auto simp: split_beta returns_return returns_fail)

lemma returns_string_map: "returns (read_string_map limits maximum) om_ok"
  unfolding read_string_map_def
  by (rule returns_any) (auto simp del: Let_def intro!: returns_times returns_any returns_fail returns_emplace [unfolded Let_def])

lemma returns_record: "returns (read_record limits) (\<lambda>r. document_ok (dr_document r))"
  unfolding read_record_def
  by (rule returns_any, clarsimp, rule returns_bind [OF returns_string_map], rule returns_bind [OF returns_string_map])
    (intro returns_any returns_return, simp add: document_ok_def)

definition records_ok :: "document_records \<Rightarrow> bool" where
  "records_ok m \<longleftrightarrow> om_ok m \<and> (\<forall>(did, r) \<in> set m. document_ok (dr_document r))"

lemma returns_add_record:
  assumes "document_ok (dr_document r)" and "records_ok (fst st)"
  shows "returns (add_record r st) (\<lambda>st. records_ok (fst st))"
proof -
  obtain docs ids where st: "st = (docs, ids)" by fastforce
  have "records_ok (om_assign (doc_id (dr_document r)) r docs)"
    using assms set_om_assign_subset [of "doc_id (dr_document r)" r docs]
    by (auto simp: records_ok_def st om_ok_assign)
  then show ?thesis
    using assms(2) by (auto simp: add_record_def st om_emplace_def Let_def split: option.splits intro: returns_return returns_fail)
qed

lemma opened_sections:
  assumes "segment_open io limits f = Inr s"
  obtains h slices where "read_sections limits h slices = Inr s"
proof -
  obtain bs where "segment_decode limits bs = Inr s"
    using assms by (auto simp: segment_open_def split: open_io.splits option.splits if_splits)
  then show thesis
    by (cases "read_segment_header bs"; cases "read_directory bs") (auto simp: segment_decode_def intro: that)
qed

lemma opened_records:
  assumes "segment_open io limits f = Inr s"
  shows "records_ok (sgr_documents s)" and "\<And>did r. (did, r) \<in> set (sgr_documents s) \<Longrightarrow> doc_id (dr_document r) = did"
proof -
  have "returns (dec_times n (\<lambda>st. dec_bind (read_record limits) (\<lambda>r. add_record r st)) ([], []))
      (\<lambda>st. records_ok (fst st))" for n
    by (rule returns_times, simp add: records_ok_def) (rule returns_bind [OF returns_record returns_add_record])
  then have sec: "returns (dec_bind rd (\<lambda>n. dec_times (unat n) (\<lambda>st. dec_bind (read_record limits) (\<lambda>r. add_record r st)) ([], [])))
      (\<lambda>st. records_ok (fst st))" for rd :: "(segment_error, u64) decoder"
    by (intro returns_any)
  have section_ok: "read_documents_section limits sl = Inr st \<Longrightarrow> records_ok (fst st)" for sl st
    by (auto simp: read_documents_section_def dec_all_def split: sum.splits if_splits dest: returnsD [OF sec])
  obtain h slices where sections: "read_sections limits h slices = Inr s"
    using assms by (rule opened_sections)
  then obtain docs ids where "read_documents_section limits (slices ! 1) = Inr (docs, ids)" "sgr_documents s = docs"
    by (fastforce simp: read_sections_def Let_def split: sum.splits prod.splits)
  with section_ok show "records_ok (sgr_documents s)" by force
  show "doc_id (dr_document r) = did" if "(did, r) \<in> set (sgr_documents s)" for did r
    using opened_segment_validated [OF assms] that by (auto simp: reader_consistent_def)
qed


definition opened :: "segment_reader \<Rightarrow> bool" where
  "opened s \<longleftrightarrow> (\<exists>io limits f. segment_open io limits f = Inr s)"

lemma opened_schema: "opened s \<Longrightarrow> schema_ok (sgr_schema s)"
proof -
  assume "opened s"
  then obtain limits h slices where "read_sections limits h slices = Inr s"
    unfolding opened_def using opened_sections by metis
  then obtain schema where "read_schema limits (slices ! 0) = Inr schema" "sgr_schema s = schema"
    by (fastforce simp: read_sections_def Let_def split: sum.splits prod.splits)
  then show ?thesis
    by (auto simp: read_schema_def split: sum.splits prod.splits if_splits intro: schema_create_ok)
qed

section \<open>Newest versions\<close>

text \<open>\<open>newest_in D x\<close>: \<open>x\<close> is a document of \<open>D\<close> with the greatest version, and \<open>None\<close> when there are none.\<close>

fun newest_in :: "document set \<Rightarrow> document option \<Rightarrow> bool" where
  "newest_in D None \<longleftrightarrow> D = {}"
| "newest_in D (Some d) \<longleftrightarrow> d \<in> D \<and>
     (\<forall>d' \<in> D. doc_version d' \<le> doc_version d \<and> (doc_version d' = doc_version d \<longrightarrow> doc_deleted d' = doc_deleted d))"

definition documents_of :: "segment_reader list \<Rightarrow> document_id \<Rightarrow> document set" where
  "documents_of segments did = {dr_document r | s r. s \<in> set segments \<and> (did, r) \<in> set (sgr_documents s)}"

lemma newest_in_None: "newest_in D x \<Longrightarrow> x = None \<longleftrightarrow> D = {}"
  by (cases x) auto

lemma resolve_record_newest:
  assumes "resolve_record (did, r) w = Inr w'" and "om_ok w" and "\<And>k. newest_in (D k) (map_of w k)"
  shows "om_ok w' \<and> (\<forall>k. newest_in (D k \<union> (if k = did then {dr_document r} else {})) (map_of w' k))"
proof (cases "map_of w did")
  case None
  with assms(1) have w': "w' = om_assign did (dr_document r) w" by (simp add: resolve_record_def)
  have "D did = {}" using assms(3) [of did] None by simp
  with assms(2,3) show ?thesis by (auto simp: w' om_ok_assign)
next
  case (Some d)
  note new = assms(3) [of did, unfolded Some]
  show ?thesis
  proof (cases "doc_version (dr_document r) > doc_version d")
    case True
    with Some assms(1) have "w' = om_assign did (dr_document r) w" by (simp add: resolve_record_def)
    moreover have "newest_in (D did \<union> {dr_document r}) (Some (dr_document r))" using new True by fastforce
    ultimately show ?thesis using assms(2,3) by (auto simp: om_ok_assign)
  next
    case False
    with Some assms(1) have w': "w' = w" "doc_version (dr_document r) = doc_version d \<longrightarrow> doc_deleted (dr_document r) = doc_deleted d"
      by (auto simp: resolve_record_def split: if_splits)
    have "newest_in (D did \<union> {dr_document r}) (Some d)"
      using new False w'(2) unfolding newest_in.simps not_less by blast
    then have "newest_in (D k \<union> (if k = did then {dr_document r} else {})) (map_of w k)" for k
      using assms(3) [of k] Some by (cases "k = did") (simp_all del: newest_in.simps)
    with assms(2) show ?thesis by (simp add: w')
  qed
qed

lemma resolve_records_newest:
  assumes "fold_result resolve_record recs w = Inr w'" and "om_ok w" and "\<And>k. newest_in (D k) (map_of w k)"
  shows "om_ok w' \<and> (\<forall>k. newest_in (D k \<union> {dr_document r | r. (k, r) \<in> set recs}) (map_of w' k))"
  using assms
proof (induction recs arbitrary: w D)
  case (Cons e recs)
  obtain did r where e: "e = (did, r)" by fastforce
  obtain w1 where w1: "resolve_record (did, r) w = Inr w1" "fold_result resolve_record recs w1 = Inr w'"
    using Cons.prems(1) by (auto simp: e split: sum.splits)
  note step = resolve_record_newest [OF w1(1) Cons.prems(2,3)]
  let ?D = "\<lambda>k. D k \<union> (if k = did then {dr_document r} else {})"
  have "?D k \<union> {dr_document r' | r'. (k, r') \<in> set recs} = D k \<union> {dr_document r' | r'. (k, r') \<in> set (e # recs)}" for k
    by (auto simp: e)
  with Cons.IH [OF w1(2), of ?D] step show ?case by simp
qed simp

lemma resolve_segments_newest:
  assumes "fold_result (resolve_segment schema) segs w = Inr w'" and "om_ok w" and "\<And>k. newest_in (D k) (map_of w k)"
  shows "om_ok w' \<and> (\<forall>k. newest_in (D k \<union> documents_of segs k) (map_of w' k))"
  using assms
proof (induction segs arbitrary: w D)
  case (Cons s segs)
  obtain w1 where "resolve_segment schema s w = Inr w1" and w1': "fold_result (resolve_segment schema) segs w1 = Inr w'"
    using Cons.prems(1) by (auto split: sum.splits)
  then have w1: "fold_result resolve_record (sgr_documents s) w = Inr w1"
    by (simp add: resolve_segment_def split: if_splits)
  note step = resolve_records_newest [OF w1 Cons.prems(2,3)]
  let ?D = "\<lambda>k. D k \<union> {dr_document r | r. (k, r) \<in> set (sgr_documents s)}"
  have "?D k \<union> documents_of segs k = D k \<union> documents_of (s # segs) k" for k
    by (auto simp: documents_of_def)
  with Cons.IH [OF w1', of ?D] step show ?case by simp
qed (simp add: documents_of_def)

section \<open>The resolved index\<close>

lemma insert_winner_Inr: "insert_winner (did, d) ix = Inr ix' \<longleftrightarrow> index_put ix d = Inr ix'"
  by (auto simp: insert_winner_def split: sum.splits index_fault.splits)

lemma insert_winners:
  assumes "fold_result insert_winner ws ix = Inr ix'" and "index_reachable schema maximum ix"
    and "\<forall>(did, d) \<in> set ws. doc_id d = did \<and> document_ok d" and "distinct (map fst ws)"
  shows "index_reachable schema maximum ix' \<and> visible ix' = visible ix ++ map_of ws"
  using assms
proof (induction ws arbitrary: ix)
  case (Cons e ws)
  obtain did d where e: "e = (did, d)" by fastforce
  obtain ix1 where ix1: "index_put ix d = Inr ix1" "fold_result insert_winner ws ix1 = Inr ix'"
    using Cons.prems(1) by (auto simp: e insert_winner_Inr split: sum.splits)
  have ok: "doc_id d = did" "document_ok d" using Cons.prems(3) by (auto simp: e)
  have reach: "index_reachable schema maximum ix1"
    by (rule index_reachable.put [OF Cons.prems(2) ok(2) ix1(1)])
  have vis: "visible ix1 = (visible ix)(did \<mapsto> d)"
    using put_visible [OF reachable_inv [OF Cons.prems(2)] ok(2) ix1(1)] ok(1) by simp
  have "did \<notin> dom (map_of ws)" using Cons.prems(4) by (auto simp: e dom_map_of_conv_image_fst)
  then have "(visible ix)(did \<mapsto> d) ++ map_of ws = visible ix ++ map_of (e # ws)"
    by (auto simp: e fun_eq_iff map_add_def split: option.splits)
  moreover have "index_reachable schema maximum ix' \<and> visible ix' = visible ix1 ++ map_of ws"
    using Cons.prems(3,4) by (intro Cons.IH [OF ix1(2) reach]) simp_all
  ultimately show ?case unfolding vis by metis
qed simp

definition readers_ok :: "segment_reader list \<Rightarrow> bool" where
  "readers_ok segs \<longleftrightarrow> (\<forall>s \<in> set segs. \<forall>(did, r) \<in> set (sgr_documents s). doc_id (dr_document r) = did \<and> document_ok (dr_document r))"

lemma resolve_index_newest:
  assumes "resolve_index msg segs = Inr ix" and "readers_ok segs"
  shows "index_reachable (sgr_schema (hd segs)) (- 1) ix \<and> (\<forall>did. newest_in (documents_of segs did) (visible ix did))"
proof -
  obtain ws where ws: "fold_result (resolve_segment (sgr_schema (hd segs))) segs [] = Inr ws"
      "fold_result insert_winner ws (index_new (sgr_schema (hd segs)) (- 1)) = Inr ix"
    using assms(1) by (auto simp: resolve_index_def Let_def split: list.splits sum.splits)
  have new: "om_ok ws" "\<And>k. newest_in (documents_of segs k) (map_of ws k)"
    using resolve_segments_newest [OF ws(1), of "\<lambda>_. {}"] by simp_all
  have "doc_id d = did \<and> document_ok d" if "(did, d) \<in> set ws" for did d
  proof -
    have "map_of ws did = Some d" using that new(1) by (simp add: om_ok_map_of)
    with new(2) [of did] have "d \<in> documents_of segs did" by simp
    with assms(2) show ?thesis by (auto simp: documents_of_def readers_ok_def)
  qed
  then have docs: "\<forall>(did, d) \<in> set ws. doc_id d = did \<and> document_ok d" by blast
  have "visible (index_new schema m) = Map.empty" for schema m
    by (simp add: visible_def index_document_def index_new_def fun_eq_iff)
  with insert_winners [OF ws(2) index_reachable.start docs om_ok_distinct [OF new(1)]] new(2) show ?thesis
    by simp
qed

section \<open>Properties\<close>

lemma map_sum_returns: "map_sum id f x = Inr z \<Longrightarrow> (\<And>y. x = Inr y \<Longrightarrow> z = f y \<Longrightarrow> thesis) \<Longrightarrow> thesis"
  by (cases x) auto

lemma opened_readers: "\<forall>s \<in> set segs. opened s \<Longrightarrow> readers_ok segs"
  using opened_records by (fastforce simp: readers_ok_def opened_def records_ok_def)

lemma open_segments_opened:
  "fold_result (open_segment io limits fs) segs readers = Inr readers' \<Longrightarrow> \<forall>s \<in> set readers. opened s \<Longrightarrow>
    \<forall>s \<in> set readers'. opened s"
proof (induction segs arbitrary: readers)
  case (Cons s segs)
  then obtain r where "segment_open (io (ms_filename s)) limits (fs (ms_filename s)) = Inr r"
      "fold_result (open_segment io limits fs) segs (readers @ [r]) = Inr readers'"
    by (auto simp: open_segment_def [of _ _ _ s] split: sum.splits if_splits)
  then show ?case using Cons.prems(2) by (intro Cons.IH [of "readers @ [r]"]) (auto simp: opened_def)
qed simp

text \<open>
  C23: a generation shows the newest version of every document. Whatever the files of a directory contain, if
  its current generation opens and resolves, the resolved index is one that the mutations of the
  in-memory index can reach, and for every identifier the document it has is one of the documents that
  the segments hold under this identifier, no segment holds a greater version, and the documents of the same
  version are all visible or all deleted. A document that no segment holds is not in the index.
\<close>

theorem generation_newest:
  assumes "open_current io limits fs = Inr g" and "generation_open g = Inr v"
  shows "index_reachable (sgr_schema (hd (og_segments g))) (- 1) (gv_resolved v) \<and>
    (\<forall>did. newest_in (documents_of (og_segments g) did) (visible (gv_resolved v) did))"
proof -
  have "\<forall>s \<in> set (og_segments g). opened s"
    using assms(1) open_segments_opened [of io limits fs _ "[]"]
    by (auto simp: open_current_def split: sum.splits elim!: map_sum_returns)
  moreover have "resolve_index ''generation has no segments'' (og_segments g) = Inr (gv_resolved v)"
    using assms(2) by (auto simp: generation_open_def split: sum.splits)
  ultimately show ?thesis using resolve_index_newest opened_readers by blast
qed

lemma newest_in_merged:
  assumes "newest_in D x" and "newest_in (set_option x \<union> R) y"
  shows "newest_in (D \<union> R) y"
proof (cases x)
  case None
  with assms show ?thesis by simp
next
  case (Some d)
  then obtain e where y: "y = Some e" using assms(2) by (cases y) auto
  note D = assms(1) [unfolded Some newest_in.simps] and R = assms(2) [unfolded Some y newest_in.simps, simplified]
  have "doc_version d' \<le> doc_version e \<and> (doc_version d' = doc_version e \<longrightarrow> doc_deleted d' = doc_deleted e)" if "d' \<in> D" for d'
  proof -
    have "doc_version d' \<le> doc_version d" "doc_version d \<le> doc_version e"
      "doc_version d' = doc_version d \<Longrightarrow> doc_deleted d' = doc_deleted d" "doc_version d = doc_version e \<Longrightarrow> doc_deleted d = doc_deleted e"
      using D R that by blast+
    then show ?thesis using order_trans order_antisym by metis
  qed
  moreover have "e \<in> D \<union> R" using D R by blast
  ultimately show ?thesis using R unfolding y newest_in.simps by blast
qed

text \<open>
  C24: merging keeps the newest versions. Let opened segments resolve to an index whose segment is within the
  limits of the reader, and merge them, with any answers of the operating system under which
  \<^verbatim>\<open>merge_segments\<close> succeeds. Then only the files of the new segment have changed, the new segment opens under the
  identifier that was asked for, and whatever other segments a generation has, a document that is newest
  with the new segment in place of the merged ones is newest with the merged ones.
\<close>

theorem merge_keeps_newest:
  assumes "\<forall>s \<in> set segs. opened s" and "resolve_index ''merge has no segments'' segs = Inr ix"
    and "segment_fits default_read_limits \<lparr>wo_segment_id = sid, wo_compressed_postings = compressed\<rparr> ix"
    and "merge_segments io segs sid compressed fs = (Inr ms, fs')"
  shows "ms = \<lparr>ms_id = sid, ms_filename = segment_filename sid\<rparr> \<and>
    (\<forall>n. n \<noteq> segment_filename sid \<longrightarrow> n \<noteq> segment_filename sid @ ''.tmp'' \<longrightarrow> fs' n = fs n) \<and>
    (\<exists>m. segment_open Open_ok default_read_limits (fs' (segment_filename sid)) = Inr m \<and> sgr_segment_id m = sid \<and>
      segment_view m = memory_view ix \<and>
      (\<forall>rest did x. newest_in (documents_of (m # rest) did) x \<longrightarrow> newest_in (documents_of (segs @ rest) did) x))"
proof -
  let ?o = "\<lparr>wo_segment_id = sid, wo_compressed_postings = compressed\<rparr>"
  have ix: "index_reachable (sgr_schema (hd segs)) (- 1) ix"
    and newest: "\<And>did. newest_in (documents_of segs did) (visible ix did)"
    using resolve_index_newest [OF assms(2) opened_readers [OF assms(1)]] by blast+
  have "segs \<noteq> []" using assms(2) by (auto simp: resolve_index_def)
  then have schema: "schema_ok (sgr_schema (hd segs))" using opened_schema assms(1) by simp
  have run: "segment_write io (segment_filename sid) (index_snapshot_of ix) ?o fs = (Inr (), fs')"
    and ms: "ms = \<lparr>ms_id = sid, ms_filename = segment_filename sid\<rparr>"
    using assms(2,4) by (auto simp: merge_segments_def write_merged_def Let_def split: prod.splits sum.splits)
  from run have written: "fs' (segment_filename sid) = Some (segment_bytes (index_snapshot_of ix) ?o)"
    and others: "\<forall>n. n \<noteq> segment_filename sid \<longrightarrow> n \<noteq> segment_filename sid @ ''.tmp'' \<longrightarrow> fs' n = fs n"
    and sid: "sid \<noteq> 0"
    by (auto simp: segment_write_def Let_def split: if_splits option.splits sum.splits)
  have open': "segment_open Open_ok default_read_limits (fs' (segment_filename sid)) = Inr (reader_of sid ix)"
    using open_written [OF ix schema assms(3)] sid written by simp
  have docs: "documents_of (reader_of sid ix # rest) did = set_option (visible ix did) \<union> documents_of rest did" for rest did
  proof -
    have "om_ok (ix_documents ix)" using index_invD(1) [OF reachable_inv [OF ix]] by (simp add: documents_inv_def)
    then have "{dr_document r | r. (did, r) \<in> set (ix_documents ix)} = set_option (visible ix did)"
      by (auto simp: visible_def index_document_def om_ok_map_of)
    then show ?thesis by (force simp: documents_of_def)
  qed
  have "documents_of (segs @ rest) did = documents_of segs did \<union> documents_of rest did" for rest did
    by (auto simp: documents_of_def)
  then have "newest_in (documents_of (segs @ rest) did) x" if "newest_in (documents_of (reader_of sid ix # rest) did) x" for rest did x
    using newest_in_merged [OF newest that [unfolded docs]] by simp
  with ms others open' show ?thesis
    by (intro conjI exI [of _ "reader_of sid ix"]) (simp_all add: segment_view_reader_of)
qed

section \<open>The properties at a concrete generation\<close>

definition ex_store :: files where
  "ex_store = [''CURRENT'' \<mapsto> encode_current (manifest_name 1), manifest_name 1 \<mapsto> encode_manifest ex_manifest,
     ''s'' \<mapsto> ex_segment]"

definition ex_generation :: open_generation where
  "ex_generation = \<lparr>og_manifest = ex_manifest, og_segments = [reader_of 7 ex_index]\<rparr>"

definition ex_resolved :: index where
  "ex_resolved = ex_index\<lparr>ix_maximum_internal_id := - 1\<rparr>"

lemma ex_manifest_ok: "manifest_ok ex_manifest" "manifest_fits ex_manifest"
proof -
  have "backslash \<noteq> CHR ''s''" by code_simp
  then show "manifest_ok ex_manifest" by (simp add: manifest_ok_def ex_manifest_def segment_ok_def)
  show "manifest_fits ex_manifest"
    by (simp add: manifest_fits_def ex_manifest_def encode_manifest_def maximum_segments_def maximum_manifest_bytes_def
        put_manifest_segment_def put_text_def length_header Let_def)
qed

lemma ex_open_current: "open_current (\<lambda>_. Open_ok) default_read_limits ex_store = Inr ex_generation"
proof -
  have gen: "mn_generation ex_manifest = 1" and segs: "mn_segments ex_manifest = [\<lparr>ms_id = 7, ms_filename = ''s''\<rparr>]"
    by (simp_all add: ex_manifest_def)
  have "manifest_name 1 \<noteq> ''CURRENT''" "manifest_name 1 \<noteq> ''s''" by (simp_all add: manifest_name_def)
  then have "store_holds ex_store (Some ex_manifest)"
    using ex_manifest_ok by (simp add: ex_store_def gen)
  then have "load_current (\<lambda>_. Open_ok) ex_store = Inr ex_manifest" by (rule load_held_io)
  moreover have "ex_store ''s'' = Some ex_segment" by (simp add: ex_store_def)
  ultimately show ?thesis
    by (simp add: open_current_def segs open_segment_def ex_opened ex_generation_def)
qed

lemma ex_same_schema: "same_schema ex_schema ex_schema"
  by code_simp

lemma ex_put_resolved: "index_put (index_new ex_schema (- 1)) ex_document = Inr ex_resolved"
  by (simp add: index_put_def index_new_def stale_def validate_document_def schema_find_def
      allocate_def prepare_def Let_def ex_schema_def ex_document_def ex_analyze validate_value_def
      prepare_field_def om_get_def publish_def ex_index_def ex_resolved_def del: analyze.simps)

lemma ex_resolve: "resolve_index msg [reader_of 7 ex_index] = Inr ex_resolved"
proof -
  have "ix_schema ex_index = ex_schema" "doc_id ex_document = ''d''"
    "ix_documents ex_index = [(''d'', \<lparr>dr_internal_id = 1, dr_document = ex_document,
         dr_field_lengths = [(''body'', 3)], dr_indexed_terms = [(''body'', [''a'', ''b''])]\<rparr>)]"
    by (simp_all add: ex_index_def ex_document_def)
  then show ?thesis
    using ex_put_resolved
    by (simp add: resolve_index_def resolve_segment_def ex_same_schema resolve_record_def insert_winner_def)
qed

lemma ex_generation_open: "generation_open ex_generation = Inr \<lparr>gv_generation = ex_generation, gv_resolved = ex_resolved\<rparr>"
  by (simp add: generation_open_def ex_generation_def ex_resolve)

theorem generation_newest_witness:
  "open_current (\<lambda>_. Open_ok) default_read_limits ex_store = Inr ex_generation \<and>
   generation_open ex_generation = Inr \<lparr>gv_generation = ex_generation, gv_resolved = ex_resolved\<rparr> \<and>
   newest_in (documents_of [reader_of 7 ex_index] ''d'') (Some ex_document)"
proof -
  have "visible ex_resolved ''d'' = Some ex_document"
    by (simp add: visible_def index_document_def ex_resolved_def ex_index_def)
  with generation_newest [OF ex_open_current ex_generation_open] ex_open_current ex_generation_open show ?thesis
    by (simp add: ex_generation_def del: newest_in.simps) metis
qed

lemma ex_resolved_same: "index_snapshot_of ex_resolved = index_snapshot_of ex_index"
  by (simp add: index_snapshot_of_def ex_resolved_def)

lemma ex_resolved_fits: "segment_fits default_read_limits ex_write_options ex_resolved"
  using ex_fits by (simp add: segment_fits_def ex_resolved_same) (simp add: ex_resolved_def)

theorem merge_keeps_newest_witness:
  "\<exists>fs' m. opened (reader_of 7 ex_index) \<and>
     merge_segments ex_write_io [reader_of 7 ex_index] 7 False (\<lambda>_. None) =
       (Inr \<lparr>ms_id = 7, ms_filename = segment_filename 7\<rparr>, fs') \<and>
     segment_open Open_ok default_read_limits (fs' (segment_filename 7)) = Inr m \<and> segment_view m = memory_view ex_resolved"
proof -
  have op: "opened (reader_of 7 ex_index)" using ex_opened by (auto simp: opened_def)
  let ?o = "\<lparr>wo_segment_id = 7, wo_compressed_postings = False\<rparr> :: segment_write_options"
  have o: "?o = ex_write_options" by (simp add: ex_write_options_def)
  have "segment_filename 7 \<noteq> []" by (simp add: segment_filename_def)
  then have "\<exists>fs'. segment_write ex_write_io (segment_filename 7) (index_snapshot_of ex_resolved) ?o (\<lambda>_. None) = (Inr (), fs')"
    using ex_opened unfolding ex_resolved_same o
    by (simp add: segment_write_def ex_write_io_def sync_path_def Let_def ex_write_options_def
        flip: ex_segment_def [unfolded ex_write_options_def])
  then obtain fs' where run: "merge_segments ex_write_io [reader_of 7 ex_index] 7 False (\<lambda>_. None) =
      (Inr \<lparr>ms_id = 7, ms_filename = segment_filename 7\<rparr>, fs')"
    by (auto simp: merge_segments_def ex_resolve write_merged_def Let_def)
  from merge_keeps_newest [OF _ ex_resolve _ run] ex_resolved_fits op run show ?thesis
    unfolding o by fastforce
qed

end
