(* ===== verification/Writer_Properties.thy ===== *)
theory Writer_Properties
  imports Index_Writer Generation_Properties "HOL-Library.Multiset"
begin

text \<open>Properties of the index writer: the segments a merge selects, the number of segments of the generation it
  publishes, and how many steps the loop of \<^verbatim>\<open>merge_all\<close> makes among the steps of other threads.\<close>

section \<open>Merging terminates\<close>

lemma candidates_index:
  "fold_result (add_candidate io fs) segs cs = Inr cs' \<Longrightarrow> map cs_index cs = [0..<length cs] \<Longrightarrow>
    map cs_index cs' = [0..<length cs + length segs]"
proof (induction segs arbitrary: cs)
  case (Cons s segs)
  from Cons.prems(1) obtain n where n: "segment_size io fs s = Inr n"
      "fold_result (add_candidate io fs) segs (cs @ [\<lparr>cs_index = length cs, cs_bytes = n\<rparr>]) = Inr cs'"
    by (cases "segment_size io fs s") (simp_all add: add_candidate_def [of io fs s])
  from Cons.IH [OF n(2)] Cons.prems(2) show ?case by simp
qed simp

lemma select_segments_ok:
  assumes "map cs_index cs = [0..<length cs]"
  shows "distinct (select_segments width cs)" and "set (select_segments width cs) \<subseteq> {..<length cs}"
    and "length (select_segments width cs) = min width (length cs)"
proof -
  let ?s = "sort_key (\<lambda>c. (cs_bytes c, cs_index c)) cs"
  have m: "mset (map cs_index ?s) = mset (map cs_index cs)" by simp
  have "distinct (map cs_index cs)" "set (map cs_index cs) = {..<length cs}" unfolding assms by auto
  then have s: "distinct (map cs_index ?s)" "set (map cs_index ?s) = {..<length cs}"
    using mset_eq_imp_distinct_iff [OF m] mset_eq_setD [OF m] by simp_all
  have sel: "select_segments width cs = take (min width (length cs)) (map cs_index ?s)"
    by (simp add: select_segments_def take_map)
  show "distinct (select_segments width cs)" unfolding sel using s(1) by (rule distinct_take)
  show "set (select_segments width cs) \<subseteq> {..<length cs}" unfolding sel using s(2) set_take_subset by metis
  show "length (select_segments width cs) = min width (length cs)" unfolding sel by simp
qed

lemma next_generation_length:
  assumes "distinct selected" and "set selected \<subseteq> {..<length (mn_segments m)}"
  shows "length (mn_segments (next_generation m selected merged)) = Suc (length (mn_segments m) - length selected)"
proof -
  have "{i. i < length (mn_segments m) \<and> i \<in> - set selected} = {..<length (mn_segments m)} - set selected" by auto
  then have "card {i. i < length (mn_segments m) \<and> i \<in> - set selected} = length (mn_segments m) - length selected"
    using assms by (simp add: card_Diff_subset distinct_card)
  then show ?thesis by (simp add: next_generation_def length_nths)
qed

lemma reclaim_simps [simp]:
  "iw_options (reclaim removed old new w) = iw_options w" "iw_manifest (reclaim removed old new w) = iw_manifest w"
  by (simp_all add: reclaim_def Let_def)

lemma compact_Inr:
  assumes "compact_published io w = (Inr (), w')" and "length (mn_segments (iw_manifest w)) > 1"
  obtains generation candidates selected merged fs fs' where
    "open_current (cio_read io) default_read_limits (iw_files w) = Inr generation"
    "fold_result (add_candidate io (iw_files w)) (mn_segments (iw_manifest w)) [] = Inr candidates"
    "selected = select_segments (wo_merge_width (iw_options w)) candidates"
    "\<forall>i \<in> set selected. i < length (og_segments generation)"
    "merge_segments (cio_write io) (map (\<lambda>i. og_segments generation ! i) selected) (iw_next_segment_id w)
       (wo_compressed (iw_options w)) (iw_files w) = (Inr merged, fs)"
    "manifest_publish (cio_publish io) (next_generation (iw_manifest w) selected merged) No_fault fs = (Inr (), fs')"
    "w' = reclaim (cio_removed io) (iw_manifest w) (next_generation (iw_manifest w) selected merged)
       (w\<lparr>iw_next_segment_id := iw_next_segment_id w + 1, iw_files := fs', iw_manifest := next_generation (iw_manifest w) selected merged\<rparr>)"
proof -
  note run = assms(1) [unfolded compact_published_def Let_def]
  obtain generation where g: "open_current (cio_read io) default_read_limits (iw_files w) = Inr generation"
    using run assms(2) by (cases "open_current (cio_read io) default_read_limits (iw_files w)") simp_all
  obtain candidates where c: "fold_result (add_candidate io (iw_files w)) (mn_segments (iw_manifest w)) [] = Inr candidates"
    using run assms(2) g by (cases "fold_result (add_candidate io (iw_files w)) (mn_segments (iw_manifest w)) []") simp_all
  let ?sel = "select_segments (wo_merge_width (iw_options w)) candidates"
  let ?merge = "merge_segments (cio_write io) (map (\<lambda>i. og_segments generation ! i) ?sel) (iw_next_segment_id w)
       (wo_compressed (iw_options w)) (iw_files w)"
  have i: "\<not> (\<exists>i \<in> set ?sel. length (og_segments generation) \<le> i)" using run assms(2) g c by (auto split: if_splits)
  obtain merged fs where m: "?merge = (Inr merged, fs)"
    using run assms(2) g c i by (cases ?merge; cases "fst ?merge") (simp_all split: if_splits)
  let ?pub = "manifest_publish (cio_publish io) (next_generation (iw_manifest w) ?sel merged) No_fault fs"
  obtain fs' where p: "?pub = (Inr (), fs')"
    using run assms(2) g c i m by (cases ?pub; cases "fst ?pub") (simp_all split: if_splits)
  show thesis
    using i run assms(2) by (intro that [OF g c refl _ m p]) (auto simp: not_le g c m p split: if_splits)
qed

lemma compact_shrinks:
  assumes "compact_published io w = (Inr (), w')" and "length (mn_segments (iw_manifest w)) > 1" and "wo_merge_width (iw_options w) \<ge> 2"
  shows "length (mn_segments (iw_manifest w')) < length (mn_segments (iw_manifest w))" and "iw_options w' = iw_options w"
proof -
  from assms(1,2) obtain generation candidates selected merged fs fs' where
    c: "fold_result (add_candidate io (iw_files w)) (mn_segments (iw_manifest w)) [] = Inr candidates"
      "selected = select_segments (wo_merge_width (iw_options w)) candidates"
      "w' = reclaim (cio_removed io) (iw_manifest w) (next_generation (iw_manifest w) selected merged)
       (w\<lparr>iw_next_segment_id := iw_next_segment_id w + 1, iw_files := fs', iw_manifest := next_generation (iw_manifest w) selected merged\<rparr>)"
    by (rule compact_Inr)
  have idx: "map cs_index candidates = [0..<length (mn_segments (iw_manifest w))]" using candidates_index [OF c(1)] by simp
  from arg_cong [OF this, of length] have len: "length candidates = length (mn_segments (iw_manifest w))" by simp
  note sel = select_segments_ok [of candidates "wo_merge_width (iw_options w)", unfolded len, OF idx, folded c(2)]
  show "length (mn_segments (iw_manifest w')) < length (mn_segments (iw_manifest w))"
    using next_generation_length [OF sel(1,2)] sel(3) assms(2,3) by (simp add: c(3))
  show "iw_options w' = iw_options w" by (simp add: c(3))
qed

abbreviation segment_count :: "index_writer \<Rightarrow> nat" where
  "segment_count w \<equiv> length (mn_segments (iw_manifest w))"

lemma compact_failed:
  assumes "compact_published io w = (Inl f, w')"
  shows "iw_manifest w' = iw_manifest w" and "iw_options w' = iw_options w"
  using assms by (auto simp: compact_published_def Let_def split: if_splits sum.splits prod.splits)

lemma compact_counts:
  assumes "compact_published io w = (r, w')" and "wo_merge_width (iw_options w) \<ge> 2"
  shows "segment_count w' \<le> segment_count w" and "r = Inr u \<Longrightarrow> segment_count w' \<le> max 1 (segment_count w - 1)" and "iw_options w' = iw_options w"
proof -
  have small: "w' = w" if "segment_count w \<le> 1" using assms(1) that by (simp add: compact_published_def Let_def)
  show "segment_count w' \<le> segment_count w" "iw_options w' = iw_options w"
    using small compact_failed [of io w _ w'] compact_shrinks [of io w w'] assms by (cases r; force)+
  show "segment_count w' \<le> max 1 (segment_count w - 1)" if "r = Inr u"
    using small compact_shrinks(1) [of io w w'] assms that by (cases "segment_count w \<le> 1") auto
qed

lemma publish_counts:
  assumes "publish_segment io snapshot w = (r, w')"
  shows "segment_count w' \<le> segment_count w + 1" and "iw_options w' = iw_options w"
  using assms by (auto simp: publish_segment_def Let_def split: sum.splits prod.splits)

text \<open>A section of a client changes neither the generation nor the options.\<close>

lemma freeze_keeps [simp]: "iw_manifest (freeze_active w) = iw_manifest w" "iw_options (freeze_active w) = iw_options w"
  by (simp_all add: freeze_active_def)

lemma put_main_keeps:
  "iw_manifest (snd (put_main io d w)) = iw_manifest w" "iw_options (snd (put_main io d w)) = iw_options w"
  by (simp_all add: put_main_def put_full_def Let_def split: sum.split index_fault.split prod.split option.split)

lemma refresh_await_keeps:
  "iw_manifest (snd (refresh_await io w)) = iw_manifest w" "iw_options (snd (refresh_await io w)) = iw_options w"
  by (simp_all add: refresh_await_def refresh_idle_def Let_def split: sum.split prod.split option.split)

lemma resume_keeps:
  "iw_manifest (snd (resume aio rio c w)) = iw_manifest w" "iw_options (snd (resume aio rio c w)) = iw_options w"
  by (cases c; simp add: put_call_def put_capacity_def put_full_def refresh_call_def refresh_capacity_def refresh_idle_def
      put_main_keeps refresh_await_keeps Let_def split: option.split sum.split prod.split)+

lemma worker_finish_keeps:
  "iw_manifest (snd (worker_finish (r, w))) = iw_manifest w" "iw_options (snd (worker_finish (r, w))) = iw_options w"
  by (simp_all add: worker_finish_def split: sum.split writer_fault.split)

definition publishes :: "writer_event \<Rightarrow> writer_system \<Rightarrow> bool" where
  "publishes ev s \<longleftrightarrow> (case (ev, sy_worker s) of (Worker_steps io, Worker_publishes snapshot) \<Rightarrow> True | _ \<Rightarrow> False)"

lemma worker_counts:
  assumes "worker_step io k w = (k', w')" and "wo_merge_width (iw_options w) \<ge> 2"
  shows "segment_count w' \<le> segment_count w + (case k of Worker_publishes snapshot \<Rightarrow> 1 | _ \<Rightarrow> 0)" and "iw_options w' = iw_options w"
proof -
  have "segment_count w' \<le> segment_count w + (case k of Worker_publishes snapshot \<Rightarrow> 1 | _ \<Rightarrow> 0) \<and> iw_options w' = iw_options w"
  proof (cases k)
    case Worker_waits
    with assms(1) show ?thesis by (auto split: list.splits)
  next
    case (Worker_publishes snapshot)
    obtain r w1 where p: "publish_segment io snapshot w = (r, w1)" by fastforce
    have "w' = w1 \<or> (\<exists>x. w' = snd (worker_finish (x, w1)))"
      using assms(1) Worker_publishes p by (auto split: sum.splits if_splits) (metis snd_conv)+
    with publish_counts [OF p] Worker_publishes worker_finish_keeps show ?thesis by auto
  next
    case Worker_compacts
    obtain r w1 where c: "compact_published (fio_compact io) w = (r, w1)" by fastforce
    from compact_counts(1,3) [OF this assms(2)] assms(1) Worker_compacts c worker_finish_keeps [of r w1] show ?thesis by simp
  qed (use assms(1) in simp)
  then show "segment_count w' \<le> segment_count w + (case k of Worker_publishes snapshot \<Rightarrow> 1 | _ \<Rightarrow> 0)" "iw_options w' = iw_options w"
    by simp_all
qed

text \<open>How many steps the loop of \<^verbatim>\<open>merge_all\<close> can still make if nothing is published, by its point and the number of segments.\<close>

fun loop_steps :: "merger \<Rightarrow> nat \<Rightarrow> nat" where
  "loop_steps (Merge_refresh c) n = (if n \<le> 1 then 1 else 2 * n - 1)"
| "loop_steps Merge_check n = (if n \<le> 1 then 1 else 2 * n - 1)"
| "loop_steps Merge_compact n = (if n \<le> 1 then 2 else 2 * n - 2)"
| "loop_steps _ n = 0"

lemma loop_steps_add: "loop_steps m n \<le> loop_steps m (n + 1)" "loop_steps m (n + 1) \<le> loop_steps m n + 2"
  by (cases m; auto)+

lemma loop_steps_mono: "n \<le> n' \<Longrightarrow> loop_steps m n \<le> loop_steps m n'"
  using lift_Suc_mono_le [of "loop_steps m"] loop_steps_add(1) by simp

definition in_loop :: "writer_event \<Rightarrow> writer_system \<Rightarrow> bool" where
  "in_loop ev s \<longleftrightarrow> (\<exists>aio rio io. ev = Merger_steps aio rio io) \<and> sy_merger s \<in> {Merge_check, Merge_compact}"

lemma merger_counts:
  assumes "merger_step aio rio io m w = (m', w')" and "merger_ready m w" and "wo_merge_width (iw_options w) \<ge> 2"
  shows "loop_steps m' (segment_count w') + (if m \<in> {Merge_check, Merge_compact} then 1 else 0) \<le> loop_steps m (segment_count w)"
    and "iw_options w' = iw_options w"
proof -
  have failed: "loop_steps (merge_failed f) n = 0" for f n by (cases f) (simp_all add: merge_failed_def)
  have "loop_steps m' (segment_count w') + (if m \<in> {Merge_check, Merge_compact} then 1 else 0) \<le> loop_steps m (segment_count w) \<and>
      iw_options w' = iw_options w"
  proof (cases m)
    case (Merge_refresh c)
    obtain r w1 where r: "resume aio rio c w = (r, w1)" by fastforce
    with resume_keeps [of aio rio c w] have k: "iw_manifest w1 = iw_manifest w" "iw_options w1 = iw_options w" by simp_all
    show ?thesis
      using assms(1) k by (cases r) (auto simp: Merge_refresh r failed split: sum.splits)
  next
    case Merge_check
    with assms(1) show ?thesis by (auto split: if_splits)
  next
    case Merge_compact
    obtain r w1 where r: "compact_published io w = (r, w1)" by fastforce
    note c = compact_counts [OF r assms(3)]
    show ?thesis
    proof (cases r)
      case (Inr u)
      with assms(1) r have eq: "m' = Merge_check" "w' = w1" by (simp_all add: Merge_compact)
      have "loop_steps Merge_check (segment_count w1) \<le> loop_steps Merge_check (max 1 (segment_count w - 1))"
        by (rule loop_steps_mono [OF c(2) [OF Inr]])
      also have "\<dots> + 1 \<le> loop_steps Merge_compact (segment_count w)"
        by (cases "segment_count w \<le> 1") (auto simp: max_def)
      finally show ?thesis using c(3) by (simp add: eq Merge_compact)
    qed (use assms(1) r c(3) in \<open>auto simp: Merge_compact failed\<close>)
  qed (use assms(2) in simp_all)
  then show "loop_steps m' (segment_count w') + (if m \<in> {Merge_check, Merge_compact} then 1 else 0) \<le> loop_steps m (segment_count w)"
    "iw_options w' = iw_options w" by simp_all
qed

text \<open>
  Runs of the system: any interleaving of the threads, with the number of segments the worker publishes and the number of steps that
  the loop of \<^verbatim>\<open>merge_all\<close> makes.
\<close>

inductive system_runs :: "writer_system \<Rightarrow> nat \<Rightarrow> nat \<Rightarrow> writer_system \<Rightarrow> bool" for s :: writer_system where
  start: "system_runs s 0 0 s"
| step: "system_runs s p made s' \<Longrightarrow> system_step ev s' = Some s'' \<Longrightarrow>
    system_runs s (p + of_bool (publishes ev s')) (made + of_bool (in_loop ev s')) s''"

abbreviation steps_left :: "writer_system \<Rightarrow> nat" where
  "steps_left s \<equiv> loop_steps (sy_merger s) (segment_count (sy_writer s))"

lemma system_step_counts:
  assumes "system_step ev s = Some s'" and "wo_merge_width (iw_options (sy_writer s)) \<ge> 2"
  shows "steps_left s' + of_bool (in_loop ev s) \<le> steps_left s + 2 * of_bool (publishes ev s)"
    and "iw_options (sy_writer s') = iw_options (sy_writer s)"
proof -
  have "steps_left s' + of_bool (in_loop ev s) \<le> steps_left s + 2 * of_bool (publishes ev s) \<and>
      iw_options (sy_writer s') = iw_options (sy_writer s)"
  proof (cases ev)
    case (Client_resumes i aio rio)
    obtain r w where r: "resume aio rio (sy_calls s ! i) (sy_writer s) = (r, w)" by fastforce
    with resume_keeps [of aio rio "sy_calls s ! i" "sy_writer s"]
    have "iw_manifest w = iw_manifest (sy_writer s)" "iw_options w = iw_options (sy_writer s)" by simp_all
    with assms(1) show ?thesis
      by (auto simp: Client_resumes r in_loop_def split: if_splits section_result.splits)
  next
    case (Worker_steps io)
    obtain k w where k: "worker_step io (sy_worker s) (sy_writer s) = (k, w)" by fastforce
    from assms(1) k have eq: "s' = s\<lparr>sy_worker := k, sy_writer := w\<rparr>" by (auto simp: Worker_steps split: if_splits)
    have "segment_count w \<le> segment_count (sy_writer s) + of_bool (publishes ev s)"
      using worker_counts(1) [OF k assms(2)] by (simp add: publishes_def Worker_steps split: worker.splits)
    then have "steps_left s' \<le> loop_steps (sy_merger s) (segment_count (sy_writer s) + of_bool (publishes ev s))"
      by (simp add: eq loop_steps_mono)
    also have "\<dots> \<le> steps_left s + 2 * of_bool (publishes ev s)"
      using loop_steps_add(2) by (cases "publishes ev s") simp_all
    finally show ?thesis using worker_counts(2) [OF k assms(2)] by (simp add: eq in_loop_def Worker_steps)
  next
    case (Merger_steps aio rio io)
    obtain m w where m: "merger_step aio rio io (sy_merger s) (sy_writer s) = (m, w)" by fastforce
    from assms(1) m have r: "merger_ready (sy_merger s) (sy_writer s)" and eq: "s' = s\<lparr>sy_merger := m, sy_writer := w\<rparr>"
      by (auto simp: Merger_steps split: if_splits)
    have "\<not> publishes ev s" and "in_loop ev s \<longleftrightarrow> sy_merger s \<in> {Merge_check, Merge_compact}"
      by (simp_all add: publishes_def in_loop_def Merger_steps)
    with merger_counts [OF m r assms(2)] show ?thesis by (cases "sy_merger s \<in> {Merge_check, Merge_compact}") (simp_all add: eq)
  qed (use assms(1) in \<open>auto simp: in_loop_def writer_stop_def\<close>)
  then show "steps_left s' + of_bool (in_loop ev s) \<le> steps_left s + 2 * of_bool (publishes ev s)"
    "iw_options (sy_writer s') = iw_options (sy_writer s)" by simp_all
qed

lemma system_runs_counts:
  assumes "system_runs s p made s'" and "wo_merge_width (iw_options (sy_writer s)) \<ge> 2"
  shows "made + steps_left s' \<le> steps_left s + 2 * p \<and> iw_options (sy_writer s') = iw_options (sy_writer s)"
  using assms
proof (induction rule: system_runs.induct)
  case (step p made s' ev s'')
  from step.IH [OF step.prems] system_step_counts [OF step.hyps(2)] step.prems show ?case by force
qed simp

text \<open>
  C12: \<^verbatim>\<open>merge_all\<close> ends unless other threads keep publishing. Start a thread in \<^verbatim>\<open>merge_all\<close> with \<open>n\<close> segments published and a merge
  width of at least two, which \<^verbatim>\<open>open\<close> enforces, and let its steps interleave in any way with those of the worker and of any calls of
  \<^verbatim>\<open>put\<close>, \<^verbatim>\<open>erase\<close> and \<^verbatim>\<open>refresh\<close>, whatever the operating system answers. If \<open>p\<close> segments are published meanwhile, the
  loop makes at most \<open>2 (n + p) + 1\<close> tests and merges, after its \<^verbatim>\<open>refresh\<close>; until it has returned it can always make the next one,
  for it waits for nothing. The bound depends on \<open>p\<close>: while others publish a segment for every merge, the loop goes on.
\<close>

theorem merge_all_terminates:
  assumes "system_runs s p made s'" and "sy_merger s = merge_all_call" and "wo_merge_width (iw_options (sy_writer s)) \<ge> 2"
  shows "made \<le> 2 * (segment_count (sy_writer s) + p) + 1 \<and>
    (sy_merger s' \<in> {Merge_check, Merge_compact} \<longrightarrow> (\<forall>aio rio io. \<exists>s''. system_step (Merger_steps aio rio io) s' = Some s''))"
proof -
  have "made \<le> 2 * (segment_count (sy_writer s) + p) + 1"
    using system_runs_counts [OF assms(1,3)] by (auto simp: assms(2) split: if_splits)
  moreover have "\<exists>s''. system_step (Merger_steps aio rio io) s' = Some s''" if "sy_merger s' \<in> {Merge_check, Merge_compact}" for aio rio io
    using that by (auto split: prod.split)
  ultimately show ?thesis by blast
qed

definition ex_writer :: index_writer where
  "ex_writer = (writer_new [] default_writer_options (\<lambda>_. None))
     \<lparr>iw_manifest := \<lparr>mn_generation = 2, mn_segments = [\<lparr>ms_id = 1, ms_filename = ''a''\<rparr>, \<lparr>ms_id = 2, ms_filename = ''b''\<rparr>]\<rparr>\<rparr>"

definition ex_system :: writer_system where
  "ex_system = \<lparr>sy_writer = ex_writer, sy_worker = Worker_waits, sy_merger = merge_all_call, sy_calls = []\<rparr>"

text \<open>The refresh has nothing to write and empties the log; the test finds two segments, and the merge follows.\<close>

theorem merge_all_terminates_witness:
  "\<exists>s'. system_runs ex_system 0 1 s' \<and> sy_merger s' = Merge_compact \<and> (1 :: nat) \<le> 2 * (segment_count (sy_writer ex_system) + 0) + 1 \<and>
     (\<forall>aio rio io. \<exists>s''. system_step (Merger_steps aio rio io) s' = Some s'')"
proof -
  let ?ev = "Merger_steps Append_open_failed (Reset_truncated Sync_ok) io"
  let ?w = "ex_writer\<lparr>iw_files := (iw_files ex_writer)(wal_name := Some []), iw_refreshing := False\<rparr>"
  fix io
  have w: "wo_merge_width (iw_options (sy_writer ex_system)) \<ge> 2"
    by (simp add: ex_system_def ex_writer_def writer_new_def default_writer_options_def)
  have r: "resume Append_open_failed (Reset_truncated Sync_ok) Refresh_call ex_writer = (Returns (Inr ()), ?w)"
    by (simp add: refresh_call_def refresh_await_def refresh_idle_def idle_ready_def wal_reset_def ex_writer_def writer_new_def Let_def)
  have "system_step ?ev ex_system = Some (ex_system\<lparr>sy_merger := Merge_check, sy_writer := ?w\<rparr>)"
    using r by (simp add: ex_system_def) (simp add: ex_writer_def writer_new_def)
  from system_runs.step [OF system_runs.start this]
  have "system_runs ex_system 0 0 (ex_system\<lparr>sy_merger := Merge_check, sy_writer := ?w\<rparr>)"
    by (simp add: publishes_def in_loop_def ex_system_def)
  moreover have "system_step ?ev (ex_system\<lparr>sy_merger := Merge_check, sy_writer := ?w\<rparr>) =
      Some (ex_system\<lparr>sy_merger := Merge_compact, sy_writer := ?w\<rparr>)"
    by (simp add: ex_writer_def)
  ultimately have run: "system_runs ex_system 0 1 (ex_system\<lparr>sy_merger := Merge_compact, sy_writer := ?w\<rparr>)"
    using system_runs.step by (fastforce simp: publishes_def in_loop_def ex_system_def)
  show ?thesis
    using merge_all_terminates [OF run _ w] run by (intro exI conjI) (auto simp: ex_system_def)
qed

section \<open>A put that waits while the log is reset\<close>

text \<open>
  \<^verbatim>\<open>refresh\<close> keeps new calls of \<^verbatim>\<open>put\<close> out, but not one that already waits for capacity. When \<^verbatim>\<open>refresh\<close> has frozen the
  active index and the worker has published everything, such a \<^verbatim>\<open>put\<close> may resume before \<^verbatim>\<open>refresh\<close> does: it logs its
  document and returns successfully, and \<^verbatim>\<open>refresh\<close> then empties the log. Both have succeeded, and the directory holds what it
  held before, with an empty log: a crash loses the document.
\<close>

lemma refresh_erases_acknowledged:
  assumes "iw_error w = None" and "\<not> iw_stopping w" and "iw_frozen w = []" and "\<not> iw_busy w" and "iw_buffered w = 0"
    and "1 < wo_maximum_buffered (iw_options w)" and "0 < wo_maximum_frozen (iw_options w)"
    and "map_of (iw_versions w) (doc_id d) = None" and "index_put (iw_active w) d = Inr active"
    and "wal_append aio d (iw_files w wal_name) = (Inr (), log)"
  shows "ready (Put_capacity d) w \<and> (\<exists>w1 w2. resume aio rio (Put_capacity d) w = (Returns (Inr ()), w1) \<and> ready Refresh_idle w1 \<and>
    resume aio' (Reset_truncated Sync_ok) Refresh_idle w1 = (Returns (Inr ()), w2) \<and>
    iw_files w2 = (iw_files w)(wal_name := Some []) \<and> iw_manifest w2 = iw_manifest w \<and> iw_active w2 = active)"
  using assms
  by (simp add: capacity_ready_def idle_ready_def put_capacity_def capacity_error_def freeze_active_def put_main_def refresh_idle_def
      wal_reset_def Let_def)

end
