(* ===== verification/Shard_Rpc.thy ===== *)
theory Shard_Rpc
  imports Bytes Search_Defaults
begin

text \<open>
  Shard search over a connection: \<^verbatim>\<open>src/distributed/shard_rpc.cpp\<close>. A request and its response are frames: a
  32-bit length and a payload of at most \<^verbatim>\<open>maximum_frame_bytes\<close>. The client sends the query and the
  number of hits it wants, the server parses, searches and sends the hits with the bits of their scores, or a
  message.

  \<open>channel\<close> is a socket as one peer sees it: the bytes that arrive before the deadline, what a read reports that
  needs more than these (the end of the stream, an error of the socket or the deadline), the bytes sent, and whether a
  write fails, after how many bytes and with which error.
\<close>

section \<open>Data\<close>

datatype rpc_error_code = Rpc_io_error | Rpc_timeout | Rpc_disconnected | Rpc_protocol_error | Rpc_resource_limit | Rpc_remote_error

record rpc_error =
  re_code :: rpc_error_code
  re_message :: string

record rpc_limits =
  rl_frame_bytes :: u32
  rl_query_bytes :: u32
  rl_hits :: u32

definition default_rpc_limits :: rpc_limits where
  "default_rpc_limits = \<lparr>rl_frame_bytes = 16 * 2 ^ 20, rl_query_bytes = 2 ^ 20, rl_hits = 100000\<rparr>"

definition rpc_fail :: "rpc_error_code \<Rightarrow> string \<Rightarrow> rpc_error" where
  "rpc_fail code message = \<lparr>re_code = code, re_message = message\<rparr>"

record channel =
  ch_incoming :: bytes
  ch_read_error :: rpc_error
  ch_sent :: bytes
  ch_write_error :: "(nat \<times> rpc_error) option"

section \<open>Encoding\<close>

text \<open>\<^verbatim>\<open>text\<close> writes nothing when the length does not fit 32 bits; its callers ignore its result.\<close>

definition rpc_text :: "string \<Rightarrow> bytes" where
  "rpc_text s = (if length s > 4294967295 then [] else put_u32 (of_nat (length s)) @ text_bytes s)"

definition rpc_string :: "u32 \<Rightarrow> string reader" where
  "rpc_string limit bs =
     (case get_u32 bs of
        None \<Rightarrow> None
      | Some (n, rest) \<Rightarrow>
          if n > limit \<or> unat n > length rest then None
          else Some (bytes_text (take (unat n) rest), drop (unat n) rest))"

section \<open>Frames\<close>

definition transfer_read :: "nat \<Rightarrow> channel \<Rightarrow> (rpc_error, bytes) result \<times> channel" where
  "transfer_read n ch =
     (if n \<le> length (ch_incoming ch) then (Inr (take n (ch_incoming ch)), ch\<lparr>ch_incoming := drop n (ch_incoming ch)\<rparr>)
      else (Inl (ch_read_error ch), ch\<lparr>ch_incoming := []\<rparr>))"

definition transfer_write :: "bytes \<Rightarrow> channel \<Rightarrow> (rpc_error, unit) result \<times> channel" where
  "transfer_write bs ch =
     (case ch_write_error ch of
        None \<Rightarrow> (Inr (), ch\<lparr>ch_sent := ch_sent ch @ bs\<rparr>)
      | Some (n, e) \<Rightarrow>
          if n < length bs then (Inl e, ch\<lparr>ch_sent := ch_sent ch @ take n bs\<rparr>) else (Inr (), ch\<lparr>ch_sent := ch_sent ch @ bs\<rparr>))"

definition receive_frame :: "rpc_limits \<Rightarrow> channel \<Rightarrow> (rpc_error, bytes) result \<times> channel" where
  "receive_frame limits ch =
     (case transfer_read 4 ch of
        (Inl e, ch') \<Rightarrow> (Inl e, ch')
      | (Inr header, ch') \<Rightarrow>
          (case get_u32 header of
             None \<Rightarrow> (Inl (rpc_fail Rpc_resource_limit ''RPC frame exceeds limit''), ch')
           | Some (n, _) \<Rightarrow>
               if n > rl_frame_bytes limits then (Inl (rpc_fail Rpc_resource_limit ''RPC frame exceeds limit''), ch')
               else transfer_read (unat n) ch'))"

definition send_frame :: "rpc_limits \<Rightarrow> bytes \<Rightarrow> channel \<Rightarrow> (rpc_error, unit) result \<times> channel" where
  "send_frame limits payload ch =
     (if length payload > unat (rl_frame_bytes limits)
      then (Inl (rpc_fail Rpc_resource_limit ''RPC frame exceeds limit''), ch)
      else transfer_write (put_u32 (of_nat (length payload)) @ payload) ch)"

section \<open>The client\<close>

definition encode_request :: "string \<Rightarrow> nat \<Rightarrow> bytes" where
  "encode_request q top_k = [1] @ put_u64 (of_nat top_k) @ rpc_text q"

definition read_hit :: "rpc_limits \<Rightarrow> scored_document reader" where
  "read_hit limits bs =
     (case rpc_string (rl_frame_bytes limits) bs of
        None \<Rightarrow> None
      | Some (did, rest) \<Rightarrow>
          (case get_u64 rest of
             None \<Rightarrow> None
           | Some (bits, rest') \<Rightarrow> Some (\<lparr>sd_id = did, sd_score = bits\<rparr>, rest')))"

text \<open>The part of \<^verbatim>\<open>search\<close> that reads a response with status 0.\<close>

definition decode_hits :: "rpc_limits \<Rightarrow> bytes \<Rightarrow> (rpc_error, search_result) result" where
  "decode_hits limits bs =
     (case get_u64 bs of
        None \<Rightarrow> Inl (rpc_fail Rpc_protocol_error ''invalid RPC result header'')
      | Some (hits, rest) \<Rightarrow>
          (case get_u32 rest of
             None \<Rightarrow> Inl (rpc_fail Rpc_protocol_error ''invalid RPC result header'')
           | Some (count, rest') \<Rightarrow>
               if count > rl_hits limits then Inl (rpc_fail Rpc_protocol_error ''invalid RPC result header'')
               else case get_list (read_hit limits) (unat count) rest' of
                      None \<Rightarrow> Inl (rpc_fail Rpc_protocol_error ''invalid RPC hit'')
                    | Some (xs, tail) \<Rightarrow>
                        if tail \<noteq> [] then Inl (rpc_fail Rpc_protocol_error ''trailing RPC response bytes'')
                        else Inr \<lparr>sr_hits = xs, sr_total_hits = unat hits\<rparr>))"

definition decode_response :: "rpc_limits \<Rightarrow> bytes \<Rightarrow> (rpc_error, search_result) result" where
  "decode_response limits bs =
     (case bs of
        version # status # rest \<Rightarrow>
          if version \<noteq> 1 then Inl (rpc_fail Rpc_protocol_error ''invalid RPC response'')
          else if status \<noteq> 0
          then Inl (rpc_fail Rpc_remote_error
                 (case rpc_string (rl_frame_bytes limits) rest of None \<Rightarrow> ''remote search failed'' | Some (message, _) \<Rightarrow> message))
          else decode_hits limits rest
      | _ \<Rightarrow> Inl (rpc_fail Rpc_protocol_error ''invalid RPC response''))"

definition client_search :: "rpc_limits \<Rightarrow> string \<Rightarrow> nat \<Rightarrow> channel \<Rightarrow> (rpc_error, search_result) result \<times> channel" where
  "client_search limits q top_k ch =
     (if length q > unat (rl_query_bytes limits) \<or> top_k > unat (rl_hits limits)
      then (Inl (rpc_fail Rpc_resource_limit ''RPC request exceeds limit''), ch)
      else case send_frame limits (encode_request q top_k) ch of
        (Inl e, ch1) \<Rightarrow> (Inl e, ch1)
      | (Inr _, ch1) \<Rightarrow>
          (case receive_frame limits ch1 of
             (Inl e, ch2) \<Rightarrow> (Inl e, ch2)
           | (Inr response, ch2) \<Rightarrow> (decode_response limits response, ch2)))"

section \<open>The server\<close>

definition decode_request :: "rpc_limits \<Rightarrow> bytes \<Rightarrow> (string \<times> nat) option" where
  "decode_request limits bs =
     (case get_byte bs of
        None \<Rightarrow> None
      | Some (version, bs1) \<Rightarrow>
          (case get_u64 bs1 of
             None \<Rightarrow> None
           | Some (top_k, bs2) \<Rightarrow>
               (case rpc_string (rl_query_bytes limits) bs2 of
                  None \<Rightarrow> None
                | Some (q, bs3) \<Rightarrow>
                    if version \<noteq> 1 \<or> unat top_k > unat (rl_hits limits) \<or> bs3 \<noteq> [] then None
                    else Some (q, unat top_k))))"

text \<open>What the search gives: a message, or the result. No other fault of the parser occurs (\<open>parse_total\<close>).\<close>

definition rpc_answer :: "(double \<Rightarrow> double) \<Rightarrow> view \<Rightarrow> string \<Rightarrow> nat \<Rightarrow> (string, search_result) result" where
  "rpc_answer log1p v q top_k =
     (case parse q default_limits of
        Inl (Failed e) \<Rightarrow> Inl (pe_message e)
      | Inl _ \<Rightarrow> Inl []
      | Inr tree \<Rightarrow>
          (case search v log1p default_parameters tree (default_options\<lparr>so_top_k := top_k\<rparr>) of
             Inl e \<Rightarrow> Inl (ee_message e)
           | Inr result \<Rightarrow> Inr result))"

definition put_hit :: "scored_document \<Rightarrow> bytes" where
  "put_hit hit = rpc_text (sd_id hit) @ put_u64 (sd_score hit)"

definition encode_answer :: "(string, search_result) result \<Rightarrow> bytes" where
  "encode_answer answer =
     [1] @
     (case answer of
        Inl message \<Rightarrow> [1] @ rpc_text message
      | Inr r \<Rightarrow>
          [0] @ put_u64 (of_nat (sr_total_hits r)) @ put_u32 (of_nat (length (sr_hits r))) @ concat (map put_hit (sr_hits r)))"

definition serve_one :: "(double \<Rightarrow> double) \<Rightarrow> view \<Rightarrow> rpc_limits \<Rightarrow> channel \<Rightarrow> (rpc_error, unit) result \<times> channel" where
  "serve_one log1p v limits ch =
     (case receive_frame limits ch of
        (Inl e, ch1) \<Rightarrow> (Inl e, ch1)
      | (Inr request, ch1) \<Rightarrow>
          (case decode_request limits request of
             None \<Rightarrow> send_frame limits (encode_answer (Inl ''invalid search request'')) ch1
           | Some (q, top_k) \<Rightarrow> send_frame limits (encode_answer (rpc_answer log1p v q top_k)) ch1))"

section \<open>Frames are read back\<close>

lemma transfer_read_append:
  "ch_incoming ch = bs @ rest \<Longrightarrow> transfer_read (length bs) ch = (Inr bs, ch\<lparr>ch_incoming := rest\<rparr>)"
  by (simp add: transfer_read_def)

lemma receive_framed:
  assumes "ch_incoming ch = put_u32 (of_nat (length payload)) @ payload @ rest" and "length payload \<le> unat (rl_frame_bytes limits)"
  shows "receive_frame limits ch = (Inr payload, ch\<lparr>ch_incoming := rest\<rparr>)"
proof -
  have "length payload < 2 ^ 32" using assms(2) unat_u32_less [of "rl_frame_bytes limits"] by simp
  then have n: "unat (of_nat (length payload) :: u32) = length payload" by (simp add: unat_of_nat_small)
  then have le: "\<not> of_nat (length payload) > rl_frame_bytes limits" using assms(2) by (simp add: word_less_nat_alt)
  have h: "transfer_read 4 ch = (Inr (put_u32 (of_nat (length payload))), ch\<lparr>ch_incoming := payload @ rest\<rparr>)"
    using transfer_read_append [OF assms(1)] by simp
  have "get_u32 (put_u32 (of_nat (length payload))) = Some (of_nat (length payload), [])"
    using get_put_u32 [of _ "[]"] by simp
  with h le n transfer_read_append [of "ch\<lparr>ch_incoming := payload @ rest\<rparr>" payload rest] show ?thesis
    by (simp add: receive_frame_def)
qed

lemma rpc_string_text:
  assumes "length s \<le> unat limit"
  shows "rpc_string limit (rpc_text s @ rest) = Some (s, rest)"
proof -
  have "length s < 2 ^ 32" using assms unat_u32_less [of limit] by simp
  then have "unat (of_nat (length s) :: u32) = length s" by (simp add: unat_of_nat_small)
  with assms \<open>length s < 2 ^ 32\<close> show ?thesis by (simp add: rpc_string_def rpc_text_def word_less_nat_alt)
qed

interpretation hit: codec put_hit "read_hit limits" "\<lambda>h. length (sd_id h) \<le> unat (rl_frame_bytes limits)" for limits
  by unfold_locales (simp add: put_hit_def read_hit_def rpc_string_text)

section \<open>A search over a connection\<close>

definition answer_fits :: "rpc_limits \<Rightarrow> (string, search_result) result \<Rightarrow> bool" where
  "answer_fits limits answer \<longleftrightarrow> length (encode_answer answer) \<le> unat (rl_frame_bytes limits) \<and>
     (case answer of
        Inl message \<Rightarrow> length message < 2 ^ 32
      | Inr r \<Rightarrow> sr_total_hits r < 2 ^ 64 \<and> list_all (\<lambda>h. length (sd_id h) < 2 ^ 32) (sr_hits r))"

definition open_channel :: "bytes \<Rightarrow> channel" where
  "open_channel incoming =
     \<lparr>ch_incoming = incoming, ch_read_error = rpc_fail Rpc_disconnected ''peer disconnected'', ch_sent = [], ch_write_error = None\<rparr>"

lemma length_pq_push [simp]: "length (pq_push x ys) = Suc (length ys)"
  by (induction ys) simp_all

lemma length_top_k_results [simp]: "length (top_k_results c) = length (tk_heap c)"
proof -
  have "length (foldr pq_push xs []) = length xs" for xs by (induction xs) simp_all
  then show ?thesis by (simp add: top_k_results_def)
qed

lemma collect_length:
  "length (tk_heap c) \<le> tk_capacity c \<Longrightarrow>
    length (tk_heap (fst (collect x c))) \<le> tk_capacity c \<and> tk_capacity (fst (collect x c)) = tk_capacity c"
  by (auto simp: collect_def)

lemma collect_candidates_length:
  "collect_candidates v cs c = Inr c' \<Longrightarrow> length (tk_heap c) \<le> tk_capacity c \<Longrightarrow> length (tk_heap c') \<le> tk_capacity c"
proof (induction cs arbitrary: c)
  case (Cons cand cs)
  from Cons.prems(1) obtain did where "collect_candidates v cs (fst (collect \<lparr>sd_id = did, sd_score = c_score cand\<rparr> c)) = Inr c'"
    by (auto simp: case_prod_beta split: option.splits if_splits)
  from Cons.IH [OF this] collect_length [OF Cons.prems(2), of "\<lparr>sd_id = did, sd_score = c_score cand\<rparr>"] show ?case by simp
qed simp

lemma search_hits_length: "search v log1p parameters q opts = Inr r \<Longrightarrow> length (sr_hits r) \<le> so_top_k opts"
  using collect_candidates_length [of v _ "top_k_new (so_top_k opts)"]
  by (auto simp: search_def search_plan_def top_k_new_def split: sum.splits)

lemma answer_hits_length: "rpc_answer log1p v q k = Inr r \<Longrightarrow> length (sr_hits r) \<le> k"
  using search_hits_length [of v log1p default_parameters _ "default_options\<lparr>so_top_k := k\<rparr>" r]
  by (auto simp: rpc_answer_def split: sum.splits parse_fault.splits)

lemma length_rpc_text: "length s < 2 ^ 32 \<Longrightarrow> length (rpc_text s) = 4 + length s"
  by (simp add: rpc_text_def)

lemma hits_short:
  assumes "length (encode_answer (Inr r)) \<le> n" and "list_all (\<lambda>h. length (sd_id h) < 2 ^ 32) (sr_hits r)" and "h \<in> set (sr_hits r)"
  shows "length (sd_id h) \<le> n"
proof -
  have "length (put_hit h) \<le> length (concat (map put_hit (sr_hits r)))"
    using assms(3) by (simp add: length_concat member_le_sum_list)
  moreover have "length (sd_id h) < 2 ^ 32" using assms(2,3) by (simp add: list_all_iff)
  ultimately show ?thesis using assms(1) length_rpc_text [of "sd_id h"] by (simp add: encode_answer_def put_hit_def)
qed

lemma decode_encoded:
  assumes "answer_fits limits answer" and "\<And>r. answer = Inr r \<Longrightarrow> length (sr_hits r) \<le> unat (rl_hits limits)"
  shows "decode_response limits (encode_answer answer) =
    (case answer of Inl message \<Rightarrow> Inl (rpc_fail Rpc_remote_error message) | Inr r \<Rightarrow> Inr r)"
proof (cases answer)
  case (Inl message)
  have "length message \<le> unat (rl_frame_bytes limits)"
    using assms(1) length_rpc_text [of message] by (simp add: answer_fits_def Inl encode_answer_def)
  from rpc_string_text [OF this, of "[]"] show ?thesis by (simp add: Inl encode_answer_def decode_response_def)
next
  case (Inr r)
  have len: "length (sr_hits r) \<le> unat (rl_hits limits)" by (rule assms(2) [OF Inr])
  then have n: "unat (of_nat (length (sr_hits r)) :: u32) = length (sr_hits r)"
    using unat_u32_less [of "rl_hits limits"] by (simp add: unat_of_nat_small)
  have t: "unat (of_nat (sr_total_hits r) :: u64) = sr_total_hits r"
    using assms(1) by (simp add: answer_fits_def Inr unat_of_nat_small)
  have "\<forall>h \<in> set (sr_hits r). length (sd_id h) \<le> unat (rl_frame_bytes limits)"
    using assms(1) hits_short [of r "unat (rl_frame_bytes limits)"] by (simp add: answer_fits_def Inr)
  from hit.get_put_list [OF this, of "[]"] n t len show ?thesis
    by (simp add: Inr encode_answer_def decode_response_def decode_hits_def word_less_nat_alt)
qed

lemma decode_encoded_request:
  assumes "length q \<le> unat (rl_query_bytes limits)" and "k \<le> unat (rl_hits limits)"
  shows "decode_request limits (encode_request q k) = Some (q, k)"
proof -
  have "k < 2 ^ 64" using assms(2) unat_u32_less [of "rl_hits limits"] by simp
  then have "unat (of_nat k :: u64) = k" by (simp add: unat_of_nat_small)
  with assms rpc_string_text [OF assms(1), of "[]"] show ?thesis
    by (simp add: decode_request_def encode_request_def get_byte_def)
qed

text \<open>
  C9: a search over a connection is a search. Let the client and the server share their limits, and let the request and
  the answer be within them. If each peer receives what the other one sent, the client returns exactly the result of
  parsing the query and searching the server's index with the default options: the same hits with the
  same scores, bit for bit, and the same number of matches; or the message of the error as a remote error.
\<close>

theorem rpc_search_exact:
  assumes "length q \<le> unat (rl_query_bytes limits)" and "k \<le> unat (rl_hits limits)"
    and "length (encode_request q k) \<le> unat (rl_frame_bytes limits)" and "answer_fits limits (rpc_answer log1p v q k)"
    and "request = ch_sent (snd (client_search limits q k (open_channel [])))"
    and "response = ch_sent (snd (serve_one log1p v limits (open_channel request)))"
  shows "fst (client_search limits q k (open_channel response)) =
    (case rpc_answer log1p v q k of Inl message \<Rightarrow> Inl (rpc_fail Rpc_remote_error message) | Inr r \<Rightarrow> Inr r)"
proof -
  let ?answer = "rpc_answer log1p v q k"
  have send: "send_frame limits (encode_request q k) (open_channel bs) =
      (Inr (), (open_channel bs)\<lparr>ch_sent := put_u32 (of_nat (length (encode_request q k))) @ encode_request q k\<rparr>)" for bs
    using assms(3) by (simp add: send_frame_def transfer_write_def open_channel_def)
  have none: "receive_frame limits (ch\<lparr>ch_incoming := []\<rparr>) = (Inl (ch_read_error ch), ch\<lparr>ch_incoming := []\<rparr>)" for ch
    by (simp add: receive_frame_def transfer_read_def)
  have "request = put_u32 (of_nat (length (encode_request q k))) @ encode_request q k"
    using assms(1,2,5) send [of "[]"] none [of "(open_channel [])\<lparr>ch_sent := put_u32 (of_nat (length (encode_request q k))) @ encode_request q k\<rparr>"]
    by (simp add: client_search_def open_channel_def)
  then have "receive_frame limits (open_channel request) = (Inr (encode_request q k), (open_channel request)\<lparr>ch_incoming := []\<rparr>)"
    using receive_framed [of "open_channel request" "encode_request q k" "[]" limits] assms(3) by (simp add: open_channel_def)
  then have "response = put_u32 (of_nat (length (encode_answer ?answer))) @ encode_answer ?answer"
    using assms(4,6) by (simp add: serve_one_def decode_encoded_request [OF assms(1,2)] send_frame_def answer_fits_def transfer_write_def open_channel_def)
  then have "receive_frame limits ((open_channel response)\<lparr>ch_sent := sent\<rparr>) = (Inr (encode_answer ?answer), (open_channel response)\<lparr>ch_sent := sent, ch_incoming := []\<rparr>)" for sent
    using receive_framed [of "(open_channel response)\<lparr>ch_sent := sent\<rparr>" "encode_answer ?answer" "[]" limits] assms(4)
    by (simp add: open_channel_def answer_fits_def)
  moreover have "decode_response limits (encode_answer ?answer) =
      (case ?answer of Inl message \<Rightarrow> Inl (rpc_fail Rpc_remote_error message) | Inr r \<Rightarrow> Inr r)"
    using decode_encoded [OF assms(4)] answer_hits_length assms(2) le_trans by blast
  ultimately show ?thesis using assms(1,2) send [of response] by (simp add: client_search_def)
qed

definition ex_rpc_view :: view where
  "ex_rpc_view = memory_view (index_new [] 1)"

lemma ex_rpc_answer: "rpc_answer (\<lambda>x. x) ex_rpc_view [] 1 = Inl ''query is empty''"
proof -
  have "parse [] default_limits = Inl (Failed \<lparr>pe_code = Empty_query, pe_position = 0, pe_message = ''query is empty''\<rparr>)"
    by code_simp
  then show ?thesis by (simp add: rpc_answer_def)
qed

theorem rpc_search_exact_witness:
  "fst (client_search default_rpc_limits [] 1 (open_channel (ch_sent (snd (serve_one (\<lambda>x. x) ex_rpc_view default_rpc_limits
      (open_channel (ch_sent (snd (client_search default_rpc_limits [] 1 (open_channel []))))))))))
    = Inl (rpc_fail Rpc_remote_error ''query is empty'')"
proof -
  have "answer_fits default_rpc_limits (rpc_answer (\<lambda>x. x) ex_rpc_view [] 1)"
    unfolding ex_rpc_answer by (simp add: answer_fits_def encode_answer_def rpc_text_def default_rpc_limits_def)
  moreover have "length (encode_request [] 1) \<le> unat (rl_frame_bytes default_rpc_limits)" "1 \<le> unat (rl_hits default_rpc_limits)"
    by (simp_all add: encode_request_def rpc_text_def default_rpc_limits_def)
  ultimately show ?thesis
    using rpc_search_exact [of "[]" default_rpc_limits 1 "\<lambda>x. x" ex_rpc_view, OF _ _ _ _ refl refl] by (simp add: ex_rpc_answer [unfolded One_nat_def])
qed

end
