(* ===== verification/Index_Cli.thy ===== *)
theory Index_Cli
  imports Search_Defaults Document_File Segment_Properties
begin

text \<open>
  The command-line program: \<^verbatim>\<open>apps/index_cli/main.cpp\<close>. It loads a document file into an index, or opens a segment,
  optionally writes a segment, and prints the result of a query as one JSON object. A run of the program is a function of its
  arguments, the files and the answers of the operating system; it gives the exit code, what is written to the two streams, and the
  files. \<open>Cli_aborted\<close> is a run that ends without an exit code of \<^verbatim>\<open>main\<close>: a null dereference or an exception.
\<close>

record console =
  con_out :: string
  con_err :: string

definition silent :: console where "silent = \<lparr>con_out = [], con_err = []\<rparr>"
definition to_out :: "string \<Rightarrow> console" where "to_out s = \<lparr>con_out = s, con_err = []\<rparr>"
definition to_err :: "string \<Rightarrow> console" where "to_err s = \<lparr>con_out = [], con_err = s\<rparr>"

section \<open>Arguments\<close>

record cli_arguments =
  ca_documents :: "string option"
  ca_segment :: "string option"
  ca_write_segment :: "string option"
  ca_query :: string
  ca_has_query :: bool
  ca_top_k :: nat

definition cli_defaults :: cli_arguments where
  "cli_defaults =
     \<lparr>ca_documents = None, ca_segment = None, ca_write_segment = None, ca_query = [], ca_has_query = False, ca_top_k = 10\<rparr>"

definition newline :: char where "newline = char_of (10 :: nat)"

definition usage :: string where
  "usage = ''Usage:'' @ [newline] @
     ''  dse_index_cli --documents PATH [--write-segment PATH] [--query QUERY] [--top-k K]'' @ [newline] @
     ''  dse_index_cli --segment PATH --query QUERY [--top-k K]'' @ [newline]"

definition parse_top_k :: "string \<Rightarrow> nat option" where
  "parse_top_k s =
     (case from_chars_u64 s of
        (ec, consumed, k) \<Rightarrow> if ec \<noteq> Errc_ok \<or> consumed \<noteq> length s \<or> k = 0 then None else Some k)"

text \<open>The loop over the arguments after the program name: the arguments, or what is written before giving up.\<close>

fun parse_options :: "string list \<Rightarrow> cli_arguments \<Rightarrow> (console, cli_arguments) result" where
  "parse_options [] a = Inr a"
| "parse_options [option] a =
     (if option = ''--help'' then Inl (to_out usage)
      else Inl (to_err (''missing value for '' @ option @ [newline] @ usage)))"
| "parse_options (option # s # rest) a =
     (if option = ''--help'' then Inl (to_out usage)
      else if option = ''--documents'' then parse_options rest (a\<lparr>ca_documents := Some s\<rparr>)
      else if option = ''--segment'' then parse_options rest (a\<lparr>ca_segment := Some s\<rparr>)
      else if option = ''--write-segment'' then parse_options rest (a\<lparr>ca_write_segment := Some s\<rparr>)
      else if option = ''--query'' then parse_options rest (a\<lparr>ca_query := s, ca_has_query := True\<rparr>)
      else if option = ''--top-k''
      then (case parse_top_k s of
              None \<Rightarrow> Inl (to_err (''--top-k must be a positive integer'' @ [newline]))
            | Some k \<Rightarrow> parse_options rest (a\<lparr>ca_top_k := k\<rparr>))
      else Inl (to_err (''unknown option: '' @ option @ [newline] @ usage)))"

definition parse_arguments :: "string list \<Rightarrow> (console, cli_arguments) result" where
  "parse_arguments args =
     (case parse_options args cli_defaults of
        Inl c \<Rightarrow> Inl c
      | Inr a \<Rightarrow>
          if (ca_documents a \<noteq> None) = (ca_segment a \<noteq> None) \<or> (ca_segment a \<noteq> None \<and> ca_write_segment a \<noteq> None) \<or>
             (\<not> ca_has_query a \<and> ca_write_segment a = None)
          then Inl (to_err usage) else Inr a)"

section \<open>Output\<close>

definition quote :: char where "quote = char_of (34 :: nat)"

definition hex_digit :: "nat \<Rightarrow> char" where
  "hex_digit n = ''0123456789abcdef'' ! n"

definition json_escape_char :: "char \<Rightarrow> string" where
  "json_escape_char c =
     (let byte = byte_of c
      in if byte = 34 then [backslash, quote]
         else if byte = 92 then [backslash, backslash]
         else if byte = 8 then [backslash, CHR ''b'']
         else if byte = 12 then [backslash, CHR ''f'']
         else if byte = 10 then [backslash, CHR ''n'']
         else if byte = 13 then [backslash, CHR ''r'']
         else if byte = 9 then [backslash, CHR ''t'']
         else if byte < 32 then [backslash] @ ''u00'' @ [hex_digit (byte div 16), hex_digit (byte mod 16)]
         else [c])"

definition json_escape :: "string \<Rightarrow> string" where
  "json_escape s = concat (map json_escape_char s)"

definition quoted :: "string \<Rightarrow> string" where
  "quoted s = [quote] @ s @ [quote]"

fun separated :: "string list \<Rightarrow> string" where
  "separated [] = []"
| "separated [x] = x"
| "separated (x # y # rest) = x @ '','' @ separated (y # rest)"

definition json_field :: "string \<times> string \<Rightarrow> string" where
  "json_field = (\<lambda>(field, value). quoted (json_escape field) @ '':'' @ quoted (json_escape value))"

definition json_hit :: "view \<Rightarrow> scored_document \<Rightarrow> string" where
  "json_hit v hit =
     ''{'' @ quoted ''document_id'' @ '':'' @ quoted (json_escape (sd_id hit)) @ '','' @ quoted ''score'' @ '':'' @ fp_text (sd_score hit) @
     '','' @ quoted ''fields'' @ '':{'' @
     (case v_document v (sd_id hit) of
        None \<Rightarrow> []
      | Some r \<Rightarrow> separated (map json_field (doc_fields (dr_document r)))) @ ''}}''"

definition run_search :: "(double \<Rightarrow> double) \<Rightarrow> view \<Rightarrow> cli_arguments \<Rightarrow> nat \<times> console" where
  "run_search log1p v a =
     (let indexed = ''{'' @ quoted ''indexed_documents'' @ '':'' @ to_string_nat (v_live_document_count v)
      in if \<not> ca_has_query a then (0, to_out (indexed @ ''}'' @ [newline]))
      else case parse (ca_query a) default_limits of
        Inl (Failed e) \<Rightarrow>
          (2, to_err (''query error at byte '' @ to_string_nat (pe_position e) @ '': '' @ pe_message e @ [newline]))
      | Inl _ \<Rightarrow> (2, silent)
      | Inr tree \<Rightarrow>
          (case search v log1p default_parameters tree (default_options\<lparr>so_top_k := ca_top_k a\<rparr>) of
             Inl e \<Rightarrow> (3, to_err (''execution error: '' @ ee_message e @ [newline]))
           | Inr r \<Rightarrow>
               (0, to_out (indexed @ '','' @ quoted ''total_hits'' @ '':'' @ to_string_nat (sr_total_hits r) @
                     '','' @ quoted ''hits'' @ '':['' @ separated (map (json_hit v) (sr_hits r)) @ '']}'' @ [newline]))))"

section \<open>The program\<close>

datatype cli_result = Cli_exit nat console | Cli_aborted

record cli_io =
  cli_documents_open :: bool
  cli_segment_open :: open_io
  cli_write :: write_io

definition default_schema :: schema where
  "default_schema = (case schema_create default_fields of Inr schema \<Rightarrow> schema | Inl _ \<Rightarrow> [])"

definition cli_put :: "document \<Rightarrow> index \<Rightarrow> (cli_result, index) result" where
  "cli_put d ix =
     (case index_put ix d of
        Inl (Rejected e) \<Rightarrow>
          Inl (Cli_exit 2 (to_err (''document rejected because its ID is empty or version is stale'' @ [newline])))
      | Inl Null_dereference \<Rightarrow> Inl Cli_aborted
      | Inr ix' \<Rightarrow> Inr ix')"

text \<open>Loading the documents and checking the index.\<close>

definition cli_load :: "cli_io \<Rightarrow> string \<Rightarrow> files \<Rightarrow> (cli_result, index) result" where
  "cli_load io path fs =
     (case read_documents_path path (if cli_documents_open io then map_option bytes_text (fs path) else None) of
        Inl e \<Rightarrow>
          Inl (Cli_exit 2 (to_err (''document error at line '' @ to_string_nat (dfe_line e) @ '', column '' @
            to_string_nat (dfe_column e) @ '': '' @ dfe_message e @ [newline])))
      | Inr documents \<Rightarrow>
          (case fold_result cli_put documents (index_new default_schema (- 1)) of
             Inl r \<Rightarrow> Inl r
           | Inr ix \<Rightarrow>
               (case validate_invariants ix of
                  Inl (Reason reason) \<Rightarrow> Inl (Cli_exit 3 (to_err (''index invariant failed: '' @ reason @ [newline])))
                | Inl _ \<Rightarrow> Inl Cli_aborted
                | Inr _ \<Rightarrow> Inr ix)))"

abbreviation cli_write_options :: segment_write_options where
  "cli_write_options \<equiv> \<lparr>wo_segment_id = 1, wo_compressed_postings = False\<rparr>"

definition cli_exit :: "nat \<times> console \<Rightarrow> cli_result" where
  "cli_exit = (\<lambda>(code, c). Cli_exit code c)"

definition cli_run :: "(double \<Rightarrow> double) \<Rightarrow> cli_io \<Rightarrow> cli_arguments \<Rightarrow> files \<Rightarrow> cli_result \<times> files" where
  "cli_run log1p io a fs =
     (case ca_segment a of
        Some path \<Rightarrow>
          (case segment_open (cli_segment_open io) default_read_limits (fs path) of
             Inl e \<Rightarrow> (Cli_exit 3 (to_err (''segment error: '' @ sge_message e @ [newline])), fs)
           | Inr reader \<Rightarrow> (cli_exit (run_search log1p (segment_view reader) a), fs))
      | None \<Rightarrow>
          (case ca_documents a of
             None \<Rightarrow> (Cli_aborted, fs)
           | Some path \<Rightarrow>
               (case cli_load io path fs of
                  Inl r \<Rightarrow> (r, fs)
                | Inr ix \<Rightarrow>
                    (case ca_write_segment a of
                       None \<Rightarrow> (cli_exit (run_search log1p (memory_view ix) a), fs)
                     | Some target \<Rightarrow>
                         (case segment_write (cli_write io) target (index_snapshot_of ix) cli_write_options fs of
                            (Inl e, fs') \<Rightarrow> (Cli_exit 3 (to_err (''segment error: '' @ sge_message e @ [newline])), fs')
                          | (Inr _, fs') \<Rightarrow> (cli_exit (run_search log1p (memory_view ix) a), fs'))))))"

definition cli_main :: "(double \<Rightarrow> double) \<Rightarrow> cli_io \<Rightarrow> string list \<Rightarrow> files \<Rightarrow> cli_result \<times> files" where
  "cli_main log1p io args fs =
     (case parse_arguments args of
        Inl c \<Rightarrow> (Cli_exit (if args = [''--help''] then 0 else 2) c, fs)
      | Inr a \<Rightarrow> cli_run log1p io a fs)"

end
