(* ===== verification/Cli_Properties.thy ===== *)
theory Cli_Properties
  imports Index_Cli
begin

text \<open>
  Properties of the command-line program: it always ends with an exit code and a message, and a segment it has
  written answers queries exactly as the document file does.
\<close>

lemma default_created: "schema_create default_fields = Inr default_schema"
proof -
  have "(\<forall>field \<in> set default_fields. definition_ok field) \<and> distinct (map fd_name default_fields)"
    by (simp add: default_fields_def definition_ok_def needs_analyzer_def fp_eval_defs Let_def)
  then have "\<exists>schema. schema_create default_fields = Inr schema"
    by (simp add: schema_create_def schema_create_from_Inr_iff)
  then show ?thesis by (auto simp: default_schema_def)
qed

lemma default_engine: "engine_schema default_schema"
proof -
  have ok: "om_ok default_schema" using schema_create_ok [OF default_created] by (simp add: schema_ok_def)
  have "case fd_analyzer fd of None \<Rightarrow> True | Some a \<Rightarrow> engine_analyzer a" if "(name, fd) \<in> set default_schema" for name fd
  proof -
    have "schema_find default_schema name = Some fd" using that ok by (simp add: schema_find_def om_ok_map_of)
    from schema_create_finds(1) [OF default_created this] show ?thesis
      by (auto simp: default_fields_def engine_analyzer_def standard_analyzer_def Let_def)
  qed
  then show ?thesis by (auto simp: engine_schema_def)
qed

lemma default_no_crash: "ix_schema ix = default_schema \<Longrightarrow> index_put ix d \<noteq> Inl Null_dereference"
  by (rule put_no_null_dereference [OF default_created]) (auto simp: default_fields_def Let_def)

lemma read_path_ok: "read_documents_path path content = Inr ds \<Longrightarrow> \<forall>d \<in> set ds. document_ok d"
  using read_rows_ok by (fastforce simp: read_documents_path_def read_documents_def split: option.splits prod.splits if_splits)

text \<open>
  An exit that reports an error on the error stream and prints nothing: code 2 for the arguments, the documents and the query, or code 3 with
  the message of a segment or of a search. A failed self check of the index, which also exits with code 3, is no complaint.
\<close>

definition complaint :: "cli_result \<Rightarrow> bool" where
  "complaint r \<longleftrightarrow> (\<exists>code message. r = Cli_exit code (to_err message) \<and>
     (code = 2 \<and> message \<noteq> [] \<or>
      code = 3 \<and> (take 15 message = ''segment error: '' \<or> take 17 message = ''execution error: '')))"

lemma to_err_complains [simp]:
  "complaint (Cli_exit code (to_err s)) \<longleftrightarrow>
    code = 2 \<and> s \<noteq> [] \<or> code = 3 \<and> (take 15 s = ''segment error: '' \<or> take 17 s = ''execution error: '')"
  by (auto simp: complaint_def to_err_def)

lemma cli_put_loop:
  "\<forall>d \<in> set ds. document_ok d \<Longrightarrow> index_reachable default_schema (- 1) ix \<Longrightarrow>
    case fold_result cli_put ds ix of Inl r \<Rightarrow> complaint r | Inr ix' \<Rightarrow> index_reachable default_schema (- 1) ix'"
proof (induction ds arbitrary: ix)
  case (Cons d ds)
  have sch: "ix_schema ix = default_schema" by (rule index_reachable_schema [OF Cons.prems(2)])
  show ?case
  proof (cases "index_put ix d")
    case (Inl f)
    with default_no_crash [OF sch, of d] obtain e where "f = Rejected e" by (cases f) auto
    with Inl show ?thesis by (simp add: cli_put_def)
  next
    case (Inr ix')
    have "index_reachable default_schema (- 1) ix'" using Cons.prems by (intro index_reachable.put [OF Cons.prems(2) _ Inr]) simp
    with Cons.IH [of ix'] Cons.prems(1) Inr show ?thesis by (simp add: cli_put_def)
  qed
qed simp

lemma cli_load_cases:
  "case cli_load io path fs of Inl r \<Rightarrow> complaint r | Inr ix \<Rightarrow> index_reachable default_schema (- 1) ix"
proof (cases "read_documents_path path (if cli_documents_open io then map_option bytes_text (fs path) else None)")
  case (Inr ds)
  show ?thesis
  proof (cases "fold_result cli_put ds (index_new default_schema (- 1))")
    case (Inl r)
    with cli_put_loop [OF read_path_ok [OF Inr] index_reachable.start] Inr show ?thesis by (simp add: cli_load_def)
  next
    case (Inr ix)
    with cli_put_loop [OF read_path_ok [OF \<open>read_documents_path path _ = Inr ds\<close>] index_reachable.start]
    have ix: "index_reachable default_schema (- 1) ix" by simp
    with reachable_validates [OF ix default_engine] Inr \<open>read_documents_path path _ = Inr ds\<close> show ?thesis
      by (simp add: cli_load_def)
  qed
qed (simp add: cli_load_def)

text \<open>An exit with code 0 that printed to the standard output only, or a complaint.\<close>

definition orderly :: "cli_result \<Rightarrow> bool" where
  "orderly r \<longleftrightarrow> complaint r \<or> (\<exists>c. r = Cli_exit 0 c \<and> con_err c = [] \<and> con_out c \<noteq> [])"

lemma run_search_orderly: "orderly (cli_exit (run_search log1p v a))"
  using parse_returns [of "ca_query a" default_limits]
  by (auto simp: run_search_def cli_exit_def orderly_def to_out_def Let_def split: sum.split)

lemma cli_run_orderly:
  assumes "ca_documents a \<noteq> None \<or> ca_segment a \<noteq> None"
  shows "orderly (fst (cli_run log1p io a fs))"
proof (cases "ca_segment a")
  case None
  with assms obtain path where path: "ca_documents a = Some path" by auto
  show ?thesis
    using cli_load_cases [of io path fs] run_search_orderly
    by (cases "cli_load io path fs") (auto simp: cli_run_def None path orderly_def split: option.split prod.split sum.split)
qed (auto simp: cli_run_def orderly_def run_search_orderly [unfolded orderly_def] split: sum.split)

lemma parse_options_messages:
  "parse_options args a = Inl c \<Longrightarrow> (\<exists>message. c = to_err message \<and> message \<noteq> []) \<or> (c = to_out usage \<and> ''--help'' \<in> set args)"
  by (induction args a rule: parse_options.induct) (auto simp: usage_def split: if_splits option.splits)

text \<open>
  C11: the program always ends in order. Whatever its arguments, the files and the answers of the operating system are, a run ends in one
  of four ways: with exit code 0, output, and nothing on the error stream; with code 2 and a message about the arguments, the documents or
  the query; with code 3 and the message of a segment or of a search; or it prints its usage because \<^verbatim>\<open>--help\<close>
  was among the arguments, with code 0 if it was the only one and code 2 otherwise. In particular no null analyzer is dereferenced, no fault of the parser occurs, and the self check of the index, whose
  failure would exit with code 3 and \<^verbatim>\<open>index invariant failed\<close>, never fails.
\<close>

theorem cli_ends_in_order:
  "orderly (fst (cli_main log1p io args fs)) \<or>
   (''--help'' \<in> set args \<and> cli_main log1p io args fs = (Cli_exit (if args = [''--help''] then 0 else 2) (to_out usage), fs))"
proof (cases "parse_arguments args")
  case (Inl c)
  have "usage \<noteq> []" by (simp add: usage_def)
  with Inl parse_options_messages [of args cli_defaults c]
  consider (complains) message where "c = to_err message" "message \<noteq> []" | (helps) "c = to_out usage" "''--help'' \<in> set args"
    by (auto simp: parse_arguments_def split: sum.splits if_splits)
  then show ?thesis
  proof cases
    case complains
    have "parse_options [''--help''] cli_defaults = Inl (to_out usage)" by simp
    then have "args \<noteq> [''--help'']" using complains Inl by (auto simp: parse_arguments_def to_out_def to_err_def)
    with complains show ?thesis by (simp add: cli_main_def Inl orderly_def)
  qed (simp add: cli_main_def Inl)
next
  case (Inr a)
  then have "ca_documents a \<noteq> None \<or> ca_segment a \<noteq> None" by (auto simp: parse_arguments_def split: sum.splits if_splits)
  from cli_run_orderly [OF this] show ?thesis by (simp add: cli_main_def Inr)
qed

lemma run_search_cong:
  assumes "ca_query a = ca_query b" and "ca_has_query a = ca_has_query b" and "ca_top_k a = ca_top_k b"
  shows "run_search log1p v a = run_search log1p v b"
  unfolding run_search_def assms by (rule refl)

text \<open>
  C10: a written segment answers as the document file does. If the documents of a file load into an index within the limits of a segment, and
  writing the segment succeeds, then searching the segment in a later run of the program gives the same
  exit code and prints the same text as searching the document file: the same scores to the last digit, the same fields, or the same
  message.
\<close>

theorem cli_segment_same_output:
  assumes "cli_load io documents fs = Inr ix" and "segment_fits default_read_limits cli_write_options ix"
    and "segment_write (cli_write io) path (index_snapshot_of ix) cli_write_options fs = (Inr (), fs')"
    and "cli_segment_open io' = Open_ok"
  shows "cli_main log1p io' [''--segment'', path, ''--query'', q] fs' =
    cli_main log1p io [''--documents'', documents, ''--write-segment'', path, ''--query'', q] fs"
proof -
  have ix: "index_reachable default_schema (- 1) ix" using cli_load_cases [of io documents fs] assms(1) by simp
  have written: "fs' path = Some (segment_bytes (index_snapshot_of ix) cli_write_options)"
    using assms(3) by (auto simp: segment_write_def Let_def split: if_splits option.splits sum.splits)
  have "segment_open Open_ok default_read_limits (fs' path) = Inr (reader_of 1 ix)"
    using open_written [OF ix schema_create_ok [OF default_created] assms(2)] written by simp
  then show ?thesis
    by (simp add: cli_main_def parse_arguments_def cli_defaults_def cli_run_def assms(1,3,4) segment_view_reader_of)
      (rule arg_cong [of _ _ cli_exit], rule run_search_cong; simp)
qed

definition ex_cli_files :: files where
  "ex_cli_files = [''docs'' \<mapsto> text_bytes (kHeader @ [line_feed])]"

definition ex_cli_io :: cli_io where
  "ex_cli_io = \<lparr>cli_documents_open = True, cli_segment_open = Open_ok, cli_write = ex_write_io\<rparr>"

definition ex_cli_index :: index where
  "ex_cli_index = index_new default_schema (- 1)"

lemma ex_cli_load: "cli_load ex_cli_io ''docs'' ex_cli_files = Inr ex_cli_index"
proof -
  have "read_rows [] 1 [] = Inr []" by (subst read_rows.simps) (simp add: getline_def)
  then have "read_documents_path ''docs'' (Some (kHeader @ [line_feed])) = Inr []"
    by (simp add: read_documents_path_def read_documents_def getline_line [OF header_no_break, of "[]"])
  moreover have "validate_invariants ex_cli_index = Inr ()"
    unfolding ex_cli_index_def by (rule reachable_validates [OF index_reachable.start default_engine])
  ultimately show ?thesis by (simp add: cli_load_def ex_cli_io_def ex_cli_files_def ex_cli_index_def)
qed

lemma ex_default_schema: "default_schema =
    [(''body'', default_fields ! 1), (''tags'', default_fields ! 2), (''timestamp'', default_fields ! 3), (''title'', default_fields ! 0)]"
  by (simp add: default_schema_def schema_create_def schema_add_def needs_analyzer_def om_emplace_def fp_eval_defs default_fields_def Let_def)

lemma ex_cli_fits: "segment_fits default_read_limits cli_write_options ex_cli_index"
  unfolding segment_fits_def length_segment_bytes
  by (simp add: ex_cli_index_def index_new_def index_snapshot_of_def segment_sections_def ex_default_schema default_fields_def
     encode_schema_def encode_field_def put_string_def encode_documents_def encode_statistics_def encode_index_entries
     encode_entries_written dict_entries_def postings_of_entries_def positions_of_postings_def headers_def
     default_read_limits_def string_fits_def field_fits_def constructed_def standard_analyzer_def to_string_nat.simps Let_def)

theorem cli_segment_same_output_witness:
  "\<exists>fs'. segment_write ex_write_io ''s'' (index_snapshot_of ex_cli_index) cli_write_options ex_cli_files = (Inr (), fs') \<and>
     cli_main (\<lambda>x. x) ex_cli_io [''--segment'', ''s'', ''--query'', ''*''] fs' =
     cli_main (\<lambda>x. x) ex_cli_io [''--documents'', ''docs'', ''--write-segment'', ''s'', ''--query'', ''*''] ex_cli_files"
proof -
  have "segment_open Open_ok default_read_limits (Some (segment_bytes (index_snapshot_of ex_cli_index) cli_write_options)) = Inr (reader_of 1 ex_cli_index)"
    using open_written [OF index_reachable.start schema_create_ok [OF default_created] ex_cli_fits [unfolded ex_cli_index_def]]
    by (simp add: ex_cli_index_def)
  then obtain fs' where w: "segment_write ex_write_io ''s'' (index_snapshot_of ex_cli_index) cli_write_options ex_cli_files = (Inr (), fs')"
    by (simp add: segment_write_def ex_write_io_def sync_path_def Let_def)
  have io: "cli_write ex_cli_io = ex_write_io" "cli_segment_open ex_cli_io = Open_ok" by (simp_all add: ex_cli_io_def)
  from cli_segment_same_output [OF ex_cli_load ex_cli_fits, unfolded io, OF w io(2)] w show ?thesis by blast
qed

end
