(* ===== verification/Retrieval_Metrics.thy ===== *)
theory Retrieval_Metrics
  imports Doubles Document "HOL-Library.Multiset"
begin

text \<open>
  Retrieval metrics: \<^verbatim>\<open>src/evaluation/metrics.cpp\<close>. One pass over a ranking computes the sums for average precision, reciprocal rank
  and discounted cumulative gain on doubles. \<^verbatim>\<open>std::exp2\<close> and \<^verbatim>\<open>std::log2\<close> are parameters.
\<close>

type_synonym judgments = "(document_id, u32) omap"

record ranking_metrics =
  rm_precision :: double
  rm_recall :: double
  rm_average_precision :: double
  rm_reciprocal_rank :: double
  rm_ndcg :: double

record metrics_state =
  mt_found :: nat
  mt_precision_sum :: double
  mt_reciprocal :: double
  mt_dcg :: double

definition grade_of :: "judgments \<Rightarrow> document_id \<Rightarrow> u32" where
  "grade_of judgments did = (case map_of judgments did of None \<Rightarrow> 0 | Some grade \<Rightarrow> grade)"

abbreviation double_of :: "nat \<Rightarrow> double" where
  "double_of n \<equiv> fp_of_int (int n)"

definition gain :: "(double \<Rightarrow> double) \<Rightarrow> (double \<Rightarrow> double) \<Rightarrow> u32 \<Rightarrow> nat \<Rightarrow> double" where
  "gain exp2 log2 grade i =
     fdiv (fsub (exp2 (double_of (unat grade))) fp_one) (log2 (fadd (double_of i) (double_of 2)))"

text \<open>One round of the loop over the ranking, for the document at position \<open>i\<close>.\<close>

definition metrics_round ::
  "(double \<Rightarrow> double) \<Rightarrow> (double \<Rightarrow> double) \<Rightarrow> judgments \<Rightarrow> nat \<Rightarrow> nat \<Rightarrow> document_id \<Rightarrow> metrics_state \<Rightarrow> metrics_state" where
  "metrics_round exp2 log2 judgments limit i did s =
     (let grade = grade_of judgments did;
          s1 = (if grade \<noteq> 0
                then s\<lparr>mt_found := mt_found s + 1,
                       mt_precision_sum := fadd (mt_precision_sum s) (fdiv (double_of (mt_found s + 1)) (double_of (i + 1))),
                       mt_reciprocal := (if fp_eq (mt_reciprocal s) fp_zero then fdiv fp_one (double_of (i + 1)) else mt_reciprocal s)\<rparr>
                else s)
      in if i < limit then s1\<lparr>mt_dcg := fadd (mt_dcg s1) (gain exp2 log2 grade i)\<rparr> else s1)"

fun metrics_loop ::
  "(double \<Rightarrow> double) \<Rightarrow> (double \<Rightarrow> double) \<Rightarrow> judgments \<Rightarrow> nat \<Rightarrow> nat \<Rightarrow> document_id list \<Rightarrow> metrics_state \<Rightarrow> metrics_state" where
  "metrics_loop exp2 log2 judgments limit i [] s = s"
| "metrics_loop exp2 log2 judgments limit i (did # rest) s =
     metrics_loop exp2 log2 judgments limit (i + 1) rest (metrics_round exp2 log2 judgments limit i did s)"

text \<open>The loop over the grades in decreasing order.\<close>

definition ideal_dcg :: "(double \<Rightarrow> double) \<Rightarrow> (double \<Rightarrow> double) \<Rightarrow> judgments \<Rightarrow> nat \<Rightarrow> double" where
  "ideal_dcg exp2 log2 judgments limit =
     (let ideal = rev (sort (map snd judgments))
      in fold (\<lambda>i acc. fadd acc (gain exp2 log2 (ideal ! i) i)) [0..<min limit (length ideal)] fp_zero)"

definition metrics_evaluate ::
  "(double \<Rightarrow> double) \<Rightarrow> (double \<Rightarrow> double) \<Rightarrow> document_id list \<Rightarrow> judgments \<Rightarrow> nat \<Rightarrow> ranking_metrics" where
  "metrics_evaluate exp2 log2 ranked judgments k =
     (let relevant = length (filter (\<lambda>(did, grade). grade \<noteq> 0) judgments);
          limit = min k (length ranked);
          s = metrics_loop exp2 log2 judgments limit 0 ranked
                \<lparr>mt_found = 0, mt_precision_sum = fp_zero, mt_reciprocal = fp_zero, mt_dcg = fp_zero\<rparr>;
          ideal = ideal_dcg exp2 log2 judgments limit;
          found_at_k = length (filter (\<lambda>did. grade_of judgments did \<noteq> 0) (take limit ranked))
      in \<lparr>rm_precision = (if k = 0 then fp_zero else fdiv (double_of found_at_k) (double_of k)),
          rm_recall = (if relevant = 0 then fp_zero else fdiv (double_of found_at_k) (double_of relevant)),
          rm_average_precision = (if relevant = 0 then fp_zero else fdiv (mt_precision_sum s) (double_of relevant)),
          rm_reciprocal_rank = mt_reciprocal s,
          rm_ndcg = (if fp_eq ideal fp_zero then fp_zero else fdiv (mt_dcg s) ideal)\<rparr>)"

section \<open>The metrics in closed form\<close>

text \<open>The positions of relevant documents, from the first, and the precision of the ranking cut after a position.\<close>

definition relevant_ranks :: "judgments \<Rightarrow> document_id list \<Rightarrow> nat list" where
  "relevant_ranks judgments ranked = filter (\<lambda>i. grade_of judgments (ranked ! i) \<noteq> 0) [0..<length ranked]"

definition precision_at :: "judgments \<Rightarrow> document_id list \<Rightarrow> nat \<Rightarrow> double" where
  "precision_at judgments ranked i =
     fdiv (double_of (length (filter (\<lambda>did. grade_of judgments did \<noteq> 0) (take (i + 1) ranked)))) (double_of (i + 1))"

definition first_rank :: "judgments \<Rightarrow> document_id list \<Rightarrow> double" where
  "first_rank judgments ranked = (case relevant_ranks judgments ranked of [] \<Rightarrow> fp_zero | i # _ \<Rightarrow> fdiv fp_one (double_of (i + 1)))"

definition metrics_after ::
  "(double \<Rightarrow> double) \<Rightarrow> (double \<Rightarrow> double) \<Rightarrow> judgments \<Rightarrow> nat \<Rightarrow> document_id list \<Rightarrow> metrics_state" where
  "metrics_after exp2 log2 judgments limit ranked =
     \<lparr>mt_found = length (relevant_ranks judgments ranked),
      mt_precision_sum = foldl fadd fp_zero (map (precision_at judgments ranked) (relevant_ranks judgments ranked)),
      mt_reciprocal = first_rank judgments ranked,
      mt_dcg = foldl fadd fp_zero (map (\<lambda>i. gain exp2 log2 (grade_of judgments (ranked ! i)) i) [0..<min limit (length ranked)])\<rparr>"

lemma ranks_snoc:
  "relevant_ranks judgments (xs @ [x]) = relevant_ranks judgments xs @ (if grade_of judgments x \<noteq> 0 then [length xs] else [])"
  unfolding relevant_ranks_def by (auto simp: nth_append intro: filter_cong)

lemma ranks_less: "i \<in> set (relevant_ranks judgments xs) \<Longrightarrow> i < length xs"
  by (simp add: relevant_ranks_def)

lemma length_ranks: "length (relevant_ranks judgments xs) = length (filter (\<lambda>did. grade_of judgments did \<noteq> 0) xs)"
  by (induction xs rule: rev_induct) (simp_all add: ranks_snoc relevant_ranks_def [of judgments "[]"])

lemma precision_snoc: "i < length xs \<Longrightarrow> precision_at judgments (xs @ [x]) i = precision_at judgments xs i"
  by (simp add: precision_at_def)

lemma rank_positive:
  assumes "i < 2 ^ 63"
  shows "\<not> fp_eq (fdiv fp_one (double_of (i + 1))) fp_zero"
proof -
  have one: "fp_of_int 1 = fp_one" by code_simp
  have "fp_less fp_zero (fdiv (fp_of_int 1) (double_of (i + 1)))" using assms by (intro average_range) simp_all
  then show ?thesis unfolding one by (auto simp: fp_less_def fp_eq_def)
qed

lemma metrics_snoc:
  assumes "length xs < 2 ^ 63"
  shows "metrics_after exp2 log2 judgments limit (xs @ [x]) =
    metrics_round exp2 log2 judgments limit (length xs) x (metrics_after exp2 log2 judgments limit xs)"
proof -
  have sums: "map (precision_at judgments (xs @ [x])) (relevant_ranks judgments xs) = map (precision_at judgments xs) (relevant_ranks judgments xs)"
    using ranks_less precision_snoc by simp
  have new: "precision_at judgments (xs @ [x]) (length xs) =
      fdiv (double_of (length (relevant_ranks judgments xs) + 1)) (double_of (length xs + 1))" if "grade_of judgments x \<noteq> 0"
    using that by (simp add: precision_at_def length_ranks)
  have none: "first_rank judgments xs = fp_zero" if "relevant_ranks judgments xs = []" using that by (simp add: first_rank_def)
  have some: "\<not> fp_eq (first_rank judgments xs) fp_zero" if "relevant_ranks judgments xs \<noteq> []"
  proof -
    obtain i later where i: "relevant_ranks judgments xs = i # later" using \<open>relevant_ranks judgments xs \<noteq> []\<close> by (cases "relevant_ranks judgments xs") auto
    then have "i < length xs" using ranks_less [of i judgments xs] by simp
    with rank_positive [of i] assms show ?thesis by (simp add: first_rank_def i)
  qed
  have zero: "fp_eq fp_zero fp_zero" by (simp add: fp_eval_defs)
  have first: "first_rank judgments (xs @ [x]) =
      (if grade_of judgments x \<noteq> 0 \<and> fp_eq (first_rank judgments xs) fp_zero then fdiv fp_one (double_of (length xs + 1)) else first_rank judgments xs)"
    using none some zero by (cases "relevant_ranks judgments xs") (simp_all add: first_rank_def ranks_snoc)
  have dcg: "map (\<lambda>i. gain exp2 log2 (grade_of judgments ((xs @ [x]) ! i)) i) [0..<min limit (length xs)] =
      map (\<lambda>i. gain exp2 log2 (grade_of judgments (xs ! i)) i) [0..<min limit (length xs)]"
    by (simp add: nth_append)
  have upto: "[0..<min limit (Suc (length xs))] = [0..<min limit (length xs)] @ (if length xs < limit then [length xs] else [])"
  proof (cases "length xs < limit")
    case True
    then have "min limit (Suc (length xs)) = Suc (length xs)" "min limit (length xs) = length xs" by simp_all
    with True show ?thesis by simp
  qed (simp add: min_def)
  show ?thesis
    by (simp add: metrics_after_def metrics_round_def ranks_snoc sums new first upto dcg Let_def)
qed

lemma metrics_loop_after:
  "length xs + length ys < 2 ^ 63 \<Longrightarrow> metrics_loop exp2 log2 judgments limit (length xs) ys (metrics_after exp2 log2 judgments limit xs) =
    metrics_after exp2 log2 judgments limit (xs @ ys)"
proof (induction ys arbitrary: xs)
  case (Cons y ys)
  from Cons.IH [of "xs @ [y]"] Cons.prems show ?case by (simp add: metrics_snoc)
qed simp

text \<open>
  Discounted cumulative gain of a list of grades: the gain of a grade \<open>g\<close> is \<open>2\<^sup>g - 1\<close>, the discount of
  position \<open>i\<close>, counted from 0, is \<open>log\<^sub>2 (i + 2)\<close>.
\<close>

definition discounted_gain :: "(double \<Rightarrow> double) \<Rightarrow> (double \<Rightarrow> double) \<Rightarrow> u32 list \<Rightarrow> double" where
  "discounted_gain exp2 log2 grades =
     foldl fadd fp_zero (map (\<lambda>(i, g). fdiv (fsub (exp2 (double_of (unat g))) fp_one) (log2 (fadd (double_of i) (double_of 2))))
       (enumerate 0 grades))"

lemma discounted_gain_nth:
  "discounted_gain exp2 log2 grades = foldl fadd fp_zero (map (\<lambda>i. gain exp2 log2 (grades ! i) i) [0..<length grades])"
proof -
  have "enumerate 0 grades = map (\<lambda>i. (i, grades ! i)) [0..<length grades]"
    by (rule nth_equalityI) (simp_all add: nth_enumerate_eq)
  then show ?thesis by (simp add: discounted_gain_def gain_def comp_def)
qed

lemma discounted_gain_ranked:
  "foldl fadd fp_zero (map (\<lambda>i. gain exp2 log2 (grade_of judgments (ranked ! i)) i) [0..<min k (length ranked)]) =
    discounted_gain exp2 log2 (map (grade_of judgments) (take k ranked))"
  unfolding discounted_gain_nth by (rule arg_cong [of _ _ "foldl fadd fp_zero"]) (auto simp: min_def)

lemma ideal_dcg_best:
  assumes "mset best = mset (map snd judgments)" and "sorted_wrt (\<ge>) best"
  shows "ideal_dcg exp2 log2 judgments limit = discounted_gain exp2 log2 (take limit best)"
proof -
  have "sort (map snd judgments) = rev best"
    using assms by (intro properties_for_sort) (simp_all add: sorted_wrt_rev)
  then have "rev (sort (map snd judgments)) = best" by simp
  then have "ideal_dcg exp2 log2 judgments limit =
      foldl fadd fp_zero (map (\<lambda>i. gain exp2 log2 (best ! i) i) [0..<min limit (length best)])"
    unfolding ideal_dcg_def Let_def by (simp add: foldl_conv_fold fold_map comp_def)
  also have "\<dots> = discounted_gain exp2 log2 (take limit best)"
    unfolding discounted_gain_nth by (rule arg_cong [of _ _ "foldl fadd fp_zero"]) (auto simp: min.commute)
  finally show ?thesis .
qed

text \<open>
  C38: the single pass over a ranking computes the metrics as they are defined. For every ranking, whatever it repeats or leaves out,
  and all judgments: the reciprocal rank is that of the first relevant document, or zero
  without one; average precision is the sum, over the positions of relevant documents, of the precision of the ranking cut there,
  divided by the number of relevant documents; and the normalized gain is the discounted cumulative gain of the grades of the first \<open>k\<close> documents,
  divided by that of the best grades, as many of them, in decreasing order, or zero if the latter is. The gain of a grade \<open>g\<close> is
  \<open>2\<^sup>g - 1\<close> and its discount at position \<open>i\<close> is \<open>log\<^sub>2 (i + 2)\<close>.
  All of them are the values of double arithmetic, in the order of the ranking.
\<close>

theorem metrics_closed_form:
  assumes "length ranked < 2 ^ 63" and "mset best = mset (map snd judgments)" and "sorted_wrt (\<ge>) best"
  shows "rm_reciprocal_rank (metrics_evaluate exp2 log2 ranked judgments k) = first_rank judgments ranked \<and>
    rm_average_precision (metrics_evaluate exp2 log2 ranked judgments k) =
      (let relevant = length (filter (\<lambda>(did, grade). grade \<noteq> 0) judgments)
       in if relevant = 0 then fp_zero
          else fdiv (foldl fadd fp_zero (map (precision_at judgments ranked) (relevant_ranks judgments ranked))) (double_of relevant)) \<and>
    rm_ndcg (metrics_evaluate exp2 log2 ranked judgments k) =
      (let ideal = discounted_gain exp2 log2 (take (min k (length ranked)) best)
       in if fp_eq ideal fp_zero then fp_zero
          else fdiv (discounted_gain exp2 log2 (map (grade_of judgments) (take k ranked))) ideal)"
proof -
  have "metrics_after exp2 log2 judgments limit [] =
      \<lparr>mt_found = 0, mt_precision_sum = fp_zero, mt_reciprocal = fp_zero, mt_dcg = fp_zero\<rparr>" for limit
    by (simp add: metrics_after_def relevant_ranks_def first_rank_def)
  with metrics_loop_after [of "[]" ranked exp2 log2 judgments] assms(1) show ?thesis
    using discounted_gain_ranked [of exp2 log2 judgments ranked k] ideal_dcg_best [OF assms(2,3), of exp2 log2]
    by (simp add: metrics_evaluate_def metrics_after_def Let_def)
qed

definition ex_judgments :: judgments where
  "ex_judgments = [(''a'', 1), (''b'', 3)]"

text \<open>The grades 1 and 3 in the wrong order, with the identity for the two functions of the library.\<close>

theorem metrics_closed_form_witness:
  "rm_reciprocal_rank (metrics_evaluate (\<lambda>x. x) (\<lambda>x. x) [''c'', ''a'', ''b''] ex_judgments 3) = fdiv fp_one (double_of 2) \<and>
   rm_ndcg (metrics_evaluate (\<lambda>x. x) (\<lambda>x. x) [''a'', ''b''] ex_judgments 2) =
     (if fp_eq (discounted_gain (\<lambda>x. x) (\<lambda>x. x) [3, 1]) fp_zero then fp_zero
      else fdiv (discounted_gain (\<lambda>x. x) (\<lambda>x. x) [1, 3]) (discounted_gain (\<lambda>x. x) (\<lambda>x. x) [3, 1]))"
proof -
  have m: "mset [3, 1] = mset (map snd ex_judgments)" "sorted_wrt (\<ge>) [3, 1 :: u32]" by (simp_all add: ex_judgments_def)
  have r: "relevant_ranks ex_judgments [''c'', ''a'', ''b''] = [1, 2]" by (simp add: relevant_ranks_def grade_of_def ex_judgments_def)
  have "rm_reciprocal_rank (metrics_evaluate (\<lambda>x. x) (\<lambda>x. x) [''c'', ''a'', ''b''] ex_judgments 3) = fdiv fp_one (double_of 2)"
    using metrics_closed_form [OF _ m, of "[''c'', ''a'', ''b'']" "\<lambda>x. x" "\<lambda>x. x" 3] r by (simp add: first_rank_def)
  moreover have "map (grade_of ex_judgments) (take 2 [''a'', ''b'']) = [1, 3]" by (simp add: grade_of_def ex_judgments_def)
  ultimately show ?thesis
    using metrics_closed_form [OF _ m, of "[''a'', ''b'']" "\<lambda>x. x" "\<lambda>x. x" 2] unfolding Let_def by simp
qed

end
