(* ===== verification/Spec2Isabelle.thy ===== *)
theory Spec2Isabelle
  imports Search_Properties Document_File Posting_Codec Query_Cache Replica_Snapshot Telemetry
    Cluster_Properties Writer_Properties Shard_Rpc Cli_Properties Retrieval_Metrics
begin

text \<open>
  A verification development of the distributed search engine under \<^verbatim>\<open>src/\<close>.

  \<^bold>\<open>The program.\<close> Documents are analysed field by field into tokens and kept in an in-memory inverted index
  with versions and tombstones. Queries are lexed, parsed, planned and executed over any implementation of
  \<^verbatim>\<open>SearchIndexView\<close>, with BM25 scores and a bounded collector for the best hits. Indexes are
  written as immutable segments; a manifest names the segments of a generation, which resolve to the newest version of each
  document; a write-ahead log covers what is not yet in a segment. Replicas apply one
  ordered log of mutations; a cluster routes documents to shards and merges their hits. A cache of query results and a
  registry of metrics stand beside these.

  \<^bold>\<open>Conventions.\<close> Structures are records, enumerations are datatypes, errors are the left values of a sum.
  \<^verbatim>\<open>uint32_t\<close> and \<^verbatim>\<open>uint64_t\<close> values that the code stores or computes with are words of that width, with
  wrap-around; \<^verbatim>\<open>std::size_t\<close> counters of in-memory objects are natural numbers. \<^verbatim>\<open>double\<close> is a 64-bit
  word with the IEEE operations computed on its bits (theory \<open>Doubles\<close>). \<^verbatim>\<open>std::map\<close> is an association list in the
  order of its keys (\<open>om_ok\<close> in \<open>Prelude\<close>), strings are lists of bytes. What the program cannot
  decide is a parameter: \<^verbatim>\<open>std::log1p\<close>, the answers of the operating system to each call (records such as
  \<open>append_io\<close>, \<open>write_io\<close>, \<open>replace_io\<close>), \<^verbatim>\<open>sizeof\<close>, and client classes derived from
  \<^verbatim>\<open>Analyzer\<close>. A file system is a map from names to contents. Undefined behaviour is a result of its own:
  \<open>Null_dereference\<close> and \<open>Crashed\<close> for null pointers, \<open>Out_of_bounds\<close> for accesses past the lexemes. Methods that hold a
  mutex from beginning to end are atomic steps. Loops are structural recursions or functions with a
  termination proof, without fuel; the loops of the threads of \<^verbatim>\<open>IndexWriter\<close> are steps of a state machine.

  \<^bold>\<open>Prelude and library.\<close> \<open>Prelude\<close> (ordered maps, sorted lists, results), \<open>CLib\<close> (character classes,
  \<^verbatim>\<open>from_chars\<close>, \<^verbatim>\<open>to_string\<close>), \<open>Doubles\<close> and \<open>Float_Text\<close> (IEEE arithmetic, reading and printing), \<open>Bytes\<close>
  and \<open>Decoder\<close> (little-endian encodings, CRC, cursors).

  \<^bold>\<open>Indexing.\<close> \<open>Analysis\<close> models \<^verbatim>\<open>analysis/analyzer\<close>, \<open>Schema\<close> \<^verbatim>\<open>index/schema\<close>, \<open>Document\<close>
  \<^verbatim>\<open>common/types\<close> and \<^verbatim>\<open>index/document\<close>, \<open>Document_File\<close> the TSV loader, \<open>Index\<close>
  \<^verbatim>\<open>index/in_memory_index\<close>. \<open>Index_Proofs\<close> and \<open>Index_Properties\<close> show that every reachable index is exactly
  the inverted index of its visible documents with exact statistics, that its self check accepts it, and
  that \<^verbatim>\<open>put\<close> refines a store of newest versions; \<open>Index_Rebuild\<close> that an index can be rebuilt from its documents.

  \<^bold>\<open>Queries.\<close> \<open>Lexer\<close>, \<open>Parser\<close>, \<open>Planner\<close>, \<open>Ranking\<close> (\<^verbatim>\<open>bm25\<close>, \<^verbatim>\<open>top_k\<close>) and \<open>Executor\<close> model
  \<^verbatim>\<open>query/\<close> and \<^verbatim>\<open>ranking/\<close>, \<open>Search_Defaults\<close> the default options. The parser is equivalent to a grammar, plans
  keep the meaning of queries (\<open>Planner_Proofs\<close>), and the executor is proved once for
  every provider of a view: the locale \<open>view_provider\<close> of \<open>View\<close> states what a view promises, \<open>scoring_view\<close> of \<open>Scoring\<close>
  adds what scores need. Both are interpreted on the in-memory index and on the view of a shard. \<open>Search_Properties\<close>
  has the end results: a search returns exactly the matching documents, ranked. \<open>Query_Cache\<close> models
  \<^verbatim>\<open>query/cache\<close> with iterators as addresses and shows that it is a map that may forget, within its budget.

  \<^bold>\<open>Storage.\<close> \<open>Posting_Codec\<close>, \<open>Write_Ahead_Log\<close>, \<open>Segment\<close>, \<open>Segment_Reader\<close>, \<open>Segment_File\<close>, \<open>Manifest\<close> and
  \<open>Generation\<close> model \<^verbatim>\<open>storage/\<close>. Shown: codec and segment round trips, consistency of every segment that opens, atomic
  publication of segments and manifests under every answer of the operating system, recovery of the
  log after a crash, and that generations and merges keep the newest versions. \<open>Index_Writer\<close> models
  \<^verbatim>\<open>storage/index_writer\<close>: the calls of clients and the two worker threads are steps between the points where they hold or release
  the mutex, a thread that waits on a condition variable is a continuation, and the steps interleave; \<open>Writer_Properties\<close> bounds the
  steps of \<^verbatim>\<open>merge_all\<close> in every interleaving, and shows a schedule in which \<^verbatim>\<open>refresh\<close> empties the log of an acknowledged
  mutation. The other
  \<open>Segment_*\<close> theories are the lemmas of the round trip, by section of the file.

  \<^bold>\<open>Distribution.\<close> \<open>Replication\<close> models \<^verbatim>\<open>distributed/replication\<close>: replicas follow a prefix of the log, submission is exactly
  once, recovered nodes catch up, and the log survives crashes; \<open>Replica_Snapshot\<close> adds snapshots. \<open>Cluster\<close> models
  \<^verbatim>\<open>distributed/local_cluster\<close>: \<open>Cluster_Properties\<close> shows that the shards partition the documents and that a
  sharded search is bit for bit the search of the whole collection. Its proof compares the plans
  of two views (\<open>Plan_Similarity\<close>): they may differ in estimates and so in the order of operands. \<open>Shard_Rpc\<close>
  models \<^verbatim>\<open>distributed/shard_rpc\<close>: messages round trip, and a search over the protocol gives the client what the shard
  answers.

  \<^bold>\<open>Telemetry.\<close> \<open>Telemetry\<close> models the metrics registry: exact counters with saturation, histograms.

  \<^bold>\<open>Programs.\<close> \<open>Index_Cli\<close> models \<^verbatim>\<open>apps/index_cli\<close> as a function from arguments, files and
  input to output and exit status; \<open>Cli_Properties\<close> shows how a run ends and that a segment and the documents it was built
  from print the same. \<open>Retrieval_Metrics\<close> models \<^verbatim>\<open>evaluation/retrieval_metrics\<close> and relates it to
  closed forms.

  \<^bold>\<open>Not modelled.\<close> The TCP transport and the shard server and client programs around it (sockets, timeouts and threads of
  the operating system), benchmarks and fuzz targets (clocks and console output around the library),
  the configuration constants of the build, exhaustion of memory, and the hash function of the
  cache, which has no effect on results.
\<close>

end
